(* ===== verification/Prelude.thy ===== *)
theory Prelude
  imports Main "HOL-Library.Word" "HOL-Library.Monad_Syntax"
begin

text \<open>
  What the components share: byte memory with bounds-checked accesses (an access outside the
  object is \<open>None\<close>, since C leaves it undefined), the C \<open>for\<close> loop, C integer
  division, and the collections of simplification rules.
\<close>

named_theorems mem_simps \<open>evaluation of bounds-checked memory accesses\<close>
named_theorems layout_defs \<open>numeric constants of the source\<close>

type_synonym byte = "8 word"
type_synonym bytes = "byte list"

section \<open>Byte memory seen as an array of w-byte elements\<close>

definition rd :: "nat \<Rightarrow> bytes \<Rightarrow> nat \<Rightarrow> bytes option" where
  "rd w m k = (if (k + 1) * w \<le> length m then Some (take w (drop (k * w) m)) else None)"

definition put :: "bytes \<Rightarrow> nat \<Rightarrow> bytes \<Rightarrow> bytes" where
  "put m k v = take (k * length v) m @ v @ drop ((k + 1) * length v) m"

definition wr :: "bytes \<Rightarrow> nat \<Rightarrow> bytes \<Rightarrow> bytes option" where
  "wr m k v = (if (k + 1) * length v \<le> length m then Some (put m k v) else None)"

definition els :: "nat \<Rightarrow> bytes \<Rightarrow> bytes list" where
  "els w m = map (\<lambda>k. take w (drop (k * w) m)) [0..<length m div w]"

lemma length_els [simp]: "length (els w m) = length m div w"
  by (simp add: els_def)

lemma index_lt_div: "0 < w \<Longrightarrow> k < n div w \<longleftrightarrow> (k + 1) * w \<le> (n::nat)"
  by (simp add: less_eq_div_iff_mult_less_eq flip: Suc_le_eq)

lemma nth_els: "k < length m div w \<Longrightarrow> els w m ! k = take w (drop (k * w) m)"
  by (simp add: els_def)

lemma rd_els [mem_simps]:
  "0 < w \<Longrightarrow> rd w m k = (if k < length m div w then Some (els w m ! k) else None)"
  using index_lt_div [of w k "length m"] by (auto simp: rd_def els_def)

lemma length_els_nth [mem_simps]:
  "0 < w \<Longrightarrow> k < length m div w \<Longrightarrow> length (els w m ! k) = w"
  using index_lt_div [of w k "length m"] by (simp add: els_def)

lemma block_disjoint: "k \<noteq> j \<Longrightarrow> (k + 1) * w \<le> j * w \<or> (j + 1) * w \<le> (k * w :: nat)"
proof -
  assume "k \<noteq> j"
  then have "k + 1 \<le> j \<or> j + 1 \<le> k" by arith
  then show ?thesis by (metis mult_le_mono1)
qed

lemma take_drop_wr:
  assumes "(k + 1) * w \<le> length m" "length v = w" "(j + 1) * w \<le> length m"
  shows "take w (drop (j * w) (take (k * w) m @ v @ drop ((k + 1) * w) m))
    = (if j = k then v else take w (drop (j * w) m))"
proof (cases "j = k")
  case True
  have "k * w \<le> length m" using assms(1) by simp
  with True assms show ?thesis by (simp add: min_def)
next
  case False
  from block_disjoint [OF False, of w] show ?thesis
  proof
    assume le: "(j + 1) * w \<le> k * w"
    then have "w \<le> k * w - j * w" by simp
    moreover have "k * w \<le> length m" using assms(1) by simp
    ultimately show ?thesis using False by (simp add: drop_take min_absorb1 min_absorb2)
  next
    assume "(k + 1) * w \<le> j * w"
    then obtain d where d: "j * w = (k + 1) * w + d" using le_Suc_ex by blast
    have kw: "k * w \<le> length m" using assms(1) by simp
    have "drop (j * w) (take (k * w) m @ v @ drop ((k + 1) * w) m)
        = drop (j * w - k * w - w) (drop ((k + 1) * w) m)"
      using kw assms(2) d by (simp add: min_def)
    also have "\<dots> = drop (j * w) m" using d by (simp add: add.commute)
    finally show ?thesis using False by simp
  qed
qed

lemma length_put [simp]: "(k + 1) * length v \<le> length m \<Longrightarrow> length (put m k v) = length m"
  by (simp add: put_def)

lemma length_put_els [mem_simps]:
  "0 < length v \<Longrightarrow> k < length m div length v \<Longrightarrow> length (put m k v) = length m"
  by (rule length_put) (simp only: index_lt_div)

lemma wr_els [mem_simps]:
  "0 < length v \<Longrightarrow> wr m k v = (if k < length m div length v then Some (put m k v) else None)"
  by (simp add: wr_def index_lt_div)

lemma els_put [mem_simps]:
  assumes "0 < w" "length v = w" "k < length m div w"
  shows "els w (put m k v) = (els w m)[k := v]"
proof (rule nth_equalityI)
  have k: "(k + 1) * w \<le> length m" using assms index_lt_div [of w k "length m"] by simp
  then have len: "length (put m k v) = length m" using assms(2) by simp
  then show "length (els w (put m k v)) = length ((els w m)[k := v])" by simp
  fix j assume "j < length (els w (put m k v))"
  then have j: "j < length m div w" using len by simp
  then have "(j + 1) * w \<le> length m" using index_lt_div assms(1) by simp
  then have "take w (drop (j * w) (put m k v)) = (if j = k then v else take w (drop (j * w) m))"
    using take_drop_wr [OF k assms(2)] assms(2) by (simp add: put_def)
  then show "els w (put m k v) ! j = (els w m)[k := v] ! j"
    using j len assms(3) by (simp add: nth_els nth_list_update)
qed

section \<open>The C for loop\<close>

text \<open>
  \<open>for_step n k body i s\<close> is \<open>for (; i < n; i += k) body\<close> on the state \<open>s\<close>. A body that is
  undefined makes the loop undefined; a stride of 0 never ends, which is undefined too.
\<close>

function for_step :: "nat \<Rightarrow> nat \<Rightarrow> (nat \<Rightarrow> 's \<Rightarrow> 's option) \<Rightarrow> nat \<Rightarrow> 's \<Rightarrow> 's option" where
  "for_step n k body i s =
     (if i < n then (if k = 0 then None else
        (case body i s of None \<Rightarrow> None | Some s' \<Rightarrow> for_step n k body (i + k) s'))
      else Some s)"
  by pat_completeness auto
termination
  by (relation "measure (\<lambda>(n, k, body, i, s). n - i)") auto

declare for_step.simps [simp del]

lemma for_step_done [simp]: "n \<le> i \<Longrightarrow> for_step n k body i s = Some s"
  by (simp add: for_step.simps)

lemma for_step_go:
  "i < n \<Longrightarrow> 0 < k \<Longrightarrow> for_step n k body i s = Option.bind (body i s) (for_step n k body (i + k))"
  by (subst for_step.simps) (auto split: option.splits)

lemma for_step_scale:
  assumes "0 < c"
  shows "for_step (n * c) (k * c) body (i * c) s = for_step n k (\<lambda>j. body (j * c)) i s"
proof (induction n k "\<lambda>j. body (j * c)" i s rule: for_step.induct)
  case (1 n k i s)
  show ?case
    using 1 assms
    by (subst (1 2) for_step.simps) (auto simp: add_mult_distrib split: option.splits)
qed

lemma for_step_cong:
  assumes "\<And>j s. body j s = body' j s"
  shows "for_step n k body i s = for_step n k body' i s"
proof -
  have "body = body'" using assms by (intro ext)
  then show ?thesis by simp
qed

end
