(* ===== verification/ReorderCh.thy ===== *)
theory ReorderCh
  imports Prelude
begin

text \<open>
  libaf/reorder_ch.c: reordering of interleaved audio channels between speaker layouts,
  either from one buffer to another (\<open>reorder_channel_copy\<close>) or within one buffer
  (\<open>reorder_channel\<close>). Buffers are byte lists. A typed view of a buffer as
  int8_t, int16_t, int32_t or int64_t array is an access with element width 1, 2, 4 or 8;
  the 24-bit case moves single bytes, as the code does. An access outside the buffer makes the
  whole operation \<open>None\<close>. The \<open>int\<close> the static helpers return is the first component
  of the result. Counts are natural numbers: the code's products stay below 2^31 for any buffer
  the player allocates.
\<close>

section \<open>Layout constants (reorder_ch.h)\<close>

type_synonym layout = "32 word"

unbundle bit_operations_syntax

definition AF_LFE :: layout where [layout_defs]: "AF_LFE = push_bit 7 1"

definition layout_code :: "layout \<Rightarrow> layout \<Rightarrow> layout" where
  [layout_defs]: "layout_code no ch = push_bit 8 no OR ch"

definition AF_CHANNEL_LAYOUT_5_0_A :: layout where [layout_defs]: "AF_CHANNEL_LAYOUT_5_0_A = layout_code 108 5"
definition AF_CHANNEL_LAYOUT_5_0_B :: layout where [layout_defs]: "AF_CHANNEL_LAYOUT_5_0_B = layout_code 109 5"
definition AF_CHANNEL_LAYOUT_5_0_C :: layout where [layout_defs]: "AF_CHANNEL_LAYOUT_5_0_C = layout_code 110 5"
definition AF_CHANNEL_LAYOUT_5_0_D :: layout where [layout_defs]: "AF_CHANNEL_LAYOUT_5_0_D = layout_code 111 5"
definition AF_CHANNEL_LAYOUT_5_1_A :: layout where [layout_defs]: "AF_CHANNEL_LAYOUT_5_1_A = layout_code 112 (6 OR AF_LFE)"
definition AF_CHANNEL_LAYOUT_5_1_B :: layout where [layout_defs]: "AF_CHANNEL_LAYOUT_5_1_B = layout_code 113 (6 OR AF_LFE)"
definition AF_CHANNEL_LAYOUT_5_1_C :: layout where [layout_defs]: "AF_CHANNEL_LAYOUT_5_1_C = layout_code 114 (6 OR AF_LFE)"
definition AF_CHANNEL_LAYOUT_5_1_D :: layout where [layout_defs]: "AF_CHANNEL_LAYOUT_5_1_D = layout_code 115 (6 OR AF_LFE)"
definition AF_CHANNEL_LAYOUT_5_1_E :: layout where [layout_defs]: "AF_CHANNEL_LAYOUT_5_1_E = layout_code 116 (6 OR AF_LFE)"
definition AF_CHANNEL_LAYOUT_5_1_F :: layout where [layout_defs]: "AF_CHANNEL_LAYOUT_5_1_F = layout_code 117 (6 OR AF_LFE)"
definition AF_CHANNEL_LAYOUT_7_1_A :: layout where [layout_defs]: "AF_CHANNEL_LAYOUT_7_1_A = layout_code 119 (8 OR AF_LFE)"
definition AF_CHANNEL_LAYOUT_7_1_B :: layout where [layout_defs]: "AF_CHANNEL_LAYOUT_7_1_B = layout_code 120 (8 OR AF_LFE)"
definition AF_CHANNEL_LAYOUT_7_1_C :: layout where [layout_defs]: "AF_CHANNEL_LAYOUT_7_1_C = layout_code 121 (8 OR AF_LFE)"
definition AF_CHANNEL_LAYOUT_7_1_D :: layout where [layout_defs]: "AF_CHANNEL_LAYOUT_7_1_D = layout_code 122 (8 OR AF_LFE)"
definition AF_CHANNEL_LAYOUT_7_1_F :: layout where [layout_defs]: "AF_CHANNEL_LAYOUT_7_1_F = layout_code 123 (8 OR AF_LFE)"

definition AF_IS_SAME_CH_NUM :: "layout \<Rightarrow> layout \<Rightarrow> bool" where
  [layout_defs]: "AF_IS_SAME_CH_NUM a b \<longleftrightarrow> a AND 0xFF = b AND 0xFF"

text \<open>The key of the two big \<open>switch\<close> statements: \<open>(src_layout<<16)|dest_layout\<close>.\<close>

definition layout_key :: "layout \<Rightarrow> layout \<Rightarrow> layout" where
  [layout_defs]: "layout_key src dst = push_bit 16 src OR dst"

section \<open>Moving samples\<close>

text \<open>\<open>DEST[i] = SRC[j]\<close> on arrays of w-byte elements.\<close>

definition mv_copy :: "nat \<Rightarrow> bytes \<Rightarrow> nat \<Rightarrow> nat \<Rightarrow> bytes \<Rightarrow> bytes option" where
  "mv_copy w src j i dest = do { v \<leftarrow> rd w src j; wr dest i v }"

definition mv :: "nat \<Rightarrow> nat \<Rightarrow> nat \<Rightarrow> bytes \<Rightarrow> bytes option" where
  "mv w j i m = do { v \<leftarrow> rd w m j; wr m i v }"

text \<open>The three byte moves of the 24-bit cases, in the order of the code.\<close>

definition mv3_copy :: "bytes \<Rightarrow> nat \<Rightarrow> nat \<Rightarrow> bytes \<Rightarrow> bytes option" where
  "mv3_copy src j i dest = do {
     dest \<leftarrow> mv_copy 1 src j i dest;
     dest \<leftarrow> mv_copy 1 src (j + 1) (i + 1) dest;
     mv_copy 1 src (j + 2) (i + 2) dest }"

definition mv3 :: "nat \<Rightarrow> nat \<Rightarrow> bytes \<Rightarrow> bytes option" where
  "mv3 j i m = do {
     m \<leftarrow> mv 1 j i m;
     m \<leftarrow> mv 1 (j + 1) (i + 1) m;
     mv 1 (j + 2) (i + 2) m }"

definition ld3 :: "bytes \<Rightarrow> nat \<Rightarrow> (bytes \<times> bytes \<times> bytes) option" where
  "ld3 m j = do { tmp0 \<leftarrow> rd 1 m j; tmp1 \<leftarrow> rd 1 m (j + 1); tmp2 \<leftarrow> rd 1 m (j + 2);
     Some (tmp0, tmp1, tmp2) }"

definition st3 :: "nat \<Rightarrow> bytes \<times> bytes \<times> bytes \<Rightarrow> bytes \<Rightarrow> bytes option" where
  "st3 i t m = (case t of (tmp0, tmp1, tmp2) \<Rightarrow> do {
     m \<leftarrow> wr m i tmp0; m \<leftarrow> wr m (i + 1) tmp1; wr m (i + 2) tmp2 })"

section \<open>Copying between two buffers\<close>

definition REORDER_COPY_5 :: "nat \<Rightarrow> bytes \<Rightarrow> bytes \<Rightarrow> nat \<Rightarrow> nat \<Rightarrow> nat \<Rightarrow> nat \<Rightarrow> nat \<Rightarrow> nat \<Rightarrow> bytes option" where
  "REORDER_COPY_5 w dest src samples s0 s1 s2 s3 s4 = for_step samples 5 (\<lambda>i dest. do {
     dest \<leftarrow> mv_copy w src (i + s0) i dest;
     dest \<leftarrow> mv_copy w src (i + s1) (i + 1) dest;
     dest \<leftarrow> mv_copy w src (i + s2) (i + 2) dest;
     dest \<leftarrow> mv_copy w src (i + s3) (i + 3) dest;
     mv_copy w src (i + s4) (i + 4) dest }) 0 dest"

definition reorder_copy_5ch :: "bytes \<Rightarrow> bytes \<Rightarrow> nat \<Rightarrow> nat \<Rightarrow> nat \<Rightarrow> nat \<Rightarrow> nat \<Rightarrow> nat \<Rightarrow> nat \<Rightarrow> (int \<times> bytes) option" where
  "reorder_copy_5ch dest src samples samplesize s0 s1 s2 s3 s4 =
     (if samplesize = 1 then map_option (Pair 1) (REORDER_COPY_5 1 dest src samples s0 s1 s2 s3 s4)
      else if samplesize = 2 then map_option (Pair 1) (REORDER_COPY_5 2 dest src samples s0 s1 s2 s3 s4)
      else if samplesize = 3 then map_option (Pair 1) (for_step (samples * 3) 15 (\<lambda>i dest. do {
       dest \<leftarrow> mv3_copy src (i + s0 * 3) i dest;
       dest \<leftarrow> mv3_copy src (i + s1 * 3) (i + 3) dest;
       dest \<leftarrow> mv3_copy src (i + s2 * 3) (i + 6) dest;
       dest \<leftarrow> mv3_copy src (i + s3 * 3) (i + 9) dest;
       mv3_copy src (i + s4 * 3) (i + 12) dest }) 0 dest)
      else if samplesize = 4 then map_option (Pair 1) (REORDER_COPY_5 4 dest src samples s0 s1 s2 s3 s4)
      else if samplesize = 8 then map_option (Pair 1) (REORDER_COPY_5 8 dest src samples s0 s1 s2 s3 s4)
      else Some (0, dest))"

definition REORDER_COPY_6 :: "nat \<Rightarrow> bytes \<Rightarrow> bytes \<Rightarrow> nat \<Rightarrow> nat \<Rightarrow> nat \<Rightarrow> nat \<Rightarrow> nat \<Rightarrow> nat \<Rightarrow> nat \<Rightarrow> bytes option" where
  "REORDER_COPY_6 w dest src samples s0 s1 s2 s3 s4 s5 = for_step samples 6 (\<lambda>i dest. do {
     dest \<leftarrow> mv_copy w src (i + s0) i dest;
     dest \<leftarrow> mv_copy w src (i + s1) (i + 1) dest;
     dest \<leftarrow> mv_copy w src (i + s2) (i + 2) dest;
     dest \<leftarrow> mv_copy w src (i + s3) (i + 3) dest;
     dest \<leftarrow> mv_copy w src (i + s4) (i + 4) dest;
     mv_copy w src (i + s5) (i + 5) dest }) 0 dest"

definition reorder_copy_6ch :: "bytes \<Rightarrow> bytes \<Rightarrow> nat \<Rightarrow> nat \<Rightarrow> nat \<Rightarrow> nat \<Rightarrow> nat \<Rightarrow> nat \<Rightarrow> nat \<Rightarrow> nat \<Rightarrow> (int \<times> bytes) option" where
  "reorder_copy_6ch dest src samples samplesize_arg s0 s1 s2 s3 s4 s5 =
     (let samplesize = samplesize_arg mod 256 in
     (if samplesize = 1 then map_option (Pair 1) (REORDER_COPY_6 1 dest src samples s0 s1 s2 s3 s4 s5)
      else if samplesize = 2 then map_option (Pair 1) (REORDER_COPY_6 2 dest src samples s0 s1 s2 s3 s4 s5)
      else if samplesize = 3 then map_option (Pair 1) (for_step (samples * 3) 18 (\<lambda>i dest. do {
       dest \<leftarrow> mv3_copy src (i + s0 * 3) i dest;
       dest \<leftarrow> mv3_copy src (i + s1 * 3) (i + 3) dest;
       dest \<leftarrow> mv3_copy src (i + s2 * 3) (i + 6) dest;
       dest \<leftarrow> mv3_copy src (i + s3 * 3) (i + 9) dest;
       dest \<leftarrow> mv3_copy src (i + s4 * 3) (i + 12) dest;
       mv3_copy src (i + s5 * 3) (i + 15) dest }) 0 dest)
      else if samplesize = 4 then map_option (Pair 1) (REORDER_COPY_6 4 dest src samples s0 s1 s2 s3 s4 s5)
      else if samplesize = 8 then map_option (Pair 1) (REORDER_COPY_6 8 dest src samples s0 s1 s2 s3 s4 s5)
      else Some (0, dest)))"

definition REORDER_COPY_8 :: "nat \<Rightarrow> bytes \<Rightarrow> bytes \<Rightarrow> nat \<Rightarrow> nat \<Rightarrow> nat \<Rightarrow> nat \<Rightarrow> nat \<Rightarrow> nat \<Rightarrow> nat \<Rightarrow> nat \<Rightarrow> nat \<Rightarrow> bytes option" where
  "REORDER_COPY_8 w dest src samples s0 s1 s2 s3 s4 s5 s6 s7 = for_step samples 8 (\<lambda>i dest. do {
     dest \<leftarrow> mv_copy w src (i + s0) i dest;
     dest \<leftarrow> mv_copy w src (i + s1) (i + 1) dest;
     dest \<leftarrow> mv_copy w src (i + s2) (i + 2) dest;
     dest \<leftarrow> mv_copy w src (i + s3) (i + 3) dest;
     dest \<leftarrow> mv_copy w src (i + s4) (i + 4) dest;
     dest \<leftarrow> mv_copy w src (i + s5) (i + 5) dest;
     dest \<leftarrow> mv_copy w src (i + s6) (i + 6) dest;
     mv_copy w src (i + s7) (i + 7) dest }) 0 dest"

definition reorder_copy_8ch :: "bytes \<Rightarrow> bytes \<Rightarrow> nat \<Rightarrow> nat \<Rightarrow> nat \<Rightarrow> nat \<Rightarrow> nat \<Rightarrow> nat \<Rightarrow> nat \<Rightarrow> nat \<Rightarrow> nat \<Rightarrow> nat \<Rightarrow> (int \<times> bytes) option" where
  "reorder_copy_8ch dest src samples samplesize_arg s0 s1 s2 s3 s4 s5 s6 s7 =
     (let samplesize = samplesize_arg mod 256 in
     (if samplesize = 1 then map_option (Pair 1) (REORDER_COPY_8 1 dest src samples s0 s1 s2 s3 s4 s5 s6 s7)
      else if samplesize = 2 then map_option (Pair 1) (REORDER_COPY_8 2 dest src samples s0 s1 s2 s3 s4 s5 s6 s7)
      else if samplesize = 3 then map_option (Pair 1) (for_step (samples * 3) 24 (\<lambda>i dest. do {
       dest \<leftarrow> mv3_copy src (i + s0 * 3) i dest;
       dest \<leftarrow> mv3_copy src (i + s1 * 3) (i + 3) dest;
       dest \<leftarrow> mv3_copy src (i + s2 * 3) (i + 6) dest;
       dest \<leftarrow> mv3_copy src (i + s3 * 3) (i + 9) dest;
       dest \<leftarrow> mv3_copy src (i + s4 * 3) (i + 12) dest;
       dest \<leftarrow> mv3_copy src (i + s5 * 3) (i + 15) dest;
       dest \<leftarrow> mv3_copy src (i + s6 * 3) (i + 18) dest;
       mv3_copy src (i + s7 * 3) (i + 21) dest }) 0 dest)
      else if samplesize = 4 then map_option (Pair 1) (REORDER_COPY_8 4 dest src samples s0 s1 s2 s3 s4 s5 s6 s7)
      else if samplesize = 8 then map_option (Pair 1) (REORDER_COPY_8 8 dest src samples s0 s1 s2 s3 s4 s5 s6 s7)
      else Some (0, dest)))"

text \<open>\<open>fast_memcpy\<close> of libvo, which the source only uses as the C library's \<open>memcpy\<close>.\<close>

definition fast_memcpy :: "bytes \<Rightarrow> bytes \<Rightarrow> nat \<Rightarrow> bytes option" where
  "fast_memcpy dest src n =
     (if n \<le> length dest \<and> n \<le> length src then Some (take n src @ drop n dest) else None)"

definition reorder_channel_copy ::
  "bytes \<Rightarrow> layout \<Rightarrow> bytes \<Rightarrow> layout \<Rightarrow> nat \<Rightarrow> nat \<Rightarrow> bytes option" where
  "reorder_channel_copy src src_layout dest dest_layout samples samplesize =
     (let key = layout_key src_layout dest_layout;
          call5 = (\<lambda>s0 s1 s2 s3 s4. map_option snd (reorder_copy_5ch dest src samples samplesize s0 s1 s2 s3 s4));
          call6 = (\<lambda>s0 s1 s2 s3 s4 s5. map_option snd (reorder_copy_6ch dest src samples samplesize s0 s1 s2 s3 s4 s5));
          call8 = (\<lambda>s0 s1 s2 s3 s4 s5 s6 s7.
            map_option snd (reorder_copy_8ch dest src samples samplesize s0 s1 s2 s3 s4 s5 s6 s7))
      in if dest_layout = src_layout then fast_memcpy dest src (samples * samplesize)
      else if \<not> AF_IS_SAME_CH_NUM dest_layout src_layout then Some dest
      else if key = layout_key AF_CHANNEL_LAYOUT_5_0_A AF_CHANNEL_LAYOUT_5_0_B then call5 0 1 3 4 2
      else if key = layout_key AF_CHANNEL_LAYOUT_5_0_A AF_CHANNEL_LAYOUT_5_0_C then call5 0 2 1 3 4
      else if key = layout_key AF_CHANNEL_LAYOUT_5_0_A AF_CHANNEL_LAYOUT_5_0_D then call5 2 0 1 3 4
      else if key = layout_key AF_CHANNEL_LAYOUT_5_0_B AF_CHANNEL_LAYOUT_5_0_A then call5 0 1 4 2 3
      else if key = layout_key AF_CHANNEL_LAYOUT_5_0_B AF_CHANNEL_LAYOUT_5_0_C then call5 0 4 1 2 3
      else if key = layout_key AF_CHANNEL_LAYOUT_5_0_B AF_CHANNEL_LAYOUT_5_0_D then call5 4 0 1 2 3
      else if key = layout_key AF_CHANNEL_LAYOUT_5_0_C AF_CHANNEL_LAYOUT_5_0_A then call5 0 2 1 3 4
      else if key = layout_key AF_CHANNEL_LAYOUT_5_0_C AF_CHANNEL_LAYOUT_5_0_B then call5 0 2 3 4 1
      else if key = layout_key AF_CHANNEL_LAYOUT_5_0_C AF_CHANNEL_LAYOUT_5_0_D then call5 1 0 2 3 4
      else if key = layout_key AF_CHANNEL_LAYOUT_5_0_D AF_CHANNEL_LAYOUT_5_0_A then call5 1 2 0 3 4
      else if key = layout_key AF_CHANNEL_LAYOUT_5_0_D AF_CHANNEL_LAYOUT_5_0_B then call5 1 2 3 4 0
      else if key = layout_key AF_CHANNEL_LAYOUT_5_0_D AF_CHANNEL_LAYOUT_5_0_C then call5 1 0 2 3 4
      else if key = layout_key AF_CHANNEL_LAYOUT_5_1_A AF_CHANNEL_LAYOUT_5_1_B then call6 0 1 4 5 2 3
      else if key = layout_key AF_CHANNEL_LAYOUT_5_1_A AF_CHANNEL_LAYOUT_5_1_C then call6 0 2 1 4 5 3
      else if key = layout_key AF_CHANNEL_LAYOUT_5_1_A AF_CHANNEL_LAYOUT_5_1_D then call6 2 0 1 4 5 3
      else if key = layout_key AF_CHANNEL_LAYOUT_5_1_B AF_CHANNEL_LAYOUT_5_1_A then call6 0 1 4 5 2 3
      else if key = layout_key AF_CHANNEL_LAYOUT_5_1_B AF_CHANNEL_LAYOUT_5_1_C then call6 0 4 1 2 3 5
      else if key = layout_key AF_CHANNEL_LAYOUT_5_1_B AF_CHANNEL_LAYOUT_5_1_D then call6 4 0 1 2 3 5
      else if key = layout_key AF_CHANNEL_LAYOUT_5_1_B AF_CHANNEL_LAYOUT_5_1_E then call6 5 0 4 1 2 3
      else if key = layout_key AF_CHANNEL_LAYOUT_5_1_C AF_CHANNEL_LAYOUT_5_1_A then call6 0 2 1 5 3 4
      else if key = layout_key AF_CHANNEL_LAYOUT_5_1_C AF_CHANNEL_LAYOUT_5_1_B then call6 0 2 3 4 1 5
      else if key = layout_key AF_CHANNEL_LAYOUT_5_1_C AF_CHANNEL_LAYOUT_5_1_D then call6 1 0 2 3 4 5
      else if key = layout_key AF_CHANNEL_LAYOUT_5_1_D AF_CHANNEL_LAYOUT_5_1_A then call6 1 2 0 5 3 4
      else if key = layout_key AF_CHANNEL_LAYOUT_5_1_D AF_CHANNEL_LAYOUT_5_1_B then call6 1 2 3 4 0 5
      else if key = layout_key AF_CHANNEL_LAYOUT_5_1_D AF_CHANNEL_LAYOUT_5_1_C then call6 1 0 2 3 4 5
      else if key = layout_key AF_CHANNEL_LAYOUT_5_1_E AF_CHANNEL_LAYOUT_5_1_B then call6 1 3 4 5 2 0
      else if key = layout_key AF_CHANNEL_LAYOUT_5_1_F AF_CHANNEL_LAYOUT_5_1_B then call6 1 2 4 5 0 3
      else if key = layout_key AF_CHANNEL_LAYOUT_7_1_A AF_CHANNEL_LAYOUT_7_1_B \<or> key = layout_key AF_CHANNEL_LAYOUT_7_1_B AF_CHANNEL_LAYOUT_7_1_A then call8 0 1 4 5 2 3 6 7
      else if key = layout_key AF_CHANNEL_LAYOUT_7_1_D AF_CHANNEL_LAYOUT_7_1_B then call8 1 2 3 4 0 7 5 6
      else fast_memcpy dest src (samples * samplesize))"

section \<open>Reordering within one buffer\<close>

text \<open>
  The loop bodies of the \<open>REORDER_SELF_SWAP\<close> macros and the bodies of the 24-bit loops. The
  element index \<open>s0\<close> to \<open>s5\<close> is relative to the frame that starts at \<open>i\<close>.
\<close>

definition REORDER_SELF_SWAP_2 ::
  "nat \<Rightarrow> bytes \<Rightarrow> nat \<Rightarrow> nat \<Rightarrow> nat \<Rightarrow> nat \<Rightarrow> bytes option" where
  "REORDER_SELF_SWAP_2 w src samples chnum s0 s1 = for_step samples chnum (\<lambda>i m. do {
     tmp \<leftarrow> rd w m (i + s0);
     m \<leftarrow> mv w (i + s1) (i + s0) m;
     wr m (i + s1) tmp }) 0 src"

definition reorder_self_2 ::
  "bytes \<Rightarrow> nat \<Rightarrow> nat \<Rightarrow> nat \<Rightarrow> nat \<Rightarrow> nat \<Rightarrow> (int \<times> bytes) option" where
  "reorder_self_2 src samples samplesize chnum s0 s1 =
     (if samplesize = 1 then map_option (Pair 1)
       (if chnum = 6 then REORDER_SELF_SWAP_2 1 src samples 6 s0 s1 else if chnum = 8 then REORDER_SELF_SWAP_2 1 src samples 8 s0 s1 else REORDER_SELF_SWAP_2 1 src samples 5 s0 s1)
      else if samplesize = 2 then map_option (Pair 1)
       (if chnum = 6 then REORDER_SELF_SWAP_2 2 src samples 6 s0 s1 else if chnum = 3 then REORDER_SELF_SWAP_2 2 src samples 3 s0 s1 else if chnum = 4 then REORDER_SELF_SWAP_2 2 src samples 3 s0 s1 else REORDER_SELF_SWAP_2 2 src samples 5 s0 s1)
      else if samplesize = 3 then map_option (Pair 1)
       (for_step (samples * 3) (chnum * 3) (\<lambda>i m. do {
       tmp \<leftarrow> ld3 m (i + s0 * 3);
       m \<leftarrow> mv3 (i + s1 * 3) (i + s0 * 3) m;
       st3 (i + s1 * 3) tmp m }) 0 src)
      else if samplesize = 4 then map_option (Pair 1)
       (if chnum = 6 then REORDER_SELF_SWAP_2 4 src samples 6 s0 s1 else if chnum = 3 then REORDER_SELF_SWAP_2 4 src samples 3 s0 s1 else if chnum = 4 then REORDER_SELF_SWAP_2 4 src samples 4 s0 s1 else REORDER_SELF_SWAP_2 4 src samples 5 s0 s1)
      else if samplesize = 8 then map_option (Pair 1)
       (if chnum = 6 then REORDER_SELF_SWAP_2 8 src samples 6 s0 s1 else if chnum = 3 then REORDER_SELF_SWAP_2 8 src samples 3 s0 s1 else if chnum = 4 then REORDER_SELF_SWAP_2 8 src samples 4 s0 s1 else REORDER_SELF_SWAP_2 8 src samples 5 s0 s1)
      else Some (0, src))"

definition REORDER_SELF_SWAP_3 ::
  "nat \<Rightarrow> bytes \<Rightarrow> nat \<Rightarrow> nat \<Rightarrow> nat \<Rightarrow> nat \<Rightarrow> nat \<Rightarrow> bytes option" where
  "REORDER_SELF_SWAP_3 w src samples chnum s0 s1 s2 = for_step samples chnum (\<lambda>i m. do {
     tmp \<leftarrow> rd w m (i + s0);
     m \<leftarrow> mv w (i + s1) (i + s0) m;
     m \<leftarrow> mv w (i + s2) (i + s1) m;
     wr m (i + s2) tmp }) 0 src"

definition reorder_self_3 ::
  "bytes \<Rightarrow> nat \<Rightarrow> nat \<Rightarrow> nat \<Rightarrow> nat \<Rightarrow> nat \<Rightarrow> nat \<Rightarrow> (int \<times> bytes) option" where
  "reorder_self_3 src samples samplesize chnum s0 s1 s2 =
     (if samplesize = 1 then map_option (Pair 1)
       (if chnum = 6 then REORDER_SELF_SWAP_3 1 src samples 6 s0 s1 s2 else REORDER_SELF_SWAP_3 1 src samples 5 s0 s1 s2)
      else if samplesize = 2 then map_option (Pair 1)
       (if chnum = 6 then REORDER_SELF_SWAP_3 2 src samples 6 s0 s1 s2 else REORDER_SELF_SWAP_3 2 src samples 5 s0 s1 s2)
      else if samplesize = 3 then map_option (Pair 1)
       (for_step (samples * 3) (chnum * 3) (\<lambda>i m. do {
       tmp \<leftarrow> ld3 m (i + s0 * 3);
       m \<leftarrow> mv3 (i + s1 * 3) (i + s0 * 3) m;
       m \<leftarrow> mv3 (i + s2 * 3) (i + s1 * 3) m;
       st3 (i + s2 * 3) tmp m }) 0 src)
      else if samplesize = 4 then map_option (Pair 1)
       (if chnum = 6 then REORDER_SELF_SWAP_3 4 src samples 6 s0 s1 s2 else REORDER_SELF_SWAP_3 4 src samples 5 s0 s1 s2)
      else if samplesize = 8 then map_option (Pair 1)
       (if chnum = 6 then REORDER_SELF_SWAP_3 8 src samples 6 s0 s1 s2 else REORDER_SELF_SWAP_3 8 src samples 5 s0 s1 s2)
      else Some (0, src))"

definition REORDER_SELF_SWAP_4_STEP_1 ::
  "nat \<Rightarrow> bytes \<Rightarrow> nat \<Rightarrow> nat \<Rightarrow> nat \<Rightarrow> nat \<Rightarrow> nat \<Rightarrow> nat \<Rightarrow> bytes option" where
  "REORDER_SELF_SWAP_4_STEP_1 w src samples chnum s0 s1 s2 s3 = for_step samples chnum (\<lambda>i m. do {
     tmp \<leftarrow> rd w m (i + s0);
     m \<leftarrow> mv w (i + s1) (i + s0) m;
     m \<leftarrow> mv w (i + s2) (i + s1) m;
     m \<leftarrow> mv w (i + s3) (i + s2) m;
     wr m (i + s3) tmp }) 0 src"

definition reorder_self_4_step_1 ::
  "bytes \<Rightarrow> nat \<Rightarrow> nat \<Rightarrow> nat \<Rightarrow> nat \<Rightarrow> nat \<Rightarrow> nat \<Rightarrow> nat \<Rightarrow> (int \<times> bytes) option" where
  "reorder_self_4_step_1 src samples samplesize chnum s0 s1 s2 s3 =
     (if samplesize = 1 then map_option (Pair 1)
       (if chnum = 6 then REORDER_SELF_SWAP_4_STEP_1 1 src samples 6 s0 s1 s2 s3 else if chnum = 8 then REORDER_SELF_SWAP_4_STEP_1 1 src samples 8 s0 s1 s2 s3 else REORDER_SELF_SWAP_4_STEP_1 1 src samples 5 s0 s1 s2 s3)
      else if samplesize = 2 then map_option (Pair 1)
       (if chnum = 6 then REORDER_SELF_SWAP_4_STEP_1 2 src samples 6 s0 s1 s2 s3 else if chnum = 8 then REORDER_SELF_SWAP_4_STEP_1 2 src samples 8 s0 s1 s2 s3 else REORDER_SELF_SWAP_4_STEP_1 2 src samples 5 s0 s1 s2 s3)
      else if samplesize = 3 then map_option (Pair 1)
       (for_step (samples * 3) (chnum * 3) (\<lambda>i m. do {
       tmp \<leftarrow> ld3 m (i + s0 * 3);
       m \<leftarrow> mv3 (i + s1 * 3) (i + s0 * 3) m;
       m \<leftarrow> mv3 (i + s2 * 3) (i + s1 * 3) m;
       m \<leftarrow> mv3 (i + s3 * 3) (i + s2 * 3) m;
       st3 (i + s3 * 3) tmp m }) 0 src)
      else if samplesize = 4 then map_option (Pair 1)
       (if chnum = 6 then REORDER_SELF_SWAP_4_STEP_1 4 src samples 6 s0 s1 s2 s3 else if chnum = 8 then REORDER_SELF_SWAP_4_STEP_1 4 src samples 8 s0 s1 s2 s3 else REORDER_SELF_SWAP_4_STEP_1 4 src samples 5 s0 s1 s2 s3)
      else if samplesize = 8 then map_option (Pair 1)
       (if chnum = 6 then REORDER_SELF_SWAP_4_STEP_1 8 src samples 6 s0 s1 s2 s3 else if chnum = 8 then REORDER_SELF_SWAP_4_STEP_1 8 src samples 8 s0 s1 s2 s3 else REORDER_SELF_SWAP_4_STEP_1 8 src samples 5 s0 s1 s2 s3)
      else Some (0, src))"

definition REORDER_SELF_SWAP_4_STEP_2 ::
  "nat \<Rightarrow> bytes \<Rightarrow> nat \<Rightarrow> nat \<Rightarrow> nat \<Rightarrow> nat \<Rightarrow> nat \<Rightarrow> nat \<Rightarrow> bytes option" where
  "REORDER_SELF_SWAP_4_STEP_2 w src samples chnum s0 s1 s2 s3 = for_step samples chnum (\<lambda>i m. do {
     tmp \<leftarrow> rd w m (i + s0);
     m \<leftarrow> mv w (i + s2) (i + s0) m;
     m \<leftarrow> wr m (i + s2) tmp;
     tmp \<leftarrow> rd w m (i + s1);
     m \<leftarrow> mv w (i + s3) (i + s1) m;
     wr m (i + s3) tmp }) 0 src"

definition reorder_self_4_step_2 ::
  "bytes \<Rightarrow> nat \<Rightarrow> nat \<Rightarrow> nat \<Rightarrow> nat \<Rightarrow> nat \<Rightarrow> nat \<Rightarrow> nat \<Rightarrow> (int \<times> bytes) option" where
  "reorder_self_4_step_2 src samples samplesize chnum s0 s1 s2 s3 =
     (if samplesize = 3 then map_option (Pair 1)
       (for_step (samples * 3) (chnum * 3) (\<lambda>i m. do {
       tmp \<leftarrow> ld3 m (i + s0 * 3);
       m \<leftarrow> mv3 (i + s2 * 3) (i + s0 * 3) m;
       m \<leftarrow> st3 (i + s2 * 3) tmp m;
       tmp \<leftarrow> ld3 m (i + s1 * 3);
       m \<leftarrow> mv3 (i + s3 * 3) (i + s1 * 3) m;
       st3 (i + s3 * 3) tmp m }) 0 src)
      else Some (0, src))"

definition REORDER_SELF_SWAP_5_STEP_1 ::
  "nat \<Rightarrow> bytes \<Rightarrow> nat \<Rightarrow> nat \<Rightarrow> nat \<Rightarrow> nat \<Rightarrow> nat \<Rightarrow> nat \<Rightarrow> nat \<Rightarrow> bytes option" where
  "REORDER_SELF_SWAP_5_STEP_1 w src samples chnum s0 s1 s2 s3 s4 = for_step samples chnum (\<lambda>i m. do {
     tmp \<leftarrow> rd w m (i + s0);
     m \<leftarrow> mv w (i + s1) (i + s0) m;
     m \<leftarrow> mv w (i + s2) (i + s1) m;
     m \<leftarrow> mv w (i + s3) (i + s2) m;
     m \<leftarrow> mv w (i + s4) (i + s3) m;
     wr m (i + s4) tmp }) 0 src"

definition reorder_self_5_step_1 ::
  "bytes \<Rightarrow> nat \<Rightarrow> nat \<Rightarrow> nat \<Rightarrow> nat \<Rightarrow> nat \<Rightarrow> nat \<Rightarrow> nat \<Rightarrow> nat \<Rightarrow> (int \<times> bytes) option" where
  "reorder_self_5_step_1 src samples samplesize chnum s0 s1 s2 s3 s4 =
     (if samplesize = 1 then map_option (Pair 1)
       (if chnum = 6 then REORDER_SELF_SWAP_5_STEP_1 1 src samples 6 s0 s1 s2 s3 s4 else if chnum = 8 then REORDER_SELF_SWAP_5_STEP_1 1 src samples 8 s0 s1 s2 s3 s4 else REORDER_SELF_SWAP_5_STEP_1 1 src samples 5 s0 s1 s2 s3 s4)
      else if samplesize = 2 then map_option (Pair 1)
       (if chnum = 6 then REORDER_SELF_SWAP_5_STEP_1 2 src samples 6 s0 s1 s2 s3 s4 else if chnum = 8 then REORDER_SELF_SWAP_5_STEP_1 2 src samples 8 s0 s1 s2 s3 s4 else REORDER_SELF_SWAP_5_STEP_1 2 src samples 5 s0 s1 s2 s3 s4)
      else if samplesize = 3 then map_option (Pair 1)
       (for_step (samples * 3) (chnum * 3) (\<lambda>i m. do {
       tmp \<leftarrow> ld3 m (i + s0 * 3);
       m \<leftarrow> mv3 (i + s1 * 3) (i + s0 * 3) m;
       m \<leftarrow> mv3 (i + s2 * 3) (i + s1 * 3) m;
       m \<leftarrow> mv3 (i + s3 * 3) (i + s2 * 3) m;
       m \<leftarrow> mv3 (i + s4 * 3) (i + s3 * 3) m;
       st3 (i + s4 * 3) tmp m }) 0 src)
      else if samplesize = 4 then map_option (Pair 1)
       (if chnum = 6 then REORDER_SELF_SWAP_5_STEP_1 4 src samples 6 s0 s1 s2 s3 s4 else if chnum = 8 then REORDER_SELF_SWAP_5_STEP_1 4 src samples 8 s0 s1 s2 s3 s4 else REORDER_SELF_SWAP_5_STEP_1 4 src samples 5 s0 s1 s2 s3 s4)
      else if samplesize = 8 then map_option (Pair 1)
       (if chnum = 6 then REORDER_SELF_SWAP_5_STEP_1 8 src samples 6 s0 s1 s2 s3 s4 else if chnum = 8 then REORDER_SELF_SWAP_5_STEP_1 8 src samples 8 s0 s1 s2 s3 s4 else REORDER_SELF_SWAP_5_STEP_1 8 src samples 5 s0 s1 s2 s3 s4)
      else Some (0, src))"

definition REORDER_SELF_SWAP_2_3 ::
  "nat \<Rightarrow> bytes \<Rightarrow> nat \<Rightarrow> nat \<Rightarrow> nat \<Rightarrow> nat \<Rightarrow> nat \<Rightarrow> nat \<Rightarrow> nat \<Rightarrow> bytes option" where
  "REORDER_SELF_SWAP_2_3 w src samples chnum s0 s1 s2 s3 s4 = for_step samples chnum (\<lambda>i m. do {
     tmp \<leftarrow> rd w m (i + s0);
     m \<leftarrow> mv w (i + s1) (i + s0) m;
     m \<leftarrow> wr m (i + s1) tmp;
     tmp \<leftarrow> rd w m (i + s2);
     m \<leftarrow> mv w (i + s3) (i + s2) m;
     m \<leftarrow> mv w (i + s4) (i + s3) m;
     wr m (i + s4) tmp }) 0 src"

definition reorder_self_2_3 ::
  "bytes \<Rightarrow> nat \<Rightarrow> nat \<Rightarrow> nat \<Rightarrow> nat \<Rightarrow> nat \<Rightarrow> nat \<Rightarrow> nat \<Rightarrow> (int \<times> bytes) option" where
  "reorder_self_2_3 src samples samplesize s0 s1 s2 s3 s4 =
     (if samplesize = 1 then map_option (Pair 1)
       (REORDER_SELF_SWAP_2_3 1 src samples 6 s0 s1 s2 s3 s4)
      else if samplesize = 2 then map_option (Pair 1)
       (REORDER_SELF_SWAP_2_3 2 src samples 6 s0 s1 s2 s3 s4)
      else if samplesize = 3 then map_option (Pair 1)
       (for_step (samples * 3) 18 (\<lambda>i m. do {
       tmp \<leftarrow> ld3 m (i + s0 * 3);
       m \<leftarrow> mv3 (i + s1 * 3) (i + s0 * 3) m;
       m \<leftarrow> st3 (i + s1 * 3) tmp m;
       tmp \<leftarrow> ld3 m (i + s2 * 3);
       m \<leftarrow> mv3 (i + s3 * 3) (i + s2 * 3) m;
       m \<leftarrow> mv3 (i + s4 * 3) (i + s3 * 3) m;
       st3 (i + s4 * 3) tmp m }) 0 src)
      else if samplesize = 4 then map_option (Pair 1)
       (REORDER_SELF_SWAP_2_3 4 src samples 6 s0 s1 s2 s3 s4)
      else if samplesize = 8 then map_option (Pair 1)
       (REORDER_SELF_SWAP_2_3 8 src samples 6 s0 s1 s2 s3 s4)
      else Some (0, src))"

definition REORDER_SELF_SWAP_3_3 ::
  "nat \<Rightarrow> bytes \<Rightarrow> nat \<Rightarrow> nat \<Rightarrow> nat \<Rightarrow> nat \<Rightarrow> nat \<Rightarrow> nat \<Rightarrow> nat \<Rightarrow> nat \<Rightarrow> bytes option" where
  "REORDER_SELF_SWAP_3_3 w src samples chnum s0 s1 s2 s3 s4 s5 = for_step samples chnum (\<lambda>i m. do {
     tmp \<leftarrow> rd w m (i + s0);
     m \<leftarrow> mv w (i + s1) (i + s0) m;
     m \<leftarrow> mv w (i + s2) (i + s1) m;
     m \<leftarrow> wr m (i + s2) tmp;
     tmp \<leftarrow> rd w m (i + s3);
     m \<leftarrow> mv w (i + s4) (i + s3) m;
     m \<leftarrow> mv w (i + s5) (i + s4) m;
     wr m (i + s5) tmp }) 0 src"

definition reorder_self_3_3 ::
  "bytes \<Rightarrow> nat \<Rightarrow> nat \<Rightarrow> nat \<Rightarrow> nat \<Rightarrow> nat \<Rightarrow> nat \<Rightarrow> nat \<Rightarrow> nat \<Rightarrow> (int \<times> bytes) option" where
  "reorder_self_3_3 src samples samplesize s0 s1 s2 s3 s4 s5 =
     (if samplesize = 1 then map_option (Pair 1)
       (REORDER_SELF_SWAP_3_3 1 src samples 6 s0 s1 s2 s3 s4 s5)
      else if samplesize = 2 then map_option (Pair 1)
       (REORDER_SELF_SWAP_3_3 2 src samples 6 s0 s1 s2 s3 s4 s5)
      else if samplesize = 3 then map_option (Pair 1)
       (for_step (samples * 3) 18 (\<lambda>i m. do {
       tmp \<leftarrow> ld3 m (i + s0 * 3);
       m \<leftarrow> mv3 (i + s1 * 3) (i + s0 * 3) m;
       m \<leftarrow> mv3 (i + s2 * 3) (i + s1 * 3) m;
       m \<leftarrow> st3 (i + s2 * 3) tmp m;
       tmp \<leftarrow> ld3 m (i + s3 * 3);
       m \<leftarrow> mv3 (i + s4 * 3) (i + s3 * 3) m;
       m \<leftarrow> mv3 (i + s5 * 3) (i + s4 * 3) m;
       st3 (i + s5 * 3) tmp m }) 0 src)
      else if samplesize = 4 then map_option (Pair 1)
       (REORDER_SELF_SWAP_3_3 4 src samples 6 s0 s1 s2 s3 s4 s5)
      else if samplesize = 8 then map_option (Pair 1)
       (REORDER_SELF_SWAP_3_3 8 src samples 6 s0 s1 s2 s3 s4 s5)
      else Some (0, src))"

definition REORDER_SELF_SWAP_2_4 ::
  "nat \<Rightarrow> bytes \<Rightarrow> nat \<Rightarrow> nat \<Rightarrow> nat \<Rightarrow> nat \<Rightarrow> nat \<Rightarrow> nat \<Rightarrow> nat \<Rightarrow> nat \<Rightarrow> bytes option" where
  "REORDER_SELF_SWAP_2_4 w src samples chnum s0 s1 s2 s3 s4 s5 = for_step samples chnum (\<lambda>i m. do {
     tmp \<leftarrow> rd w m (i + s0);
     m \<leftarrow> mv w (i + s1) (i + s0) m;
     m \<leftarrow> wr m (i + s1) tmp;
     tmp \<leftarrow> rd w m (i + s2);
     m \<leftarrow> mv w (i + s3) (i + s2) m;
     m \<leftarrow> mv w (i + s4) (i + s3) m;
     m \<leftarrow> mv w (i + s5) (i + s4) m;
     wr m (i + s5) tmp }) 0 src"

definition reorder_self_2_4 ::
  "bytes \<Rightarrow> nat \<Rightarrow> nat \<Rightarrow> nat \<Rightarrow> nat \<Rightarrow> nat \<Rightarrow> nat \<Rightarrow> nat \<Rightarrow> nat \<Rightarrow> nat \<Rightarrow> (int \<times> bytes) option" where
  "reorder_self_2_4 src samples samplesize chnum s0 s1 s2 s3 s4 s5 =
     (if samplesize = 1 then map_option (Pair 1)
       (if chnum = 6 then REORDER_SELF_SWAP_2_4 1 src samples 6 s0 s1 s2 s3 s4 s5 else REORDER_SELF_SWAP_2_4 1 src samples 8 s0 s1 s2 s3 s4 s5)
      else if samplesize = 2 then map_option (Pair 1)
       (if chnum = 6 then REORDER_SELF_SWAP_2_4 2 src samples 6 s0 s1 s2 s3 s4 s5 else REORDER_SELF_SWAP_2_4 2 src samples 8 s0 s1 s2 s3 s4 s5)
      else if samplesize = 3 then map_option (Pair 1)
       (for_step (samples * 3) (chnum * 3) (\<lambda>i m. do {
       tmp \<leftarrow> ld3 m (i + s0 * 3);
       m \<leftarrow> mv3 (i + s1 * 3) (i + s0 * 3) m;
       m \<leftarrow> st3 (i + s1 * 3) tmp m;
       tmp \<leftarrow> ld3 m (i + s2 * 3);
       m \<leftarrow> mv3 (i + s3 * 3) (i + s2 * 3) m;
       m \<leftarrow> mv3 (i + s4 * 3) (i + s3 * 3) m;
       m \<leftarrow> mv3 (i + s5 * 3) (i + s4 * 3) m;
       st3 (i + s5 * 3) tmp m }) 0 src)
      else if samplesize = 4 then map_option (Pair 1)
       (if chnum = 6 then REORDER_SELF_SWAP_2_4 4 src samples 6 s0 s1 s2 s3 s4 s5 else REORDER_SELF_SWAP_2_4 4 src samples 8 s0 s1 s2 s3 s4 s5)
      else if samplesize = 8 then map_option (Pair 1)
       (if chnum = 6 then REORDER_SELF_SWAP_2_4 8 src samples 6 s0 s1 s2 s3 s4 s5 else REORDER_SELF_SWAP_2_4 8 src samples 8 s0 s1 s2 s3 s4 s5)
      else Some (0, src))"

definition reorder_channel :: "bytes \<Rightarrow> layout \<Rightarrow> layout \<Rightarrow> nat \<Rightarrow> nat \<Rightarrow> bytes option" where
  "reorder_channel src src_layout dest_layout samples samplesize =
     (let key = layout_key src_layout dest_layout
      in if dest_layout = src_layout then Some src
      else if \<not> AF_IS_SAME_CH_NUM dest_layout src_layout then Some src
      else if key = layout_key AF_CHANNEL_LAYOUT_5_0_A AF_CHANNEL_LAYOUT_5_0_B then
        map_option snd (reorder_self_3 src samples samplesize 5 2 3 4)
      else if key = layout_key AF_CHANNEL_LAYOUT_5_0_A AF_CHANNEL_LAYOUT_5_0_C then
        map_option snd (reorder_self_2 src samples samplesize 5 1 2)
      else if key = layout_key AF_CHANNEL_LAYOUT_5_0_A AF_CHANNEL_LAYOUT_5_0_D then
        map_option snd (reorder_self_3 src samples samplesize 5 2 1 0)
      else if key = layout_key AF_CHANNEL_LAYOUT_5_0_B AF_CHANNEL_LAYOUT_5_0_A then
        map_option snd (reorder_self_3 src samples samplesize 5 4 3 2)
      else if key = layout_key AF_CHANNEL_LAYOUT_5_0_B AF_CHANNEL_LAYOUT_5_0_C then
        map_option snd (reorder_self_4_step_1 src samples samplesize 5 4 3 2 1)
      else if key = layout_key AF_CHANNEL_LAYOUT_5_0_B AF_CHANNEL_LAYOUT_5_0_D then
        map_option snd (reorder_self_5_step_1 src samples samplesize 5 4 3 2 1 0)
      else if key = layout_key AF_CHANNEL_LAYOUT_5_0_C AF_CHANNEL_LAYOUT_5_0_A then
        map_option snd (reorder_self_2 src samples samplesize 5 1 2)
      else if key = layout_key AF_CHANNEL_LAYOUT_5_0_C AF_CHANNEL_LAYOUT_5_0_B then
        map_option snd (reorder_self_4_step_1 src samples samplesize 5 1 2 3 4)
      else if key = layout_key AF_CHANNEL_LAYOUT_5_0_C AF_CHANNEL_LAYOUT_5_0_D then
        map_option snd (reorder_self_2 src samples samplesize 5 0 1)
      else if key = layout_key AF_CHANNEL_LAYOUT_5_0_D AF_CHANNEL_LAYOUT_5_0_A then
        map_option snd (reorder_self_3 src samples samplesize 5 0 1 2)
      else if key = layout_key AF_CHANNEL_LAYOUT_5_0_D AF_CHANNEL_LAYOUT_5_0_B then
        map_option snd (reorder_self_5_step_1 src samples samplesize 5 0 1 2 3 4)
      else if key = layout_key AF_CHANNEL_LAYOUT_5_0_D AF_CHANNEL_LAYOUT_5_0_C then
        map_option snd (reorder_self_2 src samples samplesize 5 0 1)
      else if key = layout_key AF_CHANNEL_LAYOUT_5_1_A AF_CHANNEL_LAYOUT_5_1_B then
        (if samplesize \<noteq> 3 then map_option snd (reorder_self_2 src (samples div 2) (samplesize * 2) 3 1 2)
        else map_option snd (reorder_self_4_step_2 src samples samplesize 6 2 3 4 5))
      else if key = layout_key AF_CHANNEL_LAYOUT_5_1_A AF_CHANNEL_LAYOUT_5_1_C then
        map_option snd (reorder_self_2_3 src samples samplesize 1 2 3 4 5)
      else if key = layout_key AF_CHANNEL_LAYOUT_5_1_A AF_CHANNEL_LAYOUT_5_1_D then
        map_option snd (reorder_self_3_3 src samples samplesize 2 1 0 3 4 5)
      else if key = layout_key AF_CHANNEL_LAYOUT_5_1_B AF_CHANNEL_LAYOUT_5_1_A then
        (if samplesize \<noteq> 3 then map_option snd (reorder_self_2 src (samples div 2) (samplesize * 2) 3 1 2)
        else map_option snd (reorder_self_4_step_2 src samples samplesize 6 2 3 4 5))
      else if key = layout_key AF_CHANNEL_LAYOUT_5_1_B AF_CHANNEL_LAYOUT_5_1_C then
        map_option snd (reorder_self_4_step_1 src samples samplesize 6 4 3 2 1)
      else if key = layout_key AF_CHANNEL_LAYOUT_5_1_B AF_CHANNEL_LAYOUT_5_1_D then
        map_option snd (reorder_self_5_step_1 src samples samplesize 6 4 3 2 1 0)
      else if key = layout_key AF_CHANNEL_LAYOUT_5_1_B AF_CHANNEL_LAYOUT_5_1_E then
        map_option snd (reorder_self_2_4 src samples samplesize 6 2 4 5 3 1 0)
      else if key = layout_key AF_CHANNEL_LAYOUT_5_1_C AF_CHANNEL_LAYOUT_5_1_A then
        map_option snd (reorder_self_2_3 src samples samplesize 1 2 5 4 3)
      else if key = layout_key AF_CHANNEL_LAYOUT_5_1_C AF_CHANNEL_LAYOUT_5_1_B then
        map_option snd (reorder_self_4_step_1 src samples samplesize 6 1 2 3 4)
      else if key = layout_key AF_CHANNEL_LAYOUT_5_1_C AF_CHANNEL_LAYOUT_5_1_D then
        map_option snd (reorder_self_2 src samples samplesize 6 0 1)
      else if key = layout_key AF_CHANNEL_LAYOUT_5_1_D AF_CHANNEL_LAYOUT_5_1_A then
        map_option snd (reorder_self_3_3 src samples samplesize 0 1 2 5 4 3)
      else if key = layout_key AF_CHANNEL_LAYOUT_5_1_D AF_CHANNEL_LAYOUT_5_1_B then
        map_option snd (reorder_self_5_step_1 src samples samplesize 6 0 1 2 3 4)
      else if key = layout_key AF_CHANNEL_LAYOUT_5_1_D AF_CHANNEL_LAYOUT_5_1_C then
        map_option snd (reorder_self_2 src samples samplesize 6 0 1)
      else if key = layout_key AF_CHANNEL_LAYOUT_5_1_E AF_CHANNEL_LAYOUT_5_1_B then
        map_option snd (reorder_self_2_4 src samples samplesize 6 2 4 0 1 3 5)
      else if key = layout_key AF_CHANNEL_LAYOUT_5_1_F AF_CHANNEL_LAYOUT_5_1_B then
        map_option snd (reorder_self_2_4 src samples samplesize 6 3 5 0 1 2 4)
      else if key = layout_key AF_CHANNEL_LAYOUT_7_1_A AF_CHANNEL_LAYOUT_7_1_B \<or> key = layout_key AF_CHANNEL_LAYOUT_7_1_B AF_CHANNEL_LAYOUT_7_1_A then
        (if samplesize \<noteq> 3 then map_option snd (reorder_self_2 src (samples div 2) (samplesize * 2) 4 1 2)
        else map_option snd (reorder_self_4_step_2 src samples samplesize 8 2 3 4 5))
      else if key = layout_key AF_CHANNEL_LAYOUT_7_1_B AF_CHANNEL_LAYOUT_7_1_D then
        do { m \<leftarrow> map_option snd (reorder_self_2_4 src samples samplesize 8 3 5 4 2 1 0); map_option snd (reorder_self_5_step_1 m samples samplesize 8 3 4 5 6 7) }
      else if key = layout_key AF_CHANNEL_LAYOUT_7_1_C AF_CHANNEL_LAYOUT_7_1_B then
        map_option snd (reorder_self_4_step_1 src samples samplesize 8 1 2 3 4)
      else if key = layout_key AF_CHANNEL_LAYOUT_7_1_F AF_CHANNEL_LAYOUT_7_1_B then
        map_option snd (reorder_self_2_4 src samples samplesize 8 3 5 0 1 2 4)
      else Some src)"

section \<open>Reordering by source number\<close>

definition channel_layout_mapping_5ch :: "layout list" where
  [layout_defs]: "channel_layout_mapping_5ch = [AF_CHANNEL_LAYOUT_5_0_B, AF_CHANNEL_LAYOUT_5_0_D,
     AF_CHANNEL_LAYOUT_5_0_A, AF_CHANNEL_LAYOUT_5_0_A, AF_CHANNEL_LAYOUT_5_0_C]"

definition channel_layout_mapping_6ch :: "layout list" where
  [layout_defs]: "channel_layout_mapping_6ch = [AF_CHANNEL_LAYOUT_5_1_B, AF_CHANNEL_LAYOUT_5_1_D,
     AF_CHANNEL_LAYOUT_5_1_A, AF_CHANNEL_LAYOUT_5_1_A, AF_CHANNEL_LAYOUT_5_1_C]"

definition channel_layout_mapping_8ch :: "layout list" where
  [layout_defs]: "channel_layout_mapping_8ch = [AF_CHANNEL_LAYOUT_7_1_B, AF_CHANNEL_LAYOUT_7_1_D,
     AF_CHANNEL_LAYOUT_7_1_A, AF_CHANNEL_LAYOUT_7_1_A, AF_CHANNEL_LAYOUT_7_1_C]"

definition AF_CHANNEL_LAYOUT_SOURCE_NUM :: int where
  [layout_defs]: "AF_CHANNEL_LAYOUT_SOURCE_NUM = 5"

definition reorder_channel_copy_nch ::
  "bytes \<Rightarrow> int \<Rightarrow> bytes \<Rightarrow> int \<Rightarrow> int \<Rightarrow> nat \<Rightarrow> nat \<Rightarrow> bytes option" where
  "reorder_channel_copy_nch src src_layout dest dest_layout chnum samples samplesize =
     (if chnum < 5 \<or> chnum = 7 \<or> chnum > 8 \<or> src_layout < 0 \<or> dest_layout < 0
         \<or> src_layout \<ge> AF_CHANNEL_LAYOUT_SOURCE_NUM \<or> dest_layout \<ge> AF_CHANNEL_LAYOUT_SOURCE_NUM
      then fast_memcpy dest src (samples * samplesize)
      else if chnum = 6 then
        reorder_channel_copy src (channel_layout_mapping_6ch ! nat src_layout)
          dest (channel_layout_mapping_6ch ! nat dest_layout) samples samplesize
      else if chnum = 8 then
        reorder_channel_copy src (channel_layout_mapping_8ch ! nat src_layout)
          dest (channel_layout_mapping_8ch ! nat dest_layout) samples samplesize
      else
        reorder_channel_copy src (channel_layout_mapping_5ch ! nat src_layout)
          dest (channel_layout_mapping_5ch ! nat dest_layout) samples samplesize)"

definition reorder_channel_nch ::
  "bytes \<Rightarrow> int \<Rightarrow> int \<Rightarrow> int \<Rightarrow> nat \<Rightarrow> nat \<Rightarrow> bytes option" where
  "reorder_channel_nch buf src_layout dest_layout chnum samples samplesize =
     (if src_layout = dest_layout \<or> chnum < 5 \<or> chnum = 7 \<or> chnum > 8 \<or> src_layout < 0 \<or> dest_layout < 0
         \<or> src_layout \<ge> AF_CHANNEL_LAYOUT_SOURCE_NUM \<or> dest_layout \<ge> AF_CHANNEL_LAYOUT_SOURCE_NUM
         \<or> src_layout = dest_layout
      then Some buf
      else if chnum = 6 then
        reorder_channel buf (channel_layout_mapping_6ch ! nat src_layout)
          (channel_layout_mapping_6ch ! nat dest_layout) samples samplesize
      else if chnum = 8 then
        reorder_channel buf (channel_layout_mapping_8ch ! nat src_layout)
          (channel_layout_mapping_8ch ! nat dest_layout) samples samplesize
      else
        reorder_channel buf (channel_layout_mapping_5ch ! nat src_layout)
          (channel_layout_mapping_5ch ! nat dest_layout) samples samplesize)"

end
