(* ===== verification/ReorderSpec.thy ===== *)
theory ReorderSpec
  imports ReorderCh
begin

text \<open>
  What the functions of libaf/reorder_ch.c promise: after a reordering every frame carries
  the same speakers' samples, in the order of the target layout. The order of the speakers in a layout is
  the one the comments of libaf/reorder_ch.h give.
\<close>

section \<open>The 24-bit cases are 3-byte element moves\<close>

lemma rd1: "rd (Suc 0) m k = (if k < length m then Some [m ! k] else None)"
  by (auto simp: rd_def take_Suc_conv_app_nth Suc_le_eq hd_drop_conv_nth take_Suc)

lemma wr1: "wr m k [b] = (if k < length m then Some (m[k := b]) else None)"
  by (auto simp: wr_def put_def upd_conv_take_nth_drop)

lemma take3: "(k + 1) * 3 \<le> length m \<Longrightarrow>
    take 3 (drop (k * 3) m) = [m ! (k * 3), m ! (k * 3 + 1), m ! (k * 3 + 2)]"
  by (rule nth_equalityI) (auto simp: less_Suc_eq numeral_eq_Suc)

lemma rd3: "rd 3 m k = (if k * 3 + 2 < length m
    then Some [m ! (k * 3), m ! (k * 3 + 1), m ! (k * 3 + 2)] else None)"
  using take3 [of k m] by (auto simp: rd_def)

lemma put3: "k * 3 + 2 < length m \<Longrightarrow>
    put m k [a, b, c] = m[k * 3 := a, k * 3 + 1 := b, k * 3 + 2 := c]"
  by (rule nth_equalityI) (auto simp: put_def nth_append nth_Cons nth_list_update split: nat.splits
      intro!: arg_cong [where f = "nth m"])

lemma wr3: "wr m k [a, b, c] = (if k * 3 + 2 < length m
    then Some (m[k * 3 := a, k * 3 + 1 := b, k * 3 + 2 := c]) else None)"
  using put3 [of k m a b c] by (auto simp: wr_def)

lemma mv3_copy_eq: "mv3_copy src (j * 3) (i * 3) dest = mv_copy 3 src j i dest"
  by (auto simp: mv3_copy_def mv_copy_def rd1 wr1 rd3 wr3 bind_eq_None_conv)

lemma mv3_eq: "j \<noteq> i \<Longrightarrow> mv3 (j * 3) (i * 3) m = mv 3 j i m"
proof -
  assume ne: "j \<noteq> i"
  have neq: "j * 3 + a \<noteq> i * 3 + b" if "a < 3" "b < 3" for a b
    using ne that by presburger
  have "Suc (j * 3) \<noteq> i * 3" "Suc (Suc (j * 3)) \<noteq> i * 3" "Suc (Suc (j * 3)) \<noteq> Suc (i * 3)"
    "j * 3 \<noteq> i * 3"
    using neq [of 1 0] neq [of 2 0] neq [of 2 1] ne by auto
  then show ?thesis
    by (auto simp: mv3_def mv_def rd1 wr1 rd3 wr3 bind_eq_None_conv)
qed

lemma ld3_st3_eq:
  "Option.bind (ld3 m (j * 3)) f
     = Option.bind (rd 3 m j) (\<lambda>v. f ([v ! 0], [v ! Suc 0], [v ! 2]))"
  "length v = 3 \<Longrightarrow> st3 (i * 3) ([v ! 0], [v ! Suc 0], [v ! 2]) m = wr m i v"
proof -
  show "Option.bind (ld3 m (j * 3)) f
     = Option.bind (rd 3 m j) (\<lambda>v. f ([v ! 0], [v ! Suc 0], [v ! 2]))"
    by (auto simp: ld3_def rd1 rd3)
  show "st3 (i * 3) ([v ! 0], [v ! Suc 0], [v ! 2]) m = wr m i v" if "length v = 3"
  proof -
    from that obtain a b c where "v = [a, b, c]"
      by (auto simp: numeral_3_eq_3 length_Suc_conv)
    then show ?thesis by (auto simp: st3_def wr1 wr3)
  qed
qed

text \<open>The same at the indices as the code writes them, relative to the frame's first byte.\<close>

lemma mv3_copy_at: "mv3_copy src (i * 3 + s * 3) (i * 3 + c * 3) = mv_copy 3 src (i + s) (i + c)"
  using mv3_copy_eq [of src "i + s" "i + c"] by (intro ext) (simp add: add_mult_distrib)

lemmas mv3_copy_idx = mv3_copy_at [where c = 0, simplified] mv3_copy_at [where c = 1, simplified]
  mv3_copy_at [where c = 2, simplified] mv3_copy_at [where c = 3, simplified]
  mv3_copy_at [where c = 4, simplified] mv3_copy_at [where c = 5, simplified]
  mv3_copy_at [where c = 6, simplified] mv3_copy_at [where c = 7, simplified]

lemma mv3_idx: "s \<noteq> t \<Longrightarrow> mv3 (i * 3 + s * 3) (i * 3 + t * 3) = mv 3 (i + s) (i + t)"
  using mv3_eq [of "i + s" "i + t"] by (intro ext) (simp add: add_mult_distrib)

lemma ld3_idx: "Option.bind (ld3 m (i * 3 + s * 3)) f
     = Option.bind (rd 3 m (i + s)) (\<lambda>v. f ([v ! 0], [v ! Suc 0], [v ! 2]))"
  using ld3_st3_eq(1) [of m "i + s" f] by (simp add: add_mult_distrib)

lemma st3_idx: "length v = 3 \<Longrightarrow>
    st3 (i * 3 + s * 3) ([v ! 0], [v ! Suc 0], [v ! 2]) = (\<lambda>m. wr m (i + s) v)"
  using ld3_st3_eq(2) [of v "i + s"] by (intro ext) (simp add: add_mult_distrib)

lemmas for3 = for_step_scale [of 3 _ _ _ 0, simplified]

section \<open>The helpers are uniform in the sample size\<close>

definition sample_sizes :: "nat set" where
  "sample_sizes = {1, 2, 3, 4, 8}"

lemma reorder_copy_5ch_eq:
  "ss \<in> sample_sizes \<Longrightarrow> reorder_copy_5ch dest src samples ss s0 s1 s2 s3 s4
    = map_option (Pair 1) (REORDER_COPY_5 ss dest src samples s0 s1 s2 s3 s4)"
  by (auto simp: reorder_copy_5ch_def REORDER_COPY_5_def sample_sizes_def
      for3 [of samples 5, simplified] mv3_copy_idx)

lemma reorder_copy_6ch_eq:
  "ss \<in> sample_sizes \<Longrightarrow> reorder_copy_6ch dest src samples ss s0 s1 s2 s3 s4 s5
    = map_option (Pair 1) (REORDER_COPY_6 ss dest src samples s0 s1 s2 s3 s4 s5)"
  by (auto simp: reorder_copy_6ch_def REORDER_COPY_6_def sample_sizes_def
      for3 [of samples 6, simplified] mv3_copy_idx)

lemma reorder_copy_8ch_eq:
  "ss \<in> sample_sizes \<Longrightarrow> reorder_copy_8ch dest src samples ss s0 s1 s2 s3 s4 s5 s6 s7
    = map_option (Pair 1) (REORDER_COPY_8 ss dest src samples s0 s1 s2 s3 s4 s5 s6 s7)"
  by (auto simp: reorder_copy_8ch_def REORDER_COPY_8_def sample_sizes_def
      for3 [of samples 8, simplified] mv3_copy_idx)

lemma rd3_bind_cong:
  assumes "m = m'" "k = k'" "\<And>v. length v = 3 \<Longrightarrow> f v = g v"
  shows "Option.bind (rd 3 m k) f = Option.bind (rd 3 m' k') g"
  using assms by (auto simp: rd3)

lemma reorder_self_2_eq:
  assumes "ss \<in> sample_sizes" "distinct [s0, s1]" "chnum \<in> {5, 6}"
  shows "reorder_self_2 src samples ss chnum s0 s1
    = map_option (Pair 1) (REORDER_SELF_SWAP_2 ss src samples chnum s0 s1)"
  using assms
  by (auto simp: reorder_self_2_def REORDER_SELF_SWAP_2_def sample_sizes_def
      for3 for3 [of samples 6, simplified] mv3_idx ld3_idx st3_idx cong: rd3_bind_cong)

lemma reorder_self_3_eq:
  assumes "ss \<in> sample_sizes" "distinct [s0, s1, s2]" "chnum \<in> {5, 6}"
  shows "reorder_self_3 src samples ss chnum s0 s1 s2
    = map_option (Pair 1) (REORDER_SELF_SWAP_3 ss src samples chnum s0 s1 s2)"
  using assms
  by (auto simp: reorder_self_3_def REORDER_SELF_SWAP_3_def sample_sizes_def
      for3 for3 [of samples 6, simplified] mv3_idx ld3_idx st3_idx cong: rd3_bind_cong)

lemma reorder_self_4_step_1_eq:
  assumes "ss \<in> sample_sizes" "distinct [s0, s1, s2, s3]" "chnum \<in> {5, 6, 8}"
  shows "reorder_self_4_step_1 src samples ss chnum s0 s1 s2 s3
    = map_option (Pair 1) (REORDER_SELF_SWAP_4_STEP_1 ss src samples chnum s0 s1 s2 s3)"
  using assms
  by (auto simp: reorder_self_4_step_1_def REORDER_SELF_SWAP_4_STEP_1_def sample_sizes_def
      for3 for3 [of samples 6, simplified] mv3_idx ld3_idx st3_idx cong: rd3_bind_cong)

lemma reorder_self_5_step_1_eq:
  assumes "ss \<in> sample_sizes" "distinct [s0, s1, s2, s3, s4]" "chnum \<in> {5, 6, 8}"
  shows "reorder_self_5_step_1 src samples ss chnum s0 s1 s2 s3 s4
    = map_option (Pair 1) (REORDER_SELF_SWAP_5_STEP_1 ss src samples chnum s0 s1 s2 s3 s4)"
  using assms
  by (auto simp: reorder_self_5_step_1_def REORDER_SELF_SWAP_5_STEP_1_def sample_sizes_def
      for3 for3 [of samples 6, simplified] mv3_idx ld3_idx st3_idx cong: rd3_bind_cong)

lemma reorder_self_2_3_eq:
  assumes "ss \<in> sample_sizes" "distinct [s0, s1, s2, s3, s4]"
  shows "reorder_self_2_3 src samples ss s0 s1 s2 s3 s4
    = map_option (Pair 1) (REORDER_SELF_SWAP_2_3 ss src samples 6 s0 s1 s2 s3 s4)"
  using assms
  by (auto simp: reorder_self_2_3_def REORDER_SELF_SWAP_2_3_def sample_sizes_def
      for3 for3 [of samples 6, simplified] mv3_idx ld3_idx st3_idx cong: rd3_bind_cong)

lemma reorder_self_3_3_eq:
  assumes "ss \<in> sample_sizes" "distinct [s0, s1, s2, s3, s4, s5]"
  shows "reorder_self_3_3 src samples ss s0 s1 s2 s3 s4 s5
    = map_option (Pair 1) (REORDER_SELF_SWAP_3_3 ss src samples 6 s0 s1 s2 s3 s4 s5)"
  using assms
  by (auto simp: reorder_self_3_3_def REORDER_SELF_SWAP_3_3_def sample_sizes_def
      for3 for3 [of samples 6, simplified] mv3_idx ld3_idx st3_idx cong: rd3_bind_cong)

lemma reorder_self_2_4_eq:
  assumes "ss \<in> sample_sizes" "distinct [s0, s1, s2, s3, s4, s5]" "chnum \<in> {6, 8}"
  shows "reorder_self_2_4 src samples ss chnum s0 s1 s2 s3 s4 s5
    = map_option (Pair 1) (REORDER_SELF_SWAP_2_4 ss src samples chnum s0 s1 s2 s3 s4 s5)"
  using assms
  by (auto simp: reorder_self_2_4_def REORDER_SELF_SWAP_2_4_def sample_sizes_def
      for3 for3 [of samples 6, simplified] mv3_idx ld3_idx st3_idx cong: rd3_bind_cong)

lemma reorder_self_4_step_2_eq:
  assumes "distinct [s0, s1, s2, s3]"
  shows "reorder_self_4_step_2 src samples 3 chnum s0 s1 s2 s3
    = map_option (Pair 1) (REORDER_SELF_SWAP_4_STEP_2 3 src samples chnum s0 s1 s2 s3)"
  using assms
  by (auto simp: reorder_self_4_step_2_def REORDER_SELF_SWAP_4_STEP_2_def
      for3 mv3_idx ld3_idx st3_idx cong: rd3_bind_cong)

text \<open>The stride of \<open>reorder_self_2\<close> with 3 or 4 wide elements, as the 5.1 and 7.1 A/B swaps use it.\<close>

lemma reorder_self_2_pairs:
  "w \<in> {2, 4, 8} \<Longrightarrow> reorder_self_2 src samples w 3 s0 s1
    = map_option (Pair 1) (REORDER_SELF_SWAP_2 w src samples 3 s0 s1)"
  "w \<in> {4, 8} \<Longrightarrow> reorder_self_2 src samples w 4 s0 s1
    = map_option (Pair 1) (REORDER_SELF_SWAP_2 w src samples 4 s0 s1)"
  by (auto simp: reorder_self_2_def)

section \<open>Frame-wise loops\<close>

text \<open>
  A loop body that rewrites exactly the elements of its own frame, each from the value that \<open>g\<close>
  reads from the frame before the iteration, rewrites all frames so.
\<close>

lemma for_frames_from:
  assumes body: "\<And>f m. \<lbrakk>f < F; length m = len\<rbrakk> \<Longrightarrow> \<exists>m'. body (f * n) m = Some m' \<and> length m' = len
      \<and> (\<forall>c<n. els w m' ! (f * n + c) = g f c (els w m))
      \<and> (\<forall>j<len div w. (j < f * n \<or> (f + 1) * n \<le> j) \<longrightarrow> els w m' ! j = els w m ! j)"
    and local: "\<And>f c m m'. \<lbrakk>f < F; c < n; \<forall>j. f * n \<le> j \<and> j < (f + 1) * n \<longrightarrow> els w m ! j = els w m' ! j\<rbrakk>
      \<Longrightarrow> g f c (els w m) = g f c (els w m')"
    and n: "0 < n" and fit: "F * n \<le> len div w" and len: "length m = len"
    and f0: "f0 + d = F"
  shows "\<exists>m'. for_step (F * n) n body (f0 * n) m = Some m' \<and> length m' = len
      \<and> (\<forall>f. f0 \<le> f \<and> f < F \<longrightarrow> (\<forall>c<n. els w m' ! (f * n + c) = g f c (els w m)))
      \<and> (\<forall>j<len div w. (j < f0 * n \<or> F * n \<le> j) \<longrightarrow> els w m' ! j = els w m ! j)"
  using len f0
proof (induction d arbitrary: f0 m)
  case 0
  then show ?case by auto
next
  case (Suc d)
  then have lt: "f0 < F" by simp
  from body [OF lt Suc.prems(1)] obtain m1 where m1: "body (f0 * n) m = Some m1" "length m1 = len"
    and in1: "\<And>c. c < n \<Longrightarrow> els w m1 ! (f0 * n + c) = g f0 c (els w m)"
    and out1: "\<And>j. \<lbrakk>j < len div w; j < f0 * n \<or> (f0 + 1) * n \<le> j\<rbrakk> \<Longrightarrow> els w m1 ! j = els w m ! j"
    by blast
  from Suc.IH [OF m1(2), of "f0 + 1"] Suc.prems(2) obtain m2
    where m2: "for_step (F * n) n body ((f0 + 1) * n) m1 = Some m2" "length m2 = len"
    and in2: "\<And>f c. \<lbrakk>f0 + 1 \<le> f; f < F; c < n\<rbrakk> \<Longrightarrow> els w m2 ! (f * n + c) = g f c (els w m1)"
    and out2: "\<And>j. \<lbrakk>j < len div w; j < (f0 + 1) * n \<or> F * n \<le> j\<rbrakk> \<Longrightarrow> els w m2 ! j = els w m1 ! j"
    by auto
  have step: "for_step (F * n) n body (f0 * n) m = Some m2"
    using lt n m1(1) m2(1) by (simp add: for_step_go add.commute)
  have le: "(f + 1) * n \<le> len div w" if "f < F" for f
    using that fit mult_le_mono1 [of "f + 1" F n] by simp
  have frame0: "els w m2 ! (f0 * n + c) = g f0 c (els w m)" if "c < n" for c
  proof -
    have "f0 * n + c < (f0 + 1) * n" using that by simp
    then show ?thesis using out2 [of "f0 * n + c"] in1 [OF that] le [OF lt] by simp
  qed
  have framef: "els w m2 ! (f * n + c) = g f c (els w m)" if "f0 + 1 \<le> f" "f < F" "c < n" for f c
  proof -
    have ge: "(f0 + 1) * n \<le> f * n" using that(1) by (rule mult_le_mono1)
    have "g f c (els w m1) = g f c (els w m)"
    proof (rule local [OF that(2,3)], intro allI impI)
      fix j assume "f * n \<le> j \<and> j < (f + 1) * n"
      then show "els w m1 ! j = els w m ! j"
        using out1 [of j] le [OF that(2)] ge by simp
    qed
    then show ?thesis using in2 [OF that] by simp
  qed
  have out: "els w m2 ! j = els w m ! j" if "j < len div w" "j < f0 * n \<or> F * n \<le> j" for j
  proof -
    have "(f0 + 1) * n \<le> F * n" using lt by (intro mult_le_mono1) simp
    with that have "j < f0 * n \<or> (f0 + 1) * n \<le> j" by linarith
    moreover have "j < (f0 + 1) * n \<or> F * n \<le> j" using that by auto
    ultimately show ?thesis using out1 [of j] out2 [of j] that(1) by simp
  qed
  show ?case
  proof (intro exI conjI allI impI)
    show "for_step (F * n) n body (f0 * n) m = Some m2" by (fact step)
    show "length m2 = len" by (fact m2(2))
    show "els w m2 ! (f * n + c) = g f c (els w m)" if "f0 \<le> f \<and> f < F" "c < n" for f c
      using that frame0 framef [of f c] by (cases "f = f0") auto
    show "els w m2 ! j = els w m ! j" if "j < len div w" "j < f0 * n \<or> F * n \<le> j" for j
      using that by (rule out)
  qed
qed

text \<open>
  \<open>frames w n F p src m\<close>: in each of the first \<open>F\<close> frames of \<open>n\<close> elements of \<open>w\<close> bytes, place \<open>c\<close> of \<open>m\<close>
  holds what place \<open>p c\<close> of the same frame of \<open>src\<close> holds.
\<close>

definition frames :: "nat \<Rightarrow> nat \<Rightarrow> nat \<Rightarrow> (nat \<Rightarrow> nat) \<Rightarrow> bytes \<Rightarrow> bytes \<Rightarrow> bool" where
  "frames w n F p src m \<longleftrightarrow> (\<forall>f<F. \<forall>c<n. els w m ! (f * n + c) = els w src ! (f * n + p c))"

lemma frame_index: "f < F \<Longrightarrow> c < n \<Longrightarrow> F * n \<le> L \<Longrightarrow> f * n + c < (L::nat)"
proof -
  assume "f < F" "c < n" "F * n \<le> L"
  then have "(f + 1) * n \<le> F * n" by (intro mult_le_mono1) simp
  with \<open>c < n\<close> \<open>F * n \<le> L\<close> show ?thesis by simp
qed

lemma frame_end: "f < F \<Longrightarrow> F * n \<le> L \<Longrightarrow> f * n + n \<le> (L::nat)"
proof -
  assume "f < F" "F * n \<le> L"
  then have "(f + 1) * n \<le> F * n" by (intro mult_le_mono1) simp
  with \<open>F * n \<le> L\<close> show ?thesis by simp
qed

lemma copy_loop_frames:
  assumes body: "\<And>f m. \<lbrakk>f < F; length m = length dest\<rbrakk> \<Longrightarrow> \<exists>m'. body (f * n) m = Some m' \<and> length m' = length m
      \<and> (\<forall>c<n. els w m' ! (f * n + c) = els w src ! (f * n + p c))
      \<and> (\<forall>j<length m div w. (j < f * n \<or> (f + 1) * n \<le> j) \<longrightarrow> els w m' ! j = els w m ! j)"
    and "0 < n" "F * n \<le> length dest div w"
  shows "\<exists>m'. for_step (F * n) n body 0 dest = Some m' \<and> length m' = length dest \<and> frames w n F p src m'"
  using for_frames_from [of F "length dest" body n w "\<lambda>f c _. els w src ! (f * n + p c)" dest 0 F]
    assms by (auto simp: frames_def)

lemma self_loop_frames:
  assumes body: "\<And>f m. \<lbrakk>f < F; length m = length src\<rbrakk> \<Longrightarrow> \<exists>m'. body (f * n) m = Some m' \<and> length m' = length m
      \<and> (\<forall>c<n. els w m' ! (f * n + c) = els w m ! (f * n + p c))
      \<and> (\<forall>j<length m div w. (j < f * n \<or> (f + 1) * n \<le> j) \<longrightarrow> els w m' ! j = els w m ! j)"
    and p: "\<And>c. c < n \<Longrightarrow> p c < n"
    and "0 < n" "F * n \<le> length src div w"
  shows "\<exists>m'. for_step (F * n) n body 0 src = Some m' \<and> length m' = length src \<and> frames w n F p src m'"
proof -
  have loc: "els w m ! (f * n + p c) = els w m' ! (f * n + p c)"
    if "f < F" "c < n" "\<forall>j. f * n \<le> j \<and> j < (f + 1) * n \<longrightarrow> els w m ! j = els w m' ! j" for f c m m'
    using that(3) p [OF that(2)] by simp
  show ?thesis
    using for_frames_from [of F "length src" body n w "\<lambda>f c E. E ! (f * n + p c)" src 0 F]
      assms loc by (auto simp: frames_def)
qed

section \<open>The copying macros\<close>

lemma mv_copy_Some:
  "0 < w \<Longrightarrow> j < length src div w \<Longrightarrow> i < length m div w \<Longrightarrow>
    mv_copy w src j i m = Some (put m i (els w src ! j))"
  by (simp add: mv_copy_def mem_simps)

text \<open>One frame of a copy: the moves into the places \<open>c, c + 1, \<dots>\<close> of the frame at \<open>i\<close>.\<close>

fun copy_moves :: "nat \<Rightarrow> bytes \<Rightarrow> nat \<Rightarrow> nat \<Rightarrow> nat list \<Rightarrow> bytes \<Rightarrow> bytes option" where
  "copy_moves w src i c [] m = Some m"
| "copy_moves w src i c (s # ss) m =
     Option.bind (mv_copy w src (i + s) (i + c) m) (copy_moves w src i (Suc c) ss)"

lemma copy_moves_fun:
  "copy_moves w src i c [] = Some"
  "copy_moves w src i c (s # ss) =
     (\<lambda>m. Option.bind (mv_copy w src (i + s) (i + c) m) (copy_moves w src i (Suc c) ss))"
  by (intro ext, simp)+

lemma copy_moves_effect:
  assumes "0 < w" "\<forall>s\<in>set ss. i + s < length src div w" "i + c + length ss \<le> length m div w"
  shows "\<exists>m'. copy_moves w src i c ss m = Some m' \<and> length m' = length m
    \<and> (\<forall>j<length m div w. els w m' ! j =
        (if i + c \<le> j \<and> j < i + c + length ss then els w src ! (i + ss ! (j - i - c)) else els w m ! j))"
  using assms(2,3)
proof (induction ss arbitrary: c m)
  case Nil
  then show ?case by auto
next
  case (Cons s ss)
  let ?m = "put m (i + c) (els w src ! (i + s))"
  have len: "length ?m = length m" and els: "els w ?m = (els w m)[i + c := els w src ! (i + s)]"
    using Cons.prems assms(1) by (simp_all add: mem_simps)
  from Cons.IH [of "Suc c" ?m] Cons.prems len obtain m' where
    m': "copy_moves w src i (Suc c) ss ?m = Some m'" "length m' = length m"
    and val: "\<And>j. j < length m div w \<Longrightarrow> els w m' ! j =
        (if i + Suc c \<le> j \<and> j < i + Suc c + length ss then els w src ! (i + ss ! (j - i - Suc c)) else els w ?m ! j)"
    by auto
  have step: "copy_moves w src i c (s # ss) m = Some m'"
    using Cons.prems m'(1) assms(1) by (simp add: mv_copy_Some)
  have "els w m' ! j = (if i + c \<le> j \<and> j < i + c + length (s # ss)
      then els w src ! (i + (s # ss) ! (j - i - c)) else els w m ! j)" if "j < length m div w" for j
  proof (cases "j = i + c")
    case True
    then show ?thesis using val [OF that] that by (simp add: els)
  next
    case False
    have "(s # ss) ! (j - i - c) = ss ! (j - i - Suc c)" if "i + Suc c \<le> j"
      using that by (simp add: nth_Cons' diff_Suc)
    with False val [OF that] show ?thesis by (auto simp: els)
  qed
  with step m'(2) show ?case by blast
qed

lemma copy_moves_loop:
  assumes "0 < w" "n = length ss" "0 < n" "\<forall>s\<in>set ss. s < n"
    and "F * n \<le> length src div w" "F * n \<le> length dest div w"
  shows "\<exists>m. for_step (F * n) n (\<lambda>i. copy_moves w src i 0 ss) 0 dest = Some m
    \<and> length m = length dest \<and> frames w n F (nth ss) src m"
proof (rule copy_loop_frames)
  fix f and m :: bytes assume f: "f < F" and m: "length m = length dest"
  have "\<forall>s\<in>set ss. f * n + s < length src div w"
    using f assms(4,5) frame_index by auto
  moreover have "f * n + 0 + length ss \<le> length m div w"
    using frame_end [OF f assms(6)] assms(2) m by simp
  ultimately show "\<exists>m'. copy_moves w src (f * n) 0 ss m = Some m' \<and> length m' = length m
      \<and> (\<forall>c<n. els w m' ! (f * n + c) = els w src ! (f * n + ss ! c))
      \<and> (\<forall>j<length m div w. (j < f * n \<or> (f + 1) * n \<le> j) \<longrightarrow> els w m' ! j = els w m ! j)"
    using copy_moves_effect [OF assms(1), of ss "f * n" src 0 m] assms(2) by fastforce
qed (use assms in auto)

lemma REORDER_COPY_moves:
  "REORDER_COPY_5 w dest src n s0 s1 s2 s3 s4
    = for_step n 5 (\<lambda>i. copy_moves w src i 0 [s0, s1, s2, s3, s4]) 0 dest"
  "REORDER_COPY_6 w dest src n s0 s1 s2 s3 s4 s5
    = for_step n 6 (\<lambda>i. copy_moves w src i 0 [s0, s1, s2, s3, s4, s5]) 0 dest"
  "REORDER_COPY_8 w dest src n s0 s1 s2 s3 s4 s5 s6 s7
    = for_step n 8 (\<lambda>i. copy_moves w src i 0 [s0, s1, s2, s3, s4, s5, s6, s7]) 0 dest"
  by (simp_all add: REORDER_COPY_5_def REORDER_COPY_6_def REORDER_COPY_8_def copy_moves_fun
      numeral_eq_Suc)

section \<open>The swapping macros\<close>

lemma mv_Some:
  "0 < w \<Longrightarrow> j < length m div w \<Longrightarrow> i < length m div w \<Longrightarrow> mv w j i m = Some (put m i (els w m ! j))"
  by (simp add: mv_def mem_simps)

lemmas self_body = mv_Some mem_simps nth_list_update frame_index

lemma REORDER_SELF_SWAP_2_frames:
  assumes "0 < w" "distinct [s0, s1]" "\<forall>s\<in>set [s0, s1]. s < n" "F * n \<le> length src div w"
  shows "\<exists>m. REORDER_SELF_SWAP_2 w src (F * n) n s0 s1 = Some m \<and> length m = length src
    \<and> frames w n F (id(s0 := s1, s1 := s0)) src m"
  unfolding REORDER_SELF_SWAP_2_def
  by (rule self_loop_frames) (use assms in \<open>auto simp: self_body\<close>)

lemma REORDER_SELF_SWAP_3_frames:
  assumes "0 < w" "distinct [s0, s1, s2]" "\<forall>s\<in>set [s0, s1, s2]. s < n" "F * n \<le> length src div w"
  shows "\<exists>m. REORDER_SELF_SWAP_3 w src (F * n) n s0 s1 s2 = Some m \<and> length m = length src
    \<and> frames w n F (id(s0 := s1, s1 := s2, s2 := s0)) src m"
  unfolding REORDER_SELF_SWAP_3_def
  by (rule self_loop_frames) (use assms in \<open>auto simp: self_body\<close>)

lemma REORDER_SELF_SWAP_4_STEP_1_frames:
  assumes "0 < w" "distinct [s0, s1, s2, s3]" "\<forall>s\<in>set [s0, s1, s2, s3]. s < n" "F * n \<le> length src div w"
  shows "\<exists>m. REORDER_SELF_SWAP_4_STEP_1 w src (F * n) n s0 s1 s2 s3 = Some m \<and> length m = length src
    \<and> frames w n F (id(s0 := s1, s1 := s2, s2 := s3, s3 := s0)) src m"
  unfolding REORDER_SELF_SWAP_4_STEP_1_def
  by (rule self_loop_frames) (use assms in \<open>auto simp: self_body\<close>)

lemma REORDER_SELF_SWAP_4_STEP_2_frames:
  assumes "0 < w" "distinct [s0, s1, s2, s3]" "\<forall>s\<in>set [s0, s1, s2, s3]. s < n" "F * n \<le> length src div w"
  shows "\<exists>m. REORDER_SELF_SWAP_4_STEP_2 w src (F * n) n s0 s1 s2 s3 = Some m \<and> length m = length src
    \<and> frames w n F (id(s0 := s2, s2 := s0, s1 := s3, s3 := s1)) src m"
  unfolding REORDER_SELF_SWAP_4_STEP_2_def
  by (rule self_loop_frames) (use assms in \<open>auto simp: self_body\<close>)

lemma REORDER_SELF_SWAP_5_STEP_1_frames:
  assumes "0 < w" "distinct [s0, s1, s2, s3, s4]" "\<forall>s\<in>set [s0, s1, s2, s3, s4]. s < n" "F * n \<le> length src div w"
  shows "\<exists>m. REORDER_SELF_SWAP_5_STEP_1 w src (F * n) n s0 s1 s2 s3 s4 = Some m \<and> length m = length src
    \<and> frames w n F (id(s0 := s1, s1 := s2, s2 := s3, s3 := s4, s4 := s0)) src m"
  unfolding REORDER_SELF_SWAP_5_STEP_1_def
  by (rule self_loop_frames) (use assms in \<open>auto simp: self_body\<close>)

lemma REORDER_SELF_SWAP_2_3_frames:
  assumes "0 < w" "distinct [s0, s1, s2, s3, s4]" "\<forall>s\<in>set [s0, s1, s2, s3, s4]. s < n" "F * n \<le> length src div w"
  shows "\<exists>m. REORDER_SELF_SWAP_2_3 w src (F * n) n s0 s1 s2 s3 s4 = Some m \<and> length m = length src
    \<and> frames w n F (id(s0 := s1, s1 := s0, s2 := s3, s3 := s4, s4 := s2)) src m"
  unfolding REORDER_SELF_SWAP_2_3_def
  by (rule self_loop_frames) (use assms in \<open>auto simp: self_body\<close>)

lemma REORDER_SELF_SWAP_3_3_frames:
  assumes "0 < w" "distinct [s0, s1, s2, s3, s4, s5]" "\<forall>s\<in>set [s0, s1, s2, s3, s4, s5]. s < n" "F * n \<le> length src div w"
  shows "\<exists>m. REORDER_SELF_SWAP_3_3 w src (F * n) n s0 s1 s2 s3 s4 s5 = Some m \<and> length m = length src
    \<and> frames w n F (id(s0 := s1, s1 := s2, s2 := s0, s3 := s4, s4 := s5, s5 := s3)) src m"
  unfolding REORDER_SELF_SWAP_3_3_def
  by (rule self_loop_frames) (use assms in \<open>auto simp: self_body\<close>)

lemma REORDER_SELF_SWAP_2_4_frames:
  assumes "0 < w" "distinct [s0, s1, s2, s3, s4, s5]" "\<forall>s\<in>set [s0, s1, s2, s3, s4, s5]. s < n" "F * n \<le> length src div w"
  shows "\<exists>m. REORDER_SELF_SWAP_2_4 w src (F * n) n s0 s1 s2 s3 s4 s5 = Some m \<and> length m = length src
    \<and> frames w n F (id(s0 := s1, s1 := s0, s2 := s3, s3 := s4, s4 := s5, s5 := s2)) src m"
  unfolding REORDER_SELF_SWAP_2_4_def
  by (rule self_loop_frames) (use assms in \<open>auto simp: self_body\<close>)

end
