(* ===== verification/ReorderLayouts.thy ===== *)
theory ReorderLayouts
  imports ReorderSpec
begin

text \<open>
  The theorems about the layout tables of libaf/reorder_ch.c: which pairs of layouts the two
  \<open>switch\<close> statements handle, and that each of them moves every speaker's sample to its place.
\<close>

section \<open>Speakers of a layout\<close>

text \<open>The abbreviations (without the prefix \<open>Sp\<close>) are those of the comments in libaf/reorder_ch.h.\<close>

datatype speaker = SpL | SpR | SpC | SpLs | SpRs | SpLFE | SpRls | SpRrs

definition layout_speakers :: "(layout \<times> speaker list) list" where
  "layout_speakers = [
     (AF_CHANNEL_LAYOUT_5_0_A, [SpL, SpR, SpC, SpLs, SpRs]),
     (AF_CHANNEL_LAYOUT_5_0_B, [SpL, SpR, SpLs, SpRs, SpC]),
     (AF_CHANNEL_LAYOUT_5_0_C, [SpL, SpC, SpR, SpLs, SpRs]),
     (AF_CHANNEL_LAYOUT_5_0_D, [SpC, SpL, SpR, SpLs, SpRs]),
     (AF_CHANNEL_LAYOUT_5_1_A, [SpL, SpR, SpC, SpLFE, SpLs, SpRs]),
     (AF_CHANNEL_LAYOUT_5_1_B, [SpL, SpR, SpLs, SpRs, SpC, SpLFE]),
     (AF_CHANNEL_LAYOUT_5_1_C, [SpL, SpC, SpR, SpLs, SpRs, SpLFE]),
     (AF_CHANNEL_LAYOUT_5_1_D, [SpC, SpL, SpR, SpLs, SpRs, SpLFE]),
     (AF_CHANNEL_LAYOUT_5_1_E, [SpLFE, SpL, SpC, SpR, SpLs, SpRs]),
     (AF_CHANNEL_LAYOUT_5_1_F, [SpC, SpL, SpR, SpLFE, SpLs, SpRs]),
     (AF_CHANNEL_LAYOUT_7_1_A, [SpL, SpR, SpC, SpLFE, SpLs, SpRs, SpRls, SpRrs]),
     (AF_CHANNEL_LAYOUT_7_1_B, [SpL, SpR, SpLs, SpRs, SpC, SpLFE, SpRls, SpRrs]),
     (AF_CHANNEL_LAYOUT_7_1_C, [SpL, SpC, SpR, SpLs, SpRs, SpLFE, SpRls, SpRrs]),
     (AF_CHANNEL_LAYOUT_7_1_D, [SpC, SpL, SpR, SpLs, SpRs, SpRls, SpRrs, SpLFE]),
     (AF_CHANNEL_LAYOUT_7_1_F, [SpC, SpL, SpR, SpLFE, SpLs, SpRs, SpRls, SpRrs])]"

definition speakers :: "layout \<Rightarrow> speaker list" where
  "speakers l = (case map_of layout_speakers l of None \<Rightarrow> [] | Some xs \<Rightarrow> xs)"

definition place :: "layout \<Rightarrow> speaker \<Rightarrow> nat" where
  "place l sp = length (takeWhile (\<lambda>x. x \<noteq> sp) (speakers l))"

definition same_speakers :: "nat \<Rightarrow> nat \<Rightarrow> layout \<Rightarrow> layout \<Rightarrow> bytes \<Rightarrow> bytes \<Rightarrow> bool" where
  "same_speakers w F s d src m \<longleftrightarrow> (\<forall>f<F. \<forall>sp\<in>set (speakers d).
     els w m ! (f * length (speakers d) + place d sp) = els w src ! (f * length (speakers s) + place s sp))"

text \<open>The pairs (source, target) that the \<open>switch\<close> of \<open>reorder_channel_copy\<close> lists.\<close>

definition copy_pairs :: "nat \<Rightarrow> (layout \<times> layout) list" where
  "copy_pairs n = (if n = 5 then
    [(AF_CHANNEL_LAYOUT_5_0_A, AF_CHANNEL_LAYOUT_5_0_B),
     (AF_CHANNEL_LAYOUT_5_0_A, AF_CHANNEL_LAYOUT_5_0_C),
     (AF_CHANNEL_LAYOUT_5_0_A, AF_CHANNEL_LAYOUT_5_0_D),
     (AF_CHANNEL_LAYOUT_5_0_B, AF_CHANNEL_LAYOUT_5_0_A),
     (AF_CHANNEL_LAYOUT_5_0_B, AF_CHANNEL_LAYOUT_5_0_C),
     (AF_CHANNEL_LAYOUT_5_0_B, AF_CHANNEL_LAYOUT_5_0_D),
     (AF_CHANNEL_LAYOUT_5_0_C, AF_CHANNEL_LAYOUT_5_0_A),
     (AF_CHANNEL_LAYOUT_5_0_C, AF_CHANNEL_LAYOUT_5_0_B),
     (AF_CHANNEL_LAYOUT_5_0_C, AF_CHANNEL_LAYOUT_5_0_D),
     (AF_CHANNEL_LAYOUT_5_0_D, AF_CHANNEL_LAYOUT_5_0_A),
     (AF_CHANNEL_LAYOUT_5_0_D, AF_CHANNEL_LAYOUT_5_0_B),
     (AF_CHANNEL_LAYOUT_5_0_D, AF_CHANNEL_LAYOUT_5_0_C)]
   else if n = 6 then
    [(AF_CHANNEL_LAYOUT_5_1_A, AF_CHANNEL_LAYOUT_5_1_B),
     (AF_CHANNEL_LAYOUT_5_1_A, AF_CHANNEL_LAYOUT_5_1_C),
     (AF_CHANNEL_LAYOUT_5_1_A, AF_CHANNEL_LAYOUT_5_1_D),
     (AF_CHANNEL_LAYOUT_5_1_B, AF_CHANNEL_LAYOUT_5_1_A),
     (AF_CHANNEL_LAYOUT_5_1_B, AF_CHANNEL_LAYOUT_5_1_C),
     (AF_CHANNEL_LAYOUT_5_1_B, AF_CHANNEL_LAYOUT_5_1_D),
     (AF_CHANNEL_LAYOUT_5_1_B, AF_CHANNEL_LAYOUT_5_1_E),
     (AF_CHANNEL_LAYOUT_5_1_C, AF_CHANNEL_LAYOUT_5_1_A),
     (AF_CHANNEL_LAYOUT_5_1_C, AF_CHANNEL_LAYOUT_5_1_B),
     (AF_CHANNEL_LAYOUT_5_1_C, AF_CHANNEL_LAYOUT_5_1_D),
     (AF_CHANNEL_LAYOUT_5_1_D, AF_CHANNEL_LAYOUT_5_1_A),
     (AF_CHANNEL_LAYOUT_5_1_D, AF_CHANNEL_LAYOUT_5_1_B),
     (AF_CHANNEL_LAYOUT_5_1_D, AF_CHANNEL_LAYOUT_5_1_C),
     (AF_CHANNEL_LAYOUT_5_1_E, AF_CHANNEL_LAYOUT_5_1_B),
     (AF_CHANNEL_LAYOUT_5_1_F, AF_CHANNEL_LAYOUT_5_1_B)]
   else if n = 8 then
    [(AF_CHANNEL_LAYOUT_7_1_A, AF_CHANNEL_LAYOUT_7_1_B),
     (AF_CHANNEL_LAYOUT_7_1_B, AF_CHANNEL_LAYOUT_7_1_A),
     (AF_CHANNEL_LAYOUT_7_1_D, AF_CHANNEL_LAYOUT_7_1_B)]
   else [])"

text \<open>The pairs that the \<open>switch\<close> of \<open>reorder_channel\<close> lists.\<close>

definition self_pairs :: "nat \<Rightarrow> (layout \<times> layout) list" where
  "self_pairs n = (if n = 5 then
    [(AF_CHANNEL_LAYOUT_5_0_A, AF_CHANNEL_LAYOUT_5_0_B),
     (AF_CHANNEL_LAYOUT_5_0_A, AF_CHANNEL_LAYOUT_5_0_C),
     (AF_CHANNEL_LAYOUT_5_0_A, AF_CHANNEL_LAYOUT_5_0_D),
     (AF_CHANNEL_LAYOUT_5_0_B, AF_CHANNEL_LAYOUT_5_0_A),
     (AF_CHANNEL_LAYOUT_5_0_B, AF_CHANNEL_LAYOUT_5_0_C),
     (AF_CHANNEL_LAYOUT_5_0_B, AF_CHANNEL_LAYOUT_5_0_D),
     (AF_CHANNEL_LAYOUT_5_0_C, AF_CHANNEL_LAYOUT_5_0_A),
     (AF_CHANNEL_LAYOUT_5_0_C, AF_CHANNEL_LAYOUT_5_0_B),
     (AF_CHANNEL_LAYOUT_5_0_C, AF_CHANNEL_LAYOUT_5_0_D),
     (AF_CHANNEL_LAYOUT_5_0_D, AF_CHANNEL_LAYOUT_5_0_A),
     (AF_CHANNEL_LAYOUT_5_0_D, AF_CHANNEL_LAYOUT_5_0_B),
     (AF_CHANNEL_LAYOUT_5_0_D, AF_CHANNEL_LAYOUT_5_0_C)]
   else if n = 6 then
    [(AF_CHANNEL_LAYOUT_5_1_A, AF_CHANNEL_LAYOUT_5_1_B),
     (AF_CHANNEL_LAYOUT_5_1_A, AF_CHANNEL_LAYOUT_5_1_C),
     (AF_CHANNEL_LAYOUT_5_1_A, AF_CHANNEL_LAYOUT_5_1_D),
     (AF_CHANNEL_LAYOUT_5_1_B, AF_CHANNEL_LAYOUT_5_1_A),
     (AF_CHANNEL_LAYOUT_5_1_B, AF_CHANNEL_LAYOUT_5_1_C),
     (AF_CHANNEL_LAYOUT_5_1_B, AF_CHANNEL_LAYOUT_5_1_D),
     (AF_CHANNEL_LAYOUT_5_1_B, AF_CHANNEL_LAYOUT_5_1_E),
     (AF_CHANNEL_LAYOUT_5_1_C, AF_CHANNEL_LAYOUT_5_1_A),
     (AF_CHANNEL_LAYOUT_5_1_C, AF_CHANNEL_LAYOUT_5_1_B),
     (AF_CHANNEL_LAYOUT_5_1_C, AF_CHANNEL_LAYOUT_5_1_D),
     (AF_CHANNEL_LAYOUT_5_1_D, AF_CHANNEL_LAYOUT_5_1_A),
     (AF_CHANNEL_LAYOUT_5_1_D, AF_CHANNEL_LAYOUT_5_1_B),
     (AF_CHANNEL_LAYOUT_5_1_D, AF_CHANNEL_LAYOUT_5_1_C),
     (AF_CHANNEL_LAYOUT_5_1_E, AF_CHANNEL_LAYOUT_5_1_B),
     (AF_CHANNEL_LAYOUT_5_1_F, AF_CHANNEL_LAYOUT_5_1_B)]
   else if n = 8 then
    [(AF_CHANNEL_LAYOUT_7_1_A, AF_CHANNEL_LAYOUT_7_1_B),
     (AF_CHANNEL_LAYOUT_7_1_B, AF_CHANNEL_LAYOUT_7_1_A),
     (AF_CHANNEL_LAYOUT_7_1_B, AF_CHANNEL_LAYOUT_7_1_D),
     (AF_CHANNEL_LAYOUT_7_1_C, AF_CHANNEL_LAYOUT_7_1_B),
     (AF_CHANNEL_LAYOUT_7_1_F, AF_CHANNEL_LAYOUT_7_1_B)]
   else [])"

text \<open>The constants as numbers, which makes the keys of the \<open>switch\<close> statements distinct numbers.\<close>

lemma layout_values:
  "AF_CHANNEL_LAYOUT_5_0_A = 27653"
  "AF_CHANNEL_LAYOUT_5_0_B = 27909"
  "AF_CHANNEL_LAYOUT_5_0_C = 28165"
  "AF_CHANNEL_LAYOUT_5_0_D = 28421"
  "AF_CHANNEL_LAYOUT_5_1_A = 28806"
  "AF_CHANNEL_LAYOUT_5_1_B = 29062"
  "AF_CHANNEL_LAYOUT_5_1_C = 29318"
  "AF_CHANNEL_LAYOUT_5_1_D = 29574"
  "AF_CHANNEL_LAYOUT_5_1_E = 29830"
  "AF_CHANNEL_LAYOUT_5_1_F = 30086"
  "AF_CHANNEL_LAYOUT_7_1_A = 30600"
  "AF_CHANNEL_LAYOUT_7_1_B = 30856"
  "AF_CHANNEL_LAYOUT_7_1_C = 31112"
  "AF_CHANNEL_LAYOUT_7_1_D = 31368"
  "AF_CHANNEL_LAYOUT_7_1_F = 31624"
  by (simp_all add: layout_defs)

lemma layout_keys:
  "layout_key 27653 27909 = 1812294917"
  "layout_key 27653 28165 = 1812295173"
  "layout_key 27653 28421 = 1812295429"
  "layout_key 27909 27653 = 1829071877"
  "layout_key 27909 28165 = 1829072389"
  "layout_key 27909 28421 = 1829072645"
  "layout_key 28165 27653 = 1845849093"
  "layout_key 28165 27909 = 1845849349"
  "layout_key 28165 28421 = 1845849861"
  "layout_key 28421 27653 = 1862626309"
  "layout_key 28421 27909 = 1862626565"
  "layout_key 28421 28165 = 1862626821"
  "layout_key 28806 29062 = 1887859078"
  "layout_key 28806 29318 = 1887859334"
  "layout_key 28806 29574 = 1887859590"
  "layout_key 29062 28806 = 1904636038"
  "layout_key 29062 29318 = 1904636550"
  "layout_key 29062 29574 = 1904636806"
  "layout_key 29062 29830 = 1904637062"
  "layout_key 29318 28806 = 1921413254"
  "layout_key 29318 29062 = 1921413510"
  "layout_key 29318 29574 = 1921414022"
  "layout_key 29574 28806 = 1938190470"
  "layout_key 29574 29062 = 1938190726"
  "layout_key 29574 29318 = 1938190982"
  "layout_key 29830 29062 = 1954967942"
  "layout_key 30086 29062 = 1971745158"
  "layout_key 30600 30856 = 2005432456"
  "layout_key 30856 30600 = 2022209416"
  "layout_key 30856 31368 = 2022210184"
  "layout_key 31112 30856 = 2038986888"
  "layout_key 31368 30856 = 2055764104"
  "layout_key 31624 30856 = 2072541320"
  by (simp_all add: layout_key_def)

lemma same_ch_num:
  "AF_IS_SAME_CH_NUM 27909 27653"
  "AF_IS_SAME_CH_NUM 28165 27653"
  "AF_IS_SAME_CH_NUM 28421 27653"
  "AF_IS_SAME_CH_NUM 27653 27909"
  "AF_IS_SAME_CH_NUM 28165 27909"
  "AF_IS_SAME_CH_NUM 28421 27909"
  "AF_IS_SAME_CH_NUM 27653 28165"
  "AF_IS_SAME_CH_NUM 27909 28165"
  "AF_IS_SAME_CH_NUM 28421 28165"
  "AF_IS_SAME_CH_NUM 27653 28421"
  "AF_IS_SAME_CH_NUM 27909 28421"
  "AF_IS_SAME_CH_NUM 28165 28421"
  "AF_IS_SAME_CH_NUM 29062 28806"
  "AF_IS_SAME_CH_NUM 29318 28806"
  "AF_IS_SAME_CH_NUM 29574 28806"
  "AF_IS_SAME_CH_NUM 28806 29062"
  "AF_IS_SAME_CH_NUM 29318 29062"
  "AF_IS_SAME_CH_NUM 29574 29062"
  "AF_IS_SAME_CH_NUM 29830 29062"
  "AF_IS_SAME_CH_NUM 28806 29318"
  "AF_IS_SAME_CH_NUM 29062 29318"
  "AF_IS_SAME_CH_NUM 29574 29318"
  "AF_IS_SAME_CH_NUM 28806 29574"
  "AF_IS_SAME_CH_NUM 29062 29574"
  "AF_IS_SAME_CH_NUM 29318 29574"
  "AF_IS_SAME_CH_NUM 29062 29830"
  "AF_IS_SAME_CH_NUM 29062 30086"
  "AF_IS_SAME_CH_NUM 30856 30600"
  "AF_IS_SAME_CH_NUM 30600 30856"
  "AF_IS_SAME_CH_NUM 31368 30856"
  "AF_IS_SAME_CH_NUM 30856 31112"
  "AF_IS_SAME_CH_NUM 30856 31368"
  "AF_IS_SAME_CH_NUM 30856 31624"
  by (simp_all add: AF_IS_SAME_CH_NUM_def)

lemma speakers_values [simp]:
  "speakers AF_CHANNEL_LAYOUT_5_0_A = [SpL, SpR, SpC, SpLs, SpRs]"
  "speakers AF_CHANNEL_LAYOUT_5_0_B = [SpL, SpR, SpLs, SpRs, SpC]"
  "speakers AF_CHANNEL_LAYOUT_5_0_C = [SpL, SpC, SpR, SpLs, SpRs]"
  "speakers AF_CHANNEL_LAYOUT_5_0_D = [SpC, SpL, SpR, SpLs, SpRs]"
  "speakers AF_CHANNEL_LAYOUT_5_1_A = [SpL, SpR, SpC, SpLFE, SpLs, SpRs]"
  "speakers AF_CHANNEL_LAYOUT_5_1_B = [SpL, SpR, SpLs, SpRs, SpC, SpLFE]"
  "speakers AF_CHANNEL_LAYOUT_5_1_C = [SpL, SpC, SpR, SpLs, SpRs, SpLFE]"
  "speakers AF_CHANNEL_LAYOUT_5_1_D = [SpC, SpL, SpR, SpLs, SpRs, SpLFE]"
  "speakers AF_CHANNEL_LAYOUT_5_1_E = [SpLFE, SpL, SpC, SpR, SpLs, SpRs]"
  "speakers AF_CHANNEL_LAYOUT_5_1_F = [SpC, SpL, SpR, SpLFE, SpLs, SpRs]"
  "speakers AF_CHANNEL_LAYOUT_7_1_A = [SpL, SpR, SpC, SpLFE, SpLs, SpRs, SpRls, SpRrs]"
  "speakers AF_CHANNEL_LAYOUT_7_1_B = [SpL, SpR, SpLs, SpRs, SpC, SpLFE, SpRls, SpRrs]"
  "speakers AF_CHANNEL_LAYOUT_7_1_C = [SpL, SpC, SpR, SpLs, SpRs, SpLFE, SpRls, SpRrs]"
  "speakers AF_CHANNEL_LAYOUT_7_1_D = [SpC, SpL, SpR, SpLs, SpRs, SpRls, SpRrs, SpLFE]"
  "speakers AF_CHANNEL_LAYOUT_7_1_F = [SpC, SpL, SpR, SpLFE, SpLs, SpRs, SpRls, SpRrs]"
  by (simp_all add: speakers_def layout_speakers_def layout_values)



section \<open>From permuted frames to speakers\<close>

definition perm_ok :: "nat \<Rightarrow> layout \<Rightarrow> layout \<Rightarrow> (nat \<Rightarrow> nat) \<Rightarrow> bool" where
  "perm_ok n s d p \<longleftrightarrow> length (speakers s) = n \<and> length (speakers d) = n
     \<and> distinct (speakers s) \<and> list_all (\<lambda>c. p c < n \<and> speakers d ! c = speakers s ! p c) [0..<n]"

lemma place_nth:
  assumes "distinct (speakers l)" "c < length (speakers l)"
  shows "place l (speakers l ! c) = c"
proof -
  have "takeWhile (\<lambda>x. x \<noteq> speakers l ! c) (speakers l) = take c (speakers l)"
    using assms by (intro takeWhile_eq_take_P_nth) (auto simp: nth_eq_iff_index_eq)
  then show ?thesis using assms(2) by (simp add: place_def)
qed

lemma nth_place:
  assumes "sp \<in> set (speakers l)"
  shows "place l sp < length (speakers l) \<and> speakers l ! place l sp = sp"
proof -
  obtain xs ys where "speakers l = xs @ sp # ys" "sp \<notin> set xs"
    using split_list_first [OF assms] by blast
  then have "place l sp < length (speakers l)"
    by (auto simp: place_def takeWhile_tail less_Suc_eq_le intro: le_trans [OF length_takeWhile_le])
  then show ?thesis using nth_length_takeWhile [of "\<lambda>x. x \<noteq> sp" "speakers l"]
    by (simp add: place_def)
qed

lemma frames_speakers:
  assumes "frames w n F p src m" "perm_ok n s d p"
  shows "same_speakers w F s d src m"
  unfolding same_speakers_def
proof (intro allI impI ballI)
  fix f sp assume f: "f < F" and sp: "sp \<in> set (speakers d)"
  let ?c = "place d sp"
  from nth_place [OF sp] assms(2) have c: "?c < n" "speakers d ! ?c = sp" by (auto simp: perm_ok_def)
  then have "p ?c < n" "speakers s ! p ?c = sp"
    using assms(2) by (auto simp: perm_ok_def list_all_iff)
  then have "place s sp = p ?c" using place_nth [of s "p ?c"] assms(2) by (auto simp: perm_ok_def)
  then show "els w m ! (f * length (speakers d) + place d sp)
      = els w src ! (f * length (speakers s) + place s sp)"
    using assms c f by (simp add: frames_def perm_ok_def)
qed

definition moved :: "nat \<Rightarrow> nat \<Rightarrow> layout \<Rightarrow> layout \<Rightarrow> bytes \<Rightarrow> nat \<Rightarrow> bytes option \<Rightarrow> bool" where
  "moved w F s d src len r \<longleftrightarrow> (\<exists>m. r = Some m \<and> length m = len \<and> same_speakers w F s d src m)"

lemma fits: "ss \<in> sample_sizes \<Longrightarrow> k * ss \<le> L \<Longrightarrow> k \<le> L div ss \<and> 0 < ss"
  by (auto simp: sample_sizes_def less_eq_div_iff_mult_less_eq)

section \<open>The helpers move speakers\<close>

lemma reorder_copy_speakers:
  assumes "ss \<in> sample_sizes" "F * n * ss \<le> length src" "F * n * ss \<le> length dest"
    and "perm_ok n s d (nth ps)" "length ps = n"
  shows "n = 5 \<Longrightarrow> ps = [s0, s1, s2, s3, s4] \<Longrightarrow> moved ss F s d src (length dest)
      (map_option snd (reorder_copy_5ch dest src (F * n) ss s0 s1 s2 s3 s4))"
    and "n = 6 \<Longrightarrow> ps = [s0, s1, s2, s3, s4, s5] \<Longrightarrow> moved ss F s d src (length dest)
      (map_option snd (reorder_copy_6ch dest src (F * n) ss s0 s1 s2 s3 s4 s5))"
    and "n = 8 \<Longrightarrow> ps = [s0, s1, s2, s3, s4, s5, s6, s7] \<Longrightarrow>
      moved ss F s d src (length dest)
      (map_option snd (reorder_copy_8ch dest src (F * n) ss s0 s1 s2 s3 s4 s5 s6 s7))"
proof -
  have "\<forall>p\<in>set ps. p < n"
    using assms(4,5) by (auto simp: perm_ok_def list_all_iff in_set_conv_nth)
  with fits [OF assms(1,2)] fits [OF assms(1,3)] assms(5)
  have "n = 0 \<or> (\<exists>m. for_step (F * n) n (\<lambda>i. copy_moves ss src i 0 ps) 0 dest = Some m
      \<and> length m = length dest \<and> frames ss n F (nth ps) src m)"
    using copy_moves_loop [of ss n ps F src dest] by auto
  then have "n = 0 \<or> (\<exists>m. for_step (F * n) n (\<lambda>i. copy_moves ss src i 0 ps) 0 dest = Some m
      \<and> length m = length dest \<and> same_speakers ss F s d src m)"
    using frames_speakers [OF _ assms(4)] by blast
  with assms(1) show
    "n = 5 \<Longrightarrow> ps = [s0, s1, s2, s3, s4] \<Longrightarrow> moved ss F s d src (length dest)
      (map_option snd (reorder_copy_5ch dest src (F * n) ss s0 s1 s2 s3 s4))"
    "n = 6 \<Longrightarrow> ps = [s0, s1, s2, s3, s4, s5] \<Longrightarrow> moved ss F s d src (length dest)
      (map_option snd (reorder_copy_6ch dest src (F * n) ss s0 s1 s2 s3 s4 s5))"
    "n = 8 \<Longrightarrow> ps = [s0, s1, s2, s3, s4, s5, s6, s7] \<Longrightarrow>
      moved ss F s d src (length dest)
      (map_option snd (reorder_copy_8ch dest src (F * n) ss s0 s1 s2 s3 s4 s5 s6 s7))"
    by (auto simp: reorder_copy_5ch_eq reorder_copy_6ch_eq reorder_copy_8ch_eq REORDER_COPY_moves moved_def)
qed

lemma reorder_self_2_speakers:
  assumes "ss \<in> sample_sizes" "F * n * ss \<le> length src" "perm_ok n s d (id(s0 := s1, s1 := s0))"
    and "distinct [s0, s1]" "\<forall>s\<in>set [s0, s1]. s < n" "n \<in> {5, 6}"
  shows "moved ss F s d src (length src)
      (map_option snd (reorder_self_2 src (F * n) ss n s0 s1))"
  using REORDER_SELF_SWAP_2_frames [OF _ assms(4,5), of ss F src] frames_speakers [OF _ assms(3)]
    fits [OF assms(1,2)] assms by (force simp: reorder_self_2_eq moved_def)

lemma reorder_self_3_speakers:
  assumes "ss \<in> sample_sizes" "F * n * ss \<le> length src" "perm_ok n s d (id(s0 := s1, s1 := s2, s2 := s0))"
    and "distinct [s0, s1, s2]" "\<forall>s\<in>set [s0, s1, s2]. s < n" "n \<in> {5, 6}"
  shows "moved ss F s d src (length src)
      (map_option snd (reorder_self_3 src (F * n) ss n s0 s1 s2))"
  using REORDER_SELF_SWAP_3_frames [OF _ assms(4,5), of ss F src] frames_speakers [OF _ assms(3)]
    fits [OF assms(1,2)] assms by (force simp: reorder_self_3_eq moved_def)

lemma reorder_self_4_step_1_speakers:
  assumes "ss \<in> sample_sizes" "F * n * ss \<le> length src" "perm_ok n s d (id(s0 := s1, s1 := s2, s2 := s3, s3 := s0))"
    and "distinct [s0, s1, s2, s3]" "\<forall>s\<in>set [s0, s1, s2, s3]. s < n" "n \<in> {5, 6, 8}"
  shows "moved ss F s d src (length src)
      (map_option snd (reorder_self_4_step_1 src (F * n) ss n s0 s1 s2 s3))"
  using REORDER_SELF_SWAP_4_STEP_1_frames [OF _ assms(4,5), of ss F src] frames_speakers [OF _ assms(3)]
    fits [OF assms(1,2)] assms by (force simp: reorder_self_4_step_1_eq moved_def)

lemma reorder_self_5_step_1_speakers:
  assumes "ss \<in> sample_sizes" "F * n * ss \<le> length src" "perm_ok n s d (id(s0 := s1, s1 := s2, s2 := s3, s3 := s4, s4 := s0))"
    and "distinct [s0, s1, s2, s3, s4]" "\<forall>s\<in>set [s0, s1, s2, s3, s4]. s < n" "n \<in> {5, 6, 8}"
  shows "moved ss F s d src (length src)
      (map_option snd (reorder_self_5_step_1 src (F * n) ss n s0 s1 s2 s3 s4))"
  using REORDER_SELF_SWAP_5_STEP_1_frames [OF _ assms(4,5), of ss F src] frames_speakers [OF _ assms(3)]
    fits [OF assms(1,2)] assms by (force simp: reorder_self_5_step_1_eq moved_def)

lemma reorder_self_2_3_speakers:
  assumes "ss \<in> sample_sizes" "F * 6 * ss \<le> length src" "perm_ok 6 s d (id(s0 := s1, s1 := s0, s2 := s3, s3 := s4, s4 := s2))"
    and "distinct [s0, s1, s2, s3, s4]" "\<forall>s\<in>set [s0, s1, s2, s3, s4]. s < 6"
  shows "moved ss F s d src (length src)
      (map_option snd (reorder_self_2_3 src (F * 6) ss s0 s1 s2 s3 s4))"
  using REORDER_SELF_SWAP_2_3_frames [OF _ assms(4,5), of ss F src] frames_speakers [OF _ assms(3)]
    fits [OF assms(1,2)] assms by (force simp: reorder_self_2_3_eq moved_def)

lemma reorder_self_3_3_speakers:
  assumes "ss \<in> sample_sizes" "F * 6 * ss \<le> length src" "perm_ok 6 s d (id(s0 := s1, s1 := s2, s2 := s0, s3 := s4, s4 := s5, s5 := s3))"
    and "distinct [s0, s1, s2, s3, s4, s5]" "\<forall>s\<in>set [s0, s1, s2, s3, s4, s5]. s < 6"
  shows "moved ss F s d src (length src)
      (map_option snd (reorder_self_3_3 src (F * 6) ss s0 s1 s2 s3 s4 s5))"
  using REORDER_SELF_SWAP_3_3_frames [OF _ assms(4,5), of ss F src] frames_speakers [OF _ assms(3)]
    fits [OF assms(1,2)] assms by (force simp: reorder_self_3_3_eq moved_def)

lemma reorder_self_2_4_speakers:
  assumes "ss \<in> sample_sizes" "F * n * ss \<le> length src" "perm_ok n s d (id(s0 := s1, s1 := s0, s2 := s3, s3 := s4, s4 := s5, s5 := s2))"
    and "distinct [s0, s1, s2, s3, s4, s5]" "\<forall>s\<in>set [s0, s1, s2, s3, s4, s5]. s < n" "n \<in> {6, 8}"
  shows "moved ss F s d src (length src)
      (map_option snd (reorder_self_2_4 src (F * n) ss n s0 s1 s2 s3 s4 s5))"
  using REORDER_SELF_SWAP_2_4_frames [OF _ assms(4,5), of ss F src] frames_speakers [OF _ assms(3)]
    fits [OF assms(1,2)] assms by (force simp: reorder_self_2_4_eq moved_def)


section \<open>The switch statements\<close>

text \<open>The two \<open>switch\<close> statements with the keys as numbers.\<close>

lemmas copy_keys = reorder_channel_copy_def [unfolded layout_values layout_keys Let_def]
lemmas self_keys = reorder_channel_def [unfolded layout_values layout_keys Let_def]
lemmas pair_values = copy_pairs_def [unfolded layout_values] self_pairs_def [unfolded layout_values]
lemmas speaker_values = speakers_def layout_speakers_def [unfolded layout_values]

lemmas eval_switch = copy_keys self_keys layout_keys same_ch_num

lemma copy_pairs_moved:
  assumes "(s, d) \<in> set (copy_pairs n)" "ss \<in> sample_sizes"
    and "F * n * ss \<le> length src" "F * n * ss \<le> length dest"
  shows "moved ss F s d src (length dest) (reorder_channel_copy src s dest d (F * n) ss)"
  using assms
  by (simp (no_asm_use) add: pair_values split: if_splits; elim disjE conjE)
    (hypsubst, simp only: eval_switch, simp (no_asm_simp) cong: if_weak_cong,
      rule reorder_copy_speakers [OF _ _ _ _ _ _ refl]; simp add: perm_ok_def speaker_values upt_rec)+


text \<open>
  Within one buffer: the A/B pairs of 5.1 and 7.1 swap pairs of samples as elements of twice the width
  (24-bit samples apart), the others permute samples.
\<close>

definition swap_pairs :: "nat \<Rightarrow> (layout \<times> layout) list" where
  "swap_pairs n = (if n = 6 then
     [(AF_CHANNEL_LAYOUT_5_1_A, AF_CHANNEL_LAYOUT_5_1_B), (AF_CHANNEL_LAYOUT_5_1_B, AF_CHANNEL_LAYOUT_5_1_A)]
   else if n = 8 then
     [(AF_CHANNEL_LAYOUT_7_1_A, AF_CHANNEL_LAYOUT_7_1_B), (AF_CHANNEL_LAYOUT_7_1_B, AF_CHANNEL_LAYOUT_7_1_A)]
   else [])"

lemmas swap_pairs_values = swap_pairs_def [unfolded layout_values]

lemmas reorder_self_speakers = reorder_self_2_speakers reorder_self_3_speakers reorder_self_4_step_1_speakers
  reorder_self_5_step_1_speakers reorder_self_2_3_speakers reorder_self_3_3_speakers reorder_self_2_4_speakers

lemma self_pairs_moved:
  assumes "(s, d) \<in> set (self_pairs n)" "(s, d) \<notin> set (swap_pairs n)" "(s, d) \<noteq> (AF_CHANNEL_LAYOUT_7_1_B, AF_CHANNEL_LAYOUT_7_1_D)"
    and "ss \<in> sample_sizes" "F * n * ss \<le> length src"
  shows "moved ss F s d src (length src) (reorder_channel src s d (F * n) ss)"
  using assms unfolding layout_values
  by (simp (no_asm_use) add: pair_values swap_pairs_values split: if_splits; elim disjE conjE; simp?)
    (hypsubst?, simp only: eval_switch, simp (no_asm_simp) cong: if_weak_cong,
      rule reorder_self_speakers; simp add: perm_ok_def speaker_values upt_rec)+

section \<open>Swaps of sample pairs, and the two-step conversion\<close>

lemma els_pair:
  assumes "0 < w" "k < length m div (2 * w)" "r < 2"
  shows "els w m ! (2 * k + r) = take w (drop (r * w) (els (2 * w) m ! k))"
proof -
  have "(k + 1) * (2 * w) \<le> length m" using assms index_lt_div [of "2 * w" k] by simp
  moreover have "(2 * k + r + 1) * w \<le> (k + 1) * (2 * w)"
    using assms(3) mult_le_mono1 [of "2 * k + r + 1" "2 * k + 2" w] by (simp add: algebra_simps)
  ultimately have "2 * k + r < length m div w" using assms(1) index_lt_div [of w "2 * k + r"] by simp
  moreover have "r = 0 \<or> r = 1" using assms(3) by auto
  ultimately show ?thesis
    using assms(2) by (auto simp: nth_els drop_take algebra_simps)
qed

lemma frames_pair:
  assumes "frames (2 * w) n F p src m" "0 < w" "\<forall>c<n. p c < n"
    and "F * n \<le> length src div (2 * w)" "length m = length src"
  shows "frames w (n * 2) F (\<lambda>c. 2 * p (c div 2) + c mod 2) src m"
  unfolding frames_def
proof (intro allI impI)
  fix f c assume f: "f < F" and c: "c < n * 2"
  let ?q = "c div 2" and ?r = "c mod 2"
  have q: "?q < n" using c by auto
  then have "p ?q < n" using assms(3) by simp
  with q f assms(4) have k: "f * n + ?q < length src div (2 * w)" "f * n + p ?q < length src div (2 * w)"
    using frame_index by blast+
  have c_eq: "f * (n * 2) + c = 2 * (f * n + ?q) + ?r" by (simp add: algebra_simps)
  have p_eq: "f * (n * 2) + (2 * p ?q + ?r) = 2 * (f * n + p ?q) + ?r" by (simp add: algebra_simps)
  show "els w m ! (f * (n * 2) + c) = els w src ! (f * (n * 2) + (2 * p ?q + ?r))"
    using els_pair [OF assms(2), of "f * n + ?q" m ?r] els_pair [OF assms(2), of "f * n + p ?q" src ?r]
      k assms(1,5) f q unfolding c_eq p_eq by (simp add: frames_def)
qed

lemma frames_trans:
  "frames w n F p a b \<Longrightarrow> frames w n F q b m \<Longrightarrow> \<forall>c<n. q c < n \<Longrightarrow> frames w n F (p \<circ> q) a m"
  by (simp add: frames_def)

lemma reorder_self_2_pairs_moved:
  assumes "(n = 3 \<and> ss \<in> {1, 2, 4}) \<or> (n = 4 \<and> ss \<in> {2, 4})" "F * (n * 2) * ss \<le> length src"
    and "perm_ok (n * 2) s d (\<lambda>c. 2 * (id(1 := 2, 2 := 1)) (c div 2) + c mod 2)"
  shows "moved ss F s d src (length src) (map_option snd (reorder_self_2 src (F * n) (ss * 2) n 1 2))"
proof -
  have ss: "0 < ss" using assms(1) by auto
  have fit: "F * n \<le> length src div (2 * ss)"
    using assms(2) ss by (simp add: less_eq_div_iff_mult_less_eq algebra_simps)
  have "\<exists>m. REORDER_SELF_SWAP_2 (2 * ss) src (F * n) n 1 2 = Some m \<and> length m = length src
      \<and> frames (2 * ss) n F (id(1 := 2, 2 := 1)) src m"
    by (rule REORDER_SELF_SWAP_2_frames) (use assms(1) ss fit in auto)
  then obtain m where m: "REORDER_SELF_SWAP_2 (2 * ss) src (F * n) n 1 2 = Some m" "length m = length src"
    and fr: "frames (2 * ss) n F (id(1 := 2, 2 := 1)) src m" by blast
  have "frames ss (n * 2) F (\<lambda>c. 2 * (id(1 := 2, 2 := 1)) (c div 2) + c mod 2) src m"
    by (rule frames_pair [OF fr ss _ fit m(2)]) (use assms(1) in auto)
  then have "same_speakers ss F s d src m" using assms(3) by (rule frames_speakers)
  moreover have "map_option snd (reorder_self_2 src (F * n) (ss * 2) n 1 2) = Some m"
    using m(1) assms(1) by (auto simp: reorder_self_2_pairs)
  ultimately show ?thesis using m(2) unfolding moved_def by blast
qed

lemma reorder_self_4_step_2_moved:
  assumes "F * n * 3 \<le> length src" "5 < n" "perm_ok n s d (id(2 := 4, 4 := 2, 3 := 5, 5 := 3))"
  shows "moved 3 F s d src (length src) (map_option snd (reorder_self_4_step_2 src (F * n) 3 n 2 3 4 5))"
  using REORDER_SELF_SWAP_4_STEP_2_frames [of 3 2 3 4 5 n F src] frames_speakers [OF _ assms(3)] assms(1,2)
  by (force simp: reorder_self_4_step_2_eq moved_def less_eq_div_iff_mult_less_eq)

lemma swap_switch:
  "(s, d) \<in> set (swap_pairs 6) \<Longrightarrow> reorder_channel src s d samples ss =
     (if ss \<noteq> 3 then map_option snd (reorder_self_2 src (samples div 2) (ss * 2) 3 1 2)
      else map_option snd (reorder_self_4_step_2 src samples ss 6 2 3 4 5))"
  "(s, d) \<in> set (swap_pairs 8) \<Longrightarrow> reorder_channel src s d samples ss =
     (if ss \<noteq> 3 then map_option snd (reorder_self_2 src (samples div 2) (ss * 2) 4 1 2)
      else map_option snd (reorder_self_4_step_2 src samples ss 8 2 3 4 5))"
  by (simp (no_asm_use) add: swap_pairs_values; elim disjE conjE; hypsubst; simp only: eval_switch;
      simp cong: if_weak_cong)+

lemma swap_perm_ok:
  "(s, d) \<in> set (swap_pairs 6) \<Longrightarrow>
    perm_ok (3 * 2) s d (\<lambda>c. 2 * (id(1 := 2, 2 := 1)) (c div 2) + c mod 2) \<and>
    perm_ok 6 s d (id(2 := 4, 4 := 2, 3 := 5, 5 := 3))"
  "(s, d) \<in> set (swap_pairs 8) \<Longrightarrow>
    perm_ok (4 * 2) s d (\<lambda>c. 2 * (id(1 := 2, 2 := 1)) (c div 2) + c mod 2) \<and>
    perm_ok 8 s d (id(2 := 4, 4 := 2, 3 := 5, 5 := 3))"
  by (simp (no_asm_use) add: swap_pairs_values; elim disjE conjE; hypsubst;
      simp add: perm_ok_def speaker_values upt_rec)+

lemma swap_pairs_moved:
  assumes pair: "(s, d) \<in> set (swap_pairs n)"
    and ss: "ss \<in> {1, 2, 3, 4}" "n = 8 \<longrightarrow> ss \<noteq> 1" and fit: "F * n * ss \<le> length src"
  shows "moved ss F s d src (length src) (reorder_channel src s d (F * n) ss)"
proof -
  consider "n = 6" | "n = 8"
    using pair by (auto simp: swap_pairs_def split: if_splits)
  then show ?thesis
  proof cases
    case 1
    have half: "F * 6 div 2 = F * 3" by simp
    note eqs = swap_switch(1) [OF pair [unfolded 1], where samples = "F * 6", unfolded half]
      and ok = swap_perm_ok(1) [OF pair [unfolded 1]]
    then show ?thesis
      using reorder_self_2_pairs_moved [of 3 ss F src s d] reorder_self_4_step_2_moved [of F 6 src s d]
        ss fit ok by (auto simp: 1 eqs)
  next
    case 2
    have half: "F * 8 div 2 = F * 4" by simp
    note eqs = swap_switch(2) [OF pair [unfolded 2], where samples = "F * 8", unfolded half]
      and ok = swap_perm_ok(2) [OF pair [unfolded 2]]
    then show ?thesis
      using reorder_self_2_pairs_moved [of 4 ss F src s d] reorder_self_4_step_2_moved [of F 8 src s d]
        ss fit ok by (auto simp: 2 eqs)
  qed
qed

lemma BD_moved:
  assumes "ss \<in> sample_sizes" "F * 8 * ss \<le> length src"
  shows "moved ss F AF_CHANNEL_LAYOUT_7_1_B AF_CHANNEL_LAYOUT_7_1_D src (length src)
    (reorder_channel src AF_CHANNEL_LAYOUT_7_1_B AF_CHANNEL_LAYOUT_7_1_D (F * 8) ss)"
proof -
  let ?p = "id(3 := 5, 5 := 3, 4 := 2, 2 := 1, 1 := 0, 0 := 4)"
  let ?q = "id(3 := 4, 4 := 5, 5 := 6, 6 := 7, 7 := 3)"
  have fit: "0 < ss" "F * 8 \<le> length src div ss" using fits [OF assms] by auto
  obtain a where a: "REORDER_SELF_SWAP_2_4 ss src (F * 8) 8 3 5 4 2 1 0 = Some a" "length a = length src"
    "frames ss 8 F ?p src a"
    using REORDER_SELF_SWAP_2_4_frames [of ss 3 5 4 2 1 0 8 F src] fit by auto
  obtain b where b: "REORDER_SELF_SWAP_5_STEP_1 ss a (F * 8) 8 3 4 5 6 7 = Some b" "length b = length a"
    "frames ss 8 F ?q a b"
    using REORDER_SELF_SWAP_5_STEP_1_frames [of ss 3 4 5 6 7 8 F a] fit a(2) by auto
  have "frames ss 8 F (?p \<circ> ?q) src b" by (rule frames_trans [OF a(3) b(3)]) auto
  moreover have "perm_ok 8 AF_CHANNEL_LAYOUT_7_1_B AF_CHANNEL_LAYOUT_7_1_D (?p \<circ> ?q)"
    by (simp add: perm_ok_def upt_rec)
  ultimately have spk: "same_speakers ss F AF_CHANNEL_LAYOUT_7_1_B AF_CHANNEL_LAYOUT_7_1_D src b"
    by (rule frames_speakers)
  have "reorder_channel src AF_CHANNEL_LAYOUT_7_1_B AF_CHANNEL_LAYOUT_7_1_D samples ss =
      do { m \<leftarrow> map_option snd (reorder_self_2_4 src samples ss 8 3 5 4 2 1 0);
        map_option snd (reorder_self_5_step_1 m samples ss 8 3 4 5 6 7) }" for samples
    unfolding layout_values by (simp only: eval_switch) (simp cong: if_weak_cong)
  then show ?thesis
    using a(1,2) b(1,2) spk assms(1) by (simp add: reorder_self_2_4_eq reorder_self_5_step_1_eq moved_def)
qed

section \<open>Frames determine the buffer\<close>

lemma concat_els: "0 < w \<Longrightarrow> length m = k * w \<Longrightarrow> concat (els w m) = m"
proof (induction k arbitrary: m)
  case 0
  then show ?case by (simp add: els_def)
next
  case (Suc k)
  then have len: "length m div w = Suc (length (drop w m) div w)" "length (drop w m) = k * w" by simp_all
  have "els w m = take w m # els w (drop w m)"
    by (simp add: els_def len upt_conv_Cons flip: map_Suc_upt del: upt_Suc)
      (simp add: ac_simps)
  then show ?case using Suc.IH [OF Suc.prems(1) len(2)] by simp
qed

lemma speakers_determine:
  assumes "0 < w" "length a = F * n * w" "length b = F * n * w" "length (speakers d) = n" "distinct (speakers d)"
    and same: "\<And>f sp. \<lbrakk>f < F; sp \<in> set (speakers d)\<rbrakk> \<Longrightarrow> els w a ! (f * n + place d sp) = els w b ! (f * n + place d sp)"
  shows "a = b"
proof -
  have "els w a = els w b"
  proof (rule nth_equalityI)
    show "length (els w a) = length (els w b)" using assms by simp
    fix j assume "j < length (els w a)"
    then have j: "j < F * n" using assms by simp
    then have n: "0 < n" by (cases n) auto
    then have f: "j div n < F" and c: "j mod n < n" using j by (simp_all add: less_mult_imp_div_less)
    then have "place d (speakers d ! (j mod n)) = j mod n" using place_nth assms by simp
    then show "els w a ! j = els w b ! j"
      using same [OF f, of "speakers d ! (j mod n)"] c assms(4) by simp
  qed
  then show ?thesis using concat_els [OF assms(1)] assms(2,3) by metis
qed

lemma pairs_speakers:
  assumes "(s, d) \<in> set (copy_pairs n) \<or> (s, d) \<in> set (self_pairs n)"
  shows "length (speakers s) = n \<and> length (speakers d) = n \<and> distinct (speakers s) \<and> distinct (speakers d)
    \<and> set (speakers s) = set (speakers d)"
proof -
  have "list_all (\<lambda>(s, d). length (speakers s) = n \<and> length (speakers d) = n \<and> distinct (speakers s)
      \<and> distinct (speakers d) \<and> set (speakers s) = set (speakers d)) (copy_pairs n @ self_pairs n)"
    by (auto simp: copy_pairs_def self_pairs_def)
  then show ?thesis using assms by (auto simp: list_all_iff)
qed

lemma self_all_moved:
  assumes "(s, d) \<in> set (self_pairs n)" "ss \<in> {1, 2, 3, 4, 8}" "F * n * ss \<le> length src"
    and "(s, d) \<in> set (swap_pairs n) \<Longrightarrow> ss \<noteq> 8 \<and> (n = 8 \<longrightarrow> ss \<noteq> 1)"
  shows "moved ss F s d src (length src) (reorder_channel src s d (F * n) ss)"
proof -
  have ss: "ss \<in> sample_sizes" using assms(2) by (simp add: sample_sizes_def)
  consider (swap) "(s, d) \<in> set (swap_pairs n)"
    | (BD) "(s, d) = (AF_CHANNEL_LAYOUT_7_1_B, AF_CHANNEL_LAYOUT_7_1_D)"
    | (other) "(s, d) \<notin> set (swap_pairs n)" "(s, d) \<noteq> (AF_CHANNEL_LAYOUT_7_1_B, AF_CHANNEL_LAYOUT_7_1_D)"
    by blast
  then show ?thesis
  proof cases
    case swap
    with swap_pairs_moved [OF swap _ _ assms(3)] assms(2,4) show ?thesis by blast
  next
    case BD
    then have "n = 8" using pairs_speakers [of s d n] assms(1) by simp
    with BD BD_moved [OF ss, of F src] assms(3) show ?thesis by simp
  next
    case other
    then show ?thesis by (rule self_pairs_moved [OF assms(1) _ _ ss assms(3)])
  qed
qed

section \<open>Properties\<close>

text \<open>
  C21: \<open>reorder_channel_copy\<close> between two layouts of its table, for every sample size the code supports and
  buffers that hold the samples, returns with no access out of bounds, and in every frame each
  speaker's sample stands at that speaker's place of the target layout.
\<close>

theorem reorder_channel_copy_correct:
  assumes "(s, d) \<in> set (copy_pairs n)" "ss \<in> {1, 2, 3, 4, 8}"
    and "F * n * ss \<le> length src" "F * n * ss \<le> length dest"
  shows "\<exists>m. reorder_channel_copy src s dest d (F * n) ss = Some m \<and> length m = length dest \<and>
    (\<forall>f<F. \<forall>sp\<in>set (speakers d). els ss m ! (f * n + place d sp) = els ss src ! (f * n + place s sp))"
proof -
  have "ss \<in> sample_sizes" using assms(2) by (simp add: sample_sizes_def)
  moreover have "length (speakers s) = n" "length (speakers d) = n"
    using pairs_speakers [of s d n] assms(1) by simp_all
  ultimately show ?thesis
    using copy_pairs_moved [OF assms(1) _ assms(3,4)] by (simp add: moved_def same_speakers_def)
qed

theorem reorder_channel_copy_correct_witness:
  "\<exists>m. reorder_channel_copy [1, 2, 3, 4, 5] AF_CHANNEL_LAYOUT_5_0_A [0, 0, 0, 0, 0] AF_CHANNEL_LAYOUT_5_0_D 5 1 = Some m
    \<and> length m = 5 \<and> els 1 m ! place AF_CHANNEL_LAYOUT_5_0_D SpC = [3]"
proof -
  let ?s = AF_CHANNEL_LAYOUT_5_0_A and ?d = AF_CHANNEL_LAYOUT_5_0_D
  have "(?s, ?d) \<in> set (copy_pairs 5)" by (simp add: copy_pairs_def)
  from reorder_channel_copy_correct [OF this, of 1 1 "[1, 2, 3, 4, 5]" "[0, 0, 0, 0, 0]"]
  obtain m where m: "reorder_channel_copy [1, 2, 3, 4, 5] ?s [0, 0, 0, 0, 0] ?d 5 1 = Some m" "length m = 5"
    and spk: "\<forall>f<1. \<forall>sp\<in>set (speakers ?d).
      els 1 m ! (f * 5 + place ?d sp) = els 1 [1, 2, 3, 4, 5] ! (f * 5 + place ?s sp)" by auto
  have "els 1 m ! place ?d SpC = els 1 [1, 2, 3, 4, 5] ! place ?s SpC" using spk by simp
  also have "\<dots> = [3]" by (simp add: place_def els_def upt_rec)
  finally show ?thesis using m by blast
qed









text \<open>
  The 5.1 A/B swap of 64-bit samples asks for 128-bit elements, which no case handles: the buffer
  keeps the source layout's order.
\<close>

theorem reorder_5_1_64bit_unchanged:
  "reorder_channel buf AF_CHANNEL_LAYOUT_5_1_A AF_CHANNEL_LAYOUT_5_1_B samples 8 = Some buf"
  using swap_switch(1) [of AF_CHANNEL_LAYOUT_5_1_A AF_CHANNEL_LAYOUT_5_1_B buf samples 8]
  by (simp add: swap_pairs_def reorder_self_2_def)


end
