(* ===== verification/Stream.thy ===== *)
theory Stream
  imports Prelude
begin

text \<open>
  stream/stream.c and the inline readers of stream/stream.h: the buffered byte stream all demuxers
  read from. A stream driver is the record of the function pointers of \<open>stream_t\<close> (and of its
  \<open>streaming_ctrl\<close>), each a function of the stream. What a driver writes into the buffer it is given is
  returned as a byte list next to the return value. Reading may retry after a reconnect and then call itself, so
  \<open>stream_read_internal\<close> is a partial function: \<open>None\<close> is "does not return". File positions are \<open>int64_t\<close>
  in the code and unbounded integers here: a media file is far below 2^63 bytes.
  \<open>seek\<close> and \<open>fill_buffer\<close> of stream/stream_file.c are the driver for local files.
\<close>

section \<open>State\<close>

definition STREAMTYPE_FILE :: int where "STREAMTYPE_FILE = 0"
definition STREAMTYPE_STREAM :: int where "STREAMTYPE_STREAM = 2"
definition STREAMTYPE_DS :: int where "STREAMTYPE_DS = 8"
definition STREAMTYPE_DVDNAV :: int where "STREAMTYPE_DVDNAV = 9"
definition STREAM_BUFFER_MIN :: int where "STREAM_BUFFER_MIN = 2048"
definition STREAM_BUFFER_SIZE :: int where "STREAM_BUFFER_SIZE = 2 * STREAM_BUFFER_MIN"
definition STREAM_MAX_SECTOR_SIZE :: int where "STREAM_MAX_SECTOR_SIZE = 8 * 1024"
definition STREAM_WRITE :: int where "STREAM_WRITE = 1"
definition MP_STREAM_SEEK_FW :: int where "MP_STREAM_SEEK_FW = 4"

lemmas stream_consts = STREAMTYPE_FILE_def STREAMTYPE_STREAM_def STREAMTYPE_DS_def STREAMTYPE_DVDNAV_def
  STREAM_BUFFER_MIN_def STREAM_BUFFER_SIZE_def STREAM_MAX_SECTOR_SIZE_def

record 'd stream =
  st_type :: int
  st_flags :: int
  st_sector_size :: int
  st_read_chunk :: int
  st_buf_pos :: int
  st_buf_len :: int
  st_pos :: int
  st_start_pos :: int
  st_end_pos :: int
  st_eof :: bool
  st_mode :: int
  st_buffer :: bytes
  st_priv :: 'd

type_synonym 'd reader = "'d stream \<Rightarrow> int \<Rightarrow> int \<times> bytes \<times> 'd stream"

record 'd driver =
  drv_fill_buffer :: "'d reader option"
  drv_seek :: "('d stream \<Rightarrow> int \<Rightarrow> bool \<times> 'd stream) option"
  drv_reset :: "('d stream \<Rightarrow> 'd stream) option"
  drv_streaming_read :: "'d reader option"
  drv_streaming_stopped :: "'d stream \<Rightarrow> bool"
  drv_streaming_seek :: "('d stream \<Rightarrow> int \<Rightarrow> int \<times> 'd stream) option"
  drv_fd_read :: "'d reader"
  drv_ds_read :: "'d reader"

text \<open>Writing \<open>data\<close> into a buffer at byte \<open>k\<close>.\<close>

definition overwrite :: "int \<Rightarrow> bytes \<Rightarrow> bytes \<Rightarrow> bytes" where
  "overwrite k data b = take (nat k) b @ data @ drop (nat k + length data) b"

section \<open>Seeking, resetting and reconnecting\<close>

definition stream_reset :: "'d driver \<Rightarrow> 'd stream \<Rightarrow> 'd stream" where
  "stream_reset drv s =
     (let s = (if st_eof s then s\<lparr>st_buf_pos := 0, st_buf_len := 0, st_eof := False\<rparr> else s)
      in case drv_reset drv of None \<Rightarrow> s | Some f \<Rightarrow> f s)"

definition stream_seek_internal :: "'d driver \<Rightarrow> 'd stream \<Rightarrow> int \<Rightarrow> int \<times> 'd stream" where
  "stream_seek_internal drv s newpos =
     (if newpos = 0 \<or> newpos \<noteq> st_pos s then
        if st_type s = STREAMTYPE_STREAM then
          (case drv_seek drv of
             Some seek \<Rightarrow> (let (ok, s') = seek s newpos in if \<not> ok then (0, s') else (-1, s'))
           | None \<Rightarrow>
             (case drv_streaming_seek drv of
                Some f \<Rightarrow> (let (r, s') = f s newpos in if r < 0 then (1, s') else (-1, s'))
              | None \<Rightarrow> if newpos < st_pos s then (1, s) else (-1, s)))
        else
          (case drv_seek drv of
             None \<Rightarrow> (0, s)
           | Some seek \<Rightarrow> (let (ok, s') = seek s newpos in if \<not> ok then (0, s') else (-1, s')))
      else (-1, s))"

definition MAX_RECONNECT_RETRIES :: nat where "MAX_RECONNECT_RETRIES = 5"

text \<open>The \<open>do ... while\<close> loop of \<open>stream_reconnect\<close>, counting the retries left.\<close>

fun stream_reconnect_loop :: "'d driver \<Rightarrow> int \<Rightarrow> nat \<Rightarrow> 'd stream \<Rightarrow> bool \<times> 'd stream" where
  "stream_reconnect_loop drv pos 0 s = (False, s)"
| "stream_reconnect_loop drv pos (Suc left) s =
     (let s = stream_reset drv (s\<lparr>st_eof := True\<rparr>);
          (r, s) = stream_seek_internal drv s pos
      in if r \<ge> 0 \<or> st_pos s \<noteq> pos then stream_reconnect_loop drv pos left s else (True, s))"

definition stream_reconnect :: "'d driver \<Rightarrow> 'd stream \<Rightarrow> bool \<times> 'd stream" where
  "stream_reconnect drv s = stream_reconnect_loop drv (st_pos s) MAX_RECONNECT_RETRIES s"

section \<open>Reading\<close>

text \<open>The \<open>switch\<close> of \<open>stream_read_internal\<close>.\<close>

definition stream_read_switch :: "'d driver \<Rightarrow> 'd reader" where
  "stream_read_switch drv s len =
     (if st_type s = STREAMTYPE_STREAM then
        (case drv_streaming_read drv of
           Some f \<Rightarrow>
             (let (len, data, s) = f s len
              in (len, data, if drv_streaming_stopped drv s \<and> (st_end_pos s = 0 \<or> st_pos s = st_end_pos s)
                   then s\<lparr>st_eof := True\<rparr> else s))
         | None \<Rightarrow>
           (case drv_fill_buffer drv of Some f \<Rightarrow> f s len | None \<Rightarrow> drv_fd_read drv s len))
      else if st_type s = STREAMTYPE_DS then drv_ds_read drv s len
      else (case drv_fill_buffer drv of Some f \<Rightarrow> f s len | None \<Rightarrow> (0, [], s)))"

partial_function (option) stream_read_internal ::
  "'d driver \<Rightarrow> 'd stream \<Rightarrow> int \<Rightarrow> (int \<times> bytes \<times> 'd stream) option" where
  "stream_read_internal drv s orig_len =
     (let r = stream_read_switch drv s orig_len; len = fst r; data = fst (snd r); s = snd (snd r)
      in if len \<le> 0 then
           if st_eof s \<or> (st_end_pos s \<noteq> 0 \<and> st_pos s = st_end_pos s) then Some (0, [], s\<lparr>st_eof := True\<rparr>)
           else if st_type s = STREAMTYPE_DVDNAV then Some (0, [], s\<lparr>st_eof := True\<rparr>)
           else (let rc = stream_reconnect drv s
             in if \<not> fst rc then Some (0, [], (snd rc)\<lparr>st_eof := True\<rparr>)
                else stream_read_internal drv ((snd rc)\<lparr>st_eof := True\<rparr>) orig_len)
         else Some (len, data, s\<lparr>st_eof := False, st_pos := st_pos s + len\<rparr>))"

text \<open>The \<open>while\<close> loop of \<open>stream_fill_buffer\<close>; a failing \<open>assert\<close> is \<open>None\<close>.\<close>

partial_function (option) stream_fill_more :: "'d driver \<Rightarrow> 'd stream \<Rightarrow> 'd stream option" where
  "stream_fill_more drv s =
     (if st_buf_len s < STREAM_BUFFER_MIN then
        if \<not> st_buf_len s + STREAM_BUFFER_MIN < STREAM_BUFFER_SIZE then None
        else Option.bind (stream_read_internal drv s STREAM_BUFFER_MIN) (\<lambda>r.
          if fst r \<le> 0 then Some (snd (snd r))
          else stream_fill_more drv ((snd (snd r))\<lparr>
            st_buffer := overwrite (st_buf_len s) (fst (snd r)) (st_buffer (snd (snd r))),
            st_buf_len := st_buf_len (snd (snd r)) + fst r\<rparr>))
      else Some s)"

definition stream_fill_buffer :: "'d driver \<Rightarrow> 'd stream \<Rightarrow> (int \<times> 'd stream) option" where
  "stream_fill_buffer drv s = do {
     (len, data, s) \<leftarrow> stream_read_internal drv s STREAM_BUFFER_SIZE;
     if len \<le> 0 then Some (0, s)
     else do {
       s \<leftarrow> stream_fill_more drv (s\<lparr>st_buffer := overwrite 0 data (st_buffer s), st_buf_pos := 0, st_buf_len := len\<rparr>);
       Some (st_buf_len s, s\<lparr>st_eof := False\<rparr>) } }"

section \<open>The inline readers of stream.h\<close>

text \<open>
  \<open>fill\<close> is \<open>cache_stream_fill_buffer\<close>: \<open>stream_fill_buffer\<close> for a stream without a cache. Reading the buffer
  outside the \<open>buffer\<close> array is \<open>None\<close>.
\<close>

type_synonym 'd filler = "'d stream \<Rightarrow> (int \<times> 'd stream) option"

definition buffer_byte :: "'d stream \<Rightarrow> byte option" where
  "buffer_byte s = (if 0 \<le> st_buf_pos s \<and> nat (st_buf_pos s) < length (st_buffer s)
     then Some (st_buffer s ! nat (st_buf_pos s)) else None)"

definition stream_tell :: "'d stream \<Rightarrow> int" where
  "stream_tell s = st_pos s + st_buf_pos s - st_buf_len s"

definition stream_read_char :: "'d filler \<Rightarrow> 'd stream \<Rightarrow> (int \<times> 'd stream) option" where
  "stream_read_char fill s =
     (if st_buf_pos s < st_buf_len s then do {
        b \<leftarrow> buffer_byte s; Some (uint b, s\<lparr>st_buf_pos := st_buf_pos s + 1\<rparr>) }
      else do {
        (r, s) \<leftarrow> fill s;
        if r \<noteq> 0 then do { b \<leftarrow> buffer_byte s; Some (uint b, s\<lparr>st_buf_pos := st_buf_pos s + 1\<rparr>) }
        else Some (-256, s) })"

text \<open>\<open>y=(y<<8)|stream_read_char(s)\<close> on \<open>unsigned int\<close>; the value -256 at end of file is converted.\<close>

unbundle bit_operations_syntax

definition shift_in :: "'a::len word \<Rightarrow> int \<Rightarrow> 'a word" where
  "shift_in y c = push_bit 8 y OR word_of_int c"

definition stream_read_word :: "'d filler \<Rightarrow> 'd stream \<Rightarrow> (32 word \<times> 'd stream) option" where
  "stream_read_word fill s = do {
     (x, s) \<leftarrow> stream_read_char fill s;
     (y, s) \<leftarrow> stream_read_char fill s;
     Some (shift_in (word_of_int x) y, s) }"

definition stream_read_dword :: "'d filler \<Rightarrow> 'd stream \<Rightarrow> (32 word \<times> 'd stream) option" where
  "stream_read_dword fill s = do {
     (c, s) \<leftarrow> stream_read_char fill s; let y = word_of_int c;
     (c, s) \<leftarrow> stream_read_char fill s; let y = shift_in y c;
     (c, s) \<leftarrow> stream_read_char fill s; let y = shift_in y c;
     (c, s) \<leftarrow> stream_read_char fill s;
     Some (shift_in y c, s) }"

definition stream_read_word_le :: "'d filler \<Rightarrow> 'd stream \<Rightarrow> (32 word \<times> 'd stream) option" where
  "stream_read_word_le fill s = do {
     (x, s) \<leftarrow> stream_read_char fill s;
     (y, s) \<leftarrow> stream_read_char fill s;
     Some (push_bit 8 (word_of_int y) OR word_of_int x, s) }"

definition stream_read_dword_le :: "'d filler \<Rightarrow> 'd stream \<Rightarrow> (32 word \<times> 'd stream) option" where
  "stream_read_dword_le fill s = do {
     (c0, s) \<leftarrow> stream_read_char fill s;
     (c1, s) \<leftarrow> stream_read_char fill s;
     (c2, s) \<leftarrow> stream_read_char fill s;
     (c3, s) \<leftarrow> stream_read_char fill s;
     Some (word_of_int c0 OR push_bit 8 (word_of_int c1) OR push_bit 16 (word_of_int c2)
       OR push_bit 24 (word_of_int c3), s) }"

definition stream_read_qword :: "'d filler \<Rightarrow> 'd stream \<Rightarrow> (64 word \<times> 'd stream) option" where
  "stream_read_qword fill s = do {
     (c, s) \<leftarrow> stream_read_char fill s; let y = word_of_int c;
     (c, s) \<leftarrow> stream_read_char fill s; let y = shift_in y c;
     (c, s) \<leftarrow> stream_read_char fill s; let y = shift_in y c;
     (c, s) \<leftarrow> stream_read_char fill s; let y = shift_in y c;
     (c, s) \<leftarrow> stream_read_char fill s; let y = shift_in y c;
     (c, s) \<leftarrow> stream_read_char fill s; let y = shift_in y c;
     (c, s) \<leftarrow> stream_read_char fill s; let y = shift_in y c;
     (c, s) \<leftarrow> stream_read_char fill s;
     Some (shift_in y c, s) }"

definition stream_read_qword_le :: "'d filler \<Rightarrow> 'd stream \<Rightarrow> (64 word \<times> 'd stream) option" where
  "stream_read_qword_le fill s = do {
     (lo, s) \<leftarrow> stream_read_dword_le fill s;
     (hi, s) \<leftarrow> stream_read_dword_le fill s;
     Some (ucast lo OR push_bit 32 (ucast hi), s) }"

definition stream_read_int24 :: "'d filler \<Rightarrow> 'd stream \<Rightarrow> (32 word \<times> 'd stream) option" where
  "stream_read_int24 fill s = do {
     (c, s) \<leftarrow> stream_read_char fill s; let y = word_of_int c;
     (c, s) \<leftarrow> stream_read_char fill s; let y = shift_in y c;
     (c, s) \<leftarrow> stream_read_char fill s;
     Some (shift_in y c, s) }"

text \<open>\<open>memcpy(mem,&s->buffer[s->buf_pos],x)\<close>.\<close>

definition buffer_slice :: "'d stream \<Rightarrow> int \<Rightarrow> bytes option" where
  "buffer_slice s x = (if 0 \<le> st_buf_pos s \<and> 0 \<le> x \<and> st_buf_pos s + x \<le> int (length (st_buffer s))
     then Some (take (nat x) (drop (nat (st_buf_pos s)) (st_buffer s))) else None)"

text \<open>\<open>stream_read\<close>: the result is (return value, bytes stored in \<open>mem\<close>, stream).\<close>

partial_function (option) stream_read_loop ::
  "'d filler \<Rightarrow> int \<Rightarrow> int \<Rightarrow> bytes \<Rightarrow> 'd stream \<Rightarrow> (int \<times> bytes \<times> 'd stream) option" where
  "stream_read_loop fill count len mem s =
     (if len > 0 then
        Option.bind (if st_buf_len s - st_buf_pos s = 0 then fill s else Some (1, s)) (\<lambda>r.
          if fst r = 0 then Some (count - len, mem, snd r)
          else Option.bind (Some (min (st_buf_len (snd r) - st_buf_pos (snd r)) len)) (\<lambda>x.
            Option.bind (buffer_slice (snd r) x) (\<lambda>data.
              stream_read_loop fill count (len - x) (mem @ data) ((snd r)\<lparr>st_buf_pos := st_buf_pos (snd r) + x\<rparr>))))
      else Some (count, mem, s))"

definition stream_read :: "'d filler \<Rightarrow> 'd stream \<Rightarrow> int \<Rightarrow> (int \<times> bytes \<times> 'd stream) option" where
  "stream_read fill s count = stream_read_loop fill count count [] s"

text \<open>\<open>cache_stream_seek_long\<close> is \<open>seek_long\<close> here: \<open>stream_seek_long\<close> for a stream without a cache.\<close>

definition stream_seek :: "('d stream \<Rightarrow> int \<Rightarrow> (int \<times> 'd stream) option) \<Rightarrow> 'd stream \<Rightarrow> int \<Rightarrow> (int \<times> 'd stream) option" where
  "stream_seek seek_long s pos =
     (let pos = (if pos < 0 then 0 else pos)
      in if st_buf_len s = 0 \<and> st_pos s = pos then Some (1, s)
      else if pos < st_pos s \<and> pos - (st_pos s - st_buf_len s) \<ge> 0 then
        Some (1, s\<lparr>st_buf_pos := pos - (st_pos s - st_buf_len s)\<rparr>)
      else seek_long s pos)"

partial_function (option) stream_skip_loop :: "'d filler \<Rightarrow> int \<Rightarrow> 'd stream \<Rightarrow> (int \<times> 'd stream) option" where
  "stream_skip_loop fill len s =
     (if len > 0 then
        Option.bind (if st_buf_len s - st_buf_pos s = 0 then fill s else Some (1, s)) (\<lambda>r.
          if fst r = 0 then Some (0, snd r)
          else Option.bind (Some (min (st_buf_len (snd r) - st_buf_pos (snd r)) len)) (\<lambda>x.
            stream_skip_loop fill (len - x) ((snd r)\<lparr>st_buf_pos := st_buf_pos (snd r) + x\<rparr>)))
      else Some (1, s))"

definition stream_skip :: "'d filler \<Rightarrow> ('d stream \<Rightarrow> int \<Rightarrow> (int \<times> 'd stream) option) \<Rightarrow> 'd stream \<Rightarrow> int
    \<Rightarrow> (int \<times> 'd stream) option" where
  "stream_skip fill seek_long s len =
     (if len < 0 \<or> (len > 2 * STREAM_BUFFER_SIZE \<and> st_flags s AND MP_STREAM_SEEK_FW \<noteq> 0) then
        stream_seek seek_long s (stream_tell s + len)
      else stream_skip_loop fill len s)"

section \<open>stream_seek_long\<close>

text \<open>\<open>while(s->pos<newpos) if(stream_fill_buffer(s)<=0) break;\<close>\<close>

partial_function (option) stream_forward :: "'d filler \<Rightarrow> int \<Rightarrow> 'd stream \<Rightarrow> 'd stream option" where
  "stream_forward fill newpos s =
     (if st_pos s < newpos then
        Option.bind (fill s) (\<lambda>r. if fst r \<le> 0 then Some (snd r) else stream_forward fill newpos (snd r))
      else Some s)"

text \<open>\<open>while(stream_fill_buffer(s) > 0 && pos >= 0)\<close>\<close>

partial_function (option) stream_seek_in_buffer :: "'d filler \<Rightarrow> int \<Rightarrow> 'd stream \<Rightarrow> (int \<times> 'd stream) option" where
  "stream_seek_in_buffer fill pos s =
     Option.bind (fill s) (\<lambda>r.
       if fst r > 0 \<and> pos \<ge> 0 then
         if pos \<le> st_buf_len (snd r) then Some (1, (snd r)\<lparr>st_buf_pos := pos\<rparr>)
         else stream_seek_in_buffer fill (pos - st_buf_len (snd r)) (snd r)
       else Some (0, snd r))"

text \<open>\<open>newpos\<close>: the start of the sector or of the aligned buffer that holds \<open>pos\<close>.\<close>

definition seek_newpos :: "'d stream \<Rightarrow> int \<Rightarrow> int" where
  "seek_newpos s pos = (if st_sector_size s \<noteq> 0 then (pos div st_sector_size s) * st_sector_size s
     else pos AND NOT (STREAM_BUFFER_SIZE - 1))"

definition stream_seek_long :: "'d driver \<Rightarrow> 'd stream \<Rightarrow> int \<Rightarrow> (int \<times> 'd stream) option" where
  "stream_seek_long drv s pos =
     (let s = s\<lparr>st_buf_pos := 0, st_buf_len := 0\<rparr>
      in if st_mode s = STREAM_WRITE then
        (case drv_seek drv of None \<Rightarrow> Some (0, s)
         | Some seek \<Rightarrow> (let (ok, s) = seek s pos in if \<not> ok then Some (0, s) else Some (1, s)))
      else
        (let newpos = seek_newpos s pos;
             pos = pos - newpos;
             (res, s) = stream_seek_internal drv s newpos
         in if res \<ge> 0 then Some (res, s)
         else do {
           s \<leftarrow> stream_forward (stream_fill_buffer drv) newpos s;
           stream_seek_in_buffer (stream_fill_buffer drv) pos s }))"

section \<open>The driver for local files (stream_file.c)\<close>

text \<open>
  The file descriptor: the file's bytes and the offset. \<open>read(2)\<close> gives at most \<open>fd_chunk\<close> bytes
  per call (POSIX allows short reads); 0 at the end of the file. \<open>lseek(2)\<close> fails on a pipe.
\<close>

record fd_state =
  fd_content :: bytes
  fd_offset :: nat
  fd_chunk :: nat
  fd_seekable :: bool

definition fd_read :: "fd_state \<Rightarrow> int \<Rightarrow> int \<times> bytes \<times> fd_state" where
  "fd_read fd n =
     (let data = take (min (nat n) (fd_chunk fd)) (drop (fd_offset fd) (fd_content fd))
      in (int (length data), data, fd\<lparr>fd_offset := fd_offset fd + length data\<rparr>))"

definition file_fd_read :: "fd_state reader" where
  "file_fd_read s n = (case fd_read (st_priv s) n of (r, data, fd) \<Rightarrow> (r, data, s\<lparr>st_priv := fd\<rparr>))"

definition file_fill_buffer :: "fd_state reader" where
  "file_fill_buffer s max_len =
     (let (r, data, s) = file_fd_read s max_len;
          s = (if max_len \<noteq> 0 \<and> r = 0 then s\<lparr>st_eof := True\<rparr> else s)
      in (if r \<le> 0 then -1 else r, data, s))"

definition file_seek :: "fd_state stream \<Rightarrow> int \<Rightarrow> bool \<times> fd_state stream" where
  "file_seek s newpos =
     (let s = s\<lparr>st_pos := newpos\<rparr>
      in if \<not> fd_seekable (st_priv s) \<or> newpos < 0 then (False, s\<lparr>st_eof := True\<rparr>)
      else (True, s\<lparr>st_priv := (st_priv s)\<lparr>fd_offset := nat newpos\<rparr>\<rparr>))"

definition file_driver :: "fd_state driver" where
  "file_driver = \<lparr>drv_fill_buffer = Some file_fill_buffer, drv_seek = Some file_seek, drv_reset = None,
     drv_streaming_read = None, drv_streaming_stopped = (\<lambda>_. False), drv_streaming_seek = None,
     drv_fd_read = file_fd_read, drv_ds_read = (\<lambda>s n. (0, [], s))\<rparr>"

section \<open>Slices of a byte list\<close>

text \<open>The \<open>n\<close> bytes of \<open>c\<close> from byte \<open>p\<close> on.\<close>

definition segment :: "bytes \<Rightarrow> int \<Rightarrow> int \<Rightarrow> bytes" where
  "segment c p n = take (nat n) (drop (nat p) c)"

lemma length_segment: "0 \<le> p \<Longrightarrow> 0 \<le> n \<Longrightarrow> p + n \<le> int (length c) \<Longrightarrow> length (segment c p n) = nat n"
  by (simp add: segment_def)

lemma segment_0 [simp]: "segment c p 0 = []"
  by (simp add: segment_def)

lemma segment_append:
  "0 \<le> p \<Longrightarrow> 0 \<le> m \<Longrightarrow> 0 \<le> n \<Longrightarrow> segment c p m @ segment c (p + m) n = segment c p (m + n)"
  by (simp add: segment_def nat_add_distrib take_add add.commute)

lemma segment_overwrite:
  "0 \<le> k \<Longrightarrow> nat k \<le> length b \<Longrightarrow> length data = nat n \<Longrightarrow> 0 \<le> n \<Longrightarrow>
    segment (overwrite k data b) 0 (k + n) = segment b 0 k @ data"
  by (simp add: segment_def overwrite_def nat_add_distrib)

lemma length_overwrite:
  "nat k + length data \<le> length b \<Longrightarrow> length (overwrite k data b) = length b"
  by (simp add: overwrite_def)

lemma segment_segment:
  assumes "0 \<le> p" "0 \<le> q" "0 \<le> n" "q + n \<le> m"
  shows "segment (segment c p m) q n = segment c (p + q) n"
proof -
  have "nat n \<le> nat m - nat q" using assms by linarith
  moreover have "nat (p + q) = nat q + nat p" using assms by (simp add: nat_add_distrib)
  ultimately show ?thesis by (simp only: segment_def drop_take take_take drop_drop min_absorb1)
qed

section \<open>What a driver promises\<close>

text \<open>
  A driver of a stream whose bytes are \<open>content\<close>: \<open>at d p\<close> says that the driver's own state \<open>d\<close>
  stands at byte \<open>p\<close>. A read before the end yields at least one byte and at most the bytes asked for,
  a read at the end yields none and marks the end.
\<close>

locale stream_driver =
  fixes drv :: "'d driver" and content :: bytes and at :: "'d \<Rightarrow> int \<Rightarrow> bool" and ty :: int
  assumes read_bytes: "at (st_priv s) (st_pos s) \<Longrightarrow> st_type s = ty \<Longrightarrow> 0 \<le> st_pos s \<Longrightarrow>
      st_pos s < int (length content) \<Longrightarrow> 0 < n \<Longrightarrow>
      \<exists>k d e. 0 < k \<and> k \<le> n \<and> st_pos s + k \<le> int (length content) \<and> at d (st_pos s + k) \<and>
        stream_read_switch drv s n = (k, segment content (st_pos s) k, s\<lparr>st_priv := d, st_eof := e\<rparr>)"
    and read_end: "at (st_priv s) (int (length content)) \<Longrightarrow> st_type s = ty \<Longrightarrow>
      st_pos s = int (length content) \<Longrightarrow> 0 < n \<Longrightarrow>
      \<exists>k d. k \<le> 0 \<and> at d (st_pos s) \<and> stream_read_switch drv s n = (k, [], s\<lparr>st_priv := d, st_eof := True\<rparr>)"
begin

text \<open>The stream is at a position of the content and its buffer holds the bytes before that position.\<close>

definition stream_ok :: "'d stream \<Rightarrow> bool" where
  "stream_ok s \<longleftrightarrow> at (st_priv s) (st_pos s) \<and> st_type s = ty \<and> st_pos s \<le> int (length content) \<and>
     0 \<le> st_buf_pos s \<and> st_buf_pos s \<le> st_buf_len s \<and> st_buf_len s \<le> st_pos s \<and>
     length (st_buffer s) = nat STREAM_MAX_SECTOR_SIZE \<and>
     st_buf_len s \<le> STREAM_BUFFER_SIZE \<and> st_mode s \<noteq> STREAM_WRITE \<and> 0 \<le> st_sector_size s \<and>
     segment (st_buffer s) 0 (st_buf_len s) = segment content (st_pos s - st_buf_len s) (st_buf_len s)"

lemma read_internal_bytes:
  assumes "at (st_priv s) (st_pos s)" "st_type s = ty" "0 \<le> st_pos s" "st_pos s < int (length content)" "0 < n"
  shows "\<exists>k d. 0 < k \<and> k \<le> n \<and> st_pos s + k \<le> int (length content) \<and> at d (st_pos s + k) \<and>
    stream_read_internal drv s n = Some (k, segment content (st_pos s) k,
      s\<lparr>st_priv := d, st_eof := False, st_pos := st_pos s + k\<rparr>)"
proof -
  from read_bytes [OF assms] obtain k d e where "0 < k" "k \<le> n" "st_pos s + k \<le> int (length content)"
    "at d (st_pos s + k)" "stream_read_switch drv s n = (k, segment content (st_pos s) k, s\<lparr>st_priv := d, st_eof := e\<rparr>)"
    by blast
  then show ?thesis
    by (intro exI [of _ k] exI [of _ d]) (subst stream_read_internal.simps, simp)
qed

lemma read_internal_end:
  assumes "at (st_priv s) (int (length content))" "st_type s = ty" "st_pos s = int (length content)" "0 < n"
  shows "\<exists>d. at d (st_pos s) \<and> stream_read_internal drv s n = Some (0, [], s\<lparr>st_priv := d, st_eof := True\<rparr>)"
proof -
  from read_end [OF assms] obtain k d where "k \<le> 0" "at d (st_pos s)"
    "stream_read_switch drv s n = (k, [], s\<lparr>st_priv := d, st_eof := True\<rparr>)" by blast
  then show ?thesis
    by (intro exI [of _ d]) (subst stream_read_internal.simps, simp add: stream.defs)
qed

text \<open>What \<open>stream_fill_buffer\<close> maintains while it appends to the buffer: the buffer starts at \<open>p\<close>.\<close>

definition filling :: "int \<Rightarrow> 'd stream \<Rightarrow> bool" where
  "filling p s \<longleftrightarrow> stream_ok s \<and> st_buf_pos s = 0 \<and> 0 < st_buf_len s \<and> st_pos s - st_buf_len s = p"

lemma fill_more:
  "filling p s \<Longrightarrow> \<exists>s'. stream_fill_more drv s = Some s' \<and> filling p s' \<and> st_buf_len s' \<le> STREAM_BUFFER_SIZE"
proof (induction "nat (STREAM_BUFFER_MIN - st_buf_len s)" arbitrary: s rule: less_induct)
  case less
  show ?case
  proof (cases "st_buf_len s < STREAM_BUFFER_MIN")
    case False
    then show ?thesis using less.prems
      by (subst stream_fill_more.simps) (auto simp: filling_def stream_ok_def)
  next
    case True
    have ok: "stream_ok s" "0 < st_buf_len s" "st_buf_pos s = 0" "p = st_pos s - st_buf_len s"
      using less.prems by (auto simp: filling_def)
    have basic: "at (st_priv s) (st_pos s)" "st_type s = ty" "0 \<le> st_pos s" "st_pos s \<le> int (length content)"
      "length (st_buffer s) = 8192" "st_buf_len s < 2048"
      using ok True by (auto simp: stream_ok_def stream_consts)
    show ?thesis
    proof (cases "st_pos s < int (length content)")
      case False
      then have "st_pos s = int (length content)" using basic by simp
      with read_internal_end [of s STREAM_BUFFER_MIN] basic obtain d where d: "at d (st_pos s)"
        "stream_read_internal drv s STREAM_BUFFER_MIN = Some (0, [], s\<lparr>st_priv := d, st_eof := True\<rparr>)"
        by (auto simp: stream_consts)
      then show ?thesis using True ok
        by (subst stream_fill_more.simps) (auto simp: filling_def stream_ok_def stream_consts)
    next
      case inside: True
      from read_internal_bytes [OF basic(1-3) inside, of STREAM_BUFFER_MIN] obtain k d where
        k: "0 < k" "k \<le> 2048" "st_pos s + k \<le> int (length content)" "at d (st_pos s + k)"
        "stream_read_internal drv s STREAM_BUFFER_MIN = Some (k, segment content (st_pos s) k,
          s\<lparr>st_priv := d, st_eof := False, st_pos := st_pos s + k\<rparr>)" by (auto simp: stream_consts)
      let ?s = "s\<lparr>st_priv := d, st_eof := False, st_pos := st_pos s + k,
        st_buffer := overwrite (st_buf_len s) (segment content (st_pos s) k) (st_buffer s),
        st_buf_len := st_buf_len s + k\<rparr>"
      have len: "length (segment content (st_pos s) k) = nat k" using k basic by (simp add: length_segment)
      have "segment (overwrite (st_buf_len s) (segment content (st_pos s) k) (st_buffer s)) 0 (st_buf_len s + k)
          = segment content p (st_buf_len s + k)"
        using segment_overwrite [OF _ _ len, of "st_buf_len s" "st_buffer s"] basic k ok segment_append [of p "st_buf_len s" k content]
        by (simp add: stream_ok_def)
      then have "filling p ?s" using ok k basic len
        by (simp add: filling_def stream_ok_def length_overwrite stream_consts)
      moreover have "nat (STREAM_BUFFER_MIN - st_buf_len ?s) < nat (STREAM_BUFFER_MIN - st_buf_len s)"
        using k basic by (simp add: stream_consts)
      moreover have "stream_fill_more drv s = stream_fill_more drv ?s"
        using k basic by (subst stream_fill_more.simps) (simp add: stream_consts)
      ultimately show ?thesis using less.hyps [of ?s] by simp
    qed
  qed
qed

lemma fill_bytes:
  assumes "stream_ok s" "st_pos s < int (length content)"
  shows "\<exists>s'. stream_fill_buffer drv s = Some (st_buf_len s', s') \<and> filling (st_pos s) s'"
proof -
  have basic: "at (st_priv s) (st_pos s)" "st_type s = ty" "0 \<le> st_pos s" "length (st_buffer s) = 8192"
    "st_mode s \<noteq> STREAM_WRITE" "0 \<le> st_sector_size s"
    using assms by (auto simp: stream_ok_def stream_consts)
  from read_internal_bytes [OF basic(1-3) assms(2), of STREAM_BUFFER_SIZE] obtain k d where
    k: "0 < k" "k \<le> 4096" "st_pos s + k \<le> int (length content)" "at d (st_pos s + k)"
    "stream_read_internal drv s STREAM_BUFFER_SIZE = Some (k, segment content (st_pos s) k,
      s\<lparr>st_priv := d, st_eof := False, st_pos := st_pos s + k\<rparr>)" by (auto simp: stream_consts)
  let ?s = "s\<lparr>st_priv := d, st_eof := False, st_pos := st_pos s + k,
    st_buffer := overwrite 0 (segment content (st_pos s) k) (st_buffer s), st_buf_pos := 0, st_buf_len := k\<rparr>"
  have len: "length (segment content (st_pos s) k) = nat k" using k basic by (simp add: length_segment)
  have "filling (st_pos s) ?s" using k basic len segment_overwrite [OF _ _ len, of 0 "st_buffer s"]
    by (simp add: filling_def stream_ok_def length_overwrite stream_consts)
  from fill_more [OF this] obtain s' where s': "stream_fill_more drv ?s = Some s'" "filling (st_pos s) s'" by blast
  then have "filling (st_pos s) (s'\<lparr>st_eof := False\<rparr>)" by (simp add: filling_def stream_ok_def)
  moreover have "stream_fill_buffer drv s = Some (st_buf_len s', s'\<lparr>st_eof := False\<rparr>)"
    using k s' by (simp add: stream_fill_buffer_def)
  ultimately show ?thesis by (intro exI [of _ "s'\<lparr>st_eof := False\<rparr>"]) simp
qed

lemma fill_end:
  assumes "stream_ok s" "st_pos s = int (length content)"
  shows "\<exists>d. stream_fill_buffer drv s = Some (0, s\<lparr>st_priv := d, st_eof := True\<rparr>) \<and>
    stream_ok (s\<lparr>st_priv := d, st_eof := True\<rparr>)"
proof -
  from read_internal_end [of s STREAM_BUFFER_SIZE] assms obtain d where "at d (st_pos s)"
    "stream_read_internal drv s STREAM_BUFFER_SIZE = Some (0, [], s\<lparr>st_priv := d, st_eof := True\<rparr>)"
    by (auto simp: stream_ok_def stream_consts)
  then show ?thesis using assms by (intro exI [of _ d]) (simp add: stream_fill_buffer_def stream_ok_def)
qed

end

lemma segment_1: "0 \<le> p \<Longrightarrow> p < int (length c) \<Longrightarrow> segment c p 1 = [c ! nat p]"
  by (simp add: segment_def take_Suc hd_drop_conv_nth nat_less_iff)

section \<open>What refilling the buffer promises to the readers\<close>

text \<open>
  \<open>fill\<close> is called with the buffer used up. It then holds the next bytes of the content, at least one
  unless the content is at its end. The readers of stream.h are proved over this contract.
\<close>

locale filler =
  fixes fill :: "'d filler" and content :: bytes and ok :: "'d stream \<Rightarrow> bool"
  assumes ok_view: "ok s \<Longrightarrow> 0 \<le> st_buf_pos s \<and> st_buf_pos s \<le> st_buf_len s \<and> st_buf_len s \<le> st_pos s \<and>
      st_pos s \<le> int (length content) \<and> st_buf_len s \<le> int (length (st_buffer s)) \<and>
      segment (st_buffer s) 0 (st_buf_len s) = segment content (st_pos s - st_buf_len s) (st_buf_len s)"
    and ok_move: "ok s \<Longrightarrow> 0 \<le> q \<Longrightarrow> q \<le> st_buf_len s \<Longrightarrow> ok (s\<lparr>st_buf_pos := q\<rparr>)"
    and fill_more: "ok s \<Longrightarrow> st_buf_pos s = st_buf_len s \<Longrightarrow> st_pos s < int (length content) \<Longrightarrow>
      \<exists>r s'. fill s = Some (r, s') \<and> 0 < r \<and> ok s' \<and> st_buf_pos s' < st_buf_len s' \<and> stream_tell s' = st_pos s"
    and fill_none: "ok s \<Longrightarrow> st_buf_pos s = st_buf_len s \<Longrightarrow> st_pos s = int (length content) \<Longrightarrow>
      \<exists>s'. fill s = Some (0, s') \<and> ok s' \<and> stream_tell s' = st_pos s"
begin

lemma ok_tell: "ok s \<Longrightarrow> 0 \<le> stream_tell s \<and> stream_tell s \<le> int (length content)"
  using ok_view [of s] by (simp add: stream_tell_def)

lemma ok_slice:
  assumes "ok s" "0 \<le> x" "st_buf_pos s + x \<le> st_buf_len s"
  shows "buffer_slice s x = Some (segment content (stream_tell s) x)"
proof -
  note v = ok_view [OF assms(1)]
  have "segment (st_buffer s) (st_buf_pos s) x = segment (segment (st_buffer s) 0 (st_buf_len s)) (st_buf_pos s) x"
    using segment_segment [of 0 "st_buf_pos s" x "st_buf_len s" "st_buffer s"] v assms by simp
  also have "\<dots> = segment content (stream_tell s) x"
    using segment_segment [of "st_pos s - st_buf_len s" "st_buf_pos s" x "st_buf_len s" content] v assms
    by (simp add: stream_tell_def algebra_simps)
  finally show ?thesis using v assms by (simp add: buffer_slice_def segment_def)
qed

lemma ok_byte:
  assumes "ok s" "st_buf_pos s < st_buf_len s"
  shows "buffer_byte s = Some (content ! nat (stream_tell s))"
proof -
  note v = ok_view [OF assms(1)]
  have "segment (st_buffer s) (st_buf_pos s) 1 = segment content (stream_tell s) 1"
    using ok_slice [OF assms(1), of 1] assms v by (simp add: buffer_slice_def segment_def split: if_splits)
  then have "st_buffer s ! nat (st_buf_pos s) = content ! nat (stream_tell s)"
    using v assms(2) segment_1 [of "st_buf_pos s" "st_buffer s"] segment_1 [of "stream_tell s" content]
    by (simp add: stream_tell_def)
  then show ?thesis using v assms(2) by (simp add: buffer_byte_def nat_less_iff)
qed

lemma read_char_next:
  assumes "ok s" "stream_tell s < int (length content)"
  shows "\<exists>s'. stream_read_char fill s = Some (uint (content ! nat (stream_tell s)), s') \<and> ok s' \<and>
    stream_tell s' = stream_tell s + 1"
proof (cases "st_buf_pos s < st_buf_len s")
  case True
  then show ?thesis using ok_byte [OF assms(1) True] ok_move [OF assms(1), of "st_buf_pos s + 1"] ok_view [OF assms(1)]
    by (simp add: stream_read_char_def stream_tell_def)
next
  case False
  then have e: "st_buf_pos s = st_buf_len s" using ok_view [OF assms(1)] by simp
  then have "st_pos s < int (length content)" using assms(2) by (simp add: stream_tell_def)
  from fill_more [OF assms(1) e this] obtain r s' where s': "fill s = Some (r, s')" "0 < r" "ok s'"
    "st_buf_pos s' < st_buf_len s'" "stream_tell s' = stream_tell s" using e by (auto simp: stream_tell_def)
  then show ?thesis using e ok_byte [OF s'(3,4)] ok_move [OF s'(3), of "st_buf_pos s' + 1"] ok_view [OF s'(3)]
    by (simp add: stream_read_char_def stream_tell_def)
qed

lemma read_char_end:
  assumes "ok s" "stream_tell s = int (length content)"
  shows "\<exists>s'. stream_read_char fill s = Some (-256, s') \<and> ok s' \<and> stream_tell s' = stream_tell s"
proof -
  have e: "st_buf_pos s = st_buf_len s" "st_pos s = int (length content)"
    using ok_view [OF assms(1)] assms(2) by (auto simp: stream_tell_def)
  from fill_none [OF assms(1) this] obtain s' where "fill s = Some (0, s')" "ok s'" "stream_tell s' = st_pos s" by blast
  then show ?thesis using e by (simp add: stream_read_char_def stream_tell_def)
qed

lemma read_loop:
  "ok s \<Longrightarrow> 0 \<le> len \<Longrightarrow> len \<le> count \<Longrightarrow> k = min len (int (length content) - stream_tell s) \<Longrightarrow>
    \<exists>s'. stream_read_loop fill count len mem s = Some (count - len + k, mem @ segment content (stream_tell s) k, s') \<and>
      ok s' \<and> stream_tell s' = stream_tell s + k"
proof (induction "nat len" arbitrary: len mem s k rule: less_induct)
  case less
  note v = ok_view [OF less.prems(1)] and tl = ok_tell [OF less.prems(1)]
  have step: ?case if "0 < len" "ok s1" "st_buf_pos s1 < st_buf_len s1" "stream_tell s1 = stream_tell s"
    "(if st_buf_len s - st_buf_pos s = 0 then fill s else Some (1, s)) = Some (r, s1)" "0 < r" for r s1
  proof -
    let ?x = "min (st_buf_len s1 - st_buf_pos s1) len"
    let ?s = "s1\<lparr>st_buf_pos := st_buf_pos s1 + ?x\<rparr>"
    note w = ok_view [OF that(2)]
    have x: "0 < ?x" "?x \<le> len" "st_buf_pos s1 + ?x \<le> st_buf_len s1" "?x \<le> k"
      using that w less.prems by (auto simp: stream_tell_def)
    have ok: "ok ?s" using ok_move [OF that(2), of "st_buf_pos s1 + ?x"] x(1,3) w by simp
    have tell: "stream_tell ?s = stream_tell s + ?x" using that by (simp add: stream_tell_def)
    have "stream_read_loop fill count len mem s
        = stream_read_loop fill count (len - ?x) (mem @ segment content (stream_tell s) ?x) ?s"
      using that ok_slice [OF that(2) _ x(3)] x by (subst stream_read_loop.simps) simp
    moreover have "k - ?x = min (len - ?x) (int (length content) - stream_tell ?s)"
      using less.prems(4) tell x by linarith
    moreover have "nat (len - ?x) < nat len" using x that(1) by linarith
    ultimately have "\<exists>s'. stream_read_loop fill count len mem s = Some (count - (len - ?x) + (k - ?x),
        (mem @ segment content (stream_tell s) ?x) @ segment content (stream_tell ?s) (k - ?x), s') \<and> ok s' \<and>
        stream_tell s' = stream_tell ?s + (k - ?x)"
      using less.hyps [of "len - ?x" ?s "k - ?x" "mem @ segment content (stream_tell s) ?x"] ok x less.prems(3) by simp
    then show ?thesis using tell x tl segment_append [of "stream_tell s" ?x "k - ?x" content]
      by (simp add: algebra_simps)
  qed
  show ?case
  proof (cases "0 < len")
    case False
    then show ?thesis using less.prems tl by (subst stream_read_loop.simps) simp
  next
    case len: True
    show ?thesis
    proof (cases "st_buf_pos s = st_buf_len s")
      case False
      then show ?thesis using step [OF len less.prems(1), of 1] v by simp
    next
      case e: True
      then have tp: "stream_tell s = st_pos s" by (simp add: stream_tell_def)
      show ?thesis
      proof (cases "st_pos s < int (length content)")
        case True
        from fill_more [OF less.prems(1) e this] obtain r s1 where "fill s = Some (r, s1)" "0 < r" "ok s1"
          "st_buf_pos s1 < st_buf_len s1" "stream_tell s1 = st_pos s" by blast
        then show ?thesis using step [OF len, of s1 r] e tp by simp
      next
        case False
        then have "st_pos s = int (length content)" using v by simp
        from fill_none [OF less.prems(1) e this] obtain s1 where "fill s = Some (0, s1)" "ok s1"
          "stream_tell s1 = st_pos s" by blast
        then show ?thesis using len e tp less.prems \<open>st_pos s = _\<close> by (subst stream_read_loop.simps) simp
      qed
    qed
  qed
qed

lemma read_bytes:
  "ok s \<Longrightarrow> 0 \<le> n \<Longrightarrow> k = min n (int (length content) - stream_tell s) \<Longrightarrow>
    \<exists>s'. stream_read fill s n = Some (k, segment content (stream_tell s) k, s') \<and> ok s' \<and> stream_tell s' = stream_tell s + k"
  using read_loop [of s n n k "[]"] by (simp add: stream_read_def)

lemma skip_loop:
  "ok s \<Longrightarrow> 0 \<le> len \<Longrightarrow> k = min len (int (length content) - stream_tell s) \<Longrightarrow>
    \<exists>s'. stream_skip_loop fill len s = Some (if k = len then 1 else 0, s') \<and> ok s' \<and> stream_tell s' = stream_tell s + k"
proof (induction "nat len" arbitrary: len s k rule: less_induct)
  case less
  note v = ok_view [OF less.prems(1)] and tl = ok_tell [OF less.prems(1)]
  have step: ?case if "0 < len" "ok s1" "st_buf_pos s1 < st_buf_len s1" "stream_tell s1 = stream_tell s"
    "(if st_buf_len s - st_buf_pos s = 0 then fill s else Some (1, s)) = Some (r, s1)" "0 < r" for r s1
  proof -
    let ?x = "min (st_buf_len s1 - st_buf_pos s1) len"
    let ?s = "s1\<lparr>st_buf_pos := st_buf_pos s1 + ?x\<rparr>"
    note w = ok_view [OF that(2)]
    have x: "0 < ?x" "?x \<le> len" "st_buf_pos s1 + ?x \<le> st_buf_len s1" "?x \<le> k"
      using that w less.prems by (auto simp: stream_tell_def)
    have ok: "ok ?s" using ok_move [OF that(2), of "st_buf_pos s1 + ?x"] x(1,3) w by simp
    have tell: "stream_tell ?s = stream_tell s + ?x" using that by (simp add: stream_tell_def)
    have "stream_skip_loop fill len s = stream_skip_loop fill (len - ?x) ?s"
      using that x by (subst stream_skip_loop.simps) simp
    moreover have "k - ?x = min (len - ?x) (int (length content) - stream_tell ?s)"
      using less.prems(3) tell x by linarith
    moreover have "nat (len - ?x) < nat len" using x that(1) by linarith
    ultimately show ?thesis
      using less.hyps [of "len - ?x" ?s "k - ?x"] ok x tell by (simp add: algebra_simps)
  qed
  show ?case
  proof (cases "0 < len")
    case False
    then show ?thesis using less.prems tl by (subst stream_skip_loop.simps) simp
  next
    case len: True
    show ?thesis
    proof (cases "st_buf_pos s = st_buf_len s")
      case False
      then show ?thesis using step [OF len less.prems(1), of 1] v by simp
    next
      case e: True
      then have tp: "stream_tell s = st_pos s" by (simp add: stream_tell_def)
      show ?thesis
      proof (cases "st_pos s < int (length content)")
        case True
        from fill_more [OF less.prems(1) e this] obtain r s1 where "fill s = Some (r, s1)" "0 < r" "ok s1"
          "st_buf_pos s1 < st_buf_len s1" "stream_tell s1 = st_pos s" by blast
        then show ?thesis using step [OF len, of s1 r] e tp by simp
      next
        case False
        then have "st_pos s = int (length content)" using v by simp
        from fill_none [OF less.prems(1) e this] obtain s1 where "fill s = Some (0, s1)" "ok s1"
          "stream_tell s1 = st_pos s" by blast
        then show ?thesis using len e tp less.prems \<open>st_pos s = _\<close> by (subst stream_skip_loop.simps) simp
      qed
    qed
  qed
qed

end

sublocale stream_driver \<subseteq> fl: filler "stream_fill_buffer drv" content stream_ok
proof
  show "0 \<le> st_buf_pos s \<and> st_buf_pos s \<le> st_buf_len s \<and> st_buf_len s \<le> st_pos s \<and>
      st_pos s \<le> int (length content) \<and> st_buf_len s \<le> int (length (st_buffer s)) \<and>
      segment (st_buffer s) 0 (st_buf_len s) = segment content (st_pos s - st_buf_len s) (st_buf_len s)"
    if "stream_ok s" for s using that by (simp add: stream_ok_def stream_consts)
  show "stream_ok (s\<lparr>st_buf_pos := q\<rparr>)" if "stream_ok s" "0 \<le> q" "q \<le> st_buf_len s" for s q
    using that by (simp add: stream_ok_def)
  show "\<exists>r s'. stream_fill_buffer drv s = Some (r, s') \<and> 0 < r \<and> stream_ok s' \<and> st_buf_pos s' < st_buf_len s' \<and>
      stream_tell s' = st_pos s"
    if "stream_ok s" "st_buf_pos s = st_buf_len s" "st_pos s < int (length content)" for s
    using fill_bytes [OF that(1,3)] by (auto simp: filling_def stream_tell_def)
  show "\<exists>s'. stream_fill_buffer drv s = Some (0, s') \<and> stream_ok s' \<and> stream_tell s' = st_pos s"
    if "stream_ok s" "st_buf_pos s = st_buf_len s" "st_pos s = int (length content)" for s
    using fill_end [OF that(1,3)] that(2) by (auto simp: stream_tell_def)
qed

section \<open>Seeking in a stream whose driver seeks\<close>

locale seekable_driver = stream_driver +
  assumes seek_to: "at (st_priv s) (st_pos s) \<Longrightarrow> st_type s = ty \<Longrightarrow> 0 \<le> p \<Longrightarrow> p \<le> int (length content) \<Longrightarrow>
    \<exists>f d. drv_seek drv = Some f \<and> f s p = (True, s\<lparr>st_pos := p, st_priv := d\<rparr>) \<and> at d p"
begin

lemma seek_internal:
  assumes "at (st_priv s) (st_pos s)" "st_type s = ty" "0 \<le> p" "p \<le> int (length content)"
  shows "\<exists>d. stream_seek_internal drv s p = (-1, s\<lparr>st_pos := p, st_priv := d\<rparr>) \<and> at d p"
proof (cases "p = 0 \<or> p \<noteq> st_pos s")
  case True
  from seek_to [OF assms] obtain f d where "drv_seek drv = Some f"
    "f s p = (True, s\<lparr>st_pos := p, st_priv := d\<rparr>)" "at d p" by blast
  then show ?thesis using True by (auto simp: stream_seek_internal_def)
next
  case False
  then show ?thesis using assms
    by (intro exI [of _ "st_priv s"]) (auto simp: stream_seek_internal_def)
qed

lemma seek_in_buffer:
  "stream_ok s \<Longrightarrow> 0 \<le> pos \<Longrightarrow> st_pos s + pos < int (length content) \<Longrightarrow>
    \<exists>s'. stream_seek_in_buffer (stream_fill_buffer drv) pos s = Some (1, s') \<and> stream_ok s' \<and>
      stream_tell s' = st_pos s + pos"
proof (induction "nat pos" arbitrary: pos s rule: less_induct)
  case less
  then have "st_pos s < int (length content)" by linarith
  from fill_bytes [OF less.prems(1) this] obtain s' where s': "stream_fill_buffer drv s = Some (st_buf_len s', s')"
    "stream_ok s'" "0 < st_buf_len s'" "st_pos s' - st_buf_len s' = st_pos s" by (auto simp: filling_def)
  show ?case
  proof (cases "pos \<le> st_buf_len s'")
    case True
    then show ?thesis using s' less.prems fl.ok_move [OF s'(2), of pos]
      by (subst stream_seek_in_buffer.simps) (auto simp: stream_tell_def)
  next
    case False
    have "stream_seek_in_buffer (stream_fill_buffer drv) pos s
        = stream_seek_in_buffer (stream_fill_buffer drv) (pos - st_buf_len s') s'"
      using False s' less.prems by (subst stream_seek_in_buffer.simps) simp
    then show ?thesis using less.hyps [of "pos - st_buf_len s'" s'] False s' less.prems by (simp add: algebra_simps)
  qed
qed

lemma seek_newpos:
  assumes "0 \<le> pos" "0 \<le> st_sector_size s"
  shows "0 \<le> seek_newpos s pos" "seek_newpos s pos \<le> pos"
proof -
  show "0 \<le> seek_newpos s pos" using assms by (simp add: seek_newpos_def pos_imp_zdiv_nonneg_iff)
  have "(pos div ss) * ss \<le> pos" if "0 < ss" for ss
    using that by (metis div_mult_mod_eq le_add_same_cancel1 pos_mod_sign)
  then show "seek_newpos s pos \<le> pos" using assms by (auto simp: seek_newpos_def AND_upper1)
qed

lemma seek_long:
  assumes "stream_ok s" "0 \<le> pos" "pos < int (length content)"
  shows "\<exists>s'. stream_seek_long drv s pos = Some (1, s') \<and> stream_ok s' \<and> stream_tell s' = pos"
proof -
  let ?s = "s\<lparr>st_buf_pos := 0, st_buf_len := 0\<rparr>"
  define np where "np = seek_newpos ?s pos"
  have mode: "st_mode s \<noteq> STREAM_WRITE" using assms by (simp add: stream_ok_def)
  have np: "0 \<le> np" "np \<le> pos" using seek_newpos [of pos ?s] assms by (auto simp: stream_ok_def np_def)
  have ok: "stream_ok ?s" using assms(1) by (simp add: stream_ok_def)
  have le: "np \<le> int (length content)" using np(2) assms(3) by linarith
  have here: "at (st_priv ?s) (st_pos ?s)" "st_type ?s = ty" using ok by (auto simp: stream_ok_def)
  from seek_internal [OF here np(1) le] obtain d where
    d: "stream_seek_internal drv ?s np = (-1, ?s\<lparr>st_pos := np, st_priv := d\<rparr>)" "at d np" by blast
  let ?t = "?s\<lparr>st_pos := np, st_priv := d\<rparr>"
  have "stream_ok ?t" using ok d(2) np(1) le by (simp add: stream_ok_def)
  moreover have "st_pos ?t + (pos - np) < int (length content)" "0 \<le> pos - np" using assms(3) np(2) by simp_all
  ultimately obtain s' where s': "stream_seek_in_buffer (stream_fill_buffer drv) (pos - np) ?t = Some (1, s')"
    "stream_ok s'" "stream_tell s' = st_pos ?t + (pos - np)" using seek_in_buffer by blast
  have "stream_forward (stream_fill_buffer drv) np ?t = Some ?t" by (subst stream_forward.simps) simp
  then have "stream_seek_long drv s pos = Some (1, s')"
    using d(1) s'(1) mode by (simp add: stream_seek_long_def flip: np_def)
  then show ?thesis using s' by simp
qed

lemma seek:
  assumes "stream_ok s" "0 \<le> pos" "pos < int (length content)"
  shows "\<exists>s'. stream_seek (stream_seek_long drv) s pos = Some (1, s') \<and> stream_ok s' \<and> stream_tell s' = pos"
  using seek_long [OF assms] fl.ok_move [OF assms(1), of "pos - (st_pos s - st_buf_len s)"] assms
  by (auto simp: stream_seek_def stream_tell_def stream_ok_def)

end

text \<open>
  \<open>write_buffer\<close> of stream_file.c. \<open>rs\<close> are the return values of the successive calls of \<open>write(2)\<close>;
  the call is given \<open>len\<close> bytes from \<open>off\<close> of \<open>mem\<close>. The result is the return value and the bytes written.
\<close>

fun file_write_loop :: "bytes \<Rightarrow> int \<Rightarrow> int list \<Rightarrow> int \<Rightarrow> nat \<Rightarrow> bytes \<Rightarrow> (int \<times> bytes) option" where
  "file_write_loop mem len rs written off out =
     (if written < len then
        (if int off + len > int (length mem) then None
         else (case rs of [] \<Rightarrow> None
           | r # rs \<Rightarrow> if r \<le> 0 then Some (-1, out)
               else file_write_loop mem len rs (written + r) (off + nat r) (out @ take (nat r) (drop off mem))))
      else Some (len, out))"

declare file_write_loop.simps [simp del]

definition file_write_buffer :: "int list \<Rightarrow> bytes \<Rightarrow> int \<Rightarrow> (int \<times> bytes) option" where
  "file_write_buffer rs mem len = file_write_loop mem len rs 0 0 []"

text \<open>\<open>seek_forward\<close>, the \<open>seek\<close> of a stream that cannot be positioned (a pipe).\<close>

lemma file_fill_pos: "st_pos (snd (snd (file_fill_buffer s n))) = st_pos s"
  by (simp add: file_fill_buffer_def file_fd_read_def fd_read_def Let_def)

function file_seek_forward_loop :: "int \<Rightarrow> fd_state stream \<Rightarrow> fd_state stream" where
  "file_seek_forward_loop newpos s =
     (if st_pos s < newpos then
        (let r = file_fill_buffer s STREAM_BUFFER_SIZE; len = fst r; s' = snd (snd r)
         in if len \<le> 0 then s'\<lparr>st_eof := True, st_buf_pos := 0, st_buf_len := 0\<rparr>
            else file_seek_forward_loop newpos (s'\<lparr>st_buffer := overwrite 0 (fst (snd r)) (st_buffer s'),
              st_buf_pos := 0, st_buf_len := len, st_pos := st_pos s' + len\<rparr>))
      else s)"
  by pat_completeness auto
termination
  by (relation "measure (\<lambda>(newpos, s). nat (newpos - st_pos s))") (simp_all add: file_fill_pos)

declare file_seek_forward_loop.simps [simp del]

definition file_seek_forward :: "fd_state stream \<Rightarrow> int \<Rightarrow> bool \<times> fd_state stream" where
  "file_seek_forward s newpos =
     (if newpos < st_pos s then (False, s) else (True, file_seek_forward_loop newpos s))"

definition pipe_driver :: "fd_state driver" where
  "pipe_driver = file_driver\<lparr>drv_seek := Some file_seek_forward\<rparr>"

section \<open>The file driver keeps the laws\<close>

definition file_at :: "bytes \<Rightarrow> fd_state \<Rightarrow> int \<Rightarrow> bool" where
  "file_at content fd p \<longleftrightarrow> fd_content fd = content \<and> 0 < fd_chunk fd \<and> fd_seekable fd \<and> int (fd_offset fd) = p"

lemma file_switch:
  "st_type s = STREAMTYPE_FILE \<Longrightarrow> stream_read_switch file_driver s n = file_fill_buffer s n"
  by (simp add: stream_read_switch_def file_driver_def stream_consts)

lemma fd_read_inside:
  assumes "fd_offset fd < length (fd_content fd)" "0 < fd_chunk fd" "0 < n"
  shows "\<exists>k. 0 < k \<and> int k \<le> n \<and> fd_offset fd + k \<le> length (fd_content fd) \<and>
    fd_read fd n = (int k, take k (drop (fd_offset fd) (fd_content fd)), fd\<lparr>fd_offset := fd_offset fd + k\<rparr>)"
proof -
  let ?d = "take (min (nat n) (fd_chunk fd)) (drop (fd_offset fd) (fd_content fd))"
  have len: "length ?d = min (length (fd_content fd) - fd_offset fd) (min (nat n) (fd_chunk fd))" by simp
  then have "0 < length ?d" "int (length ?d) \<le> n" "fd_offset fd + length ?d \<le> length (fd_content fd)" using assms by linarith+
  moreover have "take (length ?d) (drop (fd_offset fd) (fd_content fd)) = ?d"
    unfolding len by (metis len length_drop take_all take_take min.commute nle_le order_refl)
  moreover have "fd_read fd n = (int (length ?d), ?d, fd\<lparr>fd_offset := fd_offset fd + length ?d\<rparr>)"
    by (simp only: fd_read_def Let_def)
  ultimately show ?thesis by (intro exI [of _ "length ?d"]) (simp only: simp_thms)
qed

lemma file_fill_inside:
  assumes "fd_offset (st_priv s) < length (fd_content (st_priv s))" "0 < fd_chunk (st_priv s)" "0 < n"
  shows "\<exists>k. 0 < k \<and> int k \<le> n \<and> fd_offset (st_priv s) + k \<le> length (fd_content (st_priv s)) \<and>
    file_fill_buffer s n = (int k, take k (drop (fd_offset (st_priv s)) (fd_content (st_priv s))),
      s\<lparr>st_priv := (st_priv s)\<lparr>fd_offset := fd_offset (st_priv s) + k\<rparr>\<rparr>)"
proof -
  from fd_read_inside [OF assms] obtain k where "0 < k" "int k \<le> n"
    "fd_offset (st_priv s) + k \<le> length (fd_content (st_priv s))"
    "fd_read (st_priv s) n = (int k, take k (drop (fd_offset (st_priv s)) (fd_content (st_priv s))),
      (st_priv s)\<lparr>fd_offset := fd_offset (st_priv s) + k\<rparr>)" by blast
  then show ?thesis by (intro exI [of _ k]) (simp add: file_fill_buffer_def file_fd_read_def)
qed

lemma file_fill_end:
  "fd_offset (st_priv s) = length (fd_content (st_priv s)) \<Longrightarrow> 0 < n \<Longrightarrow>
    file_fill_buffer s n = (-1, [], s\<lparr>st_eof := True\<rparr>)"
  by (simp add: file_fill_buffer_def file_fd_read_def fd_read_def)

interpretation disk: seekable_driver file_driver content "file_at content" STREAMTYPE_FILE for content
proof
  fix s :: "fd_state stream" and n :: int
  assume s: "file_at content (st_priv s) (st_pos s)" "st_type s = STREAMTYPE_FILE" "0 \<le> st_pos s"
    "st_pos s < int (length content)" "0 < n"
  then have fd: "fd_content (st_priv s) = content" "fd_offset (st_priv s) = nat (st_pos s)" "0 < fd_chunk (st_priv s)"
    by (auto simp: file_at_def)
  have "nat (st_pos s) < length content" using s by linarith
  with file_fill_inside [of s n] s(5) fd obtain k where k: "0 < k" "int k \<le> n" "nat (st_pos s) + k \<le> length content"
    "file_fill_buffer s n = (int k, take k (drop (nat (st_pos s)) content),
      s\<lparr>st_priv := (st_priv s)\<lparr>fd_offset := nat (st_pos s) + k\<rparr>\<rparr>)" by auto
  show "\<exists>k d e. 0 < k \<and> k \<le> n \<and> st_pos s + k \<le> int (length content) \<and> file_at content d (st_pos s + k) \<and>
      stream_read_switch file_driver s n = (k, segment content (st_pos s) k, s\<lparr>st_priv := d, st_eof := e\<rparr>)"
    using k s
    by (intro exI [of _ "int k"] exI [of _ "(st_priv s)\<lparr>fd_offset := nat (st_pos s) + k\<rparr>"] exI [of _ "st_eof s"])
       (auto simp: file_switch segment_def file_at_def)
next
  fix s :: "fd_state stream" and n :: int
  assume "file_at content (st_priv s) (int (length content))" "st_type s = STREAMTYPE_FILE"
    "st_pos s = int (length content)" "0 < n"
  then show "\<exists>k d. k \<le> 0 \<and> file_at content d (st_pos s) \<and>
      stream_read_switch file_driver s n = (k, [], s\<lparr>st_priv := d, st_eof := True\<rparr>)"
    by (intro exI [of _ "-1"] exI [of _ "st_priv s"]) (simp add: file_switch file_fill_end file_at_def)
next
  fix s :: "fd_state stream" and p :: int
  assume "file_at content (st_priv s) (st_pos s)" "0 \<le> p"
  then show "\<exists>f d. drv_seek file_driver = Some f \<and> f s p = (True, s\<lparr>st_pos := p, st_priv := d\<rparr>) \<and> file_at content d p"
    by (intro exI [of _ file_seek] exI [of _ "(st_priv s)\<lparr>fd_offset := nat p\<rparr>"])
       (simp add: file_driver_def file_seek_def file_at_def)
qed

section \<open>Opening\<close>

text \<open>
  \<open>new_stream\<close> and the part of \<open>open_f\<close> that sets up a stream opened for reading: an \<open>lseek\<close> to the end tells a
  file from a pipe. (A pipe keeps \<open>seek_forward\<close> as its seek function.) The descriptor stands at byte 0.
\<close>

definition MP_STREAM_SEEK_BW :: int where "MP_STREAM_SEEK_BW = 2"
definition STREAM_READ :: int where "STREAM_READ = 0"

definition new_stream :: "'d \<Rightarrow> int \<Rightarrow> 'd stream" where
  "new_stream d ty = \<lparr>st_type = ty, st_flags = 0, st_sector_size = 0, st_read_chunk = 0, st_buf_pos = 0,
     st_buf_len = 0, st_pos = 0, st_start_pos = 0, st_end_pos = 0, st_eof = False, st_mode = 0,
     st_buffer = replicate (nat STREAM_MAX_SECTOR_SIZE) 0, st_priv = d\<rparr>"

definition open_f :: "fd_state \<Rightarrow> fd_state stream" where
  "open_f fd =
     (let s = new_stream fd (-2);
          s = (if \<not> fd_seekable fd
            then s\<lparr>st_type := STREAMTYPE_STREAM, st_flags := st_flags s OR MP_STREAM_SEEK_FW\<rparr>
            else s\<lparr>st_end_pos := int (length (fd_content fd)), st_type := STREAMTYPE_FILE\<rparr>)
      in s\<lparr>st_read_chunk := 64 * 1024\<rparr>)"

text \<open>What \<open>open_stream_plugin\<close> adds for a stream opened for reading; both kinds of file have a seek function.\<close>

definition open_stream_plugin :: "fd_state \<Rightarrow> fd_state stream" where
  "open_stream_plugin fd =
     (let s = open_f fd; seek = MP_STREAM_SEEK_BW OR MP_STREAM_SEEK_FW;
          s = (if st_flags s AND seek = 0 then s\<lparr>st_flags := st_flags s OR seek\<rparr> else s)
      in s\<lparr>st_mode := STREAM_READ\<rparr>)"

text \<open>\<open>new_memory_stream\<close>: the whole content is the buffer, and there is no driver to refill it from.\<close>

definition STREAMTYPE_MEMORY :: int where "STREAMTYPE_MEMORY = 4"

definition new_memory_stream :: "bytes \<Rightarrow> unit stream" where
  "new_memory_stream data =
     (let s = new_stream () STREAMTYPE_MEMORY; len = int (length data)
      in s\<lparr>st_buf_len := len, st_end_pos := len, st_pos := len, st_buffer := overwrite 0 data (replicate (nat STREAM_MAX_SECTOR_SIZE + length data) 0)\<rparr>)"

definition memory_driver :: "unit driver" where
  "memory_driver = \<lparr>drv_fill_buffer = None, drv_seek = None, drv_reset = None,
     drv_streaming_read = None, drv_streaming_stopped = (\<lambda>_. False), drv_streaming_seek = None,
     drv_fd_read = (\<lambda>s n. (-1, [], s)), drv_ds_read = (\<lambda>s n. (0, [], s))\<rparr>"

section \<open>Reading a line\<close>

text \<open>
  \<open>stream_read_until\<close> for 8-bit text (\<open>utf16 = 0\<close>). \<open>copy_characters\<close> cuts \<open>len\<close> down to the room left, and
  that cut \<open>len\<close> is what the buffer position moves by. The result is the text put into \<open>mem\<close> without the
  final 0, or \<open>None\<close> for the null pointer.
\<close>

definition find_term_char :: "bytes \<Rightarrow> byte \<Rightarrow> nat option" where
  "find_term_char b tc = (let n = length (takeWhile (\<lambda>c. c \<noteq> tc) b) in if n < length b then Some n else None)"

partial_function (option) stream_read_until_loop ::
  "'d filler \<Rightarrow> byte \<Rightarrow> int \<Rightarrow> bytes \<Rightarrow> 'd stream \<Rightarrow> (bytes \<times> 'd stream) option" where
  "stream_read_until_loop fill tc room mem s =
     Option.bind (if st_buf_len s - st_buf_pos s \<le> 0 then fill s else Some (1, s)) (\<lambda>r.
       if fst r = 0 \<or> st_buf_len (snd r) - st_buf_pos (snd r) \<le> 0 then Some (mem, snd r)
       else Option.bind (buffer_slice (snd r) (st_buf_len (snd r) - st_buf_pos (snd r))) (\<lambda>b.
         (let s = snd r; end = find_term_char b tc;
              len = (case end of None \<Rightarrow> int (length b) | Some n \<Rightarrow> int n + 1);
              l = (if 0 < len \<and> 0 < room then min len room else len);
              got = (if 0 < len \<and> 0 < room then l else 0);
              mem = mem @ take (nat got) b; s' = s\<lparr>st_buf_pos := st_buf_pos s + l\<rparr>
          in if end = None then stream_read_until_loop fill tc (room - got) mem s' else Some (mem, s'))))"

definition stream_read_until :: "'d filler \<Rightarrow> 'd stream \<Rightarrow> int \<Rightarrow> byte \<Rightarrow> (bytes option \<times> 'd stream) option" where
  "stream_read_until fill s room tc =
     (if room < 1 then Some (None, s)
      else do {
        (mem, s) \<leftarrow> stream_read_until_loop fill tc (room - 1) [] s;
        Some (if st_eof s \<and> mem = [] then None else Some mem, s) })"


definition memory_ok :: "bytes \<Rightarrow> unit stream \<Rightarrow> bool" where
  "memory_ok content s \<longleftrightarrow> content \<noteq> [] \<and> 0 \<le> st_buf_pos s \<and> st_buf_pos s \<le> int (length content) \<and>
     st_buf_len s = int (length content) \<and> st_pos s = int (length content) \<and> st_end_pos s = int (length content) \<and>
     st_type s = STREAMTYPE_MEMORY \<and> st_buffer s = content @ replicate (nat STREAM_MAX_SECTOR_SIZE) 0"

lemma new_memory_ok: "content \<noteq> [] \<Longrightarrow> memory_ok content (new_memory_stream content)"
  by (simp add: memory_ok_def new_memory_stream_def new_stream_def Let_def overwrite_def)

lemma memory_fill:
  assumes "memory_ok content s"
  shows "stream_fill_buffer memory_driver s = Some (0, s\<lparr>st_eof := True\<rparr>)"
proof -
  have "stream_read_internal memory_driver s STREAM_BUFFER_SIZE = Some (0, [], s\<lparr>st_eof := True\<rparr>)"
    using assms by (subst stream_read_internal.simps)
      (simp add: stream_read_switch_def memory_driver_def stream_consts STREAMTYPE_MEMORY_def memory_ok_def)
  then show ?thesis by (simp add: stream_fill_buffer_def)
qed

interpretation memory: filler "stream_fill_buffer memory_driver" content "memory_ok content" for content
proof
  fix s :: "unit stream"
  assume s: "memory_ok content s"
  show "0 \<le> st_buf_pos s \<and> st_buf_pos s \<le> st_buf_len s \<and> st_buf_len s \<le> st_pos s \<and>
      st_pos s \<le> int (length content) \<and> st_buf_len s \<le> int (length (st_buffer s)) \<and>
      segment (st_buffer s) 0 (st_buf_len s) = segment content (st_pos s - st_buf_len s) (st_buf_len s)"
    using s by (simp add: memory_ok_def segment_def)
  show "memory_ok content (s\<lparr>st_buf_pos := q\<rparr>)" if "0 \<le> q" "q \<le> st_buf_len s" for q
    using s that by (simp add: memory_ok_def)
  show "\<exists>r s'. stream_fill_buffer memory_driver s = Some (r, s') \<and> 0 < r \<and> memory_ok content s' \<and>
      st_buf_pos s' < st_buf_len s' \<and> stream_tell s' = st_pos s"
    if "st_buf_pos s = st_buf_len s" "st_pos s < int (length content)" using that s by (simp add: memory_ok_def)
  show "\<exists>s'. stream_fill_buffer memory_driver s = Some (0, s') \<and> memory_ok content s' \<and> stream_tell s' = st_pos s"
    if "st_buf_pos s = st_buf_len s" "st_pos s = int (length content)"
    using that s by (intro exI [of _ "s\<lparr>st_eof := True\<rparr>"]) (simp add: stream_tell_def memory_fill [OF s], simp add: memory_ok_def)
qed

text \<open>The unsigned value of a byte list, most significant byte first.\<close>

definition be_value :: "bytes \<Rightarrow> int" where "be_value bs = foldl (\<lambda>a b. 256 * a + uint b) 0 bs"

lemma uint_byte: "uint (b::byte) < 256" "0 \<le> uint b"
  using uint_bounded [of b] by simp_all

lemma uint_of_byte: "8 \<le> LENGTH('a) \<Longrightarrow> uint (word_of_int (uint (b::byte)) :: 'a::len word) = uint b"
  using uint_byte [of b] power_increasing [of 8 "LENGTH('a)" "2::int"]
  by (simp only: uint_word_of_int) (simp add: mod_pos_pos_trivial)

lemma uint_ucast_byte: "8 \<le> LENGTH('a) \<Longrightarrow> uint (ucast (b::byte) :: 'a::len word) = uint b"
  using uint_of_byte [of b] by simp

lemma uint_shift_in:
  fixes y :: "'a::len word" and b :: byte
  assumes "8 \<le> LENGTH('a)" "uint y * 256 < 2 ^ LENGTH('a)"
  shows "uint (shift_in y (uint b)) = 256 * uint y + uint b"
proof -
  have "uint (push_bit 8 y) = push_bit 8 (uint y)"
    using assms(2) by (simp only: unsigned_push_bit_eq) (simp add: take_bit_int_eq_self_iff push_bit_eq_mult)
  then have "uint (shift_in y (uint b)) = push_bit 8 (uint y) OR uint b"
    by (simp add: shift_in_def unsigned_or_eq uint_ucast_byte [OF assms(1)])
  also have "\<dots> = push_bit 8 (uint y) + uint b"
  proof (rule disjunctive_add [symmetric])
    fix n show "\<not> bit (push_bit 8 (uint y)) n \<or> \<not> bit (uint b) n"
      by (cases "n < 8") (auto simp: bit_push_bit_iff bit_uint_iff)
  qed
  finally show ?thesis by (simp add: push_bit_eq_mult)
qed

lemma shift_in_step:
  fixes y :: "'a::len word" and b :: byte
  assumes "uint y < k" "8 \<le> LENGTH('a)" "k * 256 \<le> 2 ^ LENGTH('a)"
  shows "uint (shift_in y (uint b)) = 256 * uint y + uint b" "uint (shift_in y (uint b)) < 256 * k"
proof -
  show "uint (shift_in y (uint b)) = 256 * uint y + uint b"
    by (rule uint_shift_in) (use assms in linarith)+
  then show "uint (shift_in y (uint b)) < 256 * k" using assms(1) uint_byte [of b] by linarith
qed

context filler
begin

lemma read_dword:
  assumes "ok s" "stream_tell s + 4 \<le> int (length content)"
  shows "\<exists>w s'. stream_read_dword fill s = Some (w, s') \<and> ok s' \<and> stream_tell s' = stream_tell s + 4 \<and>
    uint w = be_value (segment content (stream_tell s) 4)"
proof -
  let ?b = "\<lambda>i. content ! nat (stream_tell s + i)"
  have t: "0 \<le> stream_tell s" using ok_tell [OF assms(1)] by simp
  obtain s1 where 1: "stream_read_char fill s = Some (uint (?b 0), s1)" "ok s1" "stream_tell s1 = stream_tell s + 1"
    using read_char_next [OF assms(1)] assms by auto
  obtain s2 where 2: "stream_read_char fill s1 = Some (uint (?b 1), s2)" "ok s2" "stream_tell s2 = stream_tell s + 2"
    using read_char_next [OF 1(2)] assms 1 by auto
  obtain s3 where 3: "stream_read_char fill s2 = Some (uint (?b 2), s3)" "ok s3" "stream_tell s3 = stream_tell s + 3"
    using read_char_next [OF 2(2)] assms 2 by auto
  obtain s4 where 4: "stream_read_char fill s3 = Some (uint (?b 3), s4)" "ok s4" "stream_tell s4 = stream_tell s + 4"
    using read_char_next [OF 3(2)] assms 3 by auto
  define x1 where "x1 = (word_of_int (uint (?b 0)) :: 32 word)"
  define x2 where "x2 = shift_in x1 (uint (?b 1))"
  define x3 where "x3 = shift_in x2 (uint (?b 2))"
  have x1: "uint x1 = uint (?b 0)" "uint x1 < 256" by (simp_all add: x1_def uint_ucast_byte uint_byte)
  have x2: "uint x2 = 256 * uint (?b 0) + uint (?b 1)" "uint x2 < 65536"
    using shift_in_step [of x1 256 "?b 1"] x1 by (simp_all add: x2_def)
  have x3: "uint x3 = 256 * (256 * uint (?b 0) + uint (?b 1)) + uint (?b 2)" "uint x3 < 16777216"
    using shift_in_step [of x2 65536 "?b 2"] x2 by (simp_all add: x3_def)
  have w: "uint (shift_in x3 (uint (?b 3)))
      = 256 * (256 * (256 * uint (?b 0) + uint (?b 1)) + uint (?b 2)) + uint (?b 3)"
    using shift_in_step [of x3 16777216 "?b 3"] x3 by simp
  have "segment content (stream_tell s) 4 = [?b 0, ?b 1, ?b 2, ?b 3]"
    using t assms(2) by (auto simp: segment_def intro!: nth_equalityI simp: less_Suc_eq nth_append nat_add_distrib numeral_eq_Suc)
  then show ?thesis using 1 2 3 4 w by (simp add: stream_read_dword_def be_value_def x1_def x2_def x3_def)
qed

end

text \<open>The first \<open>tc\<close> from byte \<open>p\<close> on is \<open>n\<close> bytes further.\<close>

definition line_at :: "bytes \<Rightarrow> int \<Rightarrow> byte \<Rightarrow> int \<Rightarrow> bool" where
  "line_at c p tc n \<longleftrightarrow> 0 \<le> n \<and> p + n < int (length c) \<and> c ! nat (p + n) = tc \<and>
     (\<forall>i\<in>{0..<nat n}. c ! (nat p + i) \<noteq> tc)"

lemma find_term_none: "tc \<notin> set b \<Longrightarrow> find_term_char b tc = None"
proof -
  assume "tc \<notin> set b"
  then have "takeWhile (\<lambda>c. c \<noteq> tc) b = b" by (auto simp: takeWhile_eq_all_conv)
  then show ?thesis by (simp add: find_term_char_def Let_def del: takeWhile_eq_all_conv)
qed

lemma find_term_some:
  assumes "n < length b" "b ! n = tc" "\<forall>i<n. b ! i \<noteq> tc"
  shows "find_term_char b tc = Some n"
proof -
  have "takeWhile (\<lambda>c. c \<noteq> tc) b = take n b"
    using assms by (intro takeWhile_eq_take_P_nth) auto
  then show ?thesis using assms(1) by (simp add: find_term_char_def Let_def)
qed

lemma find_term_segment:
  assumes "line_at c p tc n" "0 \<le> p" "0 \<le> x" "p + x \<le> int (length c)"
  shows "find_term_char (segment c p x) tc = (if n < x then Some (nat n) else None)"
proof -
  have nth: "segment c p x ! i = c ! (nat p + i)" if "i < nat x" for i
    using that assms by (simp add: segment_def)
  have len: "length (segment c p x) = nat x" using assms by (simp add: length_segment)
  show ?thesis
  proof (cases "n < x")
    case True
    have "find_term_char (segment c p x) tc = Some (nat n)"
      by (rule find_term_some) (use True assms nth len in \<open>auto simp: line_at_def nat_add_distrib\<close>)
    then show ?thesis using True by simp
  next
    case False
    then have "tc \<notin> set (segment c p x)" using assms nth len by (auto simp: in_set_conv_nth line_at_def)
    then show ?thesis using False by (simp add: find_term_none)
  qed
qed

lemma line_at_skip: "line_at c p tc n \<Longrightarrow> 0 \<le> p \<Longrightarrow> 0 \<le> x \<Longrightarrow> x \<le> n \<Longrightarrow> line_at c (p + x) tc (n - x)"
proof -
  assume a: "line_at c p tc n" "0 \<le> p" "0 \<le> x" "x \<le> n"
  have "c ! (nat (p + x) + i) \<noteq> tc" if "i < nat (n - x)" for i
  proof -
    have "nat (p + x) + i = nat p + (nat x + i)" "nat x + i < nat n" using that a by linarith+
    then show ?thesis using a(1) by (metis atLeastLessThan_iff le0 line_at_def)
  qed
  then show ?thesis using a by (simp add: line_at_def)
qed

context filler
begin

lemma read_until_step:
  assumes "ok s" "line_at content (stream_tell s) tc n"
  obtains s1 r x where
    "(if st_buf_len s - st_buf_pos s \<le> 0 then fill s else Some (1, s)) = Some (r, s1)" "r \<noteq> 0" "ok s1"
    "stream_tell s1 = stream_tell s" "x = st_buf_len s1 - st_buf_pos s1" "0 < x"
    "buffer_slice s1 x = Some (segment content (stream_tell s) x)"
    "find_term_char (segment content (stream_tell s) x) tc = (if n < x then Some (nat n) else None)"
    "length (segment content (stream_tell s) x) = nat x"
    "stream_tell s + x \<le> int (length content)"
    "st_buf_pos s < st_buf_len s \<longrightarrow> s1 = s"
proof -
  note v = ok_view [OF assms(1)] and tl = ok_tell [OF assms(1)]
  have in_content: "stream_tell s < int (length content)" using assms(2) by (auto simp: line_at_def)
  obtain r s1 where s1: "(if st_buf_len s - st_buf_pos s \<le> 0 then fill s else Some (1, s)) = Some (r, s1)" "r \<noteq> 0"
    "ok s1" "stream_tell s1 = stream_tell s" "st_buf_pos s1 < st_buf_len s1" "st_buf_pos s < st_buf_len s \<longrightarrow> s1 = s"
  proof (cases "st_buf_pos s < st_buf_len s")
    case True
    then show ?thesis using that [of 1 s] assms(1) by simp
  next
    case False
    then have e: "st_buf_pos s = st_buf_len s" using v by simp
    then have "st_pos s < int (length content)" "stream_tell s = st_pos s" using in_content by (auto simp: stream_tell_def)
    then show ?thesis using fill_more [OF assms(1) e] that e by force
  qed
  define x where "x = st_buf_len s1 - st_buf_pos s1"
  have x: "0 < x" "stream_tell s + x \<le> int (length content)"
    using s1(4,5) ok_view [OF s1(3)] by (auto simp: x_def stream_tell_def)
  show ?thesis
    using that [OF s1(1-4) x_def x(1)] ok_slice [OF s1(3), of x] x s1(4,6) assms(2) find_term_segment [OF assms(2)] tl
    by (simp add: x_def length_segment)
qed

lemma read_until_loop:
  "ok s \<Longrightarrow> line_at content (stream_tell s) tc n \<Longrightarrow> room = 0 \<or> n + 1 \<le> room \<Longrightarrow>
    \<exists>s'. stream_read_until_loop fill tc room mem s =
        Some (mem @ (if room = 0 then [] else segment content (stream_tell s) (n + 1)), s') \<and>
      ok s' \<and> stream_tell s' = stream_tell s + n + 1"
proof (induction "nat n" arbitrary: n room mem s rule: less_induct)
  case less
  have n: "0 \<le> n" using less.prems(2) by (simp add: line_at_def)
  have tl: "0 \<le> stream_tell s" using ok_tell [OF less.prems(1)] by simp
  obtain s1 r x where st: "(if st_buf_len s - st_buf_pos s \<le> 0 then fill s else Some (1, s)) = Some (r, s1)" "r \<noteq> 0" "ok s1"
    "stream_tell s1 = stream_tell s" "x = st_buf_len s1 - st_buf_pos s1" "0 < x"
    "buffer_slice s1 x = Some (segment content (stream_tell s) x)"
    "find_term_char (segment content (stream_tell s) x) tc = (if n < x then Some (nat n) else None)"
    "length (segment content (stream_tell s) x) = nat x" "stream_tell s + x \<le> int (length content)"
    using read_until_step [OF less.prems(1,2)] by metis
  have cut: "take (nat k) (segment content (stream_tell s) x) = segment content (stream_tell s) k" if "k \<le> x" for k
    using that by (simp add: segment_def min_def nat_le_eq_zle)
  show ?case
  proof (cases "n < x")
    case True
    let ?s = "s1\<lparr>st_buf_pos := st_buf_pos s1 + (n + 1)\<rparr>"
    have "ok ?s" using ok_move [OF st(3), of "st_buf_pos s1 + (n + 1)"] True st(5) n ok_view [OF st(3)] by simp
    moreover have "stream_tell ?s = stream_tell s + n + 1" using st(4) by (simp add: stream_tell_def)
    moreover have "stream_read_until_loop fill tc room mem s =
        Some (mem @ (if room = 0 then [] else segment content (stream_tell s) (n + 1)), ?s)"
      using st(1,2,6-8) True n less.prems(3) cut [of "n + 1"] unfolding st(5)
      by (subst stream_read_until_loop.simps) (auto simp: Let_def min_def add.commute)
    ultimately show ?thesis by blast
  next
    case False
    let ?s = "s1\<lparr>st_buf_pos := st_buf_pos s1 + x\<rparr>"
    let ?mem = "mem @ (if room = 0 then [] else segment content (stream_tell s) x)"
    let ?room = "if room = 0 then 0 else room - x"
    have ok: "ok ?s" using ok_move [OF st(3), of "st_buf_pos s1 + x"] st(5,6) ok_view [OF st(3)] by simp
    have tell: "stream_tell ?s = stream_tell s + x" using st(4) by (simp add: stream_tell_def)
    have line: "line_at content (stream_tell ?s) tc (n - x)"
      using line_at_skip [OF less.prems(2)] tl st(6) False tell by simp
    have "stream_read_until_loop fill tc room mem s = stream_read_until_loop fill tc ?room ?mem ?s"
      using st(1,2,6-9) False less.prems(3) n cut [of x] unfolding st(5)
      by (subst stream_read_until_loop.simps) (auto simp: Let_def min_def)
    then show ?thesis
      using less.hyps [OF _ ok line, of ?room ?mem] less.prems(3) False st(6) n tell tl
        segment_append [of "stream_tell s" x "n - x + 1" content]
      by (auto simp: algebra_simps)
  qed
qed

lemma read_until_fits:
  assumes "ok s" "line_at content (stream_tell s) tc n" "n + 2 \<le> room"
  shows "\<exists>s'. stream_read_until fill s room tc = Some (Some (segment content (stream_tell s) (n + 1)), s') \<and>
    ok s' \<and> stream_tell s' = stream_tell s + n + 1"
proof -
  have n: "0 \<le> n" "stream_tell s + n < int (length content)" using assms(2) by (simp_all add: line_at_def)
  then have "segment content (stream_tell s) (n + 1) \<noteq> []"
    using length_segment [of "stream_tell s" "n + 1" content] ok_tell [OF assms(1)] by auto
  then show ?thesis using read_until_loop [OF assms(1,2), of "room - 1" "[]"] assms(3) n
    by (auto simp: stream_read_until_def)
qed

lemma read_until_overlong:
  assumes "ok s" "line_at content (stream_tell s) tc n" "1 < room" "room - 1 \<le> st_buf_len s - st_buf_pos s"
    "room - 1 \<le> n"
  shows "\<exists>s'. stream_read_until fill s room tc = Some (Some (segment content (stream_tell s) (room - 1)), s') \<and>
    ok s' \<and> stream_tell s' = stream_tell s + (if n < st_buf_len s - st_buf_pos s then room - 1 else n + 1)"
proof -
  have tl: "0 \<le> stream_tell s" using ok_tell [OF assms(1)] by simp
  obtain s1 r x where st: "(if st_buf_len s - st_buf_pos s \<le> 0 then fill s else Some (1, s)) = Some (r, s1)" "r \<noteq> 0" "ok s1"
    "stream_tell s1 = stream_tell s" "x = st_buf_len s1 - st_buf_pos s1" "0 < x"
    "buffer_slice s1 x = Some (segment content (stream_tell s) x)"
    "find_term_char (segment content (stream_tell s) x) tc = (if n < x then Some (nat n) else None)"
    "length (segment content (stream_tell s) x) = nat x" "stream_tell s + x \<le> int (length content)" "st_buf_pos s < st_buf_len s \<longrightarrow> s1 = s"
    by (rule read_until_step [OF assms(1,2)])
  have s1: "s1 = s" using st(11) assms(3,4) by simp
  have cut: "take (nat k) (segment content (stream_tell s) x) = segment content (stream_tell s) k" if "k \<le> x" for k
    using that by (simp add: segment_def min_def nat_le_eq_zle)
  let ?s = "s\<lparr>st_buf_pos := st_buf_pos s + (room - 1)\<rparr>"
  let ?line = "segment content (stream_tell s) (room - 1)"
  have ok: "ok ?s" using ok_move [OF assms(1), of "st_buf_pos s + (room - 1)"] assms(3,4) ok_view [OF assms(1)] by simp
  have tell: "stream_tell ?s = stream_tell s + (room - 1)" by (simp add: stream_tell_def)
  have ne: "?line \<noteq> []"
    using length_segment [of "stream_tell s" "room - 1" content] tl assms(3,4) st(5,10) s1 by auto
  have sl: "buffer_slice s (st_buf_len s - st_buf_pos s) = Some (segment content (stream_tell s) x)" using st(5,7) s1 by simp
  show ?thesis
  proof (cases "n < x")
    case True
    have "stream_read_until_loop fill tc (room - 1) [] s = Some (?line, ?s)"
      using sl True st(5,6,8) s1 assms cut [of "room - 1"]
      by (subst stream_read_until_loop.simps) (auto simp: Let_def min_def)
    then show ?thesis using ok tell ne True st(5) s1 assms(3) by (auto simp: stream_read_until_def)
  next
    case False
    have "stream_read_until_loop fill tc (room - 1) [] s = stream_read_until_loop fill tc 0 ?line ?s"
    proof (cases "x = room - 1")
      case True
      then have "st_buf_len s = st_buf_pos s + (room - 1)" using st(5) s1 by simp
      then show ?thesis using sl False st(5,6,8,9) s1 assms True
        by (subst stream_read_until_loop.simps) (auto simp: Let_def min_def)
    next
      case cutoff: False
      then show ?thesis using sl False st(5,6,8,9) s1 assms cut [of "room - 1"]
        by (subst stream_read_until_loop.simps) (auto simp: Let_def min_def)
    qed
    moreover have "line_at content (stream_tell ?s) tc (n - (room - 1))"
      using line_at_skip [OF assms(2), of "room - 1"] tl assms(3,5) tell by simp
    ultimately show ?thesis using read_until_loop [OF ok, of tc "n - (room - 1)" 0 ?line] ne tell False st(5) s1 assms(3)
      by (auto simp: stream_read_until_def)
  qed
qed

end

section \<open>Properties of reading a local file\<close>

text \<open>\<open>stream_ok\<close> of the file driver written out.\<close>

definition file_ok :: "bytes \<Rightarrow> fd_state stream \<Rightarrow> bool" where
  "file_ok content s \<longleftrightarrow> file_at content (st_priv s) (st_pos s) \<and> st_type s = STREAMTYPE_FILE \<and>
     st_pos s \<le> int (length content) \<and>
     0 \<le> st_buf_pos s \<and> st_buf_pos s \<le> st_buf_len s \<and> st_buf_len s \<le> st_pos s \<and>
     length (st_buffer s) = nat STREAM_MAX_SECTOR_SIZE \<and>
     st_buf_len s \<le> STREAM_BUFFER_SIZE \<and> st_mode s \<noteq> STREAM_WRITE \<and> 0 \<le> st_sector_size s \<and>
     segment (st_buffer s) 0 (st_buf_len s) = segment content (st_pos s - st_buf_len s) (st_buf_len s)"

lemma file_ok: "file_ok content s = disk.stream_ok content s"
  by (simp add: file_ok_def disk.stream_ok_def)

lemma open_f_ok: "0 < fd_chunk fd \<Longrightarrow> fd_seekable fd \<Longrightarrow> fd_offset fd = 0 \<Longrightarrow> file_ok (fd_content fd) (open_f fd)"
  by (simp add: file_ok_def open_f_def new_stream_def Let_def file_at_def STREAM_WRITE_def stream_consts)

lemma seek_internal_here: "newpos \<noteq> 0 \<Longrightarrow> newpos = st_pos s \<Longrightarrow> stream_seek_internal drv s newpos = (-1, s)"
  by (simp add: stream_seek_internal_def)

lemma pipe_fill:
  assumes "fd_content (st_priv s) = c" "length c = 10000" "fd_chunk (st_priv s) = 3000" "fd_offset (st_priv s) = p"
    "p + 3000 \<le> 10000"
  shows "file_fill_buffer s STREAM_BUFFER_SIZE = (3000, take 3000 (drop p c), s\<lparr>st_priv := (st_priv s)\<lparr>fd_offset := p + 3000\<rparr>\<rparr>)"
proof -
  have "length (take 3000 (drop p c)) = 3000" using assms by simp
  then show ?thesis using assms(1,3,4)
    by (simp add: file_fill_buffer_def file_fd_read_def fd_read_def Let_def stream_consts del: length_take)
qed

lemma pipe_internal:
  assumes "fd_content (st_priv s) = c" "length c = 10000" "fd_chunk (st_priv s) = 3000" "fd_offset (st_priv s) = p"
    "p + 3000 \<le> 10000" "st_type s = STREAMTYPE_STREAM"
  shows "stream_read_internal pipe_driver s STREAM_BUFFER_SIZE = Some (3000, take 3000 (drop p c),
    s\<lparr>st_priv := (st_priv s)\<lparr>fd_offset := p + 3000\<rparr>, st_eof := False, st_pos := st_pos s + 3000\<rparr>)"
  by (subst stream_read_internal.simps)
    (simp add: stream_read_switch_def pipe_driver_def file_driver_def assms pipe_fill [OF assms(1-5)])

lemma pipe_fill_buffer:
  assumes "fd_content (st_priv s) = c" "length c = 10000" "fd_chunk (st_priv s) = 3000" "fd_offset (st_priv s) = p"
    "p + 3000 \<le> 10000" "st_type s = STREAMTYPE_STREAM"
  shows "stream_fill_buffer pipe_driver s = Some (3000,
    s\<lparr>st_priv := (st_priv s)\<lparr>fd_offset := p + 3000\<rparr>, st_eof := False, st_pos := st_pos s + 3000,
     st_buffer := overwrite 0 (take 3000 (drop p c)) (st_buffer s), st_buf_pos := 0, st_buf_len := 3000\<rparr>)"
  unfolding stream_fill_buffer_def pipe_internal [OF assms]
  by (simp add: stream_fill_more.simps stream_consts)

lemma pipe_seek:
  fixes c :: bytes
  assumes "length c = 10000"
  shows "map_option (\<lambda>(r, s). (r, stream_tell s)) (stream_seek (stream_seek_long pipe_driver) (open_f \<lparr>fd_content = c, fd_offset = 0, fd_chunk = 3000, fd_seekable = False\<rparr>) 4100)
    = Some (1, 6004)"
proof -
  define fd where "fd = \<lparr>fd_content = c, fd_offset = 0, fd_chunk = 3000, fd_seekable = False\<rparr>"
  let ?s = "(open_f fd)\<lparr>st_buf_pos := 0, st_buf_len := 0\<rparr>"
  have s: "fd_content (st_priv ?s) = c" "fd_chunk (st_priv ?s) = 3000" "fd_offset (st_priv ?s) = 0" "st_pos ?s = 0"
    "st_type ?s = STREAMTYPE_STREAM" "st_mode ?s \<noteq> STREAM_WRITE" "st_sector_size ?s = 0" "st_buf_len (open_f fd) = 0"
    by (simp_all add: open_f_def fd_def new_stream_def STREAM_WRITE_def)
  have "\<exists>t. file_seek_forward ?s 4096 = (True, t) \<and> fd_content (st_priv t) = c \<and> fd_chunk (st_priv t) = 3000 \<and>
      fd_offset (st_priv t) = 6000 \<and> st_pos t = 6000 \<and> st_type t = STREAMTYPE_STREAM"
    using s by (simp add: file_seek_forward_def file_seek_forward_loop.simps pipe_fill assms(1))
  then obtain t where t: "file_seek_forward ?s 4096 = (True, t)" "fd_content (st_priv t) = c"
    "fd_chunk (st_priv t) = 3000" "fd_offset (st_priv t) = 6000" "st_pos t = 6000" "st_type t = STREAMTYPE_STREAM" by blast
  have "seek_newpos ?s 4100 = 4096" using s(7) by (simp add: seek_newpos_def stream_consts)
  moreover have "stream_seek_internal pipe_driver ?s 4096 = (-1, t)"
    using t s by (simp add: stream_seek_internal_def pipe_driver_def)
  ultimately have "stream_seek_long pipe_driver (open_f fd) 4100 = do {
      s \<leftarrow> stream_forward (stream_fill_buffer pipe_driver) 4096 t;
      stream_seek_in_buffer (stream_fill_buffer pipe_driver) 4 s }"
    using s by (simp add: stream_seek_long_def)
  also have "stream_forward (stream_fill_buffer pipe_driver) 4096 t = Some t"
    using t by (subst stream_forward.simps) simp
  finally have "map_option (\<lambda>(r, s). (r, stream_tell s)) (stream_seek_long pipe_driver (open_f fd) 4100) = Some (1, 6004)"
    using t by (simp add: pipe_fill_buffer [OF t(2) assms(1) t(3) t(4)] stream_seek_in_buffer.simps stream_tell_def)
  moreover have "st_pos (open_f fd) = 0" using s by simp
  ultimately show ?thesis using s by (simp add: stream_seek_def flip: fd_def)
qed


text \<open>The file of the witnesses: ten bytes, read at most three at a time.\<close>

definition ten_bytes :: fd_state where
  "ten_bytes = \<lparr>fd_content = [10, 20, 30, 40, 50, 60, 70, 80, 90, 100], fd_offset = 0, fd_chunk = 3, fd_seekable = True\<rparr>"

lemma ten_bytes_ok: "file_ok (fd_content ten_bytes) (open_f ten_bytes)"
  by (rule open_f_ok) (simp_all add: ten_bytes_def)

lemma ten_bytes_length: "length (fd_content ten_bytes) = 10"
  by (simp add: ten_bytes_def)

lemma ten_bytes_tell: "stream_tell (open_f ten_bytes) = 0"
  by (simp add: stream_tell_def open_f_def new_stream_def Let_def)



text \<open>C26: stream_seek on a local file to any position before its end succeeds, whether the position is in the
  buffer or not, and stream_tell is then that position.\<close>

theorem file_stream_seek:
  assumes "file_ok content s" "0 \<le> pos" "pos < int (length content)"
  shows "\<exists>s'. stream_seek (stream_seek_long file_driver) s pos = Some (1, s') \<and> file_ok content s' \<and> stream_tell s' = pos"
  using assms disk.seek [of content s pos] by (simp add: file_ok)

theorem file_stream_seek_witness:
  "\<exists>s'. stream_seek (stream_seek_long file_driver) (open_f ten_bytes) 7 = Some (1, s') \<and> stream_tell s' = 7"
  using file_stream_seek [OF ten_bytes_ok, of 7] by (auto simp: ten_bytes_length)

text \<open>stream_read_dword on a local file with four bytes left reads them as a big-endian number,
  across any refill of the buffer.\<close>

theorem file_stream_read_dword:
  assumes "file_ok content s" "stream_tell s + 4 \<le> int (length content)"
  shows "\<exists>w s'. stream_read_dword (stream_fill_buffer file_driver) s = Some (w, s') \<and> file_ok content s' \<and>
    stream_tell s' = stream_tell s + 4 \<and> uint w = be_value (segment content (stream_tell s) 4)"
  using assms disk.fl.read_dword [of content s] by (simp add: file_ok)

theorem file_stream_read_dword_witness:
  "\<exists>w s'. stream_read_dword (stream_fill_buffer file_driver) (open_f ten_bytes) = Some (w, s') \<and> uint w = 169090600"
proof -
  have "be_value (segment (fd_content ten_bytes) 0 4) = 169090600"
    by (simp add: ten_bytes_def segment_def be_value_def)
  then show ?thesis using file_stream_read_dword [OF ten_bytes_ok] by (auto simp: ten_bytes_tell ten_bytes_length)
qed

text \<open>C27: reading a line that fits into the caller's memory returns exactly the bytes up to and including the
  terminator and leaves the stream right after it, across any refill of the buffer.\<close>

theorem file_read_line_fits:
  assumes "file_ok content s" "line_at content (stream_tell s) tc n" "n + 2 \<le> room"
  shows "\<exists>s'. stream_read_until (stream_fill_buffer file_driver) s room tc
      = Some (Some (segment content (stream_tell s) (n + 1)), s') \<and>
    file_ok content s' \<and> stream_tell s' = stream_tell s + n + 1"
  using assms disk.fl.read_until_fits [of content s tc n room] by (simp add: file_ok)

theorem file_read_line_fits_witness:
  "\<exists>s'. stream_read_until (stream_fill_buffer file_driver) (open_f ten_bytes) 10 30 = Some (Some [10, 20, 30], s')
    \<and> stream_tell s' = 3"
proof -
  have "line_at (fd_content ten_bytes) 0 30 2" by (simp add: line_at_def ten_bytes_def atLeastLessThan_upt upt_rec)
  moreover have "segment (fd_content ten_bytes) 0 3 = [10, 20, 30]" by (simp add: ten_bytes_def segment_def)
  ultimately show ?thesis using file_read_line_fits [OF ten_bytes_ok, of 30 2 10] by (auto simp: ten_bytes_tell)
qed

text \<open>What reading a line longer than the caller's memory consumes depends on where the buffer ends: if the
  terminator is in the buffer the rest of the line stays in the stream, and is returned as the next line;
  if it is not, the rest of the line is thrown away.\<close>

theorem file_read_line_overlong:
  assumes "file_ok content s" "line_at content (stream_tell s) tc n" "1 < room"
    "room - 1 \<le> st_buf_len s - st_buf_pos s" "room - 1 \<le> n"
  shows "\<exists>s'. stream_read_until (stream_fill_buffer file_driver) s room tc
      = Some (Some (segment content (stream_tell s) (room - 1)), s') \<and> file_ok content s' \<and>
    stream_tell s' = stream_tell s + (if n < st_buf_len s - st_buf_pos s then room - 1 else n + 1)"
  using assms disk.fl.read_until_overlong [of content s tc n room] by (simp add: file_ok)

definition ten_bytes_buffered :: "fd_state stream" where
  "ten_bytes_buffered = (open_f ten_bytes)\<lparr>st_pos := 4, st_buf_len := 4,
     st_buffer := overwrite 0 [10, 20, 30, 40] (st_buffer (open_f ten_bytes)),
     st_priv := ten_bytes\<lparr>fd_offset := 4\<rparr>\<rparr>"

lemma ten_bytes_buffered_ok: "file_ok (fd_content ten_bytes) ten_bytes_buffered"
  by (simp add: file_ok_def ten_bytes_buffered_def ten_bytes_def open_f_def new_stream_def Let_def file_at_def overwrite_def
    segment_def STREAM_WRITE_def stream_consts)

theorem file_read_line_overlong_witness:
  "\<exists>s1 s2. stream_read_until (stream_fill_buffer file_driver) ten_bytes_buffered 3 40 = Some (Some [10, 20], s1) \<and>
    stream_tell s1 = 2 \<and>
    stream_read_until (stream_fill_buffer file_driver) ten_bytes_buffered 3 50 = Some (Some [10, 20], s2) \<and>
    stream_tell s2 = 5"
proof -
  have t: "stream_tell ten_bytes_buffered = 0" "st_buf_len ten_bytes_buffered = 4" "st_buf_pos ten_bytes_buffered = 0"
    by (simp_all add: stream_tell_def ten_bytes_buffered_def open_f_def new_stream_def Let_def)
  have l: "line_at (fd_content ten_bytes) 0 40 3" "line_at (fd_content ten_bytes) 0 50 4"
    by (simp_all add: line_at_def ten_bytes_def atLeastLessThan_upt upt_rec)
  have seg: "segment (fd_content ten_bytes) 0 2 = [10, 20]" by (simp add: ten_bytes_def segment_def)
  show ?thesis
    using file_read_line_overlong [OF ten_bytes_buffered_ok, of 40 3 3]
      file_read_line_overlong [OF ten_bytes_buffered_ok, of 50 4 3] l by (auto simp: t seg)
qed

text \<open>C28: stream_read_internal always returns, for every driver whose read leaves the end-of-file mark alone
  once it is set: after one reconnect the mark is set, which ends the retrying.\<close>

theorem stream_read_internal_returns:
  assumes "\<And>s n. st_eof s \<Longrightarrow> st_eof (snd (snd (stream_read_switch drv s n)))"
  shows "\<exists>r. stream_read_internal drv s n = Some r"
proof -
  have again: "\<exists>r. stream_read_internal drv s n = Some r" if "st_eof s" for s
    using assms [OF that, of n] by (subst stream_read_internal.simps) (auto simp: Let_def)
  let ?s = "snd (snd (stream_read_switch drv s n))"
  have "\<exists>r. stream_read_internal drv ((snd (stream_reconnect drv ?s))\<lparr>st_eof := True\<rparr>) n = Some r"
    by (rule again) simp
  then show ?thesis by (subst stream_read_internal.simps) (simp add: Let_def)
qed

theorem stream_read_internal_returns_witness:
  "\<exists>r. stream_read_internal file_driver (open_f ten_bytes) 4 = Some r"
proof (rule stream_read_internal_returns)
  fix s :: "fd_state stream" and n
  assume "st_eof s"
  then show "st_eof (snd (snd (stream_read_switch file_driver s n)))"
    by (simp add: stream_read_switch_def file_driver_def file_fill_buffer_def file_fd_read_def fd_read_def Let_def)
qed

text \<open>Away from position 0 stream_reconnect reports success without calling any seek function of the
  driver: stream_seek_internal returns at once when the stream already is at the position asked for.\<close>

theorem stream_reconnect_does_not_seek:
  assumes "st_pos s \<noteq> 0" "\<And>f s. drv_reset drv = Some f \<Longrightarrow> st_pos (f s) = st_pos s"
  shows "stream_reconnect drv s = (True, stream_reset drv (s\<lparr>st_eof := True\<rparr>))"
proof -
  let ?t = "stream_reset drv (s\<lparr>st_eof := True\<rparr>)"
  have "st_pos ?t = st_pos s"
    using assms(2) by (auto simp: stream_reset_def Let_def split: option.splits)
  then have "stream_seek_internal drv ?t (st_pos s) = (-1, ?t)" "st_pos ?t = st_pos s"
    using assms(1) by (simp_all add: seek_internal_here)
  then have "stream_reconnect_loop drv (st_pos s) (Suc n) s = (True, ?t)" for n
    by (simp add: Let_def)
  from this [of 4] show ?thesis by (simp add: stream_reconnect_def MAX_RECONNECT_RETRIES_def eval_nat_numeral)
qed

theorem stream_reconnect_does_not_seek_witness:
  "stream_reconnect file_driver ten_bytes_buffered = (True, stream_reset file_driver (ten_bytes_buffered\<lparr>st_eof := True\<rparr>))"
  by (rule stream_reconnect_does_not_seek) (simp_all add: ten_bytes_buffered_def file_driver_def)

text \<open>When write(2) takes only a part of the bytes, write_buffer of stream_file.c calls it again with the
  whole length from the advanced pointer, and so reads past the end of the caller's buffer.\<close>

theorem file_write_short:
  assumes "0 < r" "r < len" "length mem = nat len"
  shows "file_write_buffer (r # rs) mem len = None"
  using assms by (simp add: file_write_buffer_def) (subst file_write_loop.simps, simp, subst file_write_loop.simps, simp)


theorem file_write_short_witness:
  "file_write_buffer [2, 1] [7, 8, 9] 3 = None"
  by (rule file_write_short) simp_all

text \<open>Seeking forward in a pipe can land past the target: with reads of 3000 bytes a seek to byte 4100
  reports success and stands at byte 6004. seek_forward stops behind the aligned position, and
  stream_seek_long then adds the offset in the buffer to where it stopped.\<close>

theorem pipe_seek_lands_after_target:
  "map_option (\<lambda>(r, s). (r, stream_tell s)) (stream_seek (stream_seek_long pipe_driver)
      (open_f \<lparr>fd_content = replicate 10000 0, fd_offset = 0, fd_chunk = 3000, fd_seekable = False\<rparr>) 4100)
    = Some (1, 6004)"
  by (rule pipe_seek) simp

end
