(* ===== verification/Cache.thy ===== *)
theory Cache
  imports Stream "HOL-Library.Signed_Division"
begin

text \<open>
  stream/cache2.c: a filler process or thread reads ahead of the player into a ring buffer in shared memory, the
  player reads from it. The state both share is \<open>cache_vars\<close>; \<open>cached\<close> adds the filler's own copy of the stream.
  File positions are unbounded integers here, as in \<open>Stream\<close>. The messages, the process handling and the remote
  control calls (\<open>cache_do_control\<close>, \<open>cache_execute_control\<close>) are not modelled.
\<close>

section \<open>State\<close>

text \<open>
  The shared memory of the two sides: the reader advances \<open>read_filepos\<close>, the filler the other positions. The byte
  at file position \<open>p\<close> of the window from \<open>min_filepos\<close> to \<open>max_filepos\<close> is at \<open>p - offset\<close>, wrapped around.
\<close>

record cache_vars =
  cv_buffer :: bytes
  cv_buffer_size :: int
  cv_sector_size :: int
  cv_back_size :: int
  cv_fill_limit :: int
  cv_seek_limit :: int
  cv_eof :: bool
  cv_min_filepos :: int
  cv_max_filepos :: int
  cv_offset :: int
  cv_read_filepos :: int

record 'd cached =
  ca_vars :: cache_vars
  ca_stream :: "'d stream"

definition cache_init :: "int \<Rightarrow> int \<Rightarrow> cache_vars" where
  "cache_init bytes sector =
     (let num = bytes div sector; num = (if num < 16 then 16 else num); bs = num * sector
      in \<lparr>cv_buffer = replicate (nat bs) 0, cv_buffer_size = bs, cv_sector_size = sector, cv_back_size = bs div 2,
          cv_fill_limit = 8 * sector, cv_seek_limit = 0, cv_eof = False, cv_min_filepos = 0, cv_max_filepos = 0,
          cv_offset = 0, cv_read_filepos = 0\<rparr>)"

section \<open>The filler\<close>

definition cache_flush :: "cache_vars \<Rightarrow> cache_vars" where
  "cache_flush s = s\<lparr>cv_offset := cv_read_filepos s, cv_min_filepos := cv_read_filepos s, cv_max_filepos := cv_read_filepos s\<rparr>"

text \<open>
  \<open>cache_fill\<close> in the order the code touches the shared memory: first it takes a copy of \<open>read_filepos\<close> and seeks
  when that lies outside the window, then it plans how much goes where, then it gives up old bytes by raising
  \<open>min_filepos\<close>, then the bytes are read into the buffer, and at last they are announced.
\<close>

definition cache_fill_seek :: "'d driver \<Rightarrow> 'd cached \<Rightarrow> 'd cached" where
  "cache_fill_seek drv c =
     (let s = ca_vars c; read = cv_read_filepos s
      in if read < cv_min_filepos s \<or> read > cv_max_filepos s then
           if read < cv_min_filepos s \<or> read \<ge> cv_max_filepos s + cv_seek_limit s then
             (let s = cache_flush s; st = ca_stream c;
                  st = (if st_eof st then stream_reset drv st else st)
              in \<lparr>ca_vars = s, ca_stream = snd (stream_seek_internal drv st read)\<rparr>)
           else c
         else c)"

text \<open>The plan: the position in the buffer, the number of bytes, and whether to copy around the end.\<close>

definition cache_fill_plan :: "cache_vars \<Rightarrow> int \<Rightarrow> int \<Rightarrow> (int \<times> int \<times> bool) option" where
  "cache_fill_plan s read read_chunk =
     (let back = read - cv_min_filepos s; back = (if back < 0 then 0 else back);
          back = (if back > cv_back_size s then cv_back_size s else back);
          newb = cv_max_filepos s - read; newb = (if newb < 0 then 0 else newb);
          space = cv_buffer_size s - (newb + back);
          pos = cv_max_filepos s - cv_offset s;
          pos = (if pos \<ge> cv_buffer_size s then pos - cv_buffer_size s else pos)
      in if space < cv_fill_limit s then None
         else
           (let wrap = (space > cv_buffer_size s - pos \<and> \<not> cv_buffer_size s - pos \<ge> cv_sector_size s);
                space = (if space > cv_buffer_size s - pos
                  then (if cv_buffer_size s - pos \<ge> cv_sector_size s then cv_buffer_size s - pos else cv_sector_size s)
                  else space);
                chunk = (if read_chunk = 0 then 4 * cv_sector_size s else read_chunk)
            in Some (pos, min space chunk, wrap)))"

definition cache_fill_min :: "cache_vars \<Rightarrow> int \<Rightarrow> int \<Rightarrow> cache_vars" where
  "cache_fill_min s read space =
     (let newb = cv_max_filepos s - read; newb = (if newb < 0 then 0 else newb);
          back2 = cv_buffer_size s - (space + newb)
      in if cv_min_filepos s < read - back2 then s\<lparr>cv_min_filepos := read - back2\<rparr> else s)"

text \<open>\<open>memcpy(buf + pos, data, length data)\<close>, undefined outside the buffer.\<close>

definition copy_into :: "bytes \<Rightarrow> int \<Rightarrow> bytes \<Rightarrow> bytes option" where
  "copy_into buf pos data = (if 0 \<le> pos \<and> pos + int (length data) \<le> int (length buf) then Some (overwrite pos data buf) else None)"

definition cache_fill_copy :: "cache_vars \<Rightarrow> int \<Rightarrow> bool \<Rightarrow> bytes \<Rightarrow> cache_vars option" where
  "cache_fill_copy s pos wrap data =
     (if wrap then
        (let to_copy = min (int (length data)) (cv_buffer_size s - pos)
         in do { b \<leftarrow> copy_into (cv_buffer s) pos (take (nat to_copy) data);
                 b \<leftarrow> copy_into b 0 (drop (nat to_copy) data);
                 Some (s\<lparr>cv_buffer := b\<rparr>) })
      else do { b \<leftarrow> copy_into (cv_buffer s) pos data; Some (s\<lparr>cv_buffer := b\<rparr>) })"

definition cache_fill_announce :: "cache_vars \<Rightarrow> int \<Rightarrow> int \<Rightarrow> cache_vars" where
  "cache_fill_announce s pos len =
     (let s = s\<lparr>cv_eof := (len = 0)\<rparr>; s = s\<lparr>cv_max_filepos := cv_max_filepos s + len\<rparr>
      in if pos + len \<ge> cv_buffer_size s then s\<lparr>cv_offset := cv_offset s + cv_buffer_size s\<rparr> else s)"

definition cache_fill :: "'d driver \<Rightarrow> 'd cached \<Rightarrow> (int \<times> 'd cached) option" where
  "cache_fill drv c =
     (let read = cv_read_filepos (ca_vars c); c = cache_fill_seek drv c
      in case cache_fill_plan (ca_vars c) read (st_read_chunk (ca_stream c)) of
           None \<Rightarrow> Some (0, c)
         | Some (pos, space, wrap) \<Rightarrow> do {
             let s = cache_fill_min (ca_vars c) read space;
             (len, data, st) \<leftarrow> stream_read_internal drv (ca_stream c) space;
             let st = (if wrap then st\<lparr>st_buffer := overwrite 0 data (st_buffer st)\<rparr> else st);
             s \<leftarrow> cache_fill_copy s pos wrap data;
             Some (len, \<lparr>ca_vars = cache_fill_announce s pos len, ca_stream = st\<rparr>) })"

section \<open>The reader\<close>

text \<open>
  While the cache has nothing for it the reader sleeps in \<open>stream_check_interrupt\<close>. \<open>wait\<close> is that call: whether
  the user interrupted, and the state the filler left behind in the meantime.
\<close>

type_synonym 'd waiting = "'d cached \<Rightarrow> (bool \<times> 'd cached) option"

definition filler_turn :: "'d driver \<Rightarrow> 'd waiting" where
  "filler_turn drv c = map_option (\<lambda>r. (False, snd r)) (cache_fill drv c)"

definition cache_read_pos :: "cache_vars \<Rightarrow> int" where
  "cache_read_pos s = (let pos = cv_read_filepos s - cv_offset s
     in if pos < 0 then pos + cv_buffer_size s else if pos \<ge> cv_buffer_size s then pos - cv_buffer_size s else pos)"

definition copy_from :: "bytes \<Rightarrow> int \<Rightarrow> int \<Rightarrow> bytes option" where
  "copy_from buf pos n = (if 0 \<le> pos \<and> 0 \<le> n \<and> pos + n \<le> int (length buf) then Some (segment buf pos n) else None)"

partial_function (option) cache_read_loop :: "'d waiting \<Rightarrow> int \<Rightarrow> bytes \<Rightarrow> 'd cached \<Rightarrow> (bytes \<times> 'd cached) option" where
  "cache_read_loop wait n out c =
     (if n > 0 then
        if cv_read_filepos (ca_vars c) \<ge> cv_max_filepos (ca_vars c) \<or> cv_read_filepos (ca_vars c) < cv_min_filepos (ca_vars c) then
          if cv_eof (ca_vars c) then Some (out, c)
          else Option.bind (wait c) (\<lambda>w.
            if fst w then Some (out, (snd w)\<lparr>ca_vars := (ca_vars (snd w))\<lparr>cv_eof := True\<rparr>\<rparr>)
            else cache_read_loop wait n out (snd w))
        else
          (let s = ca_vars c; pos = cache_read_pos s;
               newb = min (min (cv_max_filepos s - cv_read_filepos s) (cv_buffer_size s - pos)) n
           in Option.bind (copy_from (cv_buffer s) pos newb) (\<lambda>data.
                cache_read_loop wait (n - newb) (out @ data)
                  (c\<lparr>ca_vars := s\<lparr>cv_read_filepos := cv_read_filepos s + newb\<rparr>\<rparr>)))
      else Some (out, c))"

definition cache_read :: "'d waiting \<Rightarrow> 'd cached \<Rightarrow> int \<Rightarrow> (bytes \<times> 'd cached) option" where
  "cache_read wait c n = cache_read_loop wait n [] c"

definition cache_stream_fill_buffer :: "'d waiting \<Rightarrow> 'd cached filler" where
  "cache_stream_fill_buffer wait s = do {
     let n = cv_sector_size (ca_vars (st_priv s));
     let n = (if n > STREAM_MAX_SECTOR_SIZE then STREAM_MAX_SECTOR_SIZE else n);
     (data, c) \<leftarrow> cache_read wait (st_priv s) n;
     let s = s\<lparr>st_priv := c\<rparr>;
     let len = int (length data);
     if len \<le> 0 then Some (0, s\<lparr>st_eof := True, st_buf_pos := 0, st_buf_len := 0\<rparr>)
     else Some (len, s\<lparr>st_eof := False, st_buffer := overwrite 0 data (st_buffer s), st_buf_pos := 0, st_buf_len := len,
                       st_pos := st_pos s + len\<rparr>) }"

definition cache_fill_status :: "'d cached \<Rightarrow> int" where
  "cache_fill_status c = (cv_max_filepos (ca_vars c) - cv_read_filepos (ca_vars c)) sdiv (cv_buffer_size (ca_vars c) sdiv 100)"

text \<open>Moving the reader; the old contents stay until the filler sees the new position.\<close>

definition cache_set_read :: "int \<Rightarrow> 'd cached stream \<Rightarrow> 'd cached stream" where
  "cache_set_read newpos s = s\<lparr>st_pos := newpos,
     st_priv := (st_priv s)\<lparr>ca_vars := (ca_vars (st_priv s))\<lparr>cv_read_filepos := newpos, cv_eof := False\<rparr>\<rparr>\<rparr>"

definition cache_stream_seek_long :: "'d waiting \<Rightarrow> 'd cached stream \<Rightarrow> int \<Rightarrow> (int \<times> 'd cached stream) option" where
  "cache_stream_seek_long wait s pos = do {
     let ss = cv_sector_size (ca_vars (st_priv s));
     let newpos = (pos div ss) * ss;
     (r, s) \<leftarrow> cache_stream_fill_buffer wait (cache_set_read newpos s);
     let pos = pos - newpos;
     if pos \<ge> 0 \<and> pos \<le> st_buf_len s then Some (1, s\<lparr>st_buf_pos := pos\<rparr>) else Some (0, s) }"

section \<open>Enabling the cache\<close>

text \<open>The wait for the first bytes; the result is the return value of \<open>stream_enable_cache\<close>.\<close>

partial_function (option) cache_prefill :: "'d waiting \<Rightarrow> int \<Rightarrow> 'd cached \<Rightarrow> (int \<times> 'd cached) option" where
  "cache_prefill wait room c =
     (if cv_read_filepos (ca_vars c) < cv_min_filepos (ca_vars c) \<or>
         cv_max_filepos (ca_vars c) - cv_read_filepos (ca_vars c) < room then
        if cv_eof (ca_vars c) then Some (1, c)
        else Option.bind (wait c) (\<lambda>w. if fst w then Some (0, snd w) else cache_prefill wait room (snd w))
      else Some (1, c))"

definition STREAM_NON_CACHEABLE :: int where "STREAM_NON_CACHEABLE = 8"
definition SIZE_MAX :: int where "SIZE_MAX = 2 ^ 64 - 1"

text \<open>The stream the reader keeps using has the cache as its private data.\<close>

definition with_priv :: "'e \<Rightarrow> 'd stream \<Rightarrow> 'e stream" where
  "with_priv d s = \<lparr>st_type = st_type s, st_flags = st_flags s, st_sector_size = st_sector_size s,
     st_read_chunk = st_read_chunk s, st_buf_pos = st_buf_pos s, st_buf_len = st_buf_len s, st_pos = st_pos s,
     st_start_pos = st_start_pos s, st_end_pos = st_end_pos s, st_eof = st_eof s, st_mode = st_mode s,
     st_buffer = st_buffer s, st_priv = d\<rparr>"

definition stream_enable_cache :: "'d waiting \<Rightarrow> 'd stream \<Rightarrow> int \<Rightarrow> int \<Rightarrow> int \<Rightarrow> (int \<times> 'd cached stream option) option" where
  "stream_enable_cache wait st bytes room seek_limit =
     (let ss = (if st_sector_size st \<noteq> 0 then st_sector_size st else STREAM_BUFFER_SIZE)
      in if st_flags st AND STREAM_NON_CACHEABLE \<noteq> 0 then Some (1, None)
         else if bytes > SIZE_MAX then Some (-1, None)
         else
           (let s = cache_init bytes ss; limit = cv_buffer_size s - cv_fill_limit s;
                s = s\<lparr>cv_seek_limit := (if seek_limit > limit then limit else seek_limit)\<rparr>;
                room = (if room > limit then limit else room);
                room = (if room \<le> 0 then 1 else room)
            in map_option (\<lambda>(r, c). (r, if r = 1 then Some (with_priv c st) else None))
                 (cache_prefill wait room \<lparr>ca_vars = s, ca_stream = st\<rparr>)))"


section \<open>The contents are the file's\<close>

text \<open>Where the byte of a file position is kept.\<close>

definition cache_slot :: "cache_vars \<Rightarrow> int \<Rightarrow> nat" where
  "cache_slot s p = nat ((p - cv_offset s) mod cv_buffer_size s)"

definition cache_window_ok :: "bytes \<Rightarrow> cache_vars \<Rightarrow> bool" where
  "cache_window_ok content s \<longleftrightarrow>
     (\<forall>p\<in>{cv_min_filepos s..<cv_max_filepos s}. cv_buffer s ! cache_slot s p = content ! nat p)"

definition cache_ok :: "bytes \<Rightarrow> cache_vars \<Rightarrow> bool" where
  "cache_ok content s \<longleftrightarrow> 0 < cv_sector_size s \<and> 16 * cv_sector_size s \<le> cv_buffer_size s \<and>
     int (length (cv_buffer s)) = cv_buffer_size s \<and> cv_back_size s = cv_buffer_size s div 2 \<and>
     cv_fill_limit s = 8 * cv_sector_size s \<and> cv_seek_limit s \<le> cv_buffer_size s - cv_fill_limit s \<and>
     0 \<le> cv_min_filepos s \<and> 0 \<le> cv_max_filepos s \<and> cv_max_filepos s \<le> int (length content) \<and>
     cv_max_filepos s - cv_min_filepos s \<le> cv_buffer_size s \<and>
     cv_offset s \<le> cv_max_filepos s \<and> cv_max_filepos s < cv_offset s + cv_buffer_size s \<and>
     0 \<le> cv_read_filepos s \<and> cv_read_filepos s \<le> int (length content) \<and>
     (cv_eof s \<longrightarrow> cv_max_filepos s = int (length content) \<and> cv_min_filepos s \<le> cv_read_filepos s) \<and>
     cache_window_ok content s"

lemma cache_slot_pos:
  "- cv_buffer_size s \<le> p - cv_offset s \<Longrightarrow> p - cv_offset s < 2 * cv_buffer_size s \<Longrightarrow>
    int (cache_slot s p) = (if p < cv_offset s then p - cv_offset s + cv_buffer_size s
      else if p - cv_offset s \<ge> cv_buffer_size s then p - cv_offset s - cv_buffer_size s else p - cv_offset s)"
proof -
  assume b: "- cv_buffer_size s \<le> p - cv_offset s" "p - cv_offset s < 2 * cv_buffer_size s"
  define d n where "d = p - cv_offset s" and "n = cv_buffer_size s"
  have "d mod n = (if d < 0 then d + n else if d \<ge> n then d - n else d)" if "- n \<le> d" "d < 2 * n"
  proof -
    consider "d < 0" | "0 \<le> d" "d < n" | "n \<le> d" by linarith
    then show ?thesis
    proof cases
      case 1
      have "d mod n = (d + n) mod n" by simp
      also have "\<dots> = d + n" using 1 that by (intro mod_pos_pos_trivial) auto
      finally show ?thesis using 1 by simp
    next
      case 2
      then show ?thesis by simp
    next
      case 3
      have "d mod n = (d - n) mod n" by simp
      also have "\<dots> = d - n" using 3 that by (intro mod_pos_pos_trivial) auto
      finally show ?thesis using 3 that by auto
    qed
  qed
  moreover have "0 \<le> d mod n" using b by (simp add: d_def n_def)
  ultimately show ?thesis using b by (auto simp: cache_slot_def d_def n_def)
qed

text \<open>Where the new bytes go: the bytes of \<open>data\<close> land in the slots of the positions from \<open>max_filepos\<close> on, and no
  other slot changes.\<close>

lemma nth_overwrite:
  "0 \<le> k \<Longrightarrow> k + int (length data) \<le> int (length b) \<Longrightarrow> i < length b \<Longrightarrow>
    overwrite k data b ! i = (if k \<le> int i \<and> int i < k + int (length data) then data ! nat (int i - k) else b ! i)"
  by (auto simp: overwrite_def nth_append min_def nat_le_iff not_less nat_less_iff less_diff_conv2 nat_diff_distrib')

lemma in_slots:
  assumes "0 \<le> pos" "pos < n" "0 \<le> i" "i < (n::int)"
  shows "(i - pos) mod n = (if pos \<le> i then i - pos else i - pos + n)"
proof (cases "pos \<le> i")
  case True
  then show ?thesis using assms by (simp add: mod_pos_pos_trivial)
next
  case False
  have "(i - pos) mod n = (i - pos + n) mod n" by simp
  also have "\<dots> = i - pos + n" using assms False by (intro mod_pos_pos_trivial) auto
  finally show ?thesis using False by simp
qed

lemma cache_fill_copy_bytes:
  assumes "int (length (cv_buffer s)) = cv_buffer_size s" "0 \<le> pos" "pos < cv_buffer_size s"
    "int (length data) \<le> cv_buffer_size s" "wrap \<or> pos + int (length data) \<le> cv_buffer_size s"
  shows "\<exists>b. cache_fill_copy s pos wrap data = Some (s\<lparr>cv_buffer := b\<rparr>) \<and> length b = length (cv_buffer s) \<and>
    (\<forall>i<length b. b ! i = (let j = (int i - pos) mod cv_buffer_size s
        in if j < int (length data) then data ! nat j else cv_buffer s ! i))"
proof (cases wrap)
  case False
  let ?b = "overwrite pos data (cv_buffer s)"
  have len: "length ?b = length (cv_buffer s)" using assms False by (intro length_overwrite) auto
  moreover have "cache_fill_copy s pos wrap data = Some (s\<lparr>cv_buffer := ?b\<rparr>)"
    using False assms by (simp add: cache_fill_copy_def copy_into_def)
  moreover have "?b ! i = (let j = (int i - pos) mod cv_buffer_size s
      in if j < int (length data) then data ! nat j else cv_buffer s ! i)" if "i < length ?b" for i
    using that len assms False in_slots [of pos "cv_buffer_size s" "int i"] nth_overwrite [of pos data "cv_buffer s" i]
    by (auto simp: Let_def)
  ultimately show ?thesis by blast
next
  case True
  define k where "k = min (int (length data)) (cv_buffer_size s - pos)"
  let ?b1 = "overwrite pos (take (nat k) data) (cv_buffer s)"
  let ?b = "overwrite 0 (drop (nat k) data) ?b1"
  have k: "0 \<le> k" "k \<le> int (length data)" "pos + k \<le> cv_buffer_size s" using assms by (auto simp: k_def)
  have l: "int (length (take (nat k) data)) = k" "int (length (drop (nat k) data)) = int (length data) - k"
    using k by auto
  have len1: "length ?b1 = length (cv_buffer s)" using assms k by (intro length_overwrite) auto
  have len: "length ?b = length (cv_buffer s)" using assms k len1 by (subst length_overwrite) auto
  have "copy_into (cv_buffer s) pos (take (nat k) data) = Some ?b1" "copy_into ?b1 0 (drop (nat k) data) = Some ?b"
    using assms k len1 l by (auto simp: copy_into_def)
  then have "cache_fill_copy s pos wrap data = Some (s\<lparr>cv_buffer := ?b\<rparr>)"
    using True by (simp add: cache_fill_copy_def flip: k_def)
  moreover have "?b ! i = (let j = (int i - pos) mod cv_buffer_size s
      in if j < int (length data) then data ! nat j else cv_buffer s ! i)" if "i < length ?b" for i
  proof -
    have i: "i < length (cv_buffer s)" "i < length ?b1" using that len len1 by auto
    have 1: "?b1 ! i = (if pos \<le> int i \<and> int i < pos + k then data ! nat (int i - pos) else cv_buffer s ! i)"
      using nth_overwrite [of pos "take (nat k) data" "cv_buffer s" i] assms(1,2) k i l by auto
    have 2: "?b ! i = (if int i < int (length data) - k then data ! nat (k + int i) else ?b1 ! i)"
      using nth_overwrite [of 0 "drop (nat k) data" ?b1 i] assms k i l len1 by (auto simp: nat_add_distrib)
    have j: "(int i - pos) mod cv_buffer_size s = (if pos \<le> int i then int i - pos else int i - pos + cv_buffer_size s)"
      using in_slots [of pos "cv_buffer_size s" "int i"] assms i by simp
    show ?thesis
    proof (cases "int (length data) \<le> cv_buffer_size s - pos")
      case True
      then have "k = int (length data)" by (simp add: k_def)
      then show ?thesis using 1 2 j i(1) assms(1) True by (auto simp: Let_def)
    next
      case False
      then have kn: "k = cv_buffer_size s - pos" by (simp add: k_def)
      then have e: "int i - pos + cv_buffer_size s = k + int i" by simp
      show ?thesis using 1 2 j i(1) assms(1,4) False kn unfolding e by (auto simp: Let_def)
    qed
  qed
  ultimately show ?thesis using len by metis
qed

text \<open>Announcing the bytes copied extends the window.\<close>

lemma cache_extend:
  assumes ok: "cache_ok content s" and pos: "pos = cv_max_filepos s - cv_offset s"
    and len: "0 \<le> len" "cv_max_filepos s + len \<le> int (length content)" "len \<le> cv_buffer_size s"
      "cv_max_filepos s + len - cv_min_filepos s \<le> cv_buffer_size s"
    and wrap: "wrap \<or> pos + len \<le> cv_buffer_size s"
    and read: "cv_min_filepos s \<le> cv_read_filepos s" "len = 0 \<Longrightarrow> cv_max_filepos s = int (length content)"
  shows "\<exists>s'. cache_fill_copy s pos wrap (segment content (cv_max_filepos s) len) = Some s' \<and>
    cache_ok content (cache_fill_announce s' pos len) \<and> s' = s\<lparr>cv_buffer := cv_buffer s'\<rparr>"
proof -
  let ?n = "cv_buffer_size s" let ?d = "segment content (cv_max_filepos s) len"
  note o = ok [unfolded cache_ok_def]
  have p: "0 \<le> pos" "pos < ?n" "int (length (cv_buffer s)) = ?n" "0 < ?n" using o pos by auto
  have ld: "int (length ?d) = len" using o len by (simp add: length_segment)
  obtain b where b: "cache_fill_copy s pos wrap ?d = Some (s\<lparr>cv_buffer := b\<rparr>)" "length b = length (cv_buffer s)"
    "\<forall>i<length b. b ! i = (let j = (int i - pos) mod ?n in if j < int (length ?d) then ?d ! nat j else cv_buffer s ! i)"
    using cache_fill_copy_bytes [of s pos ?d wrap] p len wrap ld by auto
  let ?s = "s\<lparr>cv_buffer := b\<rparr>"
  let ?t = "cache_fill_announce ?s pos len"
  have t: "cv_min_filepos ?t = cv_min_filepos s" "cv_max_filepos ?t = cv_max_filepos s + len" "cv_buffer ?t = b"
    "cv_buffer_size ?t = ?n" "cv_offset ?t = (if pos + len \<ge> ?n then cv_offset s + ?n else cv_offset s)"
    "cv_eof ?t \<longleftrightarrow> len = 0"
    by (simp_all add: cache_fill_announce_def Let_def)
  have slot: "cache_slot ?t q = cache_slot s q" for q
    using p(4) by (auto simp: cache_slot_def t diff_diff_eq [symmetric])
  have bytes: "b ! cache_slot s q = content ! nat q"
    if q: "cv_min_filepos s \<le> q" "q < cv_max_filepos s + len" for q
  proof -
    have i: "int (cache_slot s q) = (q - cv_offset s) mod ?n" "cache_slot s q < length b"
      using p b(2) by (auto simp: cache_slot_def nat_less_iff)
    have j: "(int (cache_slot s q) - pos) mod ?n = (q - cv_max_filepos s) mod ?n"
      unfolding i(1) by (simp add: mod_diff_left_eq pos)
    show ?thesis
    proof (cases "cv_max_filepos s \<le> q")
      case True
      have "(q - cv_max_filepos s) mod ?n = q - cv_max_filepos s"
        using True q len(3) by (intro mod_pos_pos_trivial) auto
      then have "b ! cache_slot s q = ?d ! nat (q - cv_max_filepos s)"
        using b(3) i(2) j ld q(2) by (simp add: Let_def)
      also have "\<dots> = content ! (nat (cv_max_filepos s) + nat (q - cv_max_filepos s))"
        using True q len o by (simp add: segment_def)
      finally show ?thesis using True o by (simp flip: nat_add_distrib)
    next
      case False
      have "(q - cv_max_filepos s) mod ?n = (q - cv_max_filepos s + ?n) mod ?n" by simp
      also have "\<dots> = q - cv_max_filepos s + ?n" using False q(1) len by (intro mod_pos_pos_trivial) auto
      finally have "\<not> (int (cache_slot s q) - pos) mod ?n < int (length ?d)" using j ld q(1) len(4) by simp
      then have "b ! cache_slot s q = cv_buffer s ! cache_slot s q"
        using b(3) i(2) by (simp add: Let_def)
      then show ?thesis using o False q(1) by (simp add: cache_window_ok_def)
    qed
  qed
  have "cache_window_ok content ?t" using bytes by (simp add: cache_window_ok_def t slot)
  then have "cache_ok content ?t"
    using o b(2) len read wrap pos p t by (auto simp: cache_ok_def cache_fill_announce_def Let_def)
  then show ?thesis using b(1) by auto
qed

section \<open>The filler keeps the invariant and makes progress\<close>

locale cacheable_driver = seekable_driver drv content at ty
  for drv :: "'d driver" and content at ty +
  assumes reset_here: "drv_reset drv = Some f \<Longrightarrow> at (st_priv s) (st_pos s) \<Longrightarrow>
    \<exists>d. f s = s\<lparr>st_priv := d\<rparr> \<and> at d (st_pos s)"
begin

definition system_ok :: "'d cached \<Rightarrow> bool" where
  "system_ok c \<longleftrightarrow> cache_ok content (ca_vars c) \<and> cv_sector_size (ca_vars c) \<le> STREAM_MAX_SECTOR_SIZE \<and>
     at (st_priv (ca_stream c)) (st_pos (ca_stream c)) \<and> st_type (ca_stream c) = ty \<and>
     st_pos (ca_stream c) = cv_max_filepos (ca_vars c) \<and> 0 \<le> st_read_chunk (ca_stream c)"

lemma stream_reset_here:
  assumes "at (st_priv s) (st_pos s)"
  shows "at (st_priv (stream_reset drv s)) (st_pos s) \<and> st_pos (stream_reset drv s) = st_pos s \<and>
    st_type (stream_reset drv s) = st_type s \<and> st_read_chunk (stream_reset drv s) = st_read_chunk s"
proof -
  let ?s = "if st_eof s then s\<lparr>st_buf_pos := 0, st_buf_len := 0, st_eof := False\<rparr> else s"
  have at: "at (st_priv ?s) (st_pos ?s)" using assms by simp
  show ?thesis
  proof (cases "drv_reset drv")
    case None
    then show ?thesis using assms by (simp add: stream_reset_def Let_def)
  next
    case (Some f)
    from reset_here [OF Some at] obtain d where "f ?s = ?s\<lparr>st_priv := d\<rparr>" "at d (st_pos ?s)" by blast
    then show ?thesis using Some by (cases "st_eof s") (simp_all add: stream_reset_def Let_def)
  qed
qed

lemma cache_flush_ok: "cache_ok content s \<Longrightarrow> cv_eof s \<longrightarrow> cv_read_filepos s = int (length content) \<Longrightarrow>
    cache_ok content (cache_flush s)"
  by (auto simp: cache_ok_def cache_flush_def cache_window_ok_def)

text \<open>After the first part of \<open>cache_fill\<close> the reader is in the window or a bit ahead of it.\<close>

lemma cache_fill_seek_ok:
  assumes "system_ok c"
  shows "system_ok (cache_fill_seek drv c) \<and>
    (let s = ca_vars (cache_fill_seek drv c); r = cv_read_filepos (ca_vars c)
     in cv_read_filepos s = r \<and> cv_min_filepos s \<le> r \<and> cv_sector_size s = cv_sector_size (ca_vars c) \<and>
       (cv_min_filepos (ca_vars c) \<le> r \<and> r \<le> cv_max_filepos (ca_vars c) \<longrightarrow> s = ca_vars c) \<and>
       (s \<noteq> ca_vars c \<longrightarrow> cv_max_filepos s = r))"
proof -
  let ?s = "ca_vars c" let ?r = "cv_read_filepos (ca_vars c)"
  show ?thesis
  proof (cases "(?r < cv_min_filepos ?s \<or> ?r > cv_max_filepos ?s) \<and>
      (?r < cv_min_filepos ?s \<or> ?r \<ge> cv_max_filepos ?s + cv_seek_limit ?s)")
    case False
    then have "cache_fill_seek drv c = c" by (auto simp: cache_fill_seek_def Let_def)
    then show ?thesis using assms(1) False by auto
  next
    case True
    let ?st = "if st_eof (ca_stream c) then stream_reset drv (ca_stream c) else ca_stream c"
    have c: "cache_fill_seek drv c = \<lparr>ca_vars = cache_flush ?s, ca_stream = snd (stream_seek_internal drv ?st ?r)\<rparr>"
      using True by (simp add: cache_fill_seek_def Let_def)
    have here: "at (st_priv (ca_stream c)) (st_pos (ca_stream c))" using assms(1) unfolding system_ok_def by blast
    have ty: "st_type (ca_stream c) = ty" using assms(1) by (simp add: system_ok_def)
    have st: "at (st_priv ?st) (st_pos ?st)" "st_type ?st = ty" "st_read_chunk ?st = st_read_chunk (ca_stream c)"
      using stream_reset_here [OF here] here ty by simp_all
    have r: "0 \<le> ?r" "?r \<le> int (length content)" using assms(1) by (auto simp: system_ok_def cache_ok_def)
    from seek_internal [OF st(1,2) r] obtain d where
      d: "stream_seek_internal drv ?st ?r = (-1, ?st\<lparr>st_pos := ?r, st_priv := d\<rparr>)" "at d ?r" by blast
    have eof: "\<not> cv_eof ?s" using assms True by (auto simp: system_ok_def cache_ok_def)
    have "cache_ok content (cache_flush ?s)" using assms eof by (intro cache_flush_ok) (auto simp: system_ok_def)
    moreover have "cv_read_filepos (cache_flush ?s) = ?r" "cv_max_filepos (cache_flush ?s) = ?r"
      "cv_min_filepos (cache_flush ?s) = ?r" "cv_sector_size (cache_flush ?s) = cv_sector_size ?s"
      by (simp_all add: cache_flush_def)
    ultimately show ?thesis using True d st assms(1) unfolding c by (auto simp: system_ok_def Let_def)
  qed
qed

text \<open>The facts about the plan the rest of \<open>cache_fill\<close> depends on.\<close>

lemma cache_fill_plan_ok:
  assumes ok: "cache_ok content s" and read: "cv_min_filepos s \<le> cv_read_filepos s" and "0 \<le> chunk"
    and plan: "cache_fill_plan s (cv_read_filepos s) chunk = Some (pos, space, wrap)"
  defines "s' \<equiv> cache_fill_min s (cv_read_filepos s) space"
  shows "pos = cv_max_filepos s - cv_offset s" "0 < space" "wrap \<or> pos + space \<le> cv_buffer_size s"
    "space \<le> cv_buffer_size s" "wrap \<longrightarrow> space \<le> cv_sector_size s" "cache_ok content s'"
    "cv_min_filepos s' \<le> cv_read_filepos s'" "cv_max_filepos s' + space - cv_min_filepos s' \<le> cv_buffer_size s'"
    "s' = s\<lparr>cv_min_filepos := cv_min_filepos s'\<rparr>"
proof -
  note o = ok [unfolded cache_ok_def]
  define n sec where "n = cv_buffer_size s" and "sec = cv_sector_size s"
  define bk where "bk = min (cv_read_filepos s - cv_min_filepos s) (cv_back_size s)"
  define newb where "newb = max 0 (cv_max_filepos s - cv_read_filepos s)"
  define p0 where "p0 = cv_max_filepos s - cv_offset s"
  define free where "free = n - (newb + bk)"
  have lin: "0 < sec" "0 \<le> p0" "p0 < n" "0 \<le> bk" "0 \<le> newb" "cv_fill_limit s = 8 * sec"
    using o read by (auto simp: n_def sec_def bk_def newb_def p0_def)
  have "cache_fill_plan s (cv_read_filepos s) chunk = (if free < 8 * sec then None else
      Some (p0, min (if free > n - p0 then (if n - p0 \<ge> sec then n - p0 else sec) else free) (if chunk = 0 then 4 * sec else chunk),
        free > n - p0 \<and> \<not> n - p0 \<ge> sec))"
    using lin read unfolding cache_fill_plan_def Let_def
    by (simp add: n_def sec_def bk_def newb_def p0_def free_def min_def max_def)
  then have fr: "8 * sec \<le> free" "pos = p0" "wrap \<longleftrightarrow> free > n - p0 \<and> \<not> n - p0 \<ge> sec"
    "space = min (if free > n - p0 then (if n - p0 \<ge> sec then n - p0 else sec) else free) (if chunk = 0 then 4 * sec else chunk)"
    using plan by (auto split: if_splits)
  show pos: "pos = cv_max_filepos s - cv_offset s" using fr(2) by (simp add: p0_def)
  show sp: "0 < space" using fr(1,4) lin assms(3) by auto
  show "wrap \<or> pos + space \<le> cv_buffer_size s" using fr lin by (auto simp flip: n_def)
  show "wrap \<longrightarrow> space \<le> cv_sector_size s" using fr lin by (auto simp flip: sec_def)
  have "space \<le> free" using fr(1,4) lin by auto
  then have room: "space + max 0 (cv_max_filepos s - cv_read_filepos s) +
      min (cv_read_filepos s - cv_min_filepos s) (cv_back_size s) \<le> cv_buffer_size s"
    by (simp add: free_def newb_def bk_def n_def)
  show "space \<le> cv_buffer_size s" using \<open>space \<le> free\<close> lin(4,5) by (simp add: free_def n_def)
  have same: "s' = s\<lparr>cv_min_filepos := max (cv_min_filepos s)
      (cv_read_filepos s - (cv_buffer_size s - (space + max 0 (cv_max_filepos s - cv_read_filepos s))))\<rparr>"
    by (auto simp: s'_def cache_fill_min_def Let_def max_def)
  show "s' = s\<lparr>cv_min_filepos := cv_min_filepos s'\<rparr>" by (simp add: same)
  have m: "cv_min_filepos s' \<le> cv_read_filepos s" "cv_min_filepos s \<le> cv_min_filepos s'"
    "cv_max_filepos s + space - cv_min_filepos s' \<le> cv_buffer_size s"
    using read room o unfolding same by auto
  then show "cv_min_filepos s' \<le> cv_read_filepos s'" "cv_max_filepos s' + space - cv_min_filepos s' \<le> cv_buffer_size s'"
    by (simp_all add: same)
  have "cache_window_ok content s'" using o m(2) by (auto simp: cache_window_ok_def same cache_slot_def)
  then show "cache_ok content s'" using o m sp by (auto simp: cache_ok_def same)
qed

lemma cache_fill_ok:
  assumes "system_ok c"
  shows "\<exists>len c'. cache_fill drv c = Some (len, c') \<and> system_ok c' \<and>
    cv_read_filepos (ca_vars c') = cv_read_filepos (ca_vars c) \<and> cv_sector_size (ca_vars c') = cv_sector_size (ca_vars c) \<and>
    cv_buffer_size (ca_vars c') = cv_buffer_size (ca_vars c) \<and>
    (let s = ca_vars (cache_fill_seek drv c); s' = ca_vars c'
     in cv_max_filepos s' = cv_max_filepos s + len \<and> 0 \<le> len \<and> cv_min_filepos s' \<le> cv_read_filepos s' \<and>
       (cache_fill_plan s (cv_read_filepos s) (st_read_chunk (ca_stream (cache_fill_seek drv c))) \<noteq> None \<longrightarrow>
          (cv_eof s' \<longleftrightarrow> len = 0)))"
proof -
  let ?r = "cv_read_filepos (ca_vars c)"
  define c1 where "c1 = cache_fill_seek drv c"
  have c1: "system_ok c1" "cv_read_filepos (ca_vars c1) = ?r" "cv_min_filepos (ca_vars c1) \<le> ?r"
    "cv_sector_size (ca_vars c1) = cv_sector_size (ca_vars c)"
    using cache_fill_seek_ok [OF assms] by (auto simp: c1_def Let_def)
  have bs: "cv_buffer_size (ca_vars c1) = cv_buffer_size (ca_vars c)"
    by (simp add: c1_def cache_fill_seek_def Let_def cache_flush_def)
  note o = c1(1) [unfolded system_ok_def]
  show ?thesis
  proof (cases "cache_fill_plan (ca_vars c1) ?r (st_read_chunk (ca_stream c1))")
    case None
    then have "cache_fill drv c = Some (0, c1)" by (simp add: cache_fill_def Let_def flip: c1_def)
    then show ?thesis using c1 bs None by (auto simp: Let_def simp flip: c1_def)
  next
    case (Some plan)
    obtain pos space wrap where plan: "plan = (pos, space, wrap)" by (cases plan)
    define s1 where "s1 = cache_fill_min (ca_vars c1) ?r space"
    have mr: "cv_min_filepos (ca_vars c1) \<le> cv_read_filepos (ca_vars c1)" using c1 by simp
    have pl: "cache_fill_plan (ca_vars c1) (cv_read_filepos (ca_vars c1)) (st_read_chunk (ca_stream c1)) = Some (pos, space, wrap)"
      using Some plan c1 by simp
    have oc: "cache_ok content (ca_vars c1)" "0 \<le> st_read_chunk (ca_stream c1)" using o by auto
    note p = cache_fill_plan_ok [OF oc(1) mr oc(2) pl, unfolded c1(2), folded s1_def]
    have s1: "cv_max_filepos s1 = cv_max_filepos (ca_vars c1)" "cv_offset s1 = cv_offset (ca_vars c1)"
      "cv_read_filepos s1 = ?r" "cv_sector_size s1 = cv_sector_size (ca_vars c1)" "cv_buffer_size s1 = cv_buffer_size (ca_vars c1)"
      using c1(2) by (subst p(9), simp)+
    have mx: "0 \<le> cv_max_filepos s1" "cv_max_filepos s1 \<le> int (length content)" using p(6) by (auto simp: cache_ok_def)
    let ?st = "ca_stream c1"
    have st: "at (st_priv ?st) (st_pos ?st)" "st_type ?st = ty" "st_pos ?st = cv_max_filepos s1" using o s1 by auto
    have "\<exists>len t. stream_read_internal drv ?st space = Some (len, segment content (cv_max_filepos s1) len, t) \<and>
        at (st_priv t) (cv_max_filepos s1 + len) \<and> st_pos t = cv_max_filepos s1 + len \<and> st_type t = ty \<and>
        st_read_chunk t = st_read_chunk ?st \<and> 0 \<le> len \<and> len \<le> space \<and>
        cv_max_filepos s1 + len \<le> int (length content) \<and> (len = 0 \<longrightarrow> cv_max_filepos s1 = int (length content))"
    proof (cases "cv_max_filepos s1 = int (length content)")
      case True
      then show ?thesis using read_internal_end [of ?st space] st p(2)
        by (intro exI [of _ 0]) auto
    next
      case False
      have "0 \<le> st_pos ?st" "st_pos ?st < int (length content)" using False mx st by auto
      from read_internal_bytes [OF st(1,2) this p(2)] obtain k d where "0 < k" "k \<le> space"
        "st_pos ?st + k \<le> int (length content)" "at d (st_pos ?st + k)"
        "stream_read_internal drv ?st space = Some (k, segment content (st_pos ?st) k,
          ?st\<lparr>st_priv := d, st_eof := False, st_pos := st_pos ?st + k\<rparr>)" by blast
      then show ?thesis using st(2,3)
        by (intro exI [of _ k] exI [of _ "?st\<lparr>st_priv := d, st_eof := False, st_pos := st_pos ?st + k\<rparr>"]) simp
    qed
    then obtain len t where
      rd: "stream_read_internal drv ?st space = Some (len, segment content (cv_max_filepos s1) len, t)"
        "at (st_priv t) (cv_max_filepos s1 + len) \<and> st_pos t = cv_max_filepos s1 + len \<and> st_type t = ty \<and>
          st_read_chunk t = st_read_chunk ?st"
        "0 \<le> len" "len \<le> space" "cv_max_filepos s1 + len \<le> int (length content)"
        "len = 0 \<Longrightarrow> cv_max_filepos s1 = int (length content)" by blast
    have "\<exists>s'. cache_fill_copy s1 pos wrap (segment content (cv_max_filepos s1) len) = Some s' \<and>
        cache_ok content (cache_fill_announce s' pos len) \<and> s' = s1\<lparr>cv_buffer := cv_buffer s'\<rparr>"
      using p(1-8) rd(3-6) s1 by (intro cache_extend) auto
    then obtain s' where s': "cache_fill_copy s1 pos wrap (segment content (cv_max_filepos s1) len) = Some s'"
      "cache_ok content (cache_fill_announce s' pos len)" "s' = s1\<lparr>cv_buffer := cv_buffer s'\<rparr>" by blast
    let ?t = "if wrap then t\<lparr>st_buffer := overwrite 0 (segment content (cv_max_filepos s1) len) (st_buffer t)\<rparr> else t"
    let ?c = "\<lparr>ca_vars = cache_fill_announce s' pos len, ca_stream = ?t\<rparr>"
    have fill: "cache_fill drv c = Some (len, ?c)"
      using Some plan rd(1) s'(1) by (simp add: cache_fill_def Let_def flip: c1_def s1_def)
    have a: "cv_read_filepos (cache_fill_announce s' pos len) = ?r"
      "cv_sector_size (cache_fill_announce s' pos len) = cv_sector_size (ca_vars c)"
      "cv_max_filepos (cache_fill_announce s' pos len) = cv_max_filepos (ca_vars c1) + len"
      "cv_min_filepos (cache_fill_announce s' pos len) = cv_min_filepos s1"
      "cv_eof (cache_fill_announce s' pos len) \<longleftrightarrow> len = 0"
      "cv_buffer_size (cache_fill_announce s' pos len) = cv_buffer_size (ca_vars c)"
      using s1 c1 bs by (subst s'(3), simp add: cache_fill_announce_def Let_def)+
    have "system_ok ?c" using s'(2) rd(2) st s1(1) a(2,3) o c1(4) by (simp add: system_ok_def)
    then show ?thesis using fill a rd(3) p(7) s1 by (auto simp: Let_def simp flip: c1_def)
  qed
qed

end

section \<open>The reader gets the file's bytes\<close>

text \<open>
  \<open>waiting\<close>: the cache has nothing at the reader's position. \<open>cache_lag\<close> bounds how often the filler still has to
  run until it has, or until the end of the file is marked.
\<close>

definition waiting :: "cache_vars \<Rightarrow> bool" where
  "waiting s \<longleftrightarrow> cv_read_filepos s \<ge> cv_max_filepos s \<or> cv_read_filepos s < cv_min_filepos s"

definition cache_lag :: "cache_vars \<Rightarrow> nat" where
  "cache_lag s = (if cv_eof s \<or> \<not> waiting s then 0 else if cv_read_filepos s < cv_min_filepos s then 1
     else nat (cv_read_filepos s - cv_max_filepos s) + 1)"

lemma plan_exists:
  assumes "cache_ok content s" "cv_min_filepos s \<le> cv_read_filepos s"
    "cv_max_filepos s \<le> cv_read_filepos s \<or>
     cv_min_filepos s = cv_read_filepos s \<and> cv_max_filepos s - cv_read_filepos s \<le> cv_buffer_size s - cv_fill_limit s"
  shows "cache_fill_plan s (cv_read_filepos s) chunk \<noteq> None"
proof -
  have "\<not> cv_buffer_size s - ((if cv_max_filepos s - cv_read_filepos s < 0 then 0 else cv_max_filepos s - cv_read_filepos s) +
     (if (if cv_read_filepos s - cv_min_filepos s < 0 then 0 else cv_read_filepos s - cv_min_filepos s) > cv_back_size s
      then cv_back_size s else if cv_read_filepos s - cv_min_filepos s < 0 then 0 else cv_read_filepos s - cv_min_filepos s))
    < cv_fill_limit s"
    using assms by (auto simp: cache_ok_def)
  then show ?thesis unfolding cache_fill_plan_def Let_def by simp
qed

lemma read_slots:
  assumes ok: "cache_ok content s" and nw: "\<not> waiting s" and n: "0 < n"
  defines "k \<equiv> min (min (cv_max_filepos s - cv_read_filepos s) (cv_buffer_size s - cache_read_pos s)) n"
  shows "0 < k" "k \<le> n" "cv_read_filepos s + k \<le> cv_max_filepos s"
    "copy_from (cv_buffer s) (cache_read_pos s) k = Some (segment content (cv_read_filepos s) k)"
    "cache_ok content (s\<lparr>cv_read_filepos := cv_read_filepos s + k\<rparr>)"
proof -
  let ?r = "cv_read_filepos s" let ?n = "cv_buffer_size s"
  note o = ok [unfolded cache_ok_def]
  have w: "cv_min_filepos s \<le> ?r" "?r < cv_max_filepos s" using nw by (auto simp: waiting_def)
  have sl: "int (cache_slot s ?r) = (?r - cv_offset s) mod ?n" using o by (simp add: cache_slot_def)
  have "- ?n \<le> ?r - cv_offset s" "?r - cv_offset s < 2 * ?n" using o w by linarith+
  then have pos: "cache_read_pos s = int (cache_slot s ?r)"
    using cache_slot_pos [of s ?r] by (auto simp: cache_read_pos_def Let_def)
  have pb: "0 \<le> cache_read_pos s" "cache_read_pos s < ?n" unfolding pos sl using o by auto
  show k: "0 < k" "k \<le> n" "?r + k \<le> cv_max_filepos s" using w pb n by (auto simp: k_def)
  have kn: "cache_read_pos s + k \<le> ?n" by (auto simp: k_def)
  have "segment (cv_buffer s) (cache_read_pos s) k = segment content ?r k"
  proof (rule nth_equalityI)
    have l: "length (segment (cv_buffer s) (cache_read_pos s) k) = nat k" "length (segment content ?r k) = nat k"
      using o k kn pb by (auto simp: length_segment)
    then show "length (segment (cv_buffer s) (cache_read_pos s) k) = length (segment content ?r k)" by simp
    fix i assume "i < length (segment (cv_buffer s) (cache_read_pos s) k)"
    then have i: "i < nat k" using l by simp
    have le: "nat (cache_read_pos s) \<le> length (cv_buffer s)" "nat ?r \<le> length content" using o pb by linarith+
    have "(?r + int i - cv_offset s) mod ?n = ((?r - cv_offset s) mod ?n + int i) mod ?n"
      by (simp only: mod_add_left_eq) (simp add: algebra_simps)
    also have "\<dots> = cache_read_pos s + int i"
      using pb kn i by (simp add: pos sl)
    finally have slot: "cache_slot s (?r + int i) = nat (cache_read_pos s) + i"
      using pb by (simp add: cache_slot_def nat_add_distrib)
    have "cv_buffer s ! cache_slot s (?r + int i) = content ! nat (?r + int i)"
      using o w k i by (auto simp: cache_window_ok_def)
    then show "segment (cv_buffer s) (cache_read_pos s) k ! i = segment content ?r k ! i"
      using i o by (simp add: segment_def slot nat_add_distrib le)
  qed
  then show "copy_from (cv_buffer s) (cache_read_pos s) k = Some (segment content ?r k)"
    using o k kn pb by (simp add: copy_from_def)
  have "cache_window_ok content (s\<lparr>cv_read_filepos := ?r + k\<rparr>)"
    using o by (simp add: cache_window_ok_def cache_slot_def)
  then show "cache_ok content (s\<lparr>cv_read_filepos := ?r + k\<rparr>)" using o k w by (auto simp: cache_ok_def)
qed

context cacheable_driver
begin

lemma filler_progress:
  assumes "system_ok c" "waiting (ca_vars c)" "\<not> cv_eof (ca_vars c)"
  shows "\<exists>c'. filler_turn drv c = Some (False, c') \<and> system_ok c' \<and> cache_lag (ca_vars c') < cache_lag (ca_vars c) \<and>
    cv_read_filepos (ca_vars c') = cv_read_filepos (ca_vars c) \<and> cv_sector_size (ca_vars c') = cv_sector_size (ca_vars c)"
proof -
  let ?r = "cv_read_filepos (ca_vars c)"
  let ?s = "ca_vars (cache_fill_seek drv c)"
  have sk: "system_ok (cache_fill_seek drv c)" "cv_read_filepos ?s = ?r" "cv_min_filepos ?s \<le> ?r"
    "?s \<noteq> ca_vars c \<longrightarrow> cv_max_filepos ?s = ?r"
    using cache_fill_seek_ok [OF assms(1)] by (auto simp: Let_def)
  have mx: "cv_max_filepos ?s \<le> ?r"
    using sk assms(2) by (cases "?s = ca_vars c") (auto simp: waiting_def)
  have "cache_ok content ?s" using sk(1) by (simp add: system_ok_def)
  then have "cache_fill_plan ?s (cv_read_filepos ?s) (st_read_chunk (ca_stream (cache_fill_seek drv c))) \<noteq> None"
    using plan_exists [of content ?s] sk(2,3) mx by simp
  with cache_fill_ok [OF assms(1)] obtain len c' where c': "cache_fill drv c = Some (len, c')" "system_ok c'"
    "cv_read_filepos (ca_vars c') = ?r" "cv_sector_size (ca_vars c') = cv_sector_size (ca_vars c)"
    "cv_max_filepos (ca_vars c') = cv_max_filepos ?s + len" "0 \<le> len" "cv_min_filepos (ca_vars c') \<le> ?r"
    "cv_eof (ca_vars c') \<longleftrightarrow> len = 0"
    by (auto simp: Let_def)
  have "cache_lag (ca_vars c') < cache_lag (ca_vars c)"
  proof (cases "len = 0 \<or> ?s \<noteq> ca_vars c")
    case True
    then have "cv_eof (ca_vars c') \<or> \<not> waiting (ca_vars c')" using c' sk by (auto simp: waiting_def)
    then show ?thesis using assms(2,3) by (auto simp: cache_lag_def)
  next
    case False
    then show ?thesis using c' sk(3) assms(2,3) by (auto simp: cache_lag_def waiting_def)
  qed
  then show ?thesis using c' by (auto simp: filler_turn_def)
qed

lemma wait_over:
  "system_ok c \<Longrightarrow> 0 < n \<Longrightarrow>
    \<exists>c'. cache_read_loop (filler_turn drv) n out c = cache_read_loop (filler_turn drv) n out c' \<and> system_ok c' \<and>
      cv_read_filepos (ca_vars c') = cv_read_filepos (ca_vars c) \<and> cv_sector_size (ca_vars c') = cv_sector_size (ca_vars c) \<and>
      (\<not> waiting (ca_vars c') \<or> cv_eof (ca_vars c'))"
proof (induction "cache_lag (ca_vars c)" arbitrary: c rule: less_induct)
  case less
  show ?case
  proof (cases "waiting (ca_vars c) \<and> \<not> cv_eof (ca_vars c)")
    case False
    then show ?thesis using less.prems by blast
  next
    case True
    then obtain c1 where c1: "filler_turn drv c = Some (False, c1)" "system_ok c1"
      "cache_lag (ca_vars c1) < cache_lag (ca_vars c)"
      "cv_read_filepos (ca_vars c1) = cv_read_filepos (ca_vars c)" "cv_sector_size (ca_vars c1) = cv_sector_size (ca_vars c)"
      using filler_progress [OF less.prems(1)] by blast
    have "cache_read_loop (filler_turn drv) n out c = cache_read_loop (filler_turn drv) n out c1"
      using True c1(1) less.prems(2) by (subst cache_read_loop.simps) (simp add: waiting_def)
    then show ?thesis using less.hyps [OF c1(3,2) less.prems(2)] c1(4,5) by auto
  qed
qed

lemma cache_read_loop_bytes:
  "system_ok c \<Longrightarrow> 0 \<le> n \<Longrightarrow> k = min n (int (length content) - cv_read_filepos (ca_vars c)) \<Longrightarrow>
    \<exists>c'. cache_read_loop (filler_turn drv) n out c = Some (out @ segment content (cv_read_filepos (ca_vars c)) k, c') \<and>
      system_ok c' \<and> cv_read_filepos (ca_vars c') = cv_read_filepos (ca_vars c) + k \<and>
      cv_sector_size (ca_vars c') = cv_sector_size (ca_vars c)"
proof (induction "nat n" arbitrary: n k c out rule: less_induct)
  case less
  let ?r = "cv_read_filepos (ca_vars c)"
  have r: "0 \<le> ?r" "?r \<le> int (length content)" using less.prems(1) by (auto simp: system_ok_def cache_ok_def)
  show ?case
  proof (cases "0 < n")
    case False
    then show ?thesis using less.prems r by (subst cache_read_loop.simps) auto
  next
    case n: True
    from wait_over [OF less.prems(1) n, of out] obtain c1 where
      c1: "cache_read_loop (filler_turn drv) n out c = cache_read_loop (filler_turn drv) n out c1" "system_ok c1"
        "cv_read_filepos (ca_vars c1) = ?r" "cv_sector_size (ca_vars c1) = cv_sector_size (ca_vars c)"
        "\<not> waiting (ca_vars c1) \<or> cv_eof (ca_vars c1)" by blast
    have ok: "cache_ok content (ca_vars c1)" using c1(2) by (simp add: system_ok_def)
    show ?thesis
    proof (cases "waiting (ca_vars c1)")
      case True
      then have "?r = int (length content)" using ok c1(3,5) r by (auto simp: cache_ok_def waiting_def)
      moreover have "cache_read_loop (filler_turn drv) n out c1 = Some (out, c1)"
        using True n c1(5) by (subst cache_read_loop.simps) (simp add: waiting_def)
      ultimately show ?thesis using c1 less.prems(2,3) by auto
    next
      case False
      let ?s = "ca_vars c1"
      let ?k = "min (min (cv_max_filepos ?s - ?r) (cv_buffer_size ?s - cache_read_pos ?s)) n"
      note step = read_slots [OF ok False n, unfolded c1(3)]
      let ?c = "c1\<lparr>ca_vars := ?s\<lparr>cv_read_filepos := ?r + ?k\<rparr>\<rparr>"
      have "cache_read_loop (filler_turn drv) n out c1
          = cache_read_loop (filler_turn drv) (n - ?k) (out @ segment content ?r ?k) ?c"
        using False n step(4) c1(3) by (subst cache_read_loop.simps) (simp add: waiting_def Let_def)
      moreover have "system_ok ?c" using c1(2) step(5) by (auto simp: system_ok_def)
      moreover have "nat (n - ?k) < nat n" "0 \<le> n - ?k" using step(1,2) n by linarith+
      moreover have "k - ?k = min (n - ?k) (int (length content) - cv_read_filepos (ca_vars ?c))" using less.prems(3) by simp
      ultimately have "\<exists>c'. cache_read_loop (filler_turn drv) n out c1
          = Some ((out @ segment content ?r ?k) @ segment content (?r + ?k) (k - ?k), c') \<and> system_ok c' \<and>
            cv_read_filepos (ca_vars c') = ?r + ?k + (k - ?k) \<and> cv_sector_size (ca_vars c') = cv_sector_size (ca_vars ?c)"
        using less.hyps [of "n - ?k" ?c "k - ?k" "out @ segment content ?r ?k"] by simp
      moreover have "0 \<le> k - ?k" using less.prems(3) step(2,3) ok by (auto simp: cache_ok_def)
      ultimately show ?thesis using c1(1,4) r step(1) segment_append [of ?r ?k "k - ?k" content] by simp
    qed
  qed
qed

definition cached_ok :: "'d cached stream \<Rightarrow> bool" where
  "cached_ok s \<longleftrightarrow> system_ok (st_priv s) \<and> cv_read_filepos (ca_vars (st_priv s)) = st_pos s \<and>
     0 \<le> st_buf_pos s \<and> st_buf_pos s \<le> st_buf_len s \<and> st_buf_len s \<le> st_pos s \<and>
     length (st_buffer s) = nat STREAM_MAX_SECTOR_SIZE \<and> st_buf_len s \<le> STREAM_MAX_SECTOR_SIZE \<and>
     segment (st_buffer s) 0 (st_buf_len s) = segment content (st_pos s - st_buf_len s) (st_buf_len s)"

lemma cached_pos: "cached_ok s \<Longrightarrow> 0 \<le> st_pos s \<and> st_pos s \<le> int (length content)"
  by (auto simp: cached_ok_def system_ok_def cache_ok_def)

lemma cached_fill:
  assumes ok: "system_ok (st_priv s)" "cv_read_filepos (ca_vars (st_priv s)) = st_pos s"
    "length (st_buffer s) = nat STREAM_MAX_SECTOR_SIZE"
  defines "k \<equiv> min (cv_sector_size (ca_vars (st_priv s))) (int (length content) - st_pos s)"
  shows "\<exists>s'. cache_stream_fill_buffer (filler_turn drv) s = Some (k, s') \<and> cached_ok s' \<and>
    st_pos s' = st_pos s + k \<and> st_buf_pos s' = 0 \<and> st_buf_len s' = k"
proof -
  let ?c = "st_priv s" let ?n = "cv_sector_size (ca_vars ?c)"
  have n: "0 < ?n" "?n \<le> 8192" using ok(1) by (auto simp: system_ok_def cache_ok_def stream_consts)
  have p: "0 \<le> st_pos s" "st_pos s \<le> int (length content)"
    using ok(1,2) by (auto simp: system_ok_def cache_ok_def)
  have k: "k = min ?n (int (length content) - cv_read_filepos (ca_vars ?c))" "0 \<le> k" "k \<le> 8192"
    "st_pos s + k \<le> int (length content)" using n p ok(2) by (auto simp: k_def)
  obtain c' where c': "cache_read (filler_turn drv) ?c ?n = Some (segment content (st_pos s) k, c')" "system_ok c'"
    "cv_read_filepos (ca_vars c') = st_pos s + k"
    using cache_read_loop_bytes [OF ok(1) _ k(1), of "[]"] n ok(2) by (auto simp: cache_read_def)
  have len: "int (length (segment content (st_pos s) k)) = k" using p k by (simp add: length_segment)
  show ?thesis
  proof (cases "k = 0")
    case True
    then show ?thesis using c' n ok p
      by (simp add: cache_stream_fill_buffer_def Let_def STREAM_MAX_SECTOR_SIZE_def cached_ok_def)
  next
    case False
    let ?s = "s\<lparr>st_priv := c', st_eof := False, st_buffer := overwrite 0 (segment content (st_pos s) k) (st_buffer s),
      st_buf_pos := 0, st_buf_len := k, st_pos := st_pos s + k\<rparr>"
    have "cache_stream_fill_buffer (filler_turn drv) s = Some (k, ?s)"
      using c'(1) n False k(2) len by (auto simp: cache_stream_fill_buffer_def Let_def STREAM_MAX_SECTOR_SIZE_def)
    moreover have "cached_ok ?s"
      using c' k p ok(3) len segment_overwrite [of 0 "st_buffer s" "segment content (st_pos s) k" k]
      by (simp add: cached_ok_def stream_consts length_overwrite)
    ultimately show ?thesis by simp
  qed
qed

end

sublocale cacheable_driver \<subseteq> cf: filler "cache_stream_fill_buffer (filler_turn drv)" content cached_ok
proof
  fix s
  assume s: "cached_ok s"
  have sec: "0 < cv_sector_size (ca_vars (st_priv s))" using s by (auto simp: cached_ok_def system_ok_def cache_ok_def)
  have parts: "system_ok (st_priv s)" "cv_read_filepos (ca_vars (st_priv s)) = st_pos s"
    "length (st_buffer s) = nat STREAM_MAX_SECTOR_SIZE" using s by (auto simp: cached_ok_def)
  note p = cached_pos [OF s]
  show "0 \<le> st_buf_pos s \<and> st_buf_pos s \<le> st_buf_len s \<and> st_buf_len s \<le> st_pos s \<and>
      st_pos s \<le> int (length content) \<and> st_buf_len s \<le> int (length (st_buffer s)) \<and>
      segment (st_buffer s) 0 (st_buf_len s) = segment content (st_pos s - st_buf_len s) (st_buf_len s)"
    using s p by (simp add: cached_ok_def stream_consts)
  show "cached_ok (s\<lparr>st_buf_pos := q\<rparr>)" if "0 \<le> q" "q \<le> st_buf_len s" for q
    using s that by (simp add: cached_ok_def)
  show "\<exists>r s'. cache_stream_fill_buffer (filler_turn drv) s = Some (r, s') \<and> 0 < r \<and> cached_ok s' \<and>
      st_buf_pos s' < st_buf_len s' \<and> stream_tell s' = st_pos s"
    if "st_buf_pos s = st_buf_len s" "st_pos s < int (length content)"
    using cached_fill [OF parts] sec that by (auto simp: stream_tell_def)
  show "\<exists>s'. cache_stream_fill_buffer (filler_turn drv) s = Some (0, s') \<and> cached_ok s' \<and> stream_tell s' = st_pos s"
    if "st_buf_pos s = st_buf_len s" "st_pos s = int (length content)"
    using cached_fill [OF parts] sec that by (auto simp: stream_tell_def)
qed

context cacheable_driver
begin

lemma cached_seek_long:
  assumes "cached_ok s" "0 \<le> pos" "pos < int (length content)"
  shows "\<exists>s'. cache_stream_seek_long (filler_turn drv) s pos = Some (1, s') \<and> cached_ok s' \<and> stream_tell s' = pos"
proof -
  let ?ss = "cv_sector_size (ca_vars (st_priv s))"
  have ss: "0 < ?ss" using assms(1) by (auto simp: cached_ok_def system_ok_def cache_ok_def)
  define np where "np = (pos div ?ss) * ?ss"
  have np: "0 \<le> np" "np \<le> pos" "pos < np + ?ss"
    using ss assms(2) zmod_le_nonneg_dividend [of pos ?ss]
    by (auto simp: np_def pos_imp_zdiv_nonneg_iff minus_mod_eq_div_mult [symmetric])
  let ?s = "cache_set_read np s"
  have "system_ok (st_priv ?s)" using assms np
    by (auto simp: cached_ok_def system_ok_def cache_ok_def cache_set_read_def cache_window_ok_def cache_slot_def)
  moreover have "cv_read_filepos (ca_vars (st_priv ?s)) = st_pos ?s" "length (st_buffer ?s) = nat STREAM_MAX_SECTOR_SIZE"
    "st_pos ?s = np" "cv_sector_size (ca_vars (st_priv ?s)) = ?ss"
    using assms(1) by (simp_all add: cache_set_read_def cached_ok_def)
  ultimately obtain s' where s': "cache_stream_fill_buffer (filler_turn drv) ?s = Some (min ?ss (int (length content) - np), s')"
    "cached_ok s'" "st_pos s' = np + min ?ss (int (length content) - np)" "st_buf_pos s' = 0"
    "st_buf_len s' = min ?ss (int (length content) - np)" using cached_fill [of ?s] by auto
  have "pos - np \<le> st_buf_len s'" using s'(5) np assms(3) by simp
  then show ?thesis using s' np cf.ok_move [OF s'(2), of "pos - np"]
    by (simp add: cache_stream_seek_long_def Let_def stream_tell_def flip: np_def)
qed

lemma cached_seek:
  assumes "cached_ok s" "0 \<le> pos" "pos < int (length content)"
  shows "\<exists>s'. stream_seek (cache_stream_seek_long (filler_turn drv)) s pos = Some (1, s') \<and> cached_ok s' \<and> stream_tell s' = pos"
  using cached_seek_long [OF assms] cf.ok_move [OF assms(1), of "pos - (st_pos s - st_buf_len s)"] assms
  by (auto simp: stream_seek_def stream_tell_def cached_ok_def)

text \<open>The wait at the start: the amount asked for never exceeds what the filler is allowed to fill.\<close>

lemma prefill:
  "system_ok c \<Longrightarrow> cv_read_filepos (ca_vars c) = 0 \<Longrightarrow> cv_min_filepos (ca_vars c) = 0 \<Longrightarrow>
    room \<le> cv_buffer_size (ca_vars c) - cv_fill_limit (ca_vars c) \<Longrightarrow>
    \<exists>c'. cache_prefill (filler_turn drv) room c = Some (1, c') \<and> system_ok c' \<and> cv_read_filepos (ca_vars c') = 0"
proof (induction "nat (room - cv_max_filepos (ca_vars c))" arbitrary: c rule: less_induct)
  case less
  let ?s = "ca_vars c"
  have ok: "cache_ok content ?s" using less.prems(1) by (simp add: system_ok_def)
  show ?case
  proof (cases "cv_max_filepos ?s < room \<and> \<not> cv_eof ?s")
    case False
    then show ?thesis using less.prems by (subst cache_prefill.simps) auto
  next
    case True
    have "0 \<le> cv_max_filepos ?s" using ok by (simp add: cache_ok_def)
    then have same: "ca_vars (cache_fill_seek drv c) = ?s"
      using cache_fill_seek_ok [OF less.prems(1)] less.prems(2,3) by (auto simp: Let_def)
    have "cache_fill_plan ?s (cv_read_filepos ?s) (st_read_chunk (ca_stream (cache_fill_seek drv c))) \<noteq> None"
      using plan_exists [OF ok] less.prems(2-4) True by simp
    with cache_fill_ok [OF less.prems(1)] obtain len c' where c': "cache_fill drv c = Some (len, c')" "system_ok c'"
      "cv_read_filepos (ca_vars c') = 0" "cv_sector_size (ca_vars c') = cv_sector_size ?s"
      "cv_buffer_size (ca_vars c') = cv_buffer_size ?s"
      "cv_max_filepos (ca_vars c') = cv_max_filepos ?s + len" "0 \<le> len" "cv_min_filepos (ca_vars c') \<le> 0"
      "cv_eof (ca_vars c') \<longleftrightarrow> len = 0"
      unfolding same using less.prems(2) by (auto simp: Let_def)
    have ok': "cache_ok content (ca_vars c')" using c'(2) by (simp add: system_ok_def)
    then have m: "cv_min_filepos (ca_vars c') = 0" "cv_fill_limit (ca_vars c') = cv_fill_limit ?s"
      using c' ok by (auto simp: cache_ok_def)
    have st: "cache_prefill (filler_turn drv) room c = cache_prefill (filler_turn drv) room c'"
      using True less.prems(2,3) c'(1) by (subst cache_prefill.simps) (simp add: filler_turn_def)
    show ?thesis
    proof (cases "len = 0")
      case True
      then show ?thesis unfolding st using c' m by (subst cache_prefill.simps) auto
    next
      case False
      then have "nat (room - cv_max_filepos (ca_vars c')) < nat (room - cv_max_filepos ?s)" using c' True by simp
      then show ?thesis unfolding st using less.hyps [of c'] c' m less.prems(4) by simp
    qed
  qed
qed

lemma enable_cache:
  assumes st: "at (st_priv st) 0" "st_type st = ty" "st_pos st = 0" "st_buf_pos st = 0" "st_buf_len st = 0"
      "0 \<le> st_read_chunk st" "length (st_buffer st) = nat STREAM_MAX_SECTOR_SIZE"
    and sector: "0 \<le> st_sector_size st" "st_sector_size st \<le> STREAM_MAX_SECTOR_SIZE"
    and args: "st_flags st AND STREAM_NON_CACHEABLE = 0" "0 \<le> bytes" "bytes \<le> SIZE_MAX"
  shows "\<exists>s. stream_enable_cache (filler_turn drv) st bytes room seek_limit = Some (1, Some s) \<and> cached_ok s \<and> stream_tell s = 0"
proof -
  define ss where "ss = (if st_sector_size st \<noteq> 0 then st_sector_size st else STREAM_BUFFER_SIZE)"
  have ss: "0 < ss" "ss \<le> STREAM_MAX_SECTOR_SIZE" using sector by (auto simp: ss_def stream_consts)
  define s0 where "s0 = cache_init bytes ss"
  define limit where "limit = cv_buffer_size s0 - cv_fill_limit s0"
  let ?s = "s0\<lparr>cv_seek_limit := if seek_limit > limit then limit else seek_limit\<rparr>"
  let ?room = "if (if room > limit then limit else room) \<le> 0 then 1 else if room > limit then limit else room"
  define num where "num = (if bytes div ss < 16 then 16 else bytes div ss)"
  have num: "16 \<le> num" by (simp add: num_def)
  have s0: "s0 = \<lparr>cv_buffer = replicate (nat (num * ss)) 0, cv_buffer_size = num * ss, cv_sector_size = ss,
      cv_back_size = num * ss div 2, cv_fill_limit = 8 * ss, cv_seek_limit = 0, cv_eof = False, cv_min_filepos = 0,
      cv_max_filepos = 0, cv_offset = 0, cv_read_filepos = 0\<rparr>"
    by (simp add: s0_def cache_init_def Let_def num_def)
  have big: "16 * ss \<le> num * ss" using num ss(1) by (simp add: mult_right_mono)
  then have "cache_ok content ?s" using ss by (simp add: cache_ok_def s0 limit_def cache_window_ok_def)
  then have "system_ok \<lparr>ca_vars = ?s, ca_stream = st\<rparr>" using st ss by (simp add: system_ok_def s0)
  moreover have "?room \<le> cv_buffer_size ?s - cv_fill_limit ?s"
  proof -
    have l: "limit = num * ss - 8 * ss" "cv_buffer_size ?s - cv_fill_limit ?s = num * ss - 8 * ss"
      by (simp_all add: limit_def s0)
    then have "1 \<le> limit" using big ss(1) by linarith
    then show ?thesis using l by auto
  qed
  ultimately obtain c where c: "cache_prefill (filler_turn drv) ?room \<lparr>ca_vars = ?s, ca_stream = st\<rparr> = Some (1, c)"
    "system_ok c" "cv_read_filepos (ca_vars c) = 0"
    using prefill [of "\<lparr>ca_vars = ?s, ca_stream = st\<rparr>" ?room] by (auto simp: s0)
  have "stream_enable_cache (filler_turn drv) st bytes room seek_limit = Some (1, Some (with_priv c st))"
    unfolding stream_enable_cache_def Let_def ss_def [symmetric] s0_def [symmetric] limit_def [symmetric] c(1)
    using args by simp
  moreover have "cached_ok (with_priv c st)" using c st by (simp add: cached_ok_def with_priv_def STREAM_MAX_SECTOR_SIZE_def)
  moreover have "stream_tell (with_priv c st) = 0" using st by (simp add: stream_tell_def with_priv_def)
  ultimately show ?thesis by blast
qed

end

interpretation cache_disk: cacheable_driver file_driver content "file_at content" STREAMTYPE_FILE for content
  by unfold_locales (simp add: file_driver_def)

section \<open>Properties of the cache over a local file\<close>

text \<open>The invariant of the cached file written out: \<open>system_ok\<close> and \<open>cached_ok\<close> for the file driver.\<close>

definition cached_file_ok :: "bytes \<Rightarrow> fd_state cached stream \<Rightarrow> bool" where
  "cached_file_ok content s \<longleftrightarrow>
     (let v = ca_vars (st_priv s); st = ca_stream (st_priv s)
      in cache_ok content v \<and> cv_sector_size v \<le> STREAM_MAX_SECTOR_SIZE \<and>
        file_at content (st_priv st) (st_pos st) \<and> st_type st = STREAMTYPE_FILE \<and>
        st_pos st = cv_max_filepos v \<and> 0 \<le> st_read_chunk st \<and> cv_read_filepos v = st_pos s) \<and>
     0 \<le> st_buf_pos s \<and> st_buf_pos s \<le> st_buf_len s \<and> st_buf_len s \<le> st_pos s \<and>
     length (st_buffer s) = nat STREAM_MAX_SECTOR_SIZE \<and> st_buf_len s \<le> STREAM_MAX_SECTOR_SIZE \<and>
     segment (st_buffer s) 0 (st_buf_len s) = segment content (st_pos s - st_buf_len s) (st_buf_len s)"

lemma cached_file_ok: "cached_file_ok content s = cache_disk.cached_ok content s"
  by (simp add: cached_file_ok_def cache_disk.cached_ok_def cache_disk.system_ok_def Let_def)

abbreviation cached_fill_buffer :: "fd_state cached filler" where
  "cached_fill_buffer \<equiv> cache_stream_fill_buffer (filler_turn file_driver)"

abbreviation cached_seek_long :: "fd_state cached stream \<Rightarrow> int \<Rightarrow> (int \<times> fd_state cached stream) option" where
  "cached_seek_long \<equiv> cache_stream_seek_long (filler_turn file_driver)"

lemma cache_fill_keeps:
  assumes "cached_file_ok content s"
  shows "\<exists>len c. cache_fill file_driver (st_priv s) = Some (len, c) \<and> cached_file_ok content (s\<lparr>st_priv := c\<rparr>)"
proof -
  have "cache_disk.system_ok content (st_priv s)"
    using assms by (simp add: cached_file_ok cache_disk.cached_ok_def)
  from cache_disk.cache_fill_ok [OF this] show ?thesis
    using assms by (auto simp: cached_file_ok cache_disk.cached_ok_def)
qed

text \<open>What the two sides do, one whole operation at a time, in any order.\<close>

inductive cache_step :: "bytes \<Rightarrow> fd_state cached stream \<Rightarrow> fd_state cached stream \<Rightarrow> bool" for content where
  step_fill: "cache_fill file_driver (st_priv s) = Some (len, c) \<Longrightarrow> cache_step content s (s\<lparr>st_priv := c\<rparr>)"
| step_read: "stream_read cached_fill_buffer s n = Some (k, data, s') \<Longrightarrow> 0 \<le> n \<Longrightarrow> cache_step content s s'"
| step_skip: "stream_skip_loop cached_fill_buffer n s = Some (r, s') \<Longrightarrow> 0 \<le> n \<Longrightarrow> cache_step content s s'"
| step_seek: "stream_seek cached_seek_long s pos = Some (r, s') \<Longrightarrow> 0 \<le> pos \<Longrightarrow> pos < int (length content) \<Longrightarrow>
    cache_step content s s'"

lemma cache_step_keeps: "cache_step content s s' \<Longrightarrow> cached_file_ok content s \<Longrightarrow> cached_file_ok content s'"
proof (induction rule: cache_step.induct)
  case (step_fill s len c)
  then show ?case using cache_fill_keeps [of content s] by auto
next
  case (step_read s n k data s')
  then show ?case using cache_disk.cf.read_bytes [of content s n] by (auto simp: cached_file_ok)
next
  case (step_skip n s r s')
  then show ?case using cache_disk.cf.skip_loop [of content s n] by (auto simp: cached_file_ok)
next
  case (step_seek s pos r s')
  then show ?case using cache_disk.cached_seek [of content s pos] by (auto simp: cached_file_ok)
qed

text \<open>The stream of the witnesses.\<close>

lemma ten_bytes_cached:
  "\<exists>s. stream_enable_cache (filler_turn file_driver) (open_f ten_bytes) 65536 4096 0 = Some (1, Some s) \<and>
    cached_file_ok (fd_content ten_bytes) s \<and> stream_tell s = 0"
  unfolding cached_file_ok
  by (rule cache_disk.enable_cache)
    (simp_all add: open_f_def new_stream_def Let_def ten_bytes_def file_at_def stream_consts SIZE_MAX_def)

definition ten_bytes_uncached :: "fd_state cached stream" where
  "ten_bytes_uncached = with_priv \<lparr>ca_vars = cache_init 65536 4096, ca_stream = open_f ten_bytes\<rparr> (open_f ten_bytes)"

definition ten_bytes_at_end :: "fd_state cached stream" where
  "ten_bytes_at_end = with_priv
     \<lparr>ca_vars = (cache_init 65536 4096)\<lparr>cv_min_filepos := 10, cv_max_filepos := 10, cv_offset := 10, cv_read_filepos := 10\<rparr>,
      ca_stream = (open_f ten_bytes)\<lparr>st_pos := 10, st_priv := ten_bytes\<lparr>fd_offset := 10\<rparr>\<rparr>\<rparr>
     ((open_f ten_bytes)\<lparr>st_pos := 10\<rparr>)"

lemma ten_bytes_cache_ok:
  "cached_file_ok (fd_content ten_bytes) ten_bytes_uncached" "cached_file_ok (fd_content ten_bytes) ten_bytes_at_end"
  by (simp_all add: cached_file_ok_def cache_ok_def cache_window_ok_def ten_bytes_uncached_def ten_bytes_at_end_def with_priv_def
    cache_init_def open_f_def new_stream_def Let_def ten_bytes_def file_at_def stream_consts)

text \<open>C7: enabling the cache on a local file just opened succeeds for every cache size, prefill amount and seek limit: the
  wait for the first bytes always ends, and the stream then stands at the start of the file.\<close>

theorem enable_cache_file:
  assumes "0 < fd_chunk fd" "fd_seekable fd" "fd_offset fd = 0" "0 \<le> bytes" "bytes \<le> SIZE_MAX"
  shows "\<exists>s. stream_enable_cache (filler_turn file_driver) (open_f fd) bytes room seek_limit = Some (1, Some s) \<and>
    cached_file_ok (fd_content fd) s \<and> stream_tell s = 0"
  unfolding cached_file_ok
  by (rule cache_disk.enable_cache)
    (use assms in \<open>simp_all add: open_f_def new_stream_def Let_def file_at_def stream_consts\<close>)

theorem enable_cache_file_witness:
  "\<exists>s. stream_enable_cache (filler_turn file_driver) (open_f ten_bytes) 1000000 200000 500000 = Some (1, Some s) \<and> stream_tell s = 0"
  using enable_cache_file [of ten_bytes 1000000 200000 500000] by (auto simp: ten_bytes_def SIZE_MAX_def)

text \<open>C1: whatever the filler and the reader did before, in whatever order, a read through the cache returns the next
  bytes of the file, as many as asked for or left: the ring buffer never hands out a stale byte, a read never waits
  for ever, and the stream moves on by the bytes returned.\<close>

theorem cached_read_after_any_steps:
  assumes "(cache_step content)\<^sup>*\<^sup>* s0 s" "cached_file_ok content s0" "0 \<le> n"
  defines "k \<equiv> min n (int (length content) - stream_tell s)"
  shows "\<exists>s'. stream_read cached_fill_buffer s n = Some (k, segment content (stream_tell s) k, s') \<and>
    cached_file_ok content s' \<and> stream_tell s' = stream_tell s + k"
proof -
  from assms(1,2) have "cached_file_ok content s"
    by (induction rule: rtranclp_induct) (auto intro: cache_step_keeps)
  then show ?thesis using cache_disk.cf.read_bytes [of content s n k] assms(3) k_def by (simp add: cached_file_ok)
qed

theorem cached_read_after_any_steps_witness:
  "\<exists>s s'. stream_enable_cache (filler_turn file_driver) (open_f ten_bytes) 65536 4096 0 = Some (1, Some s) \<and>
    stream_read cached_fill_buffer s 3 = Some (3, [10, 20, 30], s') \<and> stream_tell s' = 3"
proof -
  obtain s where s: "stream_enable_cache (filler_turn file_driver) (open_f ten_bytes) 65536 4096 0 = Some (1, Some s)"
    "cached_file_ok (fd_content ten_bytes) s" "stream_tell s = 0" using ten_bytes_cached by blast
  have "segment (fd_content ten_bytes) 0 3 = [10, 20, 30]" by (simp add: ten_bytes_def segment_def)
  then show ?thesis using s cached_read_after_any_steps [OF rtranclp.rtrancl_refl s(2), of 3]
    by (auto simp: ten_bytes_length)
qed

text \<open>C4: seeking through the cache to any position before the end of the file succeeds, forward or backward, in the
  window or outside it, and the stream then stands at that position.\<close>

theorem cached_seek_succeeds:
  assumes "cached_file_ok content s" "0 \<le> pos" "pos < int (length content)"
  shows "\<exists>s'. stream_seek cached_seek_long s pos = Some (1, s') \<and> cached_file_ok content s' \<and> stream_tell s' = pos"
  using assms cache_disk.cached_seek [of content s pos] by (simp add: cached_file_ok)

theorem cached_seek_succeeds_witness:
  "\<exists>s s'. cached_file_ok (fd_content ten_bytes) s \<and> stream_seek cached_seek_long s 7 = Some (1, s') \<and> stream_tell s' = 7"
proof -
  obtain s where s: "cached_file_ok (fd_content ten_bytes) s" using ten_bytes_cached by blast
  show ?thesis using s cached_seek_succeeds [OF s, of 7] by (auto simp: ten_bytes_length)
qed



text \<open>C6: a reader that has to wait waits for a bounded number of runs of the filler: each run brings the data nearer
  or marks the end of the file, because the buffer is at least sixteen sectors and half of it is never kept back.\<close>

theorem cache_wait_is_bounded:
  assumes "cached_file_ok content s" "waiting (ca_vars (st_priv s))" "\<not> cv_eof (ca_vars (st_priv s))"
  shows "\<exists>len c. cache_fill file_driver (st_priv s) = Some (len, c) \<and>
    cache_lag (ca_vars c) < cache_lag (ca_vars (st_priv s)) \<and> cached_file_ok content (s\<lparr>st_priv := c\<rparr>)"
proof -
  have "cache_disk.system_ok content (st_priv s)"
    using assms(1) by (simp add: cached_file_ok cache_disk.cached_ok_def)
  from cache_disk.filler_progress [OF this assms(2,3)] cache_fill_keeps [OF assms(1)] show ?thesis
    by (auto simp: filler_turn_def)
qed

theorem cache_wait_is_bounded_witness:
  "\<exists>len c. cache_fill file_driver (st_priv ten_bytes_uncached) = Some (len, c) \<and>
    cache_lag (ca_vars c) < cache_lag (ca_vars (st_priv ten_bytes_uncached))"
proof -
  have "waiting (ca_vars (st_priv ten_bytes_uncached))" "\<not> cv_eof (ca_vars (st_priv ten_bytes_uncached))"
    by (simp_all add: ten_bytes_uncached_def with_priv_def cache_init_def waiting_def Let_def)
  from cache_wait_is_bounded [OF ten_bytes_cache_ok(1) this] show ?thesis by blast
qed



end
