(* ===== verification/KeyFifo.thy ===== *)
theory KeyFifo
  imports Prelude
begin

text \<open>
  mp_fifo.c: the ring buffer of key codes between the input drivers and the input layer, with its policy for a
  buffer that fills up, and the detection of double clicks. The file's static variables are the record \<open>key_fifo\<close>;
  the option \<open>key_fifo_size\<close> (2 to 65000) is its field \<open>kf_size\<close>. Key codes are machine words with flag bits, the two
  counters wrap around at 32 bits as in the code.
\<close>

unbundle bit_operations_syntax

section \<open>State and operations\<close>

type_synonym code = "32 word"

definition MP_KEY_DOWN :: code where "MP_KEY_DOWN = push_bit 29 1"
definition MP_NO_REPEAT_KEY :: code where "MP_NO_REPEAT_KEY = push_bit 28 1"
definition MP_KEY_RELEASE_ALL :: code where "MP_KEY_RELEASE_ALL = push_bit 27 1"
definition MP_INPUT_NOTHING :: code where "MP_INPUT_NOTHING = - 3"
definition MOUSE_BTN0 :: code where "MOUSE_BTN0 = (0x100 + 256) OR MP_NO_REPEAT_KEY"
definition MOUSE_BTN_LAST :: code where "MOUSE_BTN_LAST = MOUSE_BTN0 + 19"
definition MOUSE_BTN0_DBL :: code where "MOUSE_BTN0_DBL = 0x300 OR MP_NO_REPEAT_KEY"
definition MOUSE_BTN_LAST_DBL :: code where "MOUSE_BTN_LAST_DBL = MOUSE_BTN0_DBL + 19"

record key_fifo =
  kf_size :: nat
  kf_data :: "code list option"
  kf_read :: "32 word"
  kf_write :: "32 word"
  kf_previous_down_key :: code

definition fifo_free :: "key_fifo \<Rightarrow> int" where
  "fifo_free s = sint (kf_read s + of_nat (kf_size s) - kf_write s)"

text \<open>\<open>key_fifo_data[key_fifo_write % key_fifo_size]=code\<close> and what follows it.\<close>

definition fifo_store :: "code \<Rightarrow> key_fifo \<Rightarrow> key_fifo" where
  "fifo_store code s =
     s\<lparr>kf_data := map_option (\<lambda>d. d[unat (kf_write s) mod kf_size s := code]) (kf_data s),
       kf_write := kf_write s + 1,
       kf_previous_down_key := (if code AND MP_KEY_DOWN \<noteq> 0 then code AND NOT MP_KEY_DOWN
         else code AND MP_KEY_RELEASE_ALL)\<rparr>"

definition mplayer_put_key_internal :: "code \<Rightarrow> key_fifo \<Rightarrow> key_fifo" where
  "mplayer_put_key_internal code s =
     (let free = fifo_free s;
          s = (if kf_data s = None then s\<lparr>kf_data := Some (replicate (kf_size s) 0)\<rparr> else s)
      in if free = 0 then s
         else if code AND MP_KEY_DOWN \<noteq> 0 \<and> free \<le> int (kf_size s div 2) then s
         else if free = 1 then
           if kf_previous_down_key s AND MP_KEY_RELEASE_ALL \<noteq> 0 then s
           else fifo_store ((if code \<noteq> kf_previous_down_key s then 0 else code) OR MP_KEY_RELEASE_ALL) s
         else fifo_store code s)"

definition mplayer_get_key :: "key_fifo \<Rightarrow> code \<times> key_fifo" where
  "mplayer_get_key s =
     (case kf_data s of None \<Rightarrow> (MP_INPUT_NOTHING, s)
      | Some d \<Rightarrow>
          if kf_write s = kf_read s then (MP_INPUT_NOTHING, s)
          else (d ! (unat (kf_read s) mod kf_size s), s\<lparr>kf_read := kf_read s + 1\<rparr>))"

definition mplayer_key_fifo_uninit :: "key_fifo \<Rightarrow> key_fifo" where
  "mplayer_key_fifo_uninit s = s\<lparr>kf_data := None, kf_read := 0, kf_write := 0, kf_previous_down_key := 0\<rparr>"

section \<open>Double clicks\<close>

text \<open>The static variables of \<open>mplayer_put_key\<close> with the buffer they feed; \<open>now\<close> is \<open>GetTimerMS()\<close>.\<close>

record click_state =
  ck_fifo :: key_fifo
  ck_last_key :: "code \<times> code"
  ck_last_key_time :: "32 word \<times> 32 word"

definition put_double :: "code \<Rightarrow> click_state \<Rightarrow> click_state" where
  "put_double code s =
     (if MOUSE_BTN0 \<le>s code \<and> code \<le>s MOUSE_BTN_LAST then
        s\<lparr>ck_fifo := mplayer_put_key_internal (code - MOUSE_BTN0 + MOUSE_BTN0_DBL) (ck_fifo s)\<rparr>
      else s)"

definition mplayer_put_key :: "32 word \<Rightarrow> 32 word \<Rightarrow> code \<Rightarrow> click_state \<Rightarrow> click_state" where
  "mplayer_put_key doubleclick_time now code s =
     (if doubleclick_time \<noteq> 0 \<and> MOUSE_BTN0_DBL \<le>s (code AND NOT MP_KEY_DOWN) \<and>
         (code AND NOT MP_KEY_DOWN) \<le>s MOUSE_BTN_LAST_DBL then s
      else
        (let s = s\<lparr>ck_fifo := mplayer_put_key_internal code (ck_fifo s)\<rparr>
         in if code AND MP_KEY_DOWN \<noteq> 0 then
              (let code = code AND NOT MP_KEY_DOWN;
                   s = s\<lparr>ck_last_key := (code, fst (ck_last_key s)), ck_last_key_time := (now, fst (ck_last_key_time s))\<rparr>
               in if snd (ck_last_key s) = code \<and> now - snd (ck_last_key_time s) < doubleclick_time
                  then put_double code s else s)
            else if fst (ck_last_key s) = code \<and> snd (ck_last_key s) = code \<and>
              now - snd (ck_last_key_time s) < doubleclick_time then put_double code s
            else s))"

section \<open>What a bounded queue promises\<close>

text \<open>
  \<open>contents\<close> are the elements in the order they will come out. \<open>room\<close> says that one more can be put in, \<open>elem\<close> that
  the queue takes this element; getting from an empty queue yields \<open>nothing\<close>.
\<close>

locale bounded_queue =
  fixes contents :: "'s \<Rightarrow> 'a list" and ok :: "'s \<Rightarrow> bool" and room :: "'s \<Rightarrow> bool"
    and elem :: "'a \<Rightarrow> bool" and put :: "'a \<Rightarrow> 's \<Rightarrow> 's" and get :: "'s \<Rightarrow> 'a \<times> 's" and nothing :: 'a
  assumes put_contents: "ok s \<Longrightarrow> room s \<Longrightarrow> elem x \<Longrightarrow> ok (put x s) \<and> contents (put x s) = contents s @ [x]"
    and get_first: "ok s \<Longrightarrow> contents s = x # xs \<Longrightarrow> \<exists>s'. get s = (x, s') \<and> ok s' \<and> contents s' = xs"
    and get_nothing: "ok s \<Longrightarrow> contents s = [] \<Longrightarrow> get s = (nothing, s)"
begin

text \<open>Taking \<open>n\<close> elements out.\<close>

fun drain :: "nat \<Rightarrow> 's \<Rightarrow> 'a list \<times> 's" where
  "drain 0 s = ([], s)"
| "drain (Suc n) s = (let (x, s) = get s; (xs, s) = drain n s in (x # xs, s))"

lemma drain_contents:
  "ok s \<Longrightarrow> n \<le> length (contents s) \<Longrightarrow>
    fst (drain n s) = take n (contents s) \<and> ok (snd (drain n s)) \<and> contents (snd (drain n s)) = drop n (contents s)"
proof (induction n arbitrary: s)
  case 0
  then show ?case by simp
next
  case (Suc n)
  then obtain x xs where c: "contents s = x # xs" by (cases "contents s") auto
  from get_first [OF Suc.prems(1) c] obtain s' where s': "get s = (x, s')" "ok s'" "contents s' = xs" by blast
  then show ?case using Suc.IH [of s'] Suc.prems(2) c by (auto simp: Let_def split: prod.splits)
qed

lemma fifo_order:
  assumes "ok s" "room s" "elem x"
  shows "fst (drain (length (contents s) + 1) (put x s)) = contents s @ [x]"
  using drain_contents [of "put x s" "length (contents s) + 1"] put_contents [OF assms] by simp

end

section \<open>The ring buffer is such a queue\<close>

definition fifo_contents :: "key_fifo \<Rightarrow> code list" where
  "fifo_contents s = (case kf_data s of None \<Rightarrow> [] | Some d \<Rightarrow>
     map (\<lambda>k. d ! (k mod kf_size s)) [unat (kf_read s)..<unat (kf_write s)])"

text \<open>The counters have not wrapped around: fewer than 2^32 key codes were stored so far.\<close>

definition fifo_ok :: "key_fifo \<Rightarrow> bool" where
  "fifo_ok s \<longleftrightarrow> 2 \<le> kf_size s \<and> kf_size s \<le> 65000 \<and> kf_read s \<le> kf_write s \<and>
     unat (kf_write s) \<le> unat (kf_read s) + kf_size s \<and>
     (case kf_data s of None \<Rightarrow> kf_read s = kf_write s | Some d \<Rightarrow> length d = kf_size s)"

definition fifo_room :: "key_fifo \<Rightarrow> bool" where
  "fifo_room s \<longleftrightarrow> kf_data s \<noteq> None \<and> length (fifo_contents s) < kf_size s \<and> kf_write s \<noteq> - 1"

lemma length_fifo_contents: "fifo_ok s \<Longrightarrow> length (fifo_contents s) = unat (kf_write s) - unat (kf_read s)"
  by (auto simp: fifo_contents_def fifo_ok_def split: option.splits)

lemma fifo_free_eq:
  assumes "fifo_ok s"
  shows "fifo_free s = int (kf_size s) - int (length (fifo_contents s))"
proof -
  let ?k = "int (unat (kf_read s)) + int (kf_size s) - int (unat (kf_write s))"
  have le: "unat (kf_read s) \<le> unat (kf_write s)" using assms by (simp add: fifo_ok_def word_le_nat_alt)
  have "kf_size s \<le> 65000" "unat (kf_write s) \<le> unat (kf_read s) + kf_size s" using assms by (simp_all add: fifo_ok_def)
  then have k: "0 \<le> ?k" "?k \<le> 65000" using le by linarith+
  have "kf_read s + of_nat (kf_size s) - kf_write s = word_of_int ?k" by simp
  then have "fifo_free s = sint (word_of_int ?k :: 32 word)" by (simp only: fifo_free_def)
  also have "\<dots> = ?k" using k by (simp only: signed_of_int) (simp add: signed_take_bit_int_eq_self_iff)
  finally show ?thesis using length_fifo_contents [OF assms] le by simp
qed

lemma unat_Suc_word: "w \<noteq> - 1 \<Longrightarrow> unat (w + 1 :: 32 word) = unat w + 1"
  by (metis Suc_eq_plus1 add.commute add_eq_0_iff unatSuc)

lemma mod_near: "k < w \<Longrightarrow> w < k + n \<Longrightarrow> k mod n \<noteq> w mod (n::nat)"
  by (metis add_diff_inverse_nat add_less_cancel_left dvd_imp_le mod_eq_dvd_iff_nat nat_less_le not_less zero_less_diff less_imp_le_nat)

lemma fifo_store_contents:
  assumes "fifo_ok s" "fifo_room s"
  shows "fifo_ok (fifo_store c s)" "fifo_contents (fifo_store c s) = fifo_contents s @ [c]"
proof -
  obtain d where d: "kf_data s = Some d" using assms(2) by (auto simp: fifo_room_def)
  have le: "unat (kf_read s) \<le> unat (kf_write s)" using assms by (simp add: fifo_ok_def word_le_nat_alt)
  have w: "unat (kf_write s + 1) = unat (kf_write s) + 1" using assms(2) by (intro unat_Suc_word) (simp add: fifo_room_def)
  have room: "unat (kf_write s) < unat (kf_read s) + kf_size s"
    using assms(2) length_fifo_contents [OF assms(1)] le unfolding fifo_room_def by linarith
  show "fifo_ok (fifo_store c s)"
    using assms(1) d le w room by (simp add: fifo_ok_def fifo_store_def word_le_nat_alt)
  have len: "length d = kf_size s" "0 < kf_size s" using assms(1) d by (simp_all add: fifo_ok_def)
  have "d[unat (kf_write s) mod kf_size s := c] ! (k mod kf_size s) = d ! (k mod kf_size s)"
    if "unat (kf_read s) \<le> k" "k < unat (kf_write s)" for k
    using mod_near [of k "unat (kf_write s)" "kf_size s"] that room by (intro nth_list_update_neq) auto
  moreover have "d[unat (kf_write s) mod kf_size s := c] ! (unat (kf_write s) mod kf_size s) = c"
    using len by (intro nth_list_update_eq) simp
  ultimately show "fifo_contents (fifo_store c s) = fifo_contents s @ [c]"
    using d w le by (simp add: fifo_contents_def fifo_store_def)
qed

interpretation kf: bounded_queue fifo_contents fifo_ok fifo_room "\<lambda>_. True" fifo_store mplayer_get_key MP_INPUT_NOTHING
proof
  show "fifo_ok (fifo_store c s) \<and> fifo_contents (fifo_store c s) = fifo_contents s @ [c]"
    if "fifo_ok s" "fifo_room s" for s c using fifo_store_contents [OF that] by simp
  show "\<exists>s'. mplayer_get_key s = (x, s') \<and> fifo_ok s' \<and> fifo_contents s' = xs"
    if ok: "fifo_ok s" and c: "fifo_contents s = x # xs" for s x xs
  proof -
    obtain d where d: "kf_data s = Some d" using c by (cases "kf_data s") (auto simp: fifo_contents_def)
    have ne: "unat (kf_read s) < unat (kf_write s)" using length_fifo_contents [OF ok] c by simp
    then have "kf_read s \<noteq> - 1" by (metis unat_mono word_less_nat_alt word_order.extremum_strict)
    then have r: "unat (kf_read s + 1) = unat (kf_read s) + 1" by (rule unat_Suc_word)
    have "[unat (kf_read s)..<unat (kf_write s)] = unat (kf_read s) # [unat (kf_read s) + 1..<unat (kf_write s)]"
      using ne by (simp add: upt_rec)
    then have x: "d ! (unat (kf_read s) mod kf_size s) = x"
      "map (\<lambda>k. d ! (k mod kf_size s)) [unat (kf_read s) + 1..<unat (kf_write s)] = xs"
      using c d by (simp_all add: fifo_contents_def)
    have "kf_write s \<noteq> kf_read s" using ne by auto
    then have "mplayer_get_key s = (x, s\<lparr>kf_read := kf_read s + 1\<rparr>)"
      using d x(1) by (simp add: mplayer_get_key_def)
    moreover have "fifo_ok (s\<lparr>kf_read := kf_read s + 1\<rparr>)"
      using ok d r ne by (simp add: fifo_ok_def word_le_nat_alt)
    moreover have "fifo_contents (s\<lparr>kf_read := kf_read s + 1\<rparr>) = xs"
      using d x(2) r by (simp add: fifo_contents_def)
    ultimately show ?thesis by blast
  qed
  show "mplayer_get_key s = (MP_INPUT_NOTHING, s)" if "fifo_ok s" "fifo_contents s = []" for s
    using that length_fifo_contents [OF that(1)]
    by (auto simp: mplayer_get_key_def fifo_ok_def word_le_nat_alt word_unat_eq_iff split: option.splits)
qed

section \<open>The policy for a buffer that fills up\<close>

text \<open>What putting \<open>code\<close> into a queue with \<open>free\<close> places left of \<open>n\<close> stores.\<close>

definition fifo_policy :: "nat \<Rightarrow> int \<Rightarrow> code \<Rightarrow> code \<Rightarrow> code list" where
  "fifo_policy n free previous code =
     (if free = 0 \<or> code AND MP_KEY_DOWN \<noteq> 0 \<and> free \<le> int (n div 2) \<or>
         free = 1 \<and> previous AND MP_KEY_RELEASE_ALL \<noteq> 0 then []
      else [if free = 1 then (if code \<noteq> previous then 0 else code) OR MP_KEY_RELEASE_ALL else code])"

lemma put_key_contents:
  assumes "fifo_ok s" "kf_write s \<noteq> - 1"
  defines "free \<equiv> int (kf_size s) - int (length (fifo_contents s))"
  shows "fifo_ok (mplayer_put_key_internal code s)"
    "fifo_contents (mplayer_put_key_internal code s)
      = fifo_contents s @ fifo_policy (kf_size s) free (kf_previous_down_key s) code"
proof -
  let ?s = "if kf_data s = None then s\<lparr>kf_data := Some (replicate (kf_size s) 0)\<rparr> else s"
  have free: "fifo_free s = free" unfolding free_def by (rule fifo_free_eq [OF assms(1)])
  have s: "fifo_ok ?s" "fifo_contents ?s = fifo_contents s" "kf_size ?s = kf_size s"
    "kf_previous_down_key ?s = kf_previous_down_key s" "kf_write ?s = kf_write s" "kf_data ?s \<noteq> None"
    using assms(1) by (auto simp: fifo_ok_def fifo_contents_def split: option.splits)
  have room: "fifo_room ?s" if "free \<noteq> 0"
    using that s assms length_fifo_contents [OF assms(1)] by (auto simp: fifo_room_def fifo_ok_def)
  have "mplayer_put_key_internal code s = (case fifo_policy (kf_size s) free (kf_previous_down_key s) code of
      [] \<Rightarrow> ?s | c # _ \<Rightarrow> fifo_store c ?s)"
    using s unfolding mplayer_put_key_internal_def free Let_def fifo_policy_def by (simp split: if_split)
  moreover have "fifo_policy (kf_size s) free (kf_previous_down_key s) code \<noteq> [] \<Longrightarrow> free \<noteq> 0"
    by (auto simp: fifo_policy_def)
  moreover have "length (fifo_policy (kf_size s) free (kf_previous_down_key s) code) \<le> 1"
    by (simp add: fifo_policy_def)
  ultimately show "fifo_ok (mplayer_put_key_internal code s)"
    "fifo_contents (mplayer_put_key_internal code s)
      = fifo_contents s @ fifo_policy (kf_size s) free (kf_previous_down_key s) code"
    using s(1,2) fifo_store_contents [OF s(1) room]
    by (auto split: list.splits)
qed

section \<open>Properties\<close>

definition key_fifo_start :: key_fifo where
  "key_fifo_start = \<lparr>kf_size = 7, kf_data = None, kf_read = 0, kf_write = 0, kf_previous_down_key = 0\<rparr>"

lemma key_fifo_start_ok: "fifo_ok key_fifo_start" "fifo_contents key_fifo_start = []"
  by (simp_all add: fifo_ok_def key_fifo_start_def fifo_contents_def)

text \<open>C34: a key code put into the FIFO goes to its end or nowhere, as the policy for a filling buffer says: down events
  need more than half of the buffer free, the last place is only given to an event that releases all keys,
  and nothing already queued is lost or changed.\<close>

theorem fifo_put_policy:
  assumes "fifo_ok s" "kf_write s \<noteq> - 1"
  shows "fifo_ok (mplayer_put_key_internal code s) \<and>
    fifo_contents (mplayer_put_key_internal code s) = fifo_contents s @
      fifo_policy (kf_size s) (int (kf_size s) - int (length (fifo_contents s))) (kf_previous_down_key s) code"
  using put_key_contents [OF assms] by simp

theorem fifo_put_policy_witness:
  "fifo_contents (mplayer_put_key_internal 65 key_fifo_start) = [65]"
  using fifo_put_policy [of key_fifo_start 65] key_fifo_start_ok
  by (simp add: key_fifo_start_def fifo_policy_def)

text \<open>The last of a full queue releases all keys.\<close>

definition release_when_full :: "key_fifo \<Rightarrow> bool" where
  "release_when_full s \<longleftrightarrow> fifo_ok s \<and>
     (length (fifo_contents s) = kf_size s \<longrightarrow> last (fifo_contents s) AND MP_KEY_RELEASE_ALL \<noteq> 0)"

lemma release_bit: "MP_KEY_RELEASE_ALL \<noteq> 0"
  by (simp add: MP_KEY_RELEASE_ALL_def)

lemma seven: "replicate 7 (0::code) = [0, 0, 0, 0, 0, 0, 0]"
  by (simp add: eval_nat_numeral)

lemma size_put: "kf_size (mplayer_put_key_internal code s) = kf_size s"
  by (simp add: mplayer_put_key_internal_def Let_def fifo_store_def)

lemma policy_length: "length (fifo_policy n free previous code) \<le> 1" "free = 0 \<Longrightarrow> fifo_policy n free previous code = []"
  by (simp_all add: fifo_policy_def)

lemma put_release_when_full:
  assumes "release_when_full s" "kf_write s \<noteq> - 1"
  shows "release_when_full (mplayer_put_key_internal code s)"
proof -
  have ok: "fifo_ok s" using assms(1) by (simp add: release_when_full_def)
  let ?p = "fifo_policy (kf_size s) (int (kf_size s) - int (length (fifo_contents s))) (kf_previous_down_key s) code"
  note put = put_key_contents [OF ok assms(2), of code]
  show ?thesis
  proof (cases ?p)
    case Nil
    then show ?thesis using put assms(1) by (simp add: release_when_full_def size_put)
  next
    case (Cons c cs)
    then have cs: "cs = []" using policy_length(1) [of "kf_size s"] by (metis Suc_le_mono le_zero_eq length_0_conv length_Cons One_nat_def)
    have "c AND MP_KEY_RELEASE_ALL \<noteq> 0" if "length (fifo_contents s) + 1 = kf_size s"
    proof -
      have "int (kf_size s) - int (length (fifo_contents s)) = 1" using that by linarith
      then show ?thesis using Cons by (auto simp: fifo_policy_def release_bit split: if_splits)
    qed
    then show ?thesis using put Cons cs by (simp add: release_when_full_def size_put)
  qed
qed

lemma get_release_when_full:
  assumes "release_when_full s"
  shows "release_when_full (snd (mplayer_get_key s))"
proof -
  have ok: "fifo_ok s" using assms by (simp add: release_when_full_def)
  have "unat (kf_write s) \<le> unat (kf_read s) + kf_size s" using ok by (simp add: fifo_ok_def)
  then have le: "length (fifo_contents s) \<le> kf_size s"
    unfolding length_fifo_contents [OF ok] by linarith
  have sz: "kf_size (snd (mplayer_get_key s)) = kf_size s" by (simp add: mplayer_get_key_def split: option.splits)
  show ?thesis
  proof (cases "fifo_contents s")
    case Nil
    then show ?thesis using kf.get_nothing [OF ok] assms by simp
  next
    case (Cons x xs)
    then show ?thesis using kf.get_first [OF ok Cons] le sz by (auto simp: release_when_full_def)
  qed
qed

text \<open>Any sequence of calls, in any order.\<close>

inductive fifo_step :: "key_fifo \<Rightarrow> key_fifo \<Rightarrow> bool" where
  step_put: "kf_write s \<noteq> - 1 \<Longrightarrow> fifo_step s (mplayer_put_key_internal code s)"
| step_get: "fifo_step s (snd (mplayer_get_key s))"
| step_uninit: "fifo_step s (mplayer_key_fifo_uninit s)"

lemma fifo_step_release: "fifo_step s s' \<Longrightarrow> release_when_full s \<Longrightarrow> release_when_full s'"
proof (induction rule: fifo_step.induct)
  case (step_uninit s)
  then show ?case by (auto simp: release_when_full_def fifo_ok_def mplayer_key_fifo_uninit_def fifo_contents_def)
qed (auto intro: put_release_when_full get_release_when_full)

text \<open>C36: however key codes are put in and taken out, the queue never exceeds its size, and when it is full its last
  entry carries the flag that releases all keys: a lost release event leaves no key stuck.\<close>

theorem fifo_full_releases_all:
  assumes "fifo_step\<^sup>*\<^sup>* s s'" "release_when_full s"
  shows "length (fifo_contents s') \<le> kf_size s' \<and>
    (length (fifo_contents s') = kf_size s' \<longrightarrow> last (fifo_contents s') AND MP_KEY_RELEASE_ALL \<noteq> 0)"
proof -
  from assms have "release_when_full s'" by (induction rule: rtranclp_induct) (auto intro: fifo_step_release)
  then show ?thesis using length_fifo_contents [of s'] by (auto simp: release_when_full_def fifo_ok_def)
qed

theorem fifo_full_releases_all_witness:
  "length (fifo_contents (mplayer_put_key_internal 65 key_fifo_start)) \<le> kf_size (mplayer_put_key_internal 65 key_fifo_start)"
proof -
  have "fifo_step\<^sup>*\<^sup>* key_fifo_start (mplayer_put_key_internal 65 key_fifo_start)"
    by (rule r_into_rtranclp, rule step_put) (simp add: key_fifo_start_def)
  moreover have "release_when_full key_fifo_start"
    using key_fifo_start_ok by (simp add: release_when_full_def key_fifo_start_def)
  ultimately show ?thesis using fifo_full_releases_all by blast
qed



text \<open>When the 32-bit counters wrap around, the default size 7 does not divide 2^32 and two queued codes get the
  same place: of five codes queued across the wrap-around the fifth comes out first, and the first is lost.\<close>

theorem fifo_wrap_loses_code:
  "fst (mplayer_get_key (foldl (\<lambda>s c. mplayer_put_key_internal c s)
     (key_fifo_start\<lparr>kf_data := Some (replicate 7 0), kf_read := - 4, kf_write := - 4\<rparr>) [1, 2, 3, 4, 5])) = 5"
  by (simp add: key_fifo_start_def mplayer_put_key_internal_def fifo_free_def fifo_store_def mplayer_get_key_def
    MP_KEY_DOWN_def MP_KEY_RELEASE_ALL_def Let_def)

text \<open>A fast double click of a mouse button queues its double-click code twice: after the second press and again
  after the second release.\<close>

theorem double_click_twice:
  assumes "t2 - t0 < 300" "t3 - t0 < 300"
  defines "ev \<equiv> mplayer_put_key 300"
  shows "fifo_contents (ck_fifo (ev t3 MOUSE_BTN0 (ev t2 (MOUSE_BTN0 OR MP_KEY_DOWN) (ev t1 MOUSE_BTN0
      (ev t0 (MOUSE_BTN0 OR MP_KEY_DOWN) \<lparr>ck_fifo = key_fifo_start, ck_last_key = (0, 0), ck_last_key_time = (0, 0)\<rparr>)))))
    = [MOUSE_BTN0 OR MP_KEY_DOWN, MOUSE_BTN0, MOUSE_BTN0 OR MP_KEY_DOWN, MOUSE_BTN0_DBL, MOUSE_BTN0, MOUSE_BTN0_DBL]"
  using assms(1,2)
  by (simp add: ev_def key_fifo_start_def mplayer_put_key_def put_double_def mplayer_put_key_internal_def fifo_free_def
    fifo_store_def fifo_contents_def MP_KEY_DOWN_def MP_KEY_RELEASE_ALL_def MP_NO_REPEAT_KEY_def MOUSE_BTN0_def
    MOUSE_BTN_LAST_def MOUSE_BTN0_DBL_def MOUSE_BTN_LAST_DBL_def Let_def word_sle_eq upt_rec seven)


theorem double_click_twice_witness:
  "fifo_contents (ck_fifo (mplayer_put_key 300 200 MOUSE_BTN0 (mplayer_put_key 300 150 (MOUSE_BTN0 OR MP_KEY_DOWN)
      (mplayer_put_key 300 100 MOUSE_BTN0 (mplayer_put_key 300 0 (MOUSE_BTN0 OR MP_KEY_DOWN)
        \<lparr>ck_fifo = key_fifo_start, ck_last_key = (0, 0), ck_last_key_time = (0, 0)\<rparr>)))))
    = [MOUSE_BTN0 OR MP_KEY_DOWN, MOUSE_BTN0, MOUSE_BTN0 OR MP_KEY_DOWN, MOUSE_BTN0_DBL, MOUSE_BTN0, MOUSE_BTN0_DBL]"
  by (rule double_click_twice) simp_all

end
