(* ===== verification/CString.thy ===== *)
theory CString
  imports Prelude "HOL-Library.Char_ord"
begin

text \<open>
  C strings as lists of 8-bit characters without the final 0, and the functions of the C library and of libavutil the
  string handling of the player uses, as documented: a search returns the index of what it found.
\<close>

definition no_nul :: "string \<Rightarrow> bool" where
  "no_nul s \<longleftrightarrow> CHR 0x00 \<notin> set s"

text \<open>The C string that starts a buffer.\<close>

definition c_str :: "string \<Rightarrow> string" where
  "c_str b = takeWhile (\<lambda>c. c \<noteq> CHR 0x00) b"

fun is_prefix :: "string \<Rightarrow> string \<Rightarrow> bool" where
  "is_prefix [] s = True"
| "is_prefix (c # cs) [] = False"
| "is_prefix (c # cs) (d # ds) = (c = d \<and> is_prefix cs ds)"

fun strstr :: "string \<Rightarrow> string \<Rightarrow> nat option" where
  "strstr needle [] = (if needle = [] then Some 0 else None)"
| "strstr needle (c # cs) = (if is_prefix needle (c # cs) then Some 0 else map_option Suc (strstr needle cs))"

definition strchr :: "char \<Rightarrow> string \<Rightarrow> nat option" where
  "strchr c s = strstr [c] s"

fun strrchr :: "char \<Rightarrow> string \<Rightarrow> nat option" where
  "strrchr x [] = None"
| "strrchr x (c # cs) = (case strrchr x cs of Some n \<Rightarrow> Some (Suc n) | None \<Rightarrow> if c = x then Some 0 else None)"

text \<open>Searching from index \<open>i\<close> on.\<close>

definition strstr_from :: "string \<Rightarrow> nat \<Rightarrow> string \<Rightarrow> nat option" where
  "strstr_from s i needle = map_option ((+) i) (strstr needle (drop i s))"

definition is_digit :: "char \<Rightarrow> bool" where "is_digit c \<longleftrightarrow> CHR ''0'' \<le> c \<and> c \<le> CHR ''9''"
definition is_upper :: "char \<Rightarrow> bool" where "is_upper c \<longleftrightarrow> CHR ''A'' \<le> c \<and> c \<le> CHR ''Z''"
definition is_lower :: "char \<Rightarrow> bool" where "is_lower c \<longleftrightarrow> CHR ''a'' \<le> c \<and> c \<le> CHR ''z''"
definition is_alnum :: "char \<Rightarrow> bool" where "is_alnum c \<longleftrightarrow> is_upper c \<or> is_lower c \<or> is_digit c"
definition is_space :: "char \<Rightarrow> bool" where
  "is_space c \<longleftrightarrow> c = CHR '' '' \<or> (CHR 0x09 \<le> c \<and> c \<le> CHR 0x0D)"

definition char_code :: "char \<Rightarrow> nat" where "char_code c = of_char c"

definition toupper :: "char \<Rightarrow> char" where
  "toupper c = (if is_lower c then char_of (char_code c - 32) else c)"

definition tolower :: "char \<Rightarrow> char" where
  "tolower c = (if is_upper c then char_of (char_code c + 32) else c)"

text \<open>\<open>av_strcasecmp(a, b) == 0\<close>\<close>

definition av_strcaseeq :: "string \<Rightarrow> string \<Rightarrow> bool" where
  "av_strcaseeq a b \<longleftrightarrow> map tolower a = map tolower b"

section \<open>Decimal numbers\<close>

definition digit_value :: "char \<Rightarrow> int" where "digit_value c = int (char_code c) - 48"

text \<open>\<open>atoi\<close>, with no bound on the result; C leaves a result outside \<open>int\<close> undefined.\<close>

definition dec_value :: "string \<Rightarrow> int" where
  "dec_value s = foldl (\<lambda>a c. 10 * a + digit_value c) 0 s"

definition atoi :: "string \<Rightarrow> int" where
  "atoi s = (case dropWhile is_space s of
       [] \<Rightarrow> 0
     | c # cs \<Rightarrow> if c = CHR ''-'' then - dec_value (takeWhile is_digit cs)
         else if c = CHR ''+'' then dec_value (takeWhile is_digit cs)
         else dec_value (takeWhile is_digit (c # cs)))"

fun dec_digits :: "nat \<Rightarrow> string" where
  "dec_digits n = (if n < 10 then [char_of (n + 48)] else dec_digits (n div 10) @ [char_of (n mod 10 + 48)])"

declare dec_digits.simps [simp del]

text \<open>\<open>%d\<close> of \<open>printf\<close>.\<close>

definition dec_string :: "int \<Rightarrow> string" where
  "dec_string i = (if i < 0 then CHR ''-'' # dec_digits (nat (- i)) else dec_digits (nat i))"

section \<open>Facts\<close>

lemma is_prefix_iff: "is_prefix a s \<longleftrightarrow> (\<exists>t. s = a @ t)"
  by (induction a s rule: is_prefix.induct) auto

lemma strchr_none: "strchr c s = None \<longleftrightarrow> c \<notin> set s"
  by (induction s) (auto simp: strchr_def)

lemma strchr_bound: "strchr c s = Some k \<Longrightarrow> k < length s"
  by (induction s arbitrary: k) (auto simp: strchr_def split: if_splits)

lemma strchr_nth: "strchr c s = Some k \<Longrightarrow> s ! k = c"
  by (induction s arbitrary: k) (auto simp: strchr_def split: if_splits)

lemma strchr_first: "c \<notin> set a \<Longrightarrow> strchr c (a @ c # b) = Some (length a)"
  by (induction a) (auto simp: strchr_def)

lemma strchr_single: "strchr c [] = None" "strchr c (d # s) = (if c = d then Some 0 else map_option Suc (strchr c s))"
  by (simp_all add: strchr_def)

lemma strstr_chr: "strstr [c] s = strchr c s"
  by (simp add: strchr_def)

lemma strstr_first:
  assumes "hd needle \<notin> set a" "needle \<noteq> []"
  shows "strstr needle (a @ needle @ b) = Some (length a)"
  using assms
proof (induction a)
  case Nil
  then have "is_prefix needle (needle @ b)" by (auto simp: is_prefix_iff)
  then show ?case using Nil by (cases "needle @ b") (auto simp: neq_Nil_conv)
next
  case (Cons c a)
  then have "\<not> is_prefix needle (c # a @ needle @ b)" by (cases needle) auto
  then show ?case using Cons by simp
qed

lemma strstr_none: "needle \<noteq> [] \<Longrightarrow> hd needle \<notin> set s \<Longrightarrow> strstr needle s = None"
  by (induction s) (auto simp: neq_Nil_conv)

lemma c_str_id: "no_nul s \<Longrightarrow> c_str s = s"
  by (auto simp: c_str_def no_nul_def takeWhile_eq_all_conv)

lemma char_code_lt: "char_code c < 256"
  by (simp add: char_code_def)

lemma char_of_code: "char_of (char_code c) = c"
  by (simp add: char_code_def)

lemma char_code_of: "n < 256 \<Longrightarrow> char_code (char_of n) = n"
  by (simp add: char_code_def)

lemma char_le_code: "c \<le> d \<longleftrightarrow> char_code c \<le> char_code d"
  by (simp add: less_eq_char_def char_code_def)

lemma dec_value_append: "dec_value (s @ [c]) = 10 * dec_value s + digit_value c"
  by (simp add: dec_value_def)

lemma digit_char: "n < 10 \<Longrightarrow> is_digit (char_of (n + 48)) \<and> digit_value (char_of (n + 48)) = int n"
  by (simp add: is_digit_def char_le_code char_code_of digit_value_def char_code_def)

lemma dec_digits_all: "list_all is_digit (dec_digits n)"
  by (induction n rule: dec_digits.induct) (subst dec_digits.simps, auto simp: digit_char)

lemma dec_digits_ne: "dec_digits n \<noteq> []"
  by (subst dec_digits.simps) simp

lemma dec_value_digits: "dec_value (dec_digits n) = int n"
proof (induction n rule: dec_digits.induct)
  case (1 n)
  show ?case
  proof (cases "n < 10")
    case True
    then show ?thesis by (subst dec_digits.simps) (simp add: dec_value_def digit_char)
  next
    case False
    then have "dec_value (dec_digits n) = 10 * int (n div 10) + int (n mod 10)"
      using 1 by (subst dec_digits.simps) (simp add: dec_value_append digit_char)
    then show ?thesis by (simp add: zdiv_int zmod_int)
  qed
qed

text \<open>Reading back a printed number.\<close>

lemma atoi_dec_digits:
  assumes "rest = [] \<or> \<not> is_digit (hd rest)"
  shows "atoi (dec_digits n @ rest) = int n"
proof -
  obtain c cs where c: "dec_digits n = c # cs" using dec_digits_ne [of n] by (cases "dec_digits n") auto
  then have d: "is_digit c" "list_all is_digit (c # cs)" using dec_digits_all [of n] by auto
  have "\<not> is_space c" "c \<noteq> CHR ''-''" "c \<noteq> CHR ''+''"
    using d(1) by (auto simp: is_digit_def is_space_def char_le_code char_code_def)
  moreover have "takeWhile is_digit (dec_digits n @ rest) = dec_digits n"
    using d(2) c assms by (cases rest) (auto simp: takeWhile_append list_all_iff)
  ultimately show ?thesis using c dec_value_digits [of n] by (simp add: atoi_def)
qed

end
