(* ===== verification/Url.thy ===== *)
theory Url
  imports CString
begin

text \<open>
  stream/url.c: escaping and unescaping of URLs and their parsing. Strings are C strings (\<open>CString\<close>); an output buffer
  becomes the result. Allocation is taken to succeed. \<open>url_new\<close> distinguishes what C leaves undefined (\<open>None\<close>) from the null
  pointer it returns for what is no URL (\<open>Some None\<close>).
\<close>

section \<open>Escaping\<close>

text \<open>The upper-case hexadecimal digits, as the code tests them after \<open>toupper\<close>, and their values.\<close>

definition is_hex :: "char \<Rightarrow> bool" where
  "is_hex c \<longleftrightarrow> is_digit c \<or> (CHR ''A'' \<le> c \<and> c \<le> CHR ''F'')"

definition hex_value :: "char \<Rightarrow> nat" where
  "hex_value c = (if is_digit c then char_code c - 48 else char_code c - 55)"

definition hex_digit :: "nat \<Rightarrow> char" where
  "hex_digit n = (if n < 10 then char_of (n + 48) else char_of (n + 55))"

text \<open>The bytes \<open>url_unescape_string\<close> writes; a zero byte among them ends the string early.\<close>

fun url_unescape_bytes :: "string \<Rightarrow> string" where
  "url_unescape_bytes (c # c1 # c2 # s) =
     (if c = CHR ''%'' \<and> is_hex (toupper c1) \<and> is_hex (toupper c2)
      then char_of (16 * hex_value (toupper c1) + hex_value (toupper c2)) # url_unescape_bytes s
      else c # url_unescape_bytes (c1 # c2 # s))"
| "url_unescape_bytes s = s"

definition url_unescape_string :: "string \<Rightarrow> string" where
  "url_unescape_string s = c_str (url_unescape_bytes s)"

fun escaped_at :: "string \<Rightarrow> bool" where
  "escaped_at (c1 # c2 # s) = (is_hex (toupper c1) \<and> is_hex (toupper c2))"
| "escaped_at s = False"

fun url_escape_string_part :: "string \<Rightarrow> string" where
  "url_escape_string_part [] = []"
| "url_escape_string_part (c # s) =
     (if is_alnum c then [c]
      else if c = CHR ''%'' \<and> escaped_at s then [c]
      else [CHR ''%'', hex_digit (char_code c div 16), hex_digit (char_code c mod 16)]) @ url_escape_string_part s"

text \<open>The characters \<open>url_escape_string\<close> writes out as they are: marks and reserved characters.\<close>

definition url_kept :: "char \<Rightarrow> bool" where
  "url_kept c \<longleftrightarrow> c \<in> set ''-_.!~*'' \<or> c = CHR 0x27 \<or> c \<in> set ''();/?:@&=+$,''"

function url_escape_loop :: "string \<Rightarrow> string" where
  "url_escape_loop [] = []"
| "url_escape_loop (c # s) =
     (if url_kept c then c # url_escape_loop s
      else (let part = takeWhile (\<lambda>c. \<not> url_kept c) (c # s)
            in url_escape_string_part (url_unescape_string part) @ url_escape_loop (drop (length part) (c # s))))"
  by pat_completeness auto
termination by (relation "measure length") auto

declare url_escape_loop.simps(2) [simp del]

text \<open>An IPv6 address in brackets at the start is left alone.\<close>

definition ip6_prefix :: "string \<Rightarrow> nat" where
  "ip6_prefix s =
     (case strstr ''://['' s of None \<Rightarrow> 0
      | Some i \<Rightarrow>
        (case strchr CHR '']'' (drop (i + 4) s) of None \<Rightarrow> 0
         | Some j \<Rightarrow>
             (let k = i + 4 + j
              in if k + 1 = length s \<or> s ! (k + 1) = CHR ''/'' \<or> s ! (k + 1) = CHR '':'' then k + 1 else 0)))"

definition url_escape_string :: "string \<Rightarrow> string" where
  "url_escape_string s = take (ip6_prefix s) s @ url_escape_loop (drop (ip6_prefix s) s)"

section \<open>Parsing\<close>

record URL =
  u_url :: string
  u_noauth_url :: string
  u_protocol :: string
  u_hostname :: string
  u_file :: string
  u_port :: "32 word"
  u_username :: "string option"
  u_password :: "string option"

definition get_noauth_url :: "string \<Rightarrow> string \<Rightarrow> string \<Rightarrow> 32 word \<Rightarrow> string" where
  "get_noauth_url protocol hostname file port =
     (if port \<noteq> 0 then protocol @ ''://'' @ hostname @ '':'' @ dec_string (sint port) @ file
      else protocol @ ''://'' @ hostname @ file)"

text \<open>A user name and perhaps a password before the host: the two and the index behind them.\<close>

definition url_auth :: "string \<Rightarrow> nat \<Rightarrow> string option \<times> string option \<times> nat" where
  "url_auth esc p =
     (let at = strstr_from esc p ''@'';
          slash = strstr_from esc p ''/'';
          at = (case (slash, at) of (Some k, Some a) \<Rightarrow> (if k < a then None else at) | _ \<Rightarrow> at)
      in case at of None \<Rightarrow> (None, None, p)
         | Some a \<Rightarrow>
             (let name = take (a - p) (drop p esc)
              in case strstr_from esc p '':'' of
                   Some k \<Rightarrow>
                     if k < a then
                       (Some (url_unescape_string (take (k - p) name)),
                        Some (url_unescape_string (take (a - k - 1) (drop (k + 1) esc))), a + 1)
                     else (Some (url_unescape_string name), None, a + 1)
                 | None \<Rightarrow> (Some (url_unescape_string name), None, a + 1)))"

text \<open>The host, the port and the index of the path, from index \<open>p\<close> on.\<close>

definition url_host_port :: "string \<Rightarrow> nat \<Rightarrow> (string \<times> int \<times> nat) option" where
  "url_host_port esc p =
     (let open_br = strstr_from esc p ''[''; close_br = strstr_from esc p '']''; slash = strstr_from esc p ''/'';
          v6 = (case (open_br, close_br) of (Some i, Some j) \<Rightarrow> i < j \<and> (case slash of None \<Rightarrow> True | Some k \<Rightarrow> k > j) | _ \<Rightarrow> False);
          p1 = (if v6 then p + 1 else p);
          colon = strstr_from esc (if v6 then the close_br else p) '':'';
          slash = strstr_from esc p1 ''/'';
          colon = (case (slash, colon) of (Some k, Some c) \<Rightarrow> (if k < c then None else colon) | _ \<Rightarrow> colon);
          port = (case colon of None \<Rightarrow> 0 | Some c \<Rightarrow> atoi (drop (c + 1) esc));
          p2 = (case colon of None \<Rightarrow> (case slash of None \<Rightarrow> length esc | Some k \<Rightarrow> k) | Some c \<Rightarrow> c);
          p2 = (if v6 then p2 - 1 else p2)
      in if p2 < p1 \<or> \<not> (- (2 ^ 31) \<le> port \<and> port < 2 ^ 31) then None
         else Some (take (p2 - p1) (drop p1 esc), port, p1))"

definition url_new :: "string \<Rightarrow> URL option option" where
  "url_new url =
     (let esc = url_escape_string url
      in case strstr ''://'' esc of
           None \<Rightarrow> if strstr ''sip:'' esc = Some 0 then None else Some None
         | Some i \<Rightarrow>
             (let (username, password, p) = url_auth esc (i + 3)
              in case url_host_port esc p of None \<Rightarrow> None
                 | Some (hostname, port, p1) \<Rightarrow>
                     (let file = (case strstr_from esc p1 ''/'' of None \<Rightarrow> ''/''
                        | Some k \<Rightarrow> if length (drop k esc) > 1 then drop k esc else ''/'')
                      in Some (Some \<lparr>u_url = esc,
                           u_noauth_url = get_noauth_url (take i esc) hostname file (word_of_int port),
                           u_protocol = take i esc, u_hostname = hostname, u_file = file, u_port = word_of_int port,
                           u_username = username, u_password = password\<rparr>))))"

section \<open>Proxies and redirection\<close>

definition is_proxy :: "URL \<Rightarrow> bool" where
  "is_proxy url \<longleftrightarrow> av_strcaseeq (u_protocol url) ''http_proxy'' \<and> strstr ''://'' (u_file url) \<noteq> None"

text \<open>\<open>None\<close> when \<open>url_new\<close> is undefined or gives the null pointer, whose \<open>protocol\<close> the code reads.\<close>

definition url_is_protocol :: "URL \<Rightarrow> string \<Rightarrow> bool option" where
  "url_is_protocol url proto =
     (if is_proxy url then
        (case url_new (tl (u_file url)) of Some (Some tmp) \<Rightarrow> Some (av_strcaseeq (u_protocol tmp) proto) | _ \<Rightarrow> None)
      else Some (av_strcaseeq (u_protocol url) proto))"

definition url_set_protocol :: "URL \<Rightarrow> string \<Rightarrow> URL option" where
  "url_set_protocol url proto =
     (if is_proxy url then
        (case strstr ''://'' (tl (u_file url)) of None \<Rightarrow> None
         | Some oldlen \<Rightarrow>
             if length proto \<noteq> oldlen then Some url
             else Some (url\<lparr>u_file := hd (u_file url) # proto @ drop oldlen (tl (u_file url))\<rparr>))
      else Some (url\<lparr>u_protocol := proto\<rparr>))"

definition get_http_proxy_url :: "URL \<Rightarrow> string \<Rightarrow> string" where
  "get_http_proxy_url proxy host_url =
     (case u_username proxy of
        Some user \<Rightarrow> ''http_proxy://'' @ user @ '':'' @ (case u_password proxy of Some p \<Rightarrow> p | None \<Rightarrow> []) @ ''@'' @
          u_hostname proxy @ '':'' @ dec_string (sint (u_port proxy)) @ ''/'' @ host_url
      | None \<Rightarrow> ''http_proxy://'' @ u_hostname proxy @ '':'' @ dec_string (sint (u_port proxy)) @ ''/'' @ host_url)"

text \<open>The URL a relative redirection stands for.\<close>

definition url_relative :: "string \<Rightarrow> string \<Rightarrow> string" where
  "url_relative oldurl redir =
     (if strchr CHR ''/'' redir = None \<or> (redir \<noteq> [] \<and> hd redir = CHR ''/'') then
        (let absolute = (redir \<noteq> [] \<and> hd redir = CHR ''/'');
             redir = (if absolute then tl redir else redir);
             cut = (if absolute
               then (case strstr ''://'' oldurl of None \<Rightarrow> None | Some i \<Rightarrow> strstr_from oldurl (i + 3) ''/'')
               else strrchr CHR ''/'' oldurl)
         in (case cut of None \<Rightarrow> oldurl | Some k \<Rightarrow> take (k + 1) oldurl) @ redir)
      else redir)"

definition url_redirect :: "URL \<Rightarrow> string \<Rightarrow> URL option option" where
  "url_redirect u redir =
     (let oldurl = (if is_proxy u then tl (u_file u) else u_url u);
          newurl = url_relative oldurl redir;
          newurl = (if is_proxy u then get_http_proxy_url u newurl else newurl)
      in url_new newurl)"

section \<open>Escaping: size and round trip\<close>

lemma length_unescape: "length (url_unescape_bytes s) \<le> length s"
  by (induction s rule: url_unescape_bytes.induct) auto

lemma length_unescape_string: "length (url_unescape_string s) \<le> length s"
  using length_takeWhile_le [of "\<lambda>c. c \<noteq> CHR 0x00" "url_unescape_bytes s"] length_unescape [of s]
  unfolding url_unescape_string_def c_str_def by linarith

lemma length_escape_part: "length (url_escape_string_part s) \<le> 3 * length s"
  by (induction s rule: url_escape_string_part.induct) auto

lemma length_escape_loop: "length (url_escape_loop s) \<le> 3 * length s"
proof (induction s rule: url_escape_loop.induct)
  case 1
  then show ?case by simp
next
  case (2 c s)
  show ?case
  proof (cases "url_kept c")
    case True
    then show ?thesis using 2 by (simp add: url_escape_loop.simps)
  next
    case False
    let ?p = "takeWhile (\<lambda>c. \<not> url_kept c) (c # s)"
    have "length (url_escape_loop (drop (length ?p) (c # s))) \<le> 3 * (length (c # s) - length ?p)"
      using 2 False by simp
    moreover have "length (url_escape_string_part (url_unescape_string ?p)) \<le> 3 * length ?p"
      using length_escape_part [of "url_unescape_string ?p"] length_unescape_string [of ?p] by linarith
    moreover have "length ?p \<le> length (c # s)" by (rule length_takeWhile_le)
    ultimately show ?thesis using False unfolding url_escape_loop.simps Let_def by simp
  qed
qed

text \<open>\<open>simp\<close> decides a property of all 256 characters.\<close>

lemma hex_digit_ok: "n < 16 \<Longrightarrow> is_hex (toupper (hex_digit n)) \<and> hex_value (toupper (hex_digit n)) = n"
proof -
  assume "n < 16"
  moreover have "list_all (\<lambda>n. is_hex (toupper (hex_digit n)) \<and> hex_value (toupper (hex_digit n)) = n) [0..<16]"
    by code_simp
  ultimately show ?thesis by (simp add: list_all_iff)
qed

lemma unescape_plain: "c \<noteq> CHR ''%'' \<Longrightarrow> url_unescape_bytes (c # s) = c # url_unescape_bytes s"
  by (cases s rule: url_unescape_bytes.cases) auto

lemma unescape_code: "url_unescape_bytes (CHR ''%'' # hex_digit (char_code c div 16) # hex_digit (char_code c mod 16) # s)
    = c # url_unescape_bytes s"
  using hex_digit_ok [of "char_code c div 16"] hex_digit_ok [of "char_code c mod 16"] char_code_lt [of c]
  by (simp add: char_of_code less_mult_imp_div_less)

text \<open>No percent sign in \<open>s\<close> starts an escape sequence.\<close>

fun no_escapes :: "string \<Rightarrow> bool" where
  "no_escapes [] = True"
| "no_escapes (c # s) = (\<not> (c = CHR ''%'' \<and> escaped_at s) \<and> no_escapes s)"

lemma alnum_not_percent: "is_alnum c \<Longrightarrow> c \<noteq> CHR ''%''"
  by (auto simp: is_alnum_def is_upper_def is_lower_def is_digit_def char_le_code char_code_def)

lemma unescape_escape_part:
  "no_escapes s \<Longrightarrow> url_unescape_bytes (url_escape_string_part s @ t) = s @ url_unescape_bytes t"
proof (induction s)
  case Nil
  then show ?case by simp
next
  case (Cons c s)
  show ?case
  proof (cases "is_alnum c")
    case True
    then show ?thesis using Cons by (simp add: unescape_plain alnum_not_percent del: url_unescape_bytes.simps)
  next
    case False
    then have "url_escape_string_part (c # s) @ t
        = CHR ''%'' # hex_digit (char_code c div 16) # hex_digit (char_code c mod 16) # url_escape_string_part s @ t"
      using Cons.prems by auto
    then show ?thesis using Cons by (simp add: unescape_code del: url_unescape_bytes.simps)
  qed
qed

lemma percent_free_id: "CHR ''%'' \<notin> set s \<Longrightarrow> url_unescape_bytes s = s"
  by (induction s rule: url_unescape_bytes.induct) auto

lemma percent_free_no_escapes: "CHR ''%'' \<notin> set s \<Longrightarrow> no_escapes s"
  by (induction s) auto

lemma unescape_append: "CHR ''%'' \<notin> set a \<Longrightarrow> url_unescape_bytes (a @ b) = a @ url_unescape_bytes b"
  by (induction a) (auto simp: unescape_plain)

lemma unescape_escape_loop:
  "CHR ''%'' \<notin> set s \<Longrightarrow> no_nul s \<Longrightarrow> url_unescape_bytes (url_escape_loop s) = s"
proof (induction s rule: url_escape_loop.induct)
  case 1
  then show ?case by simp
next
  case (2 c s)
  show ?case
  proof (cases "url_kept c")
    case True
    then have "url_unescape_bytes (url_escape_loop s) = s" using 2 by (simp add: no_nul_def)
    moreover have "c \<noteq> CHR ''%''" using "2.prems"(1) by auto
    ultimately show ?thesis using True by (simp add: url_escape_loop.simps unescape_plain del: url_unescape_bytes.simps)
  next
    case False
    let ?p = "takeWhile (\<lambda>c. \<not> url_kept c) (c # s)"
    let ?r = "drop (length ?p) (c # s)"
    have sub: "set ?p \<subseteq> set (c # s)" "set ?r \<subseteq> set (c # s)" by (rule set_takeWhileD [THEN conjunct1, THEN subsetI] set_drop_subset | blast dest: set_takeWhileD)+
    have pf: "CHR ''%'' \<notin> set ?p" using sub(1) "2.prems"(1) by blast
    have nn: "no_nul ?p" using sub(1) "2.prems"(2) unfolding no_nul_def by blast
    have p: "url_unescape_string ?p = ?p"
      by (simp only: url_unescape_string_def percent_free_id [OF pf] c_str_id [OF nn])
    have ne: "no_escapes ?p" using sub(1) "2.prems"(1) by (intro percent_free_no_escapes) blast
    have "url_unescape_bytes (url_escape_loop ?r) = ?r"
    proof (rule "2.IH"(2) [OF False refl])
      show "CHR ''%'' \<notin> set ?r" using sub(2) "2.prems"(1) by blast
      show "no_nul ?r" using sub(2) "2.prems"(2) unfolding no_nul_def by blast
    qed
    then have "url_unescape_bytes (url_escape_string_part ?p @ url_escape_loop ?r) = ?p @ ?r"
      using unescape_escape_part [OF ne] by simp
    moreover have "?p @ ?r = c # s" by (metis dropWhile_eq_drop takeWhile_dropWhile_id)
    moreover have "url_escape_loop (c # s) = url_escape_string_part ?p @ url_escape_loop ?r"
      unfolding url_escape_loop.simps Let_def p using False by simp
    ultimately show ?thesis by simp
  qed
qed

lemma alnum_facts: "list_all is_alnum s \<Longrightarrow> CHR ''%'' \<notin> set s \<and> no_nul s \<and> url_escape_string_part s = s"
  by (induction s) (auto simp: no_nul_def is_alnum_def is_upper_def is_lower_def is_digit_def char_le_code char_code_def)

lemma url_escape_kept: "list_all (\<lambda>c. is_alnum c \<or> url_kept c) s \<Longrightarrow> url_escape_loop s = s"
proof (induction s rule: url_escape_loop.induct)
  case 1
  then show ?case by simp
next
  case (2 c s)
  show ?case
  proof (cases "url_kept c")
    case True
    then show ?thesis using 2 by (simp add: url_escape_loop.simps)
  next
    case False
    let ?p = "takeWhile (\<lambda>c. \<not> url_kept c) (c # s)"
    let ?r = "drop (length ?p) (c # s)"
    have al: "list_all is_alnum ?p"
      using "2.prems" unfolding list_all_iff by (metis set_takeWhileD)
    have "list_all (\<lambda>c. is_alnum c \<or> url_kept c) ?r"
      using "2.prems" set_drop_subset [of "length ?p" "c # s"] unfolding list_all_iff by blast
    then have r: "url_escape_loop ?r = ?r" using "2.IH"(2) [OF False refl] by simp
    have f: "CHR ''%'' \<notin> set ?p" "no_nul ?p" "url_escape_string_part ?p = ?p" using alnum_facts [OF al] by blast+
    have p: "url_escape_string_part (url_unescape_string ?p) = ?p"
      by (simp only: url_unescape_string_def percent_free_id [OF f(1)] c_str_id [OF f(2)] f(3))
    have "url_escape_loop (c # s) = ?p @ url_escape_loop ?r"
      unfolding url_escape_loop.simps Let_def p using False by simp
    also have "\<dots> = ?p @ ?r" by (simp only: r)
    also have "\<dots> = c # s" by (metis dropWhile_eq_drop takeWhile_dropWhile_id)
    finally show ?thesis .
  qed
qed

lemma is_prefix_set: "is_prefix a s \<Longrightarrow> set a \<subseteq> set s"
  by (induction a s rule: is_prefix.induct) auto

lemma strstr_missing: "c \<in> set needle \<Longrightarrow> c \<notin> set s \<Longrightarrow> strstr needle s = None"
proof (induction s)
  case Nil
  then show ?case by auto
next
  case (Cons d s)
  then have "\<not> is_prefix needle (d # s)" using is_prefix_set by fastforce
  then show ?case using Cons by simp
qed

lemma url_escape_id:
  "list_all (\<lambda>c. is_alnum c \<or> url_kept c) s \<Longrightarrow> url_escape_string s = s"
proof -
  assume a: "list_all (\<lambda>c. is_alnum c \<or> url_kept c) s"
  have "\<not> (is_alnum CHR ''['' \<or> url_kept CHR ''['')" by code_simp
  then have "CHR ''['' \<notin> set s" using a by (auto simp: list_all_iff)
  then have "strstr ''://['' s = None" by (intro strstr_missing [of "CHR ''[''"]) auto
  then show ?thesis using a by (simp add: url_escape_string_def ip6_prefix_def url_escape_kept)
qed

section \<open>Parsing a well-formed URL\<close>

definition plain :: "string \<Rightarrow> bool" where
  "plain s \<longleftrightarrow> list_all (\<lambda>c. is_alnum c \<or> c \<in> set ''-_.'') s"

text \<open>The text of a URL with these parts.\<close>

definition auth_text :: "(string \<times> string) option \<Rightarrow> string" where
  "auth_text auth = (case auth of None \<Rightarrow> [] | Some (user, password) \<Rightarrow> user @ '':'' @ password @ ''@'')"

definition port_text :: "nat \<Rightarrow> string" where
  "port_text port = (if port = 0 then [] else '':'' @ dec_digits port)"

definition url_text :: "string \<Rightarrow> (string \<times> string) option \<Rightarrow> string \<Rightarrow> nat \<Rightarrow> string \<Rightarrow> string" where
  "url_text protocol auth host port path = protocol @ ''://'' @ auth_text auth @ host @ port_text port @ ''/'' @ path"

definition url_parts_ok :: "string \<Rightarrow> (string \<times> string) option \<Rightarrow> string \<Rightarrow> nat \<Rightarrow> string \<Rightarrow> bool" where
  "url_parts_ok protocol auth host port path \<longleftrightarrow> plain protocol \<and> plain host \<and> port < 2 ^ 31 \<and>
     list_all (\<lambda>c. is_alnum c \<or> c \<in> set ''-_./'') path \<and>
     (case auth of None \<Rightarrow> True | Some (user, password) \<Rightarrow> plain user \<and> plain password)"

lemma alnum_none: "\<not> is_alnum CHR '':''" "\<not> is_alnum CHR ''/''" "\<not> is_alnum CHR ''@''" "\<not> is_alnum CHR ''[''" "\<not> is_alnum CHR '']''"
  by code_simp+

lemma plain_not: "plain s \<Longrightarrow> CHR '':'' \<notin> set s \<and> CHR ''/'' \<notin> set s \<and> CHR ''@'' \<notin> set s \<and> CHR ''['' \<notin> set s \<and> CHR '']'' \<notin> set s"
  using alnum_none by (auto simp: plain_def list_all_iff)

lemma kept_facts: "url_kept CHR '':''" "url_kept CHR ''/''" "url_kept CHR ''@''" "url_kept CHR ''-''" "url_kept CHR ''_''" "url_kept CHR ''.''"
  by (simp_all add: url_kept_def)

lemma digits_alnum: "list_all is_alnum (dec_digits n)"
  using dec_digits_all [of n] by (auto simp: list_all_iff is_alnum_def)

lemma digits_plain: "plain (dec_digits n)"
  using digits_alnum [of n] by (auto simp: plain_def list_all_iff)

lemma url_text_escaped:
  assumes "url_parts_ok protocol auth host port path"
  shows "url_escape_string (url_text protocol auth host port path) = url_text protocol auth host port path"
proof (rule url_escape_id)
  have pl: "list_all (\<lambda>c. is_alnum c \<or> url_kept c) s" if "plain s" for s
    using that kept_facts by (auto simp: plain_def list_all_iff)
  have "list_all (\<lambda>c. is_alnum c \<or> url_kept c) path"
    using assms kept_facts by (auto simp: url_parts_ok_def list_all_iff)
  then show "list_all (\<lambda>c. is_alnum c \<or> url_kept c) (url_text protocol auth host port path)"
    using assms pl kept_facts digits_plain [of port]
    by (auto simp: url_text_def url_parts_ok_def auth_text_def port_text_def split: option.splits)
qed

lemma strstr_from_drop: "drop p esc = rest \<Longrightarrow> strstr_from esc p x = map_option ((+) p) (strstr x rest)"
  by (simp add: strstr_from_def)

text \<open>\<open>url_auth\<close> and \<open>url_host_port\<close> only look at the text from \<open>p\<close> on.\<close>

lemma url_auth_none:
  assumes "drop p esc = host @ port_text n @ ''/'' @ path" "plain host"
    "list_all (\<lambda>c. is_alnum c \<or> c \<in> set ''-_./'') path"
  shows "url_auth esc p = (None, None, p)"
proof -
  have "CHR ''@'' \<notin> set (drop p esc)"
    using assms plain_not [of host] plain_not [OF digits_plain] alnum_none
    by (auto simp: port_text_def list_all_iff)
  then have "strstr ''@'' (drop p esc) = None" by (simp add: strstr_chr strchr_none)
  then show ?thesis by (simp add: url_auth_def strstr_from_def split: option.splits)
qed

lemma url_auth_some:
  assumes "drop p esc = user @ '':'' @ password @ ''@'' @ host @ port_text n @ ''/'' @ path" "plain host" "plain user" "plain password"
  shows "url_auth esc p = (Some user, Some password, p + length user + length password + 2)"
proof -
  let ?rest = "drop p esc"
  have pn: "CHR ''%'' \<notin> set s \<and> no_nul s" if "plain s" for s
  proof -
    have "\<not> is_alnum CHR ''%''" "\<not> is_alnum CHR 0x00" by code_simp+
    then show ?thesis using that by (auto simp: plain_def list_all_iff no_nul_def)
  qed
  have un: "url_unescape_string s = s" if "plain s" for s
    using pn [OF that] by (simp add: url_unescape_string_def percent_free_id c_str_id)
  have at: "strstr ''@'' ?rest = Some (length (user @ '':'' @ password))"
    using strchr_first [of "CHR ''@''" "user @ '':'' @ password"] plain_not [OF assms(3)] plain_not [OF assms(4)]
    by (simp add: strstr_chr assms(1))
  have colon: "strstr '':'' ?rest = Some (length user)"
    using strchr_first [of "CHR '':''" user] plain_not [OF assms(3)] by (simp add: strstr_chr assms(1))
  have slash: "strstr ''/'' ?rest = Some (length (user @ '':'' @ password @ ''@'' @ host @ port_text n))"
    using strchr_first [of "CHR ''/''" "user @ '':'' @ password @ ''@'' @ host @ port_text n"] plain_not [OF assms(3)]
      plain_not [OF assms(4)] plain_not [OF assms(2)] plain_not [OF digits_plain]
    by (simp add: strstr_chr assms(1) port_text_def)
  have pw: "take (length password) (drop (p + length user + 1) esc) = password"
  proof -
    have "drop (p + length user + 1) esc = drop (length user + 1) ?rest" by (simp add: add.commute add.left_commute)
    then show ?thesis by (simp add: assms(1))
  qed
  have us: "take (length user) (take (Suc (length user + length password)) ?rest) = user" by (simp add: assms(1))
  show ?thesis using at colon slash us pw un [OF assms(3)] un [OF assms(4)]
    by (simp add: url_auth_def Let_def strstr_from_def)
qed

lemma url_host_port_text:
  assumes "drop p esc = host @ port_text n @ ''/'' @ path" "p \<le> length esc" "plain host" "n < 2 ^ 31"
    "list_all (\<lambda>c. is_alnum c \<or> c \<in> set ''-_./'') path"
  shows "url_host_port esc p = Some (host, int n, p)" "strstr_from esc p ''/'' = Some (p + length host + length (port_text n))"
proof -
  let ?rest = "drop p esc"
  have nt: "CHR ''['' \<notin> set ?rest" "CHR '']'' \<notin> set ?rest"
    using assms plain_not [of host] plain_not [OF digits_plain] alnum_none
    by (auto simp: port_text_def list_all_iff)
  then have br: "strstr ''['' ?rest = None" "strstr '']'' ?rest = None" by (simp_all add: strstr_chr strchr_none)
  have slash: "strstr ''/'' ?rest = Some (length host + length (port_text n))"
    using strchr_first [of "CHR ''/''" "host @ port_text n"] plain_not [OF assms(3)] plain_not [OF digits_plain]
    by (simp add: strstr_chr assms(1) port_text_def)
  then show "strstr_from esc p ''/'' = Some (p + length host + length (port_text n))"
    by (simp add: strstr_from_def)
  show "url_host_port esc p = Some (host, int n, p)"
  proof (cases "n = 0")
    case True
    have "CHR '':'' \<notin> set (host @ ''/'' @ path)"
      using assms(5) plain_not [OF assms(3)] alnum_none by (auto simp: list_all_iff)
    then have colon: "strstr '':'' ?rest = None" using True by (simp add: strstr_chr strchr_none assms(1) port_text_def)
    show ?thesis using br slash colon True
      by (simp add: url_host_port_def Let_def strstr_from_def assms(1) port_text_def)
  next
    case False
    have colon: "strstr '':'' ?rest = Some (length host)"
      using False strchr_first [of "CHR '':''" host] plain_not [OF assms(3)]
      by (simp add: strstr_chr assms(1) port_text_def)
    have "drop (p + length host + 1) esc = drop (length host + 1) ?rest" by (simp add: add.commute add.left_commute)
    then have "drop (Suc (p + length host)) esc = dec_digits n @ ''/'' @ path"
      using False by (simp add: assms(1) port_text_def)
    then have port: "atoi (drop (Suc (p + length host)) esc) = int n"
      using atoi_dec_digits [of "''/'' @ path" n] by (simp add: is_digit_def char_le_code char_code_def)
    have "int n < 2 ^ 31" using assms(4) by (metis of_nat_less_numeral_power_cancel_iff)
    then show ?thesis using br slash colon port False
      by (simp add: url_host_port_def Let_def strstr_from_def assms(1) port_text_def)
  qed
qed

lemma dec_string_port: "n < 2 ^ 31 \<Longrightarrow> dec_string (sint (word_of_int (int n) :: 32 word)) = dec_digits n"
proof -
  assume "n < 2 ^ 31"
  then have "int n < 2 ^ 31" by (metis of_nat_less_numeral_power_cancel_iff)
  then have "sint (word_of_int (int n) :: 32 word) = int n"
    by (simp only: signed_of_int) (simp add: signed_take_bit_int_eq_self_iff)
  then show ?thesis by (simp add: dec_string_def)
qed

section \<open>Properties\<close>

lemma url_noauth_text:
  assumes "port < 2 ^ 31"
  shows "get_noauth_url protocol host (''/'' @ path) (word_of_int (int port)) = url_text protocol None host port path"
proof (cases "port = 0")
  case True
  then show ?thesis by (simp add: get_noauth_url_def url_text_def auth_text_def port_text_def)
next
  case False
  have "(word_of_int (int port) :: 32 word) \<noteq> 0"
  proof
    assume "(word_of_int (int port) :: 32 word) = 0"
    then have "dec_digits port = dec_digits 0" using dec_string_port [OF assms] by (simp add: dec_string_def)
    then show False using dec_value_digits [of port] dec_value_digits [of 0] False by simp
  qed
  then show ?thesis using False dec_string_port [OF assms]
    by (simp add: get_noauth_url_def url_text_def auth_text_def port_text_def)
qed

lemma url_auth_text:
  assumes "drop p esc = auth_text auth @ host @ port_text port @ ''/'' @ path" "plain host"
    "list_all (\<lambda>c. is_alnum c \<or> c \<in> set ''-_./'') path"
    "case auth of None \<Rightarrow> True | Some (user, password) \<Rightarrow> plain user \<and> plain password"
  shows "url_auth esc p = (map_option fst auth, map_option snd auth, p + length (auth_text auth))"
proof (cases auth)
  case None
  then show ?thesis using url_auth_none [OF _ assms(2,3), of p esc port] assms(1) by (simp add: auth_text_def)
next
  case (Some up)
  obtain user password where up: "up = (user, password)" by (cases up)
  have "plain user" "plain password" using assms(4) Some up by auto
  then show ?thesis using url_auth_some [OF _ assms(2), of p esc user password port path] assms(1) Some up
    by (simp add: auth_text_def)
qed

text \<open>C29: url_new parses a URL built from well-formed parts into exactly these parts, with or without user name and
  password, with or without a port.\<close>

theorem url_new_parses:
  assumes "url_parts_ok protocol auth host port path"
  shows "url_new (url_text protocol auth host port path) = Some (Some
    \<lparr>u_url = url_text protocol auth host port path,
     u_noauth_url = url_text protocol None host port path, u_protocol = protocol, u_hostname = host,
     u_file = ''/'' @ path, u_port = of_nat port, u_username = map_option fst auth, u_password = map_option snd auth\<rparr>)"
proof -
  let ?esc = "url_text protocol auth host port path"
  define p where "p = length protocol + 3"
  have ok: "plain protocol" "plain host" "port < 2 ^ 31" "list_all (\<lambda>c. is_alnum c \<or> c \<in> set ''-_./'') path"
    using assms by (auto simp: url_parts_ok_def)
  have i: "strstr ''://'' ?esc = Some (length protocol)"
    using strstr_first [of "''://''" protocol] plain_not [OF ok(1)] by (simp add: url_text_def)
  have dp: "drop p ?esc = auth_text auth @ host @ port_text port @ ''/'' @ path" by (simp add: p_def url_text_def)
  define q where "q = p + length (auth_text auth)"
  have auth: "url_auth ?esc p = (map_option fst auth, map_option snd auth, q)"
    unfolding q_def by (rule url_auth_text [OF dp ok(2,4)]) (use assms in \<open>simp add: url_parts_ok_def\<close>)
  have dq: "drop q ?esc = host @ port_text port @ ''/'' @ path"
  proof -
    have "drop q ?esc = drop (length (auth_text auth)) (drop p ?esc)" by (simp add: q_def add.commute)
    then show ?thesis by (simp add: dp)
  qed
  have le: "q \<le> length ?esc" by (simp add: q_def p_def url_text_def)
  note hp = url_host_port_text [OF dq le ok(2,3,4)]
  have pth: "drop (q + length host + length (port_text port)) ?esc = ''/'' @ path"
  proof -
    have "drop (q + length host + length (port_text port)) ?esc = drop (length host + length (port_text port)) (drop q ?esc)"
      by (simp add: add.commute add.left_commute)
    then show ?thesis by (simp add: dq)
  qed
  note noauth = url_noauth_text [OF ok(3)]
  have tk: "take (length protocol) ?esc = protocol" by (simp add: url_text_def)
  show ?thesis using auth i hp pth noauth tk
    unfolding url_new_def url_text_escaped [OF assms] by (simp add: p_def) (auto simp: Let_def)
qed

lemma parts_example: "url_parts_ok ''http'' (Some (''joe'', ''pw'')) ''host.com'' 8080 ''a.mp3''"
proof -
  have a: "plain ''http''"  by code_simp
  have b: "plain ''joe''" "plain ''pw''" by code_simp+
  have c: "plain ''host.com''" by code_simp
  have d: "list_all (\<lambda>c. is_alnum c \<or> c \<in> set ''-_./'') ''a.mp3''" by code_simp
  have "(8080::nat) < 2 ^ 31" by simp
  then show ?thesis unfolding url_parts_ok_def option.case prod.case using a b c d by blast
qed

lemma text_example:
  "url_text ''http'' (Some (''joe'', ''pw'')) ''host.com'' 8080 ''a.mp3'' = ''http://joe:pw@host.com:8080/a.mp3''"
  "url_text ''http'' None ''host.com'' 8080 ''a.mp3'' = ''http://host.com:8080/a.mp3''"
  by (simp_all add: url_text_def auth_text_def port_text_def dec_digits.simps of_char_def char_of_def bit_0)

theorem url_new_parses_witness:
  "url_new ''http://joe:pw@host.com:8080/a.mp3'' = Some (Some
    \<lparr>u_url = ''http://joe:pw@host.com:8080/a.mp3'', u_noauth_url = ''http://host.com:8080/a.mp3'', u_protocol = ''http'',
     u_hostname = ''host.com'', u_file = ''/a.mp3'', u_port = 8080, u_username = Some ''joe'', u_password = Some ''pw''\<rparr>)"
  using url_new_parses [OF parts_example] unfolding text_example by simp

text \<open>C30: unescaping undoes escaping for every string without a zero byte and without a percent sign.\<close>

theorem url_escape_roundtrip:
  assumes "CHR ''%'' \<notin> set s" "no_nul s"
  shows "url_unescape_string (url_escape_string s) = s"
proof -
  let ?k = "ip6_prefix s"
  have sub: "set (take ?k s) \<subseteq> set s" "set (drop ?k s) \<subseteq> set s" by (rule set_take_subset, rule set_drop_subset)
  have pf: "CHR ''%'' \<notin> set (take ?k s)" "CHR ''%'' \<notin> set (drop ?k s)" using sub assms(1) by blast+
  have nn: "no_nul (drop ?k s)" using sub(2) assms(2) unfolding no_nul_def by blast
  have "url_unescape_bytes (url_escape_string s) = take ?k s @ drop ?k s"
    unfolding url_escape_string_def using unescape_append [OF pf(1)] unescape_escape_loop [OF pf(2) nn] by simp
  then show ?thesis using assms(2) by (simp add: url_unescape_string_def c_str_id)
qed

theorem url_escape_roundtrip_witness:
  "url_unescape_string (url_escape_string ''a song.mp3'') = ''a song.mp3''"
  by (rule url_escape_roundtrip) (simp_all add: no_nul_def)

text \<open>C31: the escaped string is at most three times as long as the input, so it fits into the buffer of
  strlen(url)*3+1 bytes that url_new allocates for it.\<close>

theorem url_escape_fits:
  "length (url_escape_string s) + 1 \<le> 3 * length s + 1"
proof -
  have "length (url_escape_loop (drop (ip6_prefix s) s)) \<le> 3 * (length s - ip6_prefix s)"
    using length_escape_loop [of "drop (ip6_prefix s) s"] by simp
  moreover have "length (take (ip6_prefix s) s) = min (length s) (ip6_prefix s)" by simp
  ultimately show ?thesis unfolding url_escape_string_def length_append by linarith
qed

text \<open>An escaped percent sign before two hexadecimal digits does not survive escaping: %2541, a percent sign followed by
  41, becomes %41, which is the letter A.\<close>

theorem url_escape_changes_meaning:
  "url_escape_string ''/%2541'' = ''/%41'' \<and> url_unescape_string ''/%2541'' = ''/%41'' \<and>
   url_unescape_string (url_escape_string ''/%2541'') = ''/A''"
  by code_simp

text \<open>The URL without user name and password that url_new makes for an IPv6 address lacks the brackets, and is
  parsed back as a URL with an empty host.\<close>

theorem noauth_url_loses_brackets:
  "map_option (map_option (\<lambda>u. (u_hostname u, u_noauth_url u))) (url_new ''http://[::1]:80/x'')
     = Some (Some (''::1'', ''http://::1:80/x'')) \<and>
   map_option (map_option (\<lambda>u. (u_hostname u, u_port u))) (url_new ''http://::1:80/x'') = Some (Some ([], 0))"
  by code_simp

text \<open>A redirection to an absolute path, coming from a URL without a path, goes to another host: the path is
  appended to the host name without its slash.\<close>

theorem redirect_changes_host:
  "(case url_new ''http://host'' of Some (Some u) \<Rightarrow> map_option (map_option u_hostname) (url_redirect u ''/evil.com/'') | _ \<Rightarrow> None)
    = Some (Some ''hostevil.com'')"
  by code_simp

text \<open>For sip: addresses without // the protocol's length is the difference of pointers into two different
  buffers, which is undefined.\<close>

theorem sip_url_undefined: "url_new ''sip:joe'' = None"
  by code_simp

end
