(* ===== verification/AudioHdr.thy ===== *)
theory AudioHdr
  imports Prelude
begin

text \<open>
  libmpdemux/mp3_hdr.c and mp3_hdr.h (MPEG audio frame headers) and libmpdemux/aac_hdr.c (ADTS headers). A header is
  given by its bytes. The result \<open>None\<close> of \<open>mp_get_mp3_header\<close> is the return value -1, the result \<open>None\<close> of
  \<open>aac_parse_frame\<close> the return value 0; the values stored through the pointer arguments are returned. The shift of the first
  header byte into the sign bit is taken to wrap.
\<close>

unbundle bit_operations_syntax

section \<open>MPEG audio\<close>

definition tabsel_123 :: "int list list list" where
  "tabsel_123 =
    [[[0,32,64,96,128,160,192,224,256,288,320,352,384,416,448,0],
      [0,32,48,56, 64, 80, 96,112,128,160,192,224,256,320,384,0],
      [0,32,40,48, 56, 64, 80, 96,112,128,160,192,224,256,320,0]],
     [[0,32,48,56,64,80,96,112,128,144,160,176,192,224,256,0],
      [0,8,16,24,32,40,48,56,64,80,96,112,128,144,160,0],
      [0,8,16,24,32,40,48,56,64,80,96,112,128,144,160,0]]]"

definition freqs :: "int list" where
  "freqs = [44100, 48000, 32000, 22050, 24000, 16000, 11025, 12000, 8000]"

definition mult :: "int list" where
  "mult = [12000, 144000, 144000]"

record mp3_frame =
  mf_size :: int
  mf_chans :: int
  mf_srate :: int
  mf_spf :: int
  mf_layer :: nat
  mf_br :: int

text \<open>The tables and the arithmetic of \<open>mp_get_mp3_header\<close> on the fields of the header.\<close>

definition mp3_frame_of :: "nat \<Rightarrow> nat \<Rightarrow> nat \<Rightarrow> nat \<Rightarrow> int \<Rightarrow> int \<Rightarrow> mp3_frame option" where
  "mp3_frame_of lsf layer bitrate_index sampling_frequency padding stereo =
     (let bitrate = tabsel_123 ! lsf ! (layer - 1) ! bitrate_index;
          framesize = bitrate * mult ! (layer - 1)
      in if framesize = 0 then None
         else (let divisor = (if layer = 3 then freqs ! sampling_frequency * 2 ^ lsf else freqs ! sampling_frequency);
                   framesize = framesize div divisor + padding;
                   framesize = (if layer = 1 then framesize * 4 else framesize)
               in Some \<lparr>mf_size = framesize, mf_chans = stereo, mf_srate = freqs ! sampling_frequency,
                    mf_spf = (if layer = 1 then 384 else if layer = 2 then 1152
                      else if sampling_frequency > 2 then 576 else 1152),
                    mf_layer = layer, mf_br = bitrate\<rparr>))"

definition mp3_newhead :: "byte \<Rightarrow> byte \<Rightarrow> byte \<Rightarrow> byte \<Rightarrow> 32 word" where
  "mp3_newhead b0 b1 b2 b3 = push_bit 24 (ucast b0) OR push_bit 16 (ucast b1) OR push_bit 8 (ucast b2) OR ucast b3"

definition mp3_header :: "32 word \<Rightarrow> mp3_frame option" where
  "mp3_header newhead =
     (if newhead AND 0xffe00000 \<noteq> 0xffe00000 then None
      else let layer = 4 - unat (drop_bit 17 newhead AND 3) in
      if layer = 4 then None
      else let sampling_frequency = unat (drop_bit 10 newhead AND 0x3) in
      if sampling_frequency = 3 then None
      else let lsf = (if newhead AND push_bit 20 1 \<noteq> 0 then (if newhead AND push_bit 19 1 = 0 then 1 else 0) else 1);
               sampling_frequency = (if newhead AND push_bit 20 1 \<noteq> 0 then sampling_frequency + lsf * 3
                 else sampling_frequency + 6);
               bitrate_index = unat (drop_bit 12 newhead AND 0xf);
               padding = uint (drop_bit 9 newhead AND 0x1);
               stereo = (if drop_bit 6 newhead AND 0x3 = 3 then 1 else 2)
      in mp3_frame_of lsf layer bitrate_index sampling_frequency padding stereo)"

definition mp_get_mp3_header :: "byte \<Rightarrow> byte \<Rightarrow> byte \<Rightarrow> byte \<Rightarrow> mp3_frame option" where
  "mp_get_mp3_header b0 b1 b2 b3 = mp3_header (mp3_newhead b0 b1 b2 b3)"

definition mp_check_mp3_header :: "32 word \<Rightarrow> bool" where
  "mp_check_mp3_header head =
     (if head AND 0xffe00000 \<noteq> 0xffe00000 \<or> head AND 0x00000c00 = 0x00000c00 then False
      else case mp_get_mp3_header (ucast (drop_bit 24 head)) (ucast (drop_bit 16 head)) (ucast (drop_bit 8 head)) (ucast head) of
        None \<Rightarrow> False | Some f \<Rightarrow> 0 < mf_size f)"

section \<open>ADTS\<close>

definition srates :: "int list" where
  "srates = [96000, 88200, 64000, 48000, 44100, 32000, 24000, 22050, 16000, 12000, 11025, 8000, 0, 0, 0]"

text \<open>The result is (frame length, sample rate, number of frames).\<close>

definition aac_parse_frame :: "byte \<Rightarrow> byte \<Rightarrow> byte \<Rightarrow> byte \<Rightarrow> byte \<Rightarrow> byte \<Rightarrow> byte \<Rightarrow> (32 word \<times> int \<times> 32 word) option" where
  "aac_parse_frame b0 b1 b2 b3 b4 b5 b6 =
     (if b0 \<noteq> 0xFF \<or> b1 AND 0xF6 \<noteq> 0xF0 then None
      else let sr = unat (drop_bit 2 b2 AND 0x0F) in
      if sr > 11 then None
      else Some (push_bit 11 (ucast b3 AND 0x03) OR push_bit 3 (ucast b4) OR (drop_bit 5 (ucast b5) AND 0x07),
        srates ! sr, (ucast b6 AND 0x02) + 1))"

unbundle bit_operations_syntax

section \<open>The fields of an MPEG audio header\<close>

text \<open>The header word with these fields, from the sync word down: the version (3 is MPEG 1, 2 is MPEG 2, 0 is MPEG 2.5),
  the layer (3 is layer 1, 1 is layer 3), protection, bit rate, sampling frequency, padding, private bit, channel mode
  and the six lowest bits.\<close>

definition mp3_word :: "nat \<Rightarrow> nat \<Rightarrow> nat \<Rightarrow> nat \<Rightarrow> nat \<Rightarrow> nat \<Rightarrow> nat \<Rightarrow> nat \<Rightarrow> nat \<Rightarrow> 32 word" where
  "mp3_word version l prot br sf pad priv mode low = word_of_nat
     (low + 64 * (mode + 4 * (priv + 2 * (pad + 2 * (sf + 4 * (br + 16 * (prot + 2 * (l + 4 * (version + 4 * 2047)))))))))"

definition mp3_fields_ok :: "nat \<Rightarrow> nat \<Rightarrow> nat \<Rightarrow> nat \<Rightarrow> nat \<Rightarrow> nat \<Rightarrow> nat \<Rightarrow> nat \<Rightarrow> nat \<Rightarrow> bool" where
  "mp3_fields_ok version l prot br sf pad priv mode low \<longleftrightarrow>
     version < 4 \<and> l < 4 \<and> prot < 2 \<and> br < 16 \<and> sf < 4 \<and> pad < 2 \<and> priv < 2 \<and> mode < 4 \<and> low < 64"

lemma field_unat: "unat (drop_bit k (w :: 'a::len word) AND mask n) = unat w div 2 ^ k mod 2 ^ n"
  by (simp only: take_bit_eq_mask [symmetric] unsigned_take_bit_eq unat_drop_bit_eq) (simp add: take_bit_eq_mod drop_bit_eq_div)

lemma masks: "(3 :: 32 word) = mask 2" "(7 :: 32 word) = mask 3" "(0xf :: 32 word) = mask 4" "(1 :: 32 word) = mask 1"
  by (simp_all add: mask_eq_exp_minus_1)

lemma len32: "LENGTH(32) = 32"
  by simp

lemma unat_mp3_word:
  assumes "mp3_fields_ok version l prot br sf pad priv mode low"
  shows "unat (mp3_word version l prot br sf pad priv mode low) =
    low + 64 * (mode + 4 * (priv + 2 * (pad + 2 * (sf + 4 * (br + 16 * (prot + 2 * (l + 4 * (version + 4 * 2047))))))))"
proof -
  have "low + 64 * (mode + 4 * (priv + 2 * (pad + 2 * (sf + 4 * (br + 16 * (prot + 2 * (l + 4 * (version + 4 * 2047)))))))) < 2 ^ 32"
    using assms unfolding mp3_fields_ok_def by simp
  then show ?thesis unfolding mp3_word_def by (simp only: unat_of_nat len32 mod_less)
qed

lemma low_div: "(a::nat) < m \<Longrightarrow> (a + m * b) div (m * k) = b div k"
  by (simp add: div_mult2_eq)

lemma low_mod: "(a::nat) < m \<Longrightarrow> (a + m * b) mod m = a"
  by simp

lemma bit_flag: "(w :: 32 word) AND push_bit k 1 = 0 \<longleftrightarrow> unat w div 2 ^ k mod 2 = 0"
proof -
  have "w AND push_bit k 1 = 0 \<longleftrightarrow> \<not> bit w k" by (simp add: and_exp_eq_0_iff_not_bit)
  also have "\<dots> \<longleftrightarrow> \<not> bit (unat w) k" by (auto simp: bit_unsigned_iff dest: bit_imp_le_length)
  finally show ?thesis by (simp add: bit_iff_odd even_iff_mod_2_eq_zero)
qed

lemma mp3_word_fields:
  assumes ok: "mp3_fields_ok version l prot br sf pad priv mode low"
  defines "n \<equiv> unat (mp3_word version l prot br sf pad priv mode low)"
  shows "n div 2 ^ 21 = 2047" "n div 2 ^ 20 mod 2 = version div 2" "n div 2 ^ 19 mod 2 = version mod 2"
    "n div 2 ^ 17 mod 2 ^ 2 = l" "n div 2 ^ 12 mod 2 ^ 4 = br" "n div 2 ^ 10 mod 2 ^ 2 = sf" "n div 2 ^ 9 mod 2 ^ 1 = pad"
    "n div 2 ^ 6 mod 2 ^ 2 = mode"
proof -
  have b: "version < 4" "l < 4" "prot < 2" "br < 16" "sf < 4" "pad < 2" "priv < 2" "mode < 4" "low < 64"
    using ok by (simp_all add: mp3_fields_ok_def)
  define h where "h = version + 4 * 2047"
  define g where "g = prot + 2 * (l + 4 * h)"
  define f where "f = pad + 2 * (sf + 4 * (br + 16 * g))"
  have n: "n = low + 64 * (mode + 4 * (priv + 2 * f))"
    unfolding n_def unat_mp3_word [OF ok] f_def g_def h_def ..
  have n6: "n div 2 ^ 6 = mode + 4 * (priv + 2 * f)" using n b by simp
  have n9: "n div 2 ^ 9 = f"
  proof -
    have "n div 2 ^ 9 = n div 2 ^ 6 div 4 div 2" by (simp add: div_mult2_eq [symmetric])
    then show ?thesis using n6 b by simp
  qed
  have n10: "n div 2 ^ 10 = sf + 4 * (br + 16 * g)"
  proof -
    have "n div 2 ^ 10 = n div 2 ^ 9 div 2" by (simp add: div_mult2_eq [symmetric])
    then show ?thesis using n9 b by (simp add: f_def)
  qed
  have n12: "n div 2 ^ 12 = br + 16 * g"
  proof -
    have "n div 2 ^ 12 = n div 2 ^ 10 div 4" by (simp add: div_mult2_eq [symmetric])
    then show ?thesis using n10 b by simp
  qed
  have n17: "n div 2 ^ 17 = l + 4 * h"
  proof -
    have "n div 2 ^ 17 = n div 2 ^ 12 div 16 div 2" by (simp add: div_mult2_eq [symmetric])
    then show ?thesis using n12 b by (simp add: g_def)
  qed
  have n19: "n div 2 ^ 19 = h"
  proof -
    have "n div 2 ^ 19 = n div 2 ^ 17 div 4" by (simp add: div_mult2_eq [symmetric])
    then show ?thesis using n17 b by simp
  qed
  have n20: "n div 2 ^ 20 = version div 2 + 2 * 2047"
  proof -
    have "n div 2 ^ 20 = n div 2 ^ 19 div 2" by (simp add: div_mult2_eq [symmetric])
    then show ?thesis using n19 by (simp add: h_def)
  qed
  show "n div 2 ^ 21 = 2047"
  proof -
    have "n div 2 ^ 21 = n div 2 ^ 20 div 2" by (simp add: div_mult2_eq [symmetric])
    then show ?thesis using n20 b by simp
  qed
  show "n div 2 ^ 20 mod 2 = version div 2"
  proof -
    have "version div 2 < 2" using b by simp
    then show ?thesis unfolding n20 by presburger
  qed
  show "n div 2 ^ 19 mod 2 = version mod 2" unfolding n19 h_def by presburger
  show "n div 2 ^ 17 mod 2 ^ 2 = l" using n17 b by simp
  show "n div 2 ^ 12 mod 2 ^ 4 = br" using n12 b by simp
  show "n div 2 ^ 10 mod 2 ^ 2 = sf" unfolding n10 using low_mod [of sf 4 "br + 16 * g"] b by simp
  show "n div 2 ^ 9 mod 2 ^ 1 = pad"
    unfolding n9 f_def using low_mod [of pad 2 "sf + 4 * (br + 16 * g)"] b by simp
  show "n div 2 ^ 6 mod 2 ^ 2 = mode"
    unfolding n6 using low_mod [of mode 4 "priv + 2 * f"] b by simp
qed

lemma sync_iff: "(w :: 32 word) AND 0xffe00000 = 0xffe00000 \<longleftrightarrow> unat w div 2 ^ 21 = 2047"
proof -
  have m: "(0xffe00000 :: 32 word) = push_bit 21 (mask 11)" by (simp add: mask_eq_exp_minus_1)
  have "w AND push_bit 21 (mask 11) = push_bit 21 (drop_bit 21 w)"
    by (rule bit_word_eqI) (auto simp: bit_simps)
  then have "w AND 0xffe00000 = 0xffe00000 \<longleftrightarrow> push_bit 21 (drop_bit 21 w) = push_bit 21 (mask 11)" by (simp only: m)
  also have "\<dots> \<longleftrightarrow> drop_bit 21 w = mask 11"
  proof
    assume "push_bit 21 (drop_bit 21 w) = push_bit 21 (mask 11)"
    then have "drop_bit 21 (push_bit 21 (drop_bit 21 w)) = drop_bit 21 (push_bit 21 (mask 11 :: 32 word))" by simp
    moreover have "drop_bit 21 (push_bit 21 (drop_bit 21 w)) = drop_bit 21 w"
      by (rule bit_word_eqI) (auto simp: bit_simps dest: bit_imp_le_length)
    moreover have "drop_bit 21 (push_bit 21 (mask 11 :: 32 word)) = mask 11"
      by (simp add: mask_eq_exp_minus_1)
    ultimately show "drop_bit 21 w = mask 11" by simp
  qed simp
  also have "\<dots> \<longleftrightarrow> unat (drop_bit 21 w) = unat (mask 11 :: 32 word)" by (rule word_unat_eq_iff)
  also have "unat (drop_bit 21 w) = unat w div 2 ^ 21" by (simp only: unat_drop_bit_eq) (simp only: drop_bit_eq_div)
  also have "unat (mask 11 :: 32 word) = 2047" by (simp add: mask_eq_exp_minus_1)
  finally show ?thesis .
qed


section \<open>Properties\<close>

text \<open>The row of the bit rate table and the entry of the frequency table for a version.\<close>

definition version_lsf :: "nat \<Rightarrow> nat" where "version_lsf version = (if version = 3 then 0 else 1)"

definition version_freq :: "nat \<Rightarrow> nat" where
  "version_freq version = (if version = 3 then 0 else if version = 2 then 3 else 6)"

text \<open>The header decoder takes every header word apart into its fields; the protection bit, the private bit and the low
  bits do not matter. The reserved version 1 is read as MPEG 2.5.\<close>

lemma mp3_header_fields:
  assumes "mp3_fields_ok version l prot br sf pad priv mode low"
  shows "mp3_header (mp3_word version l prot br sf pad priv mode low) =
    (if l = 0 \<or> sf = 3 then None
     else mp3_frame_of (version_lsf version) (4 - l) br (sf + version_freq version) (int pad) (if mode = 3 then 1 else 2))"
proof -
  let ?w = "mp3_word version l prot br sf pad priv mode low"
  note f = mp3_word_fields [OF assms]
  have b: "version < 4" "l < 4" using assms by (auto simp: mp3_fields_ok_def)
  have sync: "?w AND 0xffe00000 = 0xffe00000" using f(1) sync_iff by blast
  have l: "unat (drop_bit 17 ?w AND 3) = l" and br: "unat (drop_bit 12 ?w AND 0xf) = br"
    and sf: "unat (drop_bit 10 ?w AND 3) = sf" and pad: "unat (drop_bit 9 ?w AND 1) = pad"
    and mode: "unat (drop_bit 6 ?w AND 3) = mode"
    unfolding masks field_unat using f by blast+
  have m1: "?w AND push_bit 20 1 = 0 \<longleftrightarrow> version div 2 = 0" and m2: "?w AND push_bit 19 1 = 0 \<longleftrightarrow> version mod 2 = 0"
    unfolding bit_flag f(2,3) by (rule refl)+
  have pad': "uint (drop_bit 9 ?w AND 1) = int pad" using pad by (metis int_nat_eq of_nat_unat uint_nonnegative)
  have mode': "drop_bit 6 ?w AND 3 = 3 \<longleftrightarrow> mode = 3"
  proof -
    have "drop_bit 6 ?w AND 3 = 3 \<longleftrightarrow> unat (drop_bit 6 ?w AND 3) = unat (3 :: 32 word)" by (rule word_unat_eq_iff)
    then show ?thesis unfolding mode by simp
  qed
  have versions: "version = 0 \<or> version = 1 \<or> version = 2 \<or> version = 3" using b(1) by linarith
  have lsf: "(if \<not> version div 2 = 0 then if version mod 2 = 0 then 1 else 0 else 1) = version_lsf version"
    "(if \<not> version div 2 = 0 then sf + version_lsf version * 3 else sf + 6) = sf + version_freq version"
    using versions by (elim disjE; simp add: version_lsf_def version_freq_def)+
  show ?thesis unfolding mp3_header_def Let_def l br sf pad' m1 m2 mode' lsf using sync b(2) by auto
qed

text \<open>The frame length of the standard: \<open>spf\<close> samples at \<open>br\<close> kbit/s and \<open>srate\<close> samples a second, in slots of four
  bytes in layer 1 and of one byte in the others, rounded down, and one slot more with padding.\<close>

definition standard_frame_size :: "mp3_frame \<Rightarrow> int \<Rightarrow> int" where
  "standard_frame_size f padding =
     (let slot = (if mf_layer f = 1 then 4 else 1)
      in (mf_spf f * 125 div slot * mf_br f div mf_srate f + padding) * slot)"

definition frame_conforms :: "nat \<Rightarrow> nat \<Rightarrow> nat \<Rightarrow> nat \<Rightarrow> int \<Rightarrow> bool" where
  "frame_conforms lsf layer br freq padding =
     (case mp3_frame_of lsf layer br freq padding 2 of None \<Rightarrow> br = 0 \<or> br = 15
      | Some f \<Rightarrow> br \<noteq> 0 \<and> br \<noteq> 15 \<and> mf_size f = standard_frame_size f padding \<and> 24 \<le> mf_size f \<and> mf_size f \<le> 2881)"

lemma all_frames_conform:
  "list_all (\<lambda>(lsf, fs). list_all (\<lambda>layer. list_all (\<lambda>br. list_all (\<lambda>freq. list_all (\<lambda>padding.
     frame_conforms lsf layer br freq padding) [0, 1]) fs) [0..<16]) [1, 2, 3]) [(0, [0, 1, 2]), (1, [3..<9])]"
  by code_simp


lemma frame_conforms:
  assumes "version < 4" "l < 4" "l \<noteq> 0" "br < 16" "sf < 3" "pad < 2"
  shows "frame_conforms (version_lsf version) (4 - l) br (sf + version_freq version) (int pad)"
proof -
  have br: "br \<in> set [0..<16]" using assms(4) by simp
  have layer: "4 - l \<in> set [1, 2, 3]"
  proof -
    have "l = 1 \<or> l = 2 \<or> l = 3" using assms(2,3) by linarith
    then show ?thesis by auto
  qed
  have pad: "int pad \<in> set [0, 1]" using assms(6) by auto
  have "version = 3 \<or> version = 2 \<or> version_freq version = 6 \<and> version_lsf version = 1"
    by (auto simp: version_freq_def version_lsf_def)
  moreover have "sf = 0 \<or> sf = 1 \<or> sf = 2" using assms(5) by linarith
  ultimately have row: "\<exists>fs. (version_lsf version, fs) \<in> set [(0, [0, 1, 2]), (1, [3..<9])] \<and> sf + version_freq version \<in> set fs"
    by (auto simp: version_lsf_def version_freq_def)
  then obtain fs where fs: "(version_lsf version, fs) \<in> set [(0, [0, 1, 2]), (1, [3..<9])]" "sf + version_freq version \<in> set fs"
    by blast
  show ?thesis using bspec [OF all_frames_conform [unfolded list_all_iff] fs(1), unfolded prod.case] layer br fs(2) pad by blast
qed

lemma frame_of_stereo: "mp3_frame_of lsf layer br freq padding stereo
    = map_option (\<lambda>f. f\<lparr>mf_chans := stereo\<rparr>) (mp3_frame_of lsf layer br freq padding 2)"
  by (simp add: mp3_frame_of_def Let_def)

lemma mp3_header_conforms:
  assumes "mp3_fields_ok version l prot br sf pad priv mode low"
  shows "case mp3_header (mp3_word version l prot br sf pad priv mode low) of
      None \<Rightarrow> l = 0 \<or> sf = 3 \<or> br = 0 \<or> br = 15
    | Some f \<Rightarrow> \<not> (l = 0 \<or> sf = 3 \<or> br = 0 \<or> br = 15) \<and> mf_size f = standard_frame_size f (int pad) \<and>
        24 \<le> mf_size f \<and> mf_size f \<le> 2881 \<and> mf_layer f = 4 - l \<and> mf_chans f = (if mode = 3 then 1 else 2)"
proof (cases "l = 0 \<or> sf = 3")
  case True
  then show ?thesis unfolding mp3_header_fields [OF assms] by auto
next
  case False
  let ?m = "if mode = 3 then 1 else 2"
  have "frame_conforms (version_lsf version) (4 - l) br (sf + version_freq version) (int pad)"
    using False assms by (intro frame_conforms) (auto simp: mp3_fields_ok_def)
  moreover have "mf_layer f = layer" if "mp3_frame_of lsf layer br freq padding 2 = Some f" for lsf layer br freq padding f
    using that by (auto simp: mp3_frame_of_def Let_def split: if_splits)
  ultimately show ?thesis using False
    unfolding mp3_header_fields [OF assms] frame_conforms_def frame_of_stereo [of _ _ _ _ _ ?m]
    by (auto simp: standard_frame_size_def Let_def split: option.splits)
qed

lemma newhead_split: "mp3_newhead (ucast (drop_bit 24 head)) (ucast (drop_bit 16 head)) (ucast (drop_bit 8 head)) (ucast head) = head"
proof (rule bit_word_eqI)
  fix n assume n: "n < LENGTH(32)"
  have d: "n - 8 < 8 \<longleftrightarrow> n < 16" "n - 8 < 32 \<longleftrightarrow> n < 40" "n - 16 < 8 \<longleftrightarrow> n < 24" "n - 16 < 32 \<longleftrightarrow> n < 48" "n - 24 < 8 \<longleftrightarrow> n < 32"
    "n - 24 < 32 \<longleftrightarrow> n < 56" by arith+
  show "bit (mp3_newhead (ucast (drop_bit 24 head)) (ucast (drop_bit 16 head)) (ucast (drop_bit 8 head)) (ucast head)) n = bit head n"
    using n by (cases "n < 8"; cases "n < 16"; cases "n < 24"; simp add: mp3_newhead_def bit_simps d)
qed

lemma div_step: "n div k = n div k mod m + m * (n div (k * m))" for n :: nat
  by (simp add: div_mult2_eq)

lemma sync_fields:
  assumes "unat head div 2 ^ 21 = 2047"
  shows "\<exists>version l prot br sf pad priv mode low. mp3_fields_ok version l prot br sf pad priv mode low \<and>
    head = mp3_word version l prot br sf pad priv mode low"
proof -
  define n where "n = unat head"
  let ?f = "\<lambda>k m. n div 2 ^ k mod m"
  have "n = n mod 64 + 64 * (n div 2 ^ 6)" by simp
  also have "n div 2 ^ 6 = ?f 6 4 + 4 * (n div 2 ^ 8)" using div_step [of n "2 ^ 6" 4] by simp
  also have "n div 2 ^ 8 = ?f 8 2 + 2 * (n div 2 ^ 9)" using div_step [of n "2 ^ 8" 2] by simp
  also have "n div 2 ^ 9 = ?f 9 2 + 2 * (n div 2 ^ 10)" using div_step [of n "2 ^ 9" 2] by simp
  also have "n div 2 ^ 10 = ?f 10 4 + 4 * (n div 2 ^ 12)" using div_step [of n "2 ^ 10" 4] by simp
  also have "n div 2 ^ 12 = ?f 12 16 + 16 * (n div 2 ^ 16)" using div_step [of n "2 ^ 12" 16] by simp
  also have "n div 2 ^ 16 = ?f 16 2 + 2 * (n div 2 ^ 17)" using div_step [of n "2 ^ 16" 2] by simp
  also have "n div 2 ^ 17 = ?f 17 4 + 4 * (n div 2 ^ 19)" using div_step [of n "2 ^ 17" 4] by simp
  also have "n div 2 ^ 19 = ?f 19 4 + 4 * (n div 2 ^ 21)" using div_step [of n "2 ^ 19" 4] by simp
  also have "n div 2 ^ 21 = 2047" using assms by (simp only: n_def)
  finally have "head = mp3_word (?f 19 4) (?f 17 4) (?f 16 2) (?f 12 16) (?f 10 4) (?f 9 2) (?f 8 2) (?f 6 4) (n mod 64)"
    unfolding mp3_word_def by (simp add: n_def)
  moreover have "mp3_fields_ok (?f 19 4) (?f 17 4) (?f 16 2) (?f 12 16) (?f 10 4) (?f 9 2) (?f 8 2) (?f 6 4) (n mod 64)"
    by (simp add: mp3_fields_ok_def)
  ultimately show ?thesis by blast
qed

lemma mp3_header_sync: "mp3_header head = Some f \<Longrightarrow> unat head div 2 ^ 21 = 2047"
  by (auto simp: mp3_header_def sync_iff split: if_splits)

lemma mp3_header_size: "mp3_header head = Some f \<Longrightarrow> 0 < mf_size f"
proof -
  assume h: "mp3_header head = Some f"
  from sync_fields [OF mp3_header_sync [OF h]] obtain version l prot br sf pad priv mode low
    where "mp3_fields_ok version l prot br sf pad priv mode low" "head = mp3_word version l prot br sf pad priv mode low" by blast
  with mp3_header_conforms [of version l prot br sf pad priv mode low] h show ?thesis by simp
qed

lemma mp_check_mp3_header_iff:
  "mp_check_mp3_header head = (mp3_header head \<noteq> None)"
proof (cases "mp3_header head")
  case None
  then show ?thesis by (simp add: mp_check_mp3_header_def mp_get_mp3_header_def newhead_split)
next
  case (Some f)
  have "head AND 0xffe00000 = 0xffe00000" using mp3_header_sync [OF Some] sync_iff by blast
  moreover have "head AND 0xc00 \<noteq> 0xc00"
  proof
    assume "head AND 0xc00 = 0xc00"
    then have "drop_bit 10 (head AND 0xc00) = drop_bit 10 0xc00" by simp
    then have "drop_bit 10 head AND 3 = 3" by (simp add: drop_bit_and)
    then show False using Some by (simp add: mp3_header_def Let_def split: if_splits)
  qed
  ultimately show ?thesis using Some mp3_header_size [OF Some]
    by (simp add: mp_check_mp3_header_def mp_get_mp3_header_def newhead_split)
qed



section \<open>ADTS headers\<close>

lemma masks8: "(0x0F :: byte) = mask 4" by (simp add: mask_eq_exp_minus_1)

lemma adts_length:
  fixes b3 b4 b5 :: byte
  shows "(push_bit 11 (ucast b3 AND 0x03) OR push_bit 3 (ucast b4) OR (drop_bit 5 (ucast b5) AND 0x07) :: 32 word)
    = word_of_nat (unat b3 mod 4 * 2048 + unat b4 * 8 + unat b5 div 32)"
proof -
  let ?x = "ucast b3 AND 0x03 :: 32 word" and ?y = "ucast b4 :: 32 word" and ?z = "drop_bit 5 (ucast b5) AND 0x07 :: 32 word"
  have x: "?x = word_of_nat (unat b3 mod 4)" and z: "?z = word_of_nat (unat b5 div 32)"
  proof -
    have u: "unat (ucast b :: 32 word) = unat b" for b :: byte
      using unsigned_less [of b, where ?'a = nat] by (simp add: unsigned_ucast_eq take_bit_nat_eq_self)
    have "unat b5 < 2 ^ 8" using unsigned_less [of b5, where ?'a = nat] by simp
    then have d: "unat b5 div 2 ^ 5 mod 2 ^ 3 = unat b5 div 32" "unat b5 div 32 < 2 ^ 32" by simp_all
    have "unat ?x = unat b3 mod 4"
      using field_unat [of 0 "ucast b3 :: 32 word" 2] unfolding masks u by simp
    then show "?x = word_of_nat (unat b3 mod 4)" by (metis of_nat_unat ucast_id)
    have "unat ?z = unat b5 div 32" unfolding masks field_unat u d(1) ..
    then show "?z = word_of_nat (unat b5 div 32)" by (metis of_nat_unat ucast_id)
  qed
  have y: "?y = word_of_nat (unat b4)" by simp
  have d: "push_bit 3 ?y AND ?z = 0" "push_bit 11 ?x AND (push_bit 3 ?y OR ?z) = 0"
    unfolding masks by (rule bit_word_eqI; auto simp: bit_simps dest: bit_imp_le_length)+
  have "push_bit 11 ?x OR push_bit 3 ?y OR ?z = push_bit 11 ?x + (push_bit 3 ?y + ?z)"
    unfolding disjunctive_add_eq_or [OF d(1)] disjunctive_add_eq_or [OF d(2)] ..
  then show ?thesis unfolding x y z push_bit_eq_mult by simp
qed

lemma adts_count:
  fixes b6 :: byte
  shows "(ucast b6 AND 0x02 :: 32 word) + 1 = (if unat b6 mod 4 < 2 then 1 else 3)"
proof -
  have "(ucast b6 AND 0x02 :: 32 word) = (if bit b6 1 then 2 else 0)"
    by (rule bit_word_eqI) (auto simp: bit_simps)
  moreover have "bit b6 1 \<longleftrightarrow> \<not> unat b6 mod 4 < 2"
  proof -
    have "bit b6 1 \<longleftrightarrow> odd (unat b6 div 2)" 
    proof -
      have "bit b6 1 \<longleftrightarrow> bit (unat b6) 1" by (auto simp: bit_unsigned_iff dest: bit_imp_le_length)
      then show ?thesis by (simp add: bit_iff_odd)
    qed
    then show ?thesis by presburger
  qed
  ultimately show ?thesis by simp
qed

text \<open>C33: \<open>aac_parse_frame\<close> reads the sample rate and the 13-bit frame length of an ADTS header, but of the two bits with
  the number of frames only the upper one: two frames are reported as one, four as three.\<close>

theorem aac_parse_frame_fields:
  "aac_parse_frame b0 b1 b2 b3 b4 b5 b6 =
    (if b0 = 0xFF \<and> b1 AND 0xF6 = 0xF0 \<and> unat b2 div 4 mod 16 < 12 then
       Some (word_of_nat (unat b3 mod 4 * 2048 + unat b4 * 8 + unat b5 div 32), srates ! (unat b2 div 4 mod 16),
         if unat b6 mod 4 < 2 then 1 else 3)
     else None)"
proof -
  have sr: "unat (drop_bit 2 b2 AND 0x0F) = unat b2 div 4 mod 16"
    unfolding masks8 field_unat by simp
  show ?thesis unfolding aac_parse_frame_def adts_length adts_count sr by simp
qed

end
