(* ===== verification/Packet.thy ===== *)
theory Packet
  imports Prelude Complex_Main
begin

text \<open>
  The packets of libmpdemux/demuxer.h. Packets live on a heap of their own, with their \<open>next\<close> and \<open>master\<close> pointers and
  reference counts; using a freed packet or buffer, or freeing one twice, is \<open>None\<close>. Allocating the struct succeeds;
  allocating a buffer of at most \<open>ph_limit\<close> bytes succeeds and gives bytes of arbitrary value \<open>ph_junk\<close>. The \<open>double\<close> time
  stamps are rational numbers (infinities and NaN do not occur).
\<close>

section \<open>Packets\<close>

definition MP_NOPTS_VALUE :: rat where "MP_NOPTS_VALUE = - (2 ^ 63)"
definition MP_INPUT_BUFFER_PADDING_SIZE :: nat where "MP_INPUT_BUFFER_PADDING_SIZE = 64"

record packet =
  pk_len :: int
  pk_pts :: rat
  pk_endpts :: rat
  pk_stream_pts :: rat
  pk_pos :: int
  pk_buffer :: "nat option"
  pk_flags :: int
  pk_refcount :: int
  pk_master :: "nat option"
  pk_next :: "nat option"

record pheap =
  ph_packets :: "nat \<Rightarrow> packet option"
  ph_buffers :: "nat \<Rightarrow> bytes option"
  ph_fresh :: nat
  ph_limit :: int
  ph_junk :: byte

definition set_packet :: "nat \<Rightarrow> packet \<Rightarrow> pheap \<Rightarrow> pheap" where
  "set_packet a p h = h\<lparr>ph_packets := (ph_packets h)(a := Some p)\<rparr>"

definition padding :: bytes where
  "padding = replicate MP_INPUT_BUFFER_PADDING_SIZE 0"

text \<open>The result \<open>None\<close> in the first component is the null pointer.\<close>

definition new_demux_packet :: "int \<Rightarrow> pheap \<Rightarrow> nat option \<times> pheap" where
  "new_demux_packet len h =
     (let a = ph_fresh h;
          p = \<lparr>pk_len = len, pk_pts = MP_NOPTS_VALUE, pk_endpts = MP_NOPTS_VALUE, pk_stream_pts = MP_NOPTS_VALUE,
            pk_pos = 0, pk_buffer = None, pk_flags = 0, pk_refcount = 1, pk_master = None, pk_next = None\<rparr>
      in if 0 < len \<and> len \<le> ph_limit h then
           (Some a, (set_packet a (p\<lparr>pk_buffer := Some a\<rparr>) h)\<lparr>
             ph_buffers := (ph_buffers h)(a := Some (replicate (nat len) (ph_junk h) @ padding)), ph_fresh := a + 1\<rparr>)
         else if len \<noteq> 0 then (None, h)
         else (Some a, (set_packet a p h)\<lparr>ph_fresh := a + 1\<rparr>))"

text \<open>\<open>realloc\<close> moves the buffer; when it fails it leaves the old one allocated.\<close>

definition resize_demux_packet :: "nat \<Rightarrow> int \<Rightarrow> pheap \<Rightarrow> pheap option" where
  "resize_demux_packet a len h = do {
     p \<leftarrow> ph_packets h a;
     old \<leftarrow> (case pk_buffer p of None \<Rightarrow> Some [] | Some b \<Rightarrow> ph_buffers h b);
     let freed = (case pk_buffer p of None \<Rightarrow> ph_buffers h | Some b \<Rightarrow> (ph_buffers h)(b := None));
     let f = ph_fresh h;
     Some (if 0 < len then
         (if len \<le> ph_limit h then
            (set_packet a (p\<lparr>pk_buffer := Some f, pk_len := len\<rparr>) h)\<lparr>
              ph_buffers := freed(f := Some (take (nat len) (old @ replicate (nat len) (ph_junk h)) @ padding)), ph_fresh := f + 1\<rparr>
          else set_packet a (p\<lparr>pk_buffer := None, pk_len := 0\<rparr>) h)
       else (set_packet a (p\<lparr>pk_buffer := None, pk_len := 0\<rparr>) h)\<lparr>ph_buffers := freed\<rparr>) }"

text \<open>\<open>while(pack->master) pack=pack->master\<close>\<close>

partial_function (option) find_master :: "nat \<Rightarrow> pheap \<Rightarrow> nat option" where
  "find_master a h = (case ph_packets h a of None \<Rightarrow> None
     | Some p \<Rightarrow> (case pk_master p of None \<Rightarrow> Some a | Some m \<Rightarrow> find_master m h))"

definition clone_demux_packet :: "nat \<Rightarrow> pheap \<Rightarrow> (nat \<times> pheap) option" where
  "clone_demux_packet a h = do {
     m \<leftarrow> find_master a h;
     p \<leftarrow> ph_packets h m;
     let c = ph_fresh h;
     Some (c, (set_packet m (p\<lparr>pk_refcount := pk_refcount p + 1\<rparr>)
       (set_packet c (p\<lparr>pk_next := None, pk_refcount := 0, pk_master := Some m\<rparr>) h))\<lparr>ph_fresh := c + 1\<rparr>) }"

definition free_buffer :: "nat option \<Rightarrow> pheap \<Rightarrow> pheap option" where
  "free_buffer b h = (case b of None \<Rightarrow> Some h
     | Some b \<Rightarrow> if ph_buffers h b = None then None else Some (h\<lparr>ph_buffers := (ph_buffers h)(b := None)\<rparr>))"

definition free_struct :: "nat \<Rightarrow> pheap \<Rightarrow> pheap option" where
  "free_struct a h = (if ph_packets h a = None then None else Some (h\<lparr>ph_packets := (ph_packets h)(a := None)\<rparr>))"

partial_function (option) free_demux_packet :: "nat \<Rightarrow> pheap \<Rightarrow> pheap option" where
  "free_demux_packet a h =
     (case ph_packets h a of None \<Rightarrow> None
      | Some p \<Rightarrow>
        (case pk_master p of
           None \<Rightarrow>
             (if pk_refcount p - 1 = 0 then
                Option.bind (free_buffer (pk_buffer p) (set_packet a (p\<lparr>pk_refcount := pk_refcount p - 1\<rparr>) h)) (free_struct a)
              else Some (set_packet a (p\<lparr>pk_refcount := pk_refcount p - 1\<rparr>) h))
         | Some m \<Rightarrow> Option.bind (free_demux_packet m h) (free_struct a)))"

section \<open>Reference counts\<close>

text \<open>
  \<open>H\<close> is the set of packets whose holder may still free them. The struct of a master packet lives on, without being held,
  while clones of it are held.
\<close>

definition holders :: "nat set \<Rightarrow> pheap \<Rightarrow> nat \<Rightarrow> nat set" where
  "holders H h m = {c \<in> H. c = m \<or> (\<exists>p. ph_packets h c = Some p \<and> pk_master p = Some m)}"

definition buffer_ok :: "pheap \<Rightarrow> packet \<Rightarrow> bool" where
  "buffer_ok h p \<longleftrightarrow> (case pk_buffer p of None \<Rightarrow> pk_len p = 0
     | Some b \<Rightarrow> 0 < pk_len p \<and> (\<exists>bs. ph_buffers h b = Some bs \<and> length bs = nat (pk_len p) + MP_INPUT_BUFFER_PADDING_SIZE))"

definition packet_ok :: "nat set \<Rightarrow> pheap \<Rightarrow> nat \<Rightarrow> packet \<Rightarrow> bool" where
  "packet_ok H h a p \<longleftrightarrow> a < ph_fresh h \<and>
     (case pk_master p of
        None \<Rightarrow> holders H h a \<noteq> {} \<and> pk_refcount p = int (card (holders H h a)) \<and> buffer_ok h p
      | Some m \<Rightarrow> a \<in> H \<and> (\<exists>q. ph_packets h m = Some q \<and> pk_master q = None \<and> pk_buffer q = pk_buffer p \<and> pk_len q = pk_len p))"

definition buffer_owned :: "pheap \<Rightarrow> nat \<Rightarrow> bool" where
  "buffer_owned h b \<longleftrightarrow> b < ph_fresh h \<and> (\<exists>a p. ph_packets h a = Some p \<and> pk_master p = None \<and> pk_buffer p = Some b)"

definition own_buffers :: "pheap \<Rightarrow> bool" where
  "own_buffers h \<longleftrightarrow> (\<forall>a p a' p' b. ph_packets h a = Some p \<longrightarrow> ph_packets h a' = Some p' \<longrightarrow> pk_master p = None \<longrightarrow>
     pk_master p' = None \<longrightarrow> pk_buffer p = Some b \<longrightarrow> pk_buffer p' = Some b \<longrightarrow> a = a')"

definition heap_ok :: "nat set \<Rightarrow> pheap \<Rightarrow> bool" where
  "heap_ok H h \<longleftrightarrow> finite H \<and> H \<subseteq> dom (ph_packets h) \<and>
     (\<forall>a p. ph_packets h a = Some p \<longrightarrow> packet_ok H h a p) \<and>
     (\<forall>b. ph_buffers h b \<noteq> None \<longrightarrow> buffer_owned h b) \<and> own_buffers h"

text \<open>The packet \<open>a\<close> and its bytes are as before; only its reference count may have changed.\<close>

definition keeps :: "pheap \<Rightarrow> pheap \<Rightarrow> nat \<Rightarrow> bool" where
  "keeps h h' a \<longleftrightarrow> (\<exists>p p'. ph_packets h a = Some p \<and> ph_packets h' a = Some p' \<and> p'\<lparr>pk_refcount := pk_refcount p\<rparr> = p \<and>
     (\<forall>b. pk_buffer p = Some b \<longrightarrow> ph_buffers h' b = ph_buffers h b))"

lemma heap_okD:
  assumes "heap_ok H h"
  shows "finite H" "a \<in> H \<Longrightarrow> \<exists>p. ph_packets h a = Some p"
    "ph_packets h a = Some p \<Longrightarrow> packet_ok H h a p" "ph_packets h a = Some p \<Longrightarrow> a < ph_fresh h"
    "ph_buffers h b \<noteq> None \<Longrightarrow> buffer_owned h b"
    "ph_packets h a = Some p \<Longrightarrow> ph_packets h a' = Some p' \<Longrightarrow> pk_master p = None \<Longrightarrow> pk_master p' = None \<Longrightarrow>
      pk_buffer p = Some b \<Longrightarrow> pk_buffer p' = Some b \<Longrightarrow> a = a'"
  using assms unfolding heap_ok_def own_buffers_def packet_ok_def by blast+

lemma packet_master:
  assumes "heap_ok H h" "ph_packets h a = Some p" "pk_master p = None"
  shows "holders H h a \<noteq> {}" "pk_refcount p = int (card (holders H h a))" "buffer_ok h p"
  using heap_okD(3) [OF assms(1,2)] assms(3) by (simp_all add: packet_ok_def)

lemma packet_clone:
  assumes "heap_ok H h" "ph_packets h a = Some p" "pk_master p = Some m"
  shows "a \<in> H" "\<exists>q. ph_packets h m = Some q \<and> pk_master q = None \<and> pk_buffer q = pk_buffer p \<and> pk_len q = pk_len p"
  using heap_okD(3) [OF assms(1,2)] assms(3) by (simp_all add: packet_ok_def)

lemma buffer_ok_cong: "ph_buffers h' = ph_buffers h \<Longrightarrow> buffer_ok h' p = buffer_ok h p"
  by (auto simp: buffer_ok_def split: option.splits)

lemma packet_buffer: "heap_ok H h \<Longrightarrow> ph_packets h a = Some p \<Longrightarrow> buffer_ok h p"
proof (cases "pk_master p")
  case (Some m)
  assume ok: "heap_ok H h" and p: "ph_packets h a = Some p"
  from packet_clone(2) [OF ok p Some] obtain q where "ph_packets h m = Some q" "pk_master q = None" "pk_buffer q = pk_buffer p"
    "pk_len q = pk_len p" by blast
  then show ?thesis using packet_master(3) [OF ok, of m q] by (auto simp: buffer_ok_def split: option.splits)
qed (rule packet_master(3))

lemma heap_empty: "heap_ok {} h \<Longrightarrow> ph_packets h = Map.empty \<and> ph_buffers h = Map.empty"
proof -
  assume ok: "heap_ok {} h"
  have p: "ph_packets h a = None" for a
  proof (rule ccontr)
    assume "ph_packets h a \<noteq> None"
    then obtain p where p: "ph_packets h a = Some p" by blast
    show False
    proof (cases "pk_master p")
      case None
      then show False using packet_master(1) [OF ok p] by (simp add: holders_def)
    next
      case (Some m)
      then show False using packet_clone(1) [OF ok p] by simp
    qed
  qed
  moreover have "ph_buffers h b = None" for b
    using heap_okD(5) [OF ok, of b] p by (cases "ph_buffers h b") (auto simp: buffer_owned_def)
  ultimately show ?thesis by (auto intro: ext)
qed

lemma holders_insert:
  assumes "a \<notin> H" "m \<noteq> a" "\<And>c. c \<in> H \<Longrightarrow> ph_packets h' c = ph_packets h c" "\<And>p. ph_packets h' a = Some p \<Longrightarrow> pk_master p \<noteq> Some m"
  shows "holders (insert a H) h' m = holders H h m"
  using assms unfolding holders_def by auto

lemma new_packet_ok:
  assumes "heap_ok H h" "0 \<le> len" "len \<le> ph_limit h \<or> len = 0"
  defines "a \<equiv> ph_fresh h"
  shows "\<exists>h' p. new_demux_packet len h = (Some a, h') \<and> heap_ok (insert a H) h' \<and> a \<notin> H \<and> (\<forall>x \<in> H. keeps h h' x) \<and>
    ph_packets h' a = Some p \<and> p = \<lparr>pk_len = len, pk_pts = MP_NOPTS_VALUE, pk_endpts = MP_NOPTS_VALUE, pk_stream_pts = MP_NOPTS_VALUE,
      pk_pos = 0, pk_buffer = (if len = 0 then None else Some a), pk_flags = 0, pk_refcount = 1, pk_master = None, pk_next = None\<rparr> \<and>
    ph_limit h' = ph_limit h \<and> ph_junk h' = ph_junk h"
proof -
  let ?p = "\<lparr>pk_len = len, pk_pts = MP_NOPTS_VALUE, pk_endpts = MP_NOPTS_VALUE, pk_stream_pts = MP_NOPTS_VALUE,
      pk_pos = 0, pk_buffer = (if len = 0 then None else Some a), pk_flags = 0, pk_refcount = 1, pk_master = None, pk_next = None\<rparr>"
  define h' where "h' = snd (new_demux_packet len h)"
  have new: "new_demux_packet len h = (Some a, h')" using assms by (auto simp: new_demux_packet_def h'_def Let_def)
  have h': "ph_packets h' = (ph_packets h)(a := Some ?p)"
    "ph_buffers h' = (if len = 0 then ph_buffers h else (ph_buffers h)(a := Some (replicate (nat len) (ph_junk h) @ padding)))"
    "ph_fresh h' = a + 1" "ph_limit h' = ph_limit h" "ph_junk h' = ph_junk h"
    using assms by (auto simp: h'_def new_demux_packet_def set_packet_def Let_def)
  have fr: "ph_packets h a = None" "ph_buffers h a = None"
    using heap_okD(4,5) [OF assms(1)] by (force simp: a_def buffer_owned_def)+
  have aH: "a \<notin> H" using heap_okD(2) [OF assms(1)] fr(1) by force
  have ne: "x \<noteq> a" if "ph_packets h x = Some q" for x q using that fr(1) by auto
  have hold: "holders (insert a H) h' x = holders H h x" if "x \<noteq> a" for x
    using that aH by (intro holders_insert) (auto simp: h'(1))
  have self: "holders (insert a H) h' a = {a}"
  proof -
    have "pk_master q \<noteq> Some a" if "ph_packets h c = Some q" for c q
      using packet_clone(2) [OF assms(1) that, of a] fr(1) by auto
    then show ?thesis by (auto simp: holders_def h'(1))
  qed
  have bufs: "buffer_ok h' q" if "buffer_ok h q" "ph_packets h x = Some q" for x q
    using that fr(2) by (auto simp: buffer_ok_def h'(2) split: option.splits)
  have "packet_ok (insert a H) h' x q" if q: "ph_packets h' x = Some q" for x q
  proof (cases "x = a")
    case True
    then show ?thesis using q h' self assms(2) by (auto simp: packet_ok_def buffer_ok_def padding_def)
  next
    case False
    then have q: "ph_packets h x = Some q" using q by (simp add: h'(1))
    show ?thesis using heap_okD(3) [OF assms(1) q] False hold [OF False] bufs [OF _ q] ne h'(1,3)
      unfolding packet_ok_def by (auto simp: a_def split: option.splits)
  qed
  moreover have "buffer_owned h' b" if "ph_buffers h' b \<noteq> None" for b
  proof (cases "len \<noteq> 0 \<and> b = a")
    case True
    then show ?thesis using h' by (auto simp: buffer_owned_def)
  next
    case False
    then have "ph_buffers h b \<noteq> None" using that by (auto simp: h'(2) split: if_splits)
    then have "buffer_owned h b" by (rule heap_okD(5) [OF assms(1)])
    then obtain x q where "ph_packets h x = Some q" "pk_master q = None" "pk_buffer q = Some b" "b < a"
      unfolding buffer_owned_def a_def by blast
    then show ?thesis using ne [of x q] h' by (auto simp: buffer_owned_def intro!: exI [of _ x])
  qed
  moreover have "own_buffers h'"
  proof -
    have "b \<noteq> a" if "ph_packets h x = Some q" "pk_master q = None" "pk_buffer q = Some b" for x q b
      using packet_master(3) [OF assms(1) that(1,2)] that(3) fr(2) by (auto simp: buffer_ok_def)
    then show ?thesis using heap_okD(6) [OF assms(1)] unfolding own_buffers_def h'(1)
      by (auto split: if_splits)
  qed
  moreover have "keeps h h' x" if "x \<in> H" for x
  proof -
    from heap_okD(2) [OF assms(1) that] obtain q where q: "ph_packets h x = Some q" by blast
    have "ph_buffers h' b = ph_buffers h b" if "pk_buffer q = Some b" for b
      using packet_buffer [OF assms(1) q] that fr(2) by (auto simp: buffer_ok_def h'(2))
    then show ?thesis using q ne [OF q] by (auto simp: keeps_def h'(1))
  qed
  ultimately show ?thesis using new aH h' heap_okD(1,2) [OF assms(1)]
    by (auto simp: heap_ok_def)
qed


lemma clone_packet_ok:
  assumes ok: "heap_ok H h" and "a \<in> H"
  defines "c \<equiv> ph_fresh h"
  shows "\<exists>h'. clone_demux_packet a h = Some (c, h') \<and> heap_ok (insert c H) h' \<and> c \<notin> H \<and> (\<forall>x \<in> H. keeps h h' x) \<and>
    (\<exists>p q. ph_packets h a = Some p \<and> ph_packets h' c = Some q \<and> pk_buffer q = pk_buffer p \<and> pk_len q = pk_len p)"
proof -
  from heap_okD(2) [OF ok assms(2)] obtain pa where pa: "ph_packets h a = Some pa" by blast
  obtain m p where m: "find_master a h = Some m" "ph_packets h m = Some p" "pk_master p = None" "pk_buffer p = pk_buffer pa"
    "pk_len p = pk_len pa"
  proof (cases "pk_master pa")
    case None
    then show ?thesis using that [of a pa] pa by (simp add: find_master.simps)
  next
    case (Some m)
    from packet_clone(2) [OF ok pa Some] obtain q where "ph_packets h m = Some q" "pk_master q = None"
      "pk_buffer q = pk_buffer pa" "pk_len q = pk_len pa" by blast
    then show ?thesis using that [of m q] pa Some by (simp add: find_master.simps)
  qed
  define q where "q = p\<lparr>pk_next := None, pk_refcount := 0, pk_master := Some m\<rparr>"
  define h' where "h' = (set_packet m (p\<lparr>pk_refcount := pk_refcount p + 1\<rparr>) (set_packet c q h))\<lparr>ph_fresh := c + 1\<rparr>"
  have run: "clone_demux_packet a h = Some (c, h')" using m by (simp add: clone_demux_packet_def h'_def q_def c_def Let_def)
  have fr: "ph_packets h c = None" using heap_okD(4) [OF ok] by (force simp: c_def)
  have cH: "c \<notin> H" using heap_okD(2) [OF ok] fr by force
  have ne: "m \<noteq> c" using m(2) fr by auto
  have h': "ph_packets h' = (ph_packets h)(c := Some q, m := Some (p\<lparr>pk_refcount := pk_refcount p + 1\<rparr>))"
    "ph_buffers h' = ph_buffers h" "ph_fresh h' = c + 1"
    by (simp_all add: h'_def set_packet_def)
  have masters: "map_option pk_master (ph_packets h' x) = map_option pk_master (ph_packets h x)" if "x \<noteq> c" for x
    using that m by (simp add: h'(1))
  have hold: "holders (insert c H) h' x = (if x = m then insert c (holders H h m) else if x = c then {c} else holders H h x)" for x
  proof -
    have nc: "pk_master r \<noteq> Some c" if "ph_packets h y = Some r" for y r
      using packet_clone(2) [OF ok that, of c] fr by auto
    have old: "(\<exists>r. ph_packets h' y = Some r \<and> pk_master r = Some x) = (\<exists>r. ph_packets h y = Some r \<and> pk_master r = Some x)"
      if "y \<in> H" for y
    proof -
      have "y \<noteq> c" using that cH by blast
      from masters [OF this] show ?thesis by (cases "ph_packets h y"; cases "ph_packets h' y") auto
    qed
    have new: "(c = x \<or> (\<exists>r. ph_packets h' c = Some r \<and> pk_master r = Some x)) \<longleftrightarrow> x = c \<or> x = m"
      using ne by (auto simp: h'(1) q_def)
    have "holders (insert c H) h' x =
        {y \<in> H. y = x \<or> (\<exists>r. ph_packets h' y = Some r \<and> pk_master r = Some x)} \<union> {y. y = c \<and> (x = c \<or> x = m)}"
      unfolding holders_def using new by blast
    also have "{y \<in> H. y = x \<or> (\<exists>r. ph_packets h' y = Some r \<and> pk_master r = Some x)} = holders H h x"
      unfolding holders_def using old by blast
    finally have e: "holders (insert c H) h' x = holders H h x \<union> {y. y = c \<and> (x = c \<or> x = m)}" .
    have "holders H h c = {}" unfolding holders_def using nc cH by blast
    then show ?thesis unfolding e using ne by auto
  qed
  have card: "card (insert c (holders H h m)) = card (holders H h m) + 1"
  proof -
    have "finite (holders H h m)" "c \<notin> holders H h m" using heap_okD(1) [OF ok] cH by (auto simp: holders_def)
    then show ?thesis by simp
  qed
  have "packet_ok (insert c H) h' x r" if r: "ph_packets h' x = Some r" for x r
  proof -
    consider "x = c" | "x = m" | "x \<noteq> c" "x \<noteq> m" by blast
    then show ?thesis
    proof cases
      case 1
      have "r = q" using r 1 ne by (simp add: h'(1))
      then show ?thesis using 1 ne m(3) by (simp add: packet_ok_def h' q_def)
    next
      case 2
      have "r = p\<lparr>pk_refcount := pk_refcount p + 1\<rparr>" using r 2 by (simp add: h'(1))
      moreover have "m < c" using heap_okD(4) [OF ok m(2)] by (simp add: c_def)
      ultimately show ?thesis using 2 packet_master [OF ok m(2,3)] m(3) card
        by (auto simp: packet_ok_def hold h' buffer_ok_def split: option.splits)
    next
      case 3
      then have r: "ph_packets h x = Some r" using r by (simp add: h'(1))
      have hx: "holders (insert c H) h' x = holders H h x" and bx: "buffer_ok h' r = buffer_ok h r"
        using 3 by (simp_all add: hold buffer_ok_cong [OF h'(2)])
      have xc: "x < c" using heap_okD(4) [OF ok r] by (simp add: c_def)
      show ?thesis
      proof (cases "pk_master r")
        case None
        then show ?thesis using packet_master [OF ok r None] hx xc bx h'(3) by (simp add: packet_ok_def)
      next
        case (Some n)
        obtain s where s: "ph_packets h n = Some s" "pk_master s = None" "pk_buffer s = pk_buffer r" "pk_len s = pk_len r"
          using packet_clone(2) [OF ok r Some] by blast
        have "n \<noteq> c" using s(1) fr by auto
        then have "\<exists>s. ph_packets h' n = Some s \<and> pk_master s = None \<and> pk_buffer s = pk_buffer r \<and> pk_len s = pk_len r"
          using s m(2) by (cases "n = m") (simp_all add: h'(1))
        then show ?thesis using packet_clone(1) [OF ok r Some] Some xc h'(3) by (simp add: packet_ok_def)
      qed
    qed
  qed
  moreover have "buffer_owned h' b" if b: "ph_buffers h' b \<noteq> None" for b
  proof -
    have "buffer_owned h b" using b by (simp add: h'(2) heap_okD(5) [OF ok])
    then obtain x r where x: "b < c" "ph_packets h x = Some r" "pk_master r = None" "pk_buffer r = Some b"
      unfolding buffer_owned_def c_def by blast
    moreover from this have "x \<noteq> c" using fr by auto
    ultimately show ?thesis using m by (cases "x = m") (auto simp: buffer_owned_def h' intro!: exI [of _ x])
  qed
  moreover have "own_buffers h'"
  proof -
    have "own_buffers h" using ok by (simp add: heap_ok_def)
    then show ?thesis using m(2,3) ne unfolding own_buffers_def h'(1) q_def by (auto split: if_splits)
  qed
  moreover have "keeps h h' x" if x: "x \<in> H" for x
    using heap_okD(2) [OF ok x] x cH m(2) by (auto simp: keeps_def h')
  moreover have "insert c H \<subseteq> dom (ph_packets h')" using heap_okD(2) [OF ok] by (auto simp: h'(1))
  ultimately show ?thesis using run cH pa m ne heap_okD(1) [OF ok]
    by (auto simp: heap_ok_def h'(1) q_def)
qed


lemma holder_cases:
  assumes "heap_ok H h" "a \<in> holders H h m" "ph_packets h m = Some p" "pk_master p = None"
  shows "a \<in> H" "ph_packets h a = Some q \<Longrightarrow> pk_master q = (if a = m then None else Some m)"
  using assms by (auto simp: holders_def)

lemma other_buffer:
  assumes ok: "heap_ok H h" and m: "ph_packets h m = Some p" "pk_master p = None" and x: "ph_packets h x = Some r"
    and "x \<notin> holders H h m" "x \<noteq> m" and b: "pk_buffer r = Some b"
  shows "pk_buffer p \<noteq> Some b"
proof
  assume pb: "pk_buffer p = Some b"
  show False
  proof (cases "pk_master r")
    case None
    then show False using heap_okD(6) [OF ok m(1) x m(2) None pb b] \<open>x \<noteq> m\<close> by simp
  next
    case (Some n)
    from packet_clone [OF ok x Some] obtain q where q: "x \<in> H" "ph_packets h n = Some q" "pk_master q = None" "pk_buffer q = Some b"
      using b by auto
    then have "n = m" using heap_okD(6) [OF ok q(2) m(1) q(3) m(2) q(4) pb] by simp
    then show False using Some x q(1) assms(5) by (auto simp: holders_def)
  qed
qed

lemma release_holders:
  assumes ok: "heap_ok H h" and m: "ph_packets h m = Some p" "pk_master p = None" and a: "a \<in> holders H h m" and x: "x \<noteq> m"
    and h': "\<And>c. c \<in> H \<Longrightarrow> c \<noteq> a \<Longrightarrow> map_option pk_master (ph_packets h' c) = map_option pk_master (ph_packets h c)"
  shows "holders (H - {a}) h' x = holders H h x - {a}"
proof -
  have "(\<exists>r. ph_packets h' y = Some r \<and> pk_master r = Some x) = (\<exists>r. ph_packets h y = Some r \<and> pk_master r = Some x)"
    if "y \<in> H - {a}" for y
    using h' [of y] that by (cases "ph_packets h y"; cases "ph_packets h' y") auto
  then show ?thesis unfolding holders_def by blast
qed

lemma release_last:
  assumes ok: "heap_ok H h" and m: "ph_packets h m = Some p" "pk_master p = None" and a: "holders H h m = {a}"
    and h': "ph_packets h' = (ph_packets h)(m := None, a := None)" "ph_fresh h' = ph_fresh h"
      "ph_buffers h' = (case pk_buffer p of None \<Rightarrow> ph_buffers h | Some b \<Rightarrow> (ph_buffers h)(b := None))"
  shows "heap_ok (H - {a}) h' \<and> (\<forall>x \<in> H - {a}. keeps h h' x)"
proof -
  have aH: "a \<in> H" and mH: "m \<in> H \<Longrightarrow> m = a" using a by (auto simp: holders_def)
  have am: "pk_master q = (if a = m then None else Some m)" if "ph_packets h a = Some q" for q
    using holder_cases(2) [OF ok _ m that] a by simp
  have live: "x \<notin> holders H h m \<and> x \<noteq> m \<and> ph_packets h x = Some r" if "ph_packets h' x = Some r" for x r
    using that a by (auto simp: h'(1) split: if_splits)
  have buf: "ph_buffers h' b = ph_buffers h b" if "ph_packets h' x = Some r" "pk_buffer r = Some b" for x r b
    using other_buffer [OF ok m] live [OF that(1)] that(2) by (auto simp: h'(3) split: option.splits)
  have hold: "holders (H - {a}) h' x = holders H h x" if "ph_packets h' x = Some r" for x r
  proof -
    have xa: "x \<noteq> a" "x \<noteq> m" using that by (auto simp: h'(1) split: if_splits)
    have "holders (H - {a}) h' x = holders H h x - {a}"
      by (rule release_holders [OF ok m]) (use a xa mH in \<open>auto simp: h'(1)\<close>)
    moreover have "a \<notin> holders H h x" using am xa by (auto simp: holders_def split: if_splits)
    ultimately show ?thesis by simp
  qed
  have "packet_ok (H - {a}) h' x r" if r': "ph_packets h' x = Some r" for x r
  proof -
    note l = live [OF r']
    then have r: "ph_packets h x = Some r" by blast
    have xa: "x \<noteq> a" using r' by (auto simp: h'(1) split: if_splits)
    have xf: "x < ph_fresh h" using heap_okD(4) [OF ok r] .
    show ?thesis
    proof (cases "pk_master r")
      case None
      have "buffer_ok h' r" using packet_buffer [OF ok r] buf [OF r'] by (auto simp: buffer_ok_def split: option.splits)
      then show ?thesis using packet_master [OF ok r None] hold [OF r'] None xf h'(2) by (simp add: packet_ok_def)
    next
      case (Some n)
      from packet_clone [OF ok r Some] obtain q where q: "x \<in> H" "ph_packets h n = Some q" "pk_master q = None"
        "pk_buffer q = pk_buffer r" "pk_len q = pk_len r" by blast
      have "n \<noteq> m" using l Some q(1) by (auto simp: holders_def)
      moreover have "n \<noteq> a" using am [of q] q calculation by (auto split: if_splits)
      ultimately have "ph_packets h' n = Some q" using q(2) by (simp add: h'(1))
      then show ?thesis using q xa Some xf h'(2) by (simp add: packet_ok_def)
    qed
  qed
  moreover have "buffer_owned h' b" if b: "ph_buffers h' b \<noteq> None" for b
  proof -
    have pb: "pk_buffer p \<noteq> Some b" and hb: "ph_buffers h b \<noteq> None" using b by (auto simp: h'(3) split: option.splits if_splits)
    from heap_okD(5) [OF ok hb] obtain y q where y: "b < ph_fresh h" "ph_packets h y = Some q" "pk_master q = None" "pk_buffer q = Some b"
      unfolding buffer_owned_def by blast
    have "y \<noteq> m" using y pb m by auto
    moreover have "y \<noteq> a" using am [of q] y calculation by (auto split: if_splits)
    ultimately show ?thesis using y by (auto simp: buffer_owned_def h'(1,2) intro!: exI [of _ y])
  qed
  moreover have "own_buffers h'"
    using heap_okD(6) [OF ok] unfolding own_buffers_def h'(1) by (auto split: if_splits)
  moreover have H': "x \<in> H - {a} \<Longrightarrow> \<exists>r. ph_packets h' x = Some r \<and> ph_packets h x = Some r" for x
    using heap_okD(2) [OF ok, of x] mH by (auto simp: h'(1))
  moreover have "keeps h h' x" if "x \<in> H - {a}" for x
    using H' [OF that] buf by (auto simp: keeps_def)
  ultimately show ?thesis using heap_okD(1) [OF ok] by (fastforce simp: heap_ok_def)
qed

lemma release_more:
  assumes ok: "heap_ok H h" and m: "ph_packets h m = Some p" "pk_master p = None" and a: "a \<in> holders H h m" "holders H h m \<noteq> {a}"
    and h': "ph_packets h' = (if a = m then ph_packets h else (ph_packets h)(a := None))(m := Some (p\<lparr>pk_refcount := pk_refcount p - 1\<rparr>))"
      "ph_fresh h' = ph_fresh h" "ph_buffers h' = ph_buffers h"
  shows "heap_ok (H - {a}) h' \<and> (\<forall>x \<in> H - {a}. keeps h h' x)"
proof -
  have aH: "a \<in> H" using holder_cases(1) [OF ok a(1) m] .
  have am: "pk_master q = (if a = m then None else Some m)" if "ph_packets h a = Some q" for q
    using holder_cases(2) [OF ok a(1) m that] .
  have hold: "holders (H - {a}) h' x = holders H h x - {a}" for x
  proof -
    have "(\<exists>r. ph_packets h' y = Some r \<and> pk_master r = Some x) = (\<exists>r. ph_packets h y = Some r \<and> pk_master r = Some x)"
      if "y \<in> H - {a}" for y using that m by (auto simp: h'(1))
    then show ?thesis unfolding holders_def by blast
  qed
  have fin: "finite (holders H h m)" using heap_okD(1) [OF ok] by (simp add: holders_def)
  have "packet_ok (H - {a}) h' x r" if r': "ph_packets h' x = Some r" for x r
  proof (cases "x = m")
    case True
    have r: "r = p\<lparr>pk_refcount := pk_refcount p - 1\<rparr>" using r' True by (simp add: h'(1))
    have "0 < card (holders H h m)" using fin a(1) by (auto simp: card_gt_0_iff)
    then have "pk_refcount p - 1 = int (card (holders H h m - {a}))"
      using packet_master(2) [OF ok m] a(1) fin by (simp add: card_Diff_singleton of_nat_diff)
    moreover have "holders H h m - {a} \<noteq> {}" using a by auto
    moreover have "buffer_ok h' r" using packet_buffer [OF ok m(1)] r h'(3) by (auto simp: buffer_ok_def split: option.splits)
    ultimately show ?thesis using True heap_okD(4) [OF ok m(1)] m r h'(2) hold [of m] by (simp add: packet_ok_def)
  next
    case False
    then have xa: "x \<noteq> a" and r: "ph_packets h x = Some r" using r' by (auto simp: h'(1) split: if_splits)
    have xf: "x < ph_fresh h" using heap_okD(4) [OF ok r] .
    show ?thesis
    proof (cases "pk_master r")
      case None
      have "a \<notin> holders H h x" using am xa False by (auto simp: holders_def split: if_splits)
      then have "holders (H - {a}) h' x = holders H h x" using hold [of x] by auto
      moreover have "buffer_ok h' r" using packet_buffer [OF ok r] buffer_ok_cong [OF h'(3)] by simp
      ultimately show ?thesis using packet_master [OF ok r None] None xf h'(2) by (simp add: packet_ok_def)
    next
      case (Some n)
      from packet_clone [OF ok r Some] obtain q where q: "x \<in> H" "ph_packets h n = Some q" "pk_master q = None"
        "pk_buffer q = pk_buffer r" "pk_len q = pk_len r" by blast
      have "n \<noteq> a \<or> a = m" using am [of q] q by (auto split: if_splits)
      then have "\<exists>q. ph_packets h' n = Some q \<and> pk_master q = None \<and> pk_buffer q = pk_buffer r \<and> pk_len q = pk_len r"
        using q m by (cases "n = m") (auto simp: h'(1))
      then show ?thesis using q(1) xa Some xf h'(2) by (simp add: packet_ok_def)
    qed
  qed
  moreover have "buffer_owned h' b" if b: "ph_buffers h' b \<noteq> None" for b
  proof -
    have "ph_buffers h b \<noteq> None" using b by (simp add: h'(3))
    from heap_okD(5) [OF ok this] obtain y q where y: "b < ph_fresh h" "ph_packets h y = Some q" "pk_master q = None" "pk_buffer q = Some b"
      unfolding buffer_owned_def by blast
    have "y \<noteq> a \<or> a = m" using am [of q] y by (auto split: if_splits)
    then show ?thesis using y m by (cases "y = m") (auto simp: buffer_owned_def h'(1,2) intro!: exI [of _ y])
  qed
  moreover have "own_buffers h'"
  proof -
    have "own_buffers h" using ok by (simp add: heap_ok_def)
    then show ?thesis using m unfolding own_buffers_def h'(1) by (auto split: if_splits)
  qed
  moreover have "keeps h h' x" if "x \<in> H - {a}" for x
    using heap_okD(2) [OF ok, of x] that m by (auto simp: keeps_def h'(1,3))
  moreover have "H - {a} \<subseteq> dom (ph_packets h')" using heap_okD(2) [OF ok] by (auto simp: h'(1))
  ultimately show ?thesis using heap_okD(1) [OF ok] by (auto simp: heap_ok_def)
qed


text \<open>What \<open>free_demux_packet\<close> does to a master packet.\<close>

lemma free_master:
  assumes ok: "heap_ok H h" and m: "ph_packets h m = Some p" "pk_master p = None" and a: "a \<in> holders H h m"
  shows "free_demux_packet m h = Some (if holders H h m = {a}
    then h\<lparr>ph_buffers := (case pk_buffer p of None \<Rightarrow> ph_buffers h | Some b \<Rightarrow> (ph_buffers h)(b := None)),
      ph_packets := (ph_packets h)(m := None)\<rparr>
    else set_packet m (p\<lparr>pk_refcount := pk_refcount p - 1\<rparr>) h)"
proof -
  have fin: "finite (holders H h m)" using heap_okD(1) [OF ok] by (simp add: holders_def)
  have one: "pk_refcount p - 1 = 0 \<longleftrightarrow> holders H h m = {a}"
  proof
    assume "pk_refcount p - 1 = 0"
    then have "card (holders H h m) = 1" using packet_master(2) [OF ok m] by simp
    then show "holders H h m = {a}" using a by (auto simp: card_1_singleton_iff)
  qed (use packet_master(2) [OF ok m] in simp)
  show ?thesis
  proof (cases "holders H h m = {a}")
    case True
    have "free_buffer (pk_buffer p) (set_packet m q h) = Some ((set_packet m q h)\<lparr>ph_buffers :=
        (case pk_buffer p of None \<Rightarrow> ph_buffers h | Some b \<Rightarrow> (ph_buffers h)(b := None))\<rparr>)" for q
      using packet_buffer [OF ok m(1)] by (auto simp: free_buffer_def buffer_ok_def set_packet_def split: option.splits)
    then show ?thesis using True one m
      by (subst free_demux_packet.simps) (simp add: free_struct_def set_packet_def)
  next
    case False
    then show ?thesis using one m by (subst free_demux_packet.simps) simp
  qed
qed

lemma free_packet_ok:
  assumes ok: "heap_ok H h" and "a \<in> H"
  shows "\<exists>h'. free_demux_packet a h = Some h' \<and> heap_ok (H - {a}) h' \<and> (\<forall>x \<in> H - {a}. keeps h h' x) \<and>
    ph_limit h' = ph_limit h \<and> ph_junk h' = ph_junk h"
proof -
  from heap_okD(2) [OF ok assms(2)] obtain pa where pa: "ph_packets h a = Some pa" by blast
  show ?thesis
  proof (cases "pk_master pa")
    case None
    have a: "a \<in> holders H h a" using assms(2) by (simp add: holders_def)
    show ?thesis
    proof (cases "holders H h a = {a}")
      case True
      let ?h = "h\<lparr>ph_buffers := (case pk_buffer pa of None \<Rightarrow> ph_buffers h | Some b \<Rightarrow> (ph_buffers h)(b := None)),
        ph_packets := (ph_packets h)(a := None)\<rparr>"
      have "free_demux_packet a h = Some ?h" using free_master [OF ok pa None a] True by simp
      moreover have "heap_ok (H - {a}) ?h \<and> (\<forall>x \<in> H - {a}. keeps h ?h x)"
        by (rule release_last [OF ok pa None True]) simp_all
      ultimately show ?thesis by (intro exI [of _ ?h]) simp
    next
      case False
      let ?h = "set_packet a (pa\<lparr>pk_refcount := pk_refcount pa - 1\<rparr>) h"
      have "free_demux_packet a h = Some ?h" using free_master [OF ok pa None a] False by simp
      moreover have "heap_ok (H - {a}) ?h \<and> (\<forall>x \<in> H - {a}. keeps h ?h x)"
        by (rule release_more [OF ok pa None a False]) (simp_all add: set_packet_def)
      ultimately show ?thesis by (intro exI [of _ ?h]) (simp add: set_packet_def)
    qed
  next
    case (Some m)
    from packet_clone(2) [OF ok pa Some] obtain p where m: "ph_packets h m = Some p" "pk_master p = None" by blast
    then have am: "a \<noteq> m" using pa Some by auto
    have a: "a \<in> holders H h m" using assms(2) pa Some by (simp add: holders_def)
    have run: "free_demux_packet a h = Option.bind (free_demux_packet m h) (free_struct a)"
      using pa Some by (subst free_demux_packet.simps) simp
    show ?thesis
    proof (cases "holders H h m = {a}")
      case True
      let ?h = "h\<lparr>ph_buffers := (case pk_buffer p of None \<Rightarrow> ph_buffers h | Some b \<Rightarrow> (ph_buffers h)(b := None)),
        ph_packets := (ph_packets h)(m := None, a := None)\<rparr>"
      have "free_demux_packet a h = Some ?h" unfolding run free_master [OF ok m a] using True am pa by (simp add: free_struct_def)
      moreover have "heap_ok (H - {a}) ?h \<and> (\<forall>x \<in> H - {a}. keeps h ?h x)"
        by (rule release_last [OF ok m True]) simp_all
      ultimately show ?thesis by (intro exI [of _ ?h]) simp
    next
      case False
      let ?h = "h\<lparr>ph_packets := (ph_packets h)(m := Some (p\<lparr>pk_refcount := pk_refcount p - 1\<rparr>), a := None)\<rparr>"
      have "free_demux_packet a h = Some ?h"
        unfolding run free_master [OF ok m a] using False am pa by (simp add: free_struct_def set_packet_def)
      moreover have "heap_ok (H - {a}) ?h \<and> (\<forall>x \<in> H - {a}. keeps h ?h x)"
        by (rule release_more [OF ok m a False]) (use am in \<open>simp_all add: fun_upd_twist\<close>)
      ultimately show ?thesis by (intro exI [of _ ?h]) simp
    qed
  qed
qed

text \<open>Changing what the reference counts do not depend on.\<close>

lemma set_packet_ok:
  assumes ok: "heap_ok H h" and p: "ph_packets h a = Some p"
    and q: "pk_len q = pk_len p" "pk_buffer q = pk_buffer p" "pk_refcount q = pk_refcount p" "pk_master q = pk_master p"
  shows "heap_ok H (set_packet a q h)"
proof -
  let ?h = "set_packet a q h"
  have h': "ph_packets ?h = (ph_packets h)(a := Some q)" "ph_buffers ?h = ph_buffers h" "ph_fresh ?h = ph_fresh h"
    by (simp_all add: set_packet_def)
  have sim: "\<exists>r. ph_packets h x = Some r \<and> pk_len r = pk_len r' \<and> pk_buffer r = pk_buffer r' \<and> pk_refcount r = pk_refcount r' \<and>
      pk_master r = pk_master r'" if "ph_packets ?h x = Some r'" for x r'
    using that p q by (auto simp: h'(1) split: if_splits)
  have sim': "\<exists>r'. ph_packets ?h x = Some r' \<and> pk_len r = pk_len r' \<and> pk_buffer r = pk_buffer r' \<and> pk_refcount r = pk_refcount r' \<and>
      pk_master r = pk_master r'" if "ph_packets h x = Some r" for x r
    using that p q by (auto simp: h'(1))
  have hold: "holders H ?h x = holders H h x" for x
  proof -
    have "(\<exists>r. ph_packets ?h y = Some r \<and> pk_master r = Some x) = (\<exists>r. ph_packets h y = Some r \<and> pk_master r = Some x)" for y
      using p q by (auto simp: h'(1))
    then show ?thesis unfolding holders_def by blast
  qed
  have "packet_ok H ?h x r'" if r': "ph_packets ?h x = Some r'" for x r'
  proof -
    from sim [OF r'] obtain r where r: "ph_packets h x = Some r" "pk_len r = pk_len r'" "pk_buffer r = pk_buffer r'"
      "pk_refcount r = pk_refcount r'" "pk_master r = pk_master r'" by blast
    have b: "buffer_ok ?h r'" using packet_buffer [OF ok r(1)] r(2,3) by (auto simp: buffer_ok_def h'(2) split: option.splits)
    have xf: "x < ph_fresh h" using heap_okD(4) [OF ok r(1)] .
    show ?thesis
    proof (cases "pk_master r")
      case None
      then show ?thesis using packet_master [OF ok r(1) None] b r xf by (simp add: packet_ok_def hold h'(3))
    next
      case (Some n)
      from packet_clone [OF ok r(1) Some] obtain s where s: "x \<in> H" "ph_packets h n = Some s" "pk_master s = None"
        "pk_buffer s = pk_buffer r" "pk_len s = pk_len r" by blast
      from sim' [OF s(2)] s obtain s' where "ph_packets ?h n = Some s'" "pk_master s' = None"
        "pk_buffer s' = pk_buffer r'" "pk_len s' = pk_len r'" using r by auto
      then show ?thesis using Some r s(1) xf by (simp add: packet_ok_def h'(3))
    qed
  qed
  moreover have "buffer_owned ?h b" if "ph_buffers ?h b \<noteq> None" for b
  proof -
    from heap_okD(5) [OF ok, of b] that obtain y s where "b < ph_fresh h" "ph_packets h y = Some s" "pk_master s = None" "pk_buffer s = Some b"
      by (auto simp: h'(2) buffer_owned_def)
    moreover from sim' [OF this(2)] this obtain s' where "ph_packets ?h y = Some s'" "pk_master s' = None" "pk_buffer s' = Some b" by auto
    ultimately show ?thesis unfolding buffer_owned_def h'(3) by blast
  qed
  moreover have "own_buffers ?h"
    unfolding own_buffers_def
  proof (intro allI impI)
    fix x r y s b
    assume "ph_packets ?h x = Some r" "ph_packets ?h y = Some s" "pk_master r = None" "pk_master s = None" "pk_buffer r = Some b" "pk_buffer s = Some b"
    moreover from sim [OF this(1)] sim [OF this(2)] obtain r' s' where "ph_packets h x = Some r'" "ph_packets h y = Some s'"
      "pk_master r' = pk_master r" "pk_master s' = pk_master s" "pk_buffer r' = pk_buffer r" "pk_buffer s' = pk_buffer s" by blast
    ultimately show "x = y" using heap_okD(6) [OF ok, of x r' y s' b] by simp
  qed
  moreover have "H \<subseteq> dom (ph_packets ?h)" using heap_okD(2) [OF ok] by (auto simp: h'(1))
  ultimately show ?thesis using heap_okD(1) [OF ok] by (auto simp: heap_ok_def)
qed

section \<open>Any sequence of calls\<close>

text \<open>The heaps and the sets of held packets that any calls of the packet functions on held packets lead to.\<close>

inductive packet_run :: "nat set \<Rightarrow> pheap \<Rightarrow> bool" where
  start: "ph_packets h = Map.empty \<Longrightarrow> ph_buffers h = Map.empty \<Longrightarrow> packet_run {} h"
| new: "packet_run H h \<Longrightarrow> new_demux_packet len h = (Some a, h') \<Longrightarrow> packet_run (insert a H) h'"
| clone: "packet_run H h \<Longrightarrow> a \<in> H \<Longrightarrow> clone_demux_packet a h = Some (c, h') \<Longrightarrow> packet_run (insert c H) h'"
| release: "packet_run H h \<Longrightarrow> a \<in> H \<Longrightarrow> free_demux_packet a h = Some h' \<Longrightarrow> packet_run (H - {a}) h'"

lemma packet_run_ok: "packet_run H h \<Longrightarrow> heap_ok H h"
proof (induction rule: packet_run.induct)
  case (start h)
  then show ?case by (simp add: heap_ok_def own_buffers_def)
next
  case (new H h len a h')
  from new.hyps(2) have len: "0 \<le> len" "len \<le> ph_limit h \<or> len = 0"
    by (auto simp: new_demux_packet_def Let_def split: if_splits)
  then show ?case using new_packet_ok [OF new.IH len] new.hyps(2) by auto
next
  case (clone H h a c h')
  then show ?case using clone_packet_ok [OF clone.IH clone.hyps(2)] by auto
next
  case (release H h a h')
  then show ?case using free_packet_ok [OF release.IH release.hyps(2)] by auto
qed



definition empty_heap :: pheap where
  "empty_heap = \<lparr>ph_packets = Map.empty, ph_buffers = Map.empty, ph_fresh = 0, ph_limit = 2 ^ 31, ph_junk = 0xAA\<rparr>"


end
