(* ===== verification/Demux.thy ===== *)
theory Demux
  imports Stream Packet
begin

text \<open>
  libmpdemux/demuxer.c and demuxer.h: the queues of packets of a demuxer's audio, video and subtitle streams and the reading
  of a demuxed stream. \<open>fill\<close> is the \<open>fill_buffer\<close> function of the demuxer's description, \<open>force_ni\<close> the option of that name.
  \<open>None\<close> is undefined behaviour (or no return). The counters of bytes are taken not to overflow.
\<close>

section \<open>Demuxed streams\<close>

definition MAX_PACKS :: int where "MAX_PACKS = 4096"
definition MAX_PACK_BYTES :: int where "MAX_PACK_BYTES = 0x2000000"

text \<open>\<open>ds_needs_parsing\<close> is the \<open>needs_parsing\<close> flag of the stream header, or \<open>None\<close> for a null \<open>sh\<close>.\<close>

record demux_stream =
  ds_buffer_pos :: int
  ds_buffer_size :: int
  ds_buffer :: "nat option"
  ds_pts :: rat
  ds_pts_bytes :: int
  ds_eof :: bool
  ds_pos :: int
  ds_dpos :: int
  ds_pack_no :: int
  ds_flags :: int
  ds_fill_count :: int
  ds_packs :: int
  ds_bytes :: int
  ds_first :: "nat option"
  ds_last :: "nat option"
  ds_current :: "nat option"
  ds_id :: int
  ds_asf_packet :: "nat option"
  ds_asf_seq :: int
  ds_needs_parsing :: "bool option"

record ('s, 'p) demuxer =
  dm_audio :: demux_stream
  dm_video :: demux_stream
  dm_sub :: demux_stream
  dm_heap :: pheap
  dm_stream :: "'s stream"
  dm_stream_pts :: rat
  dm_movi_start :: int
  dm_movi_end :: int
  dm_filepos :: int
  dm_priv :: 'p

datatype ds_name = D_audio | D_video | D_sub

fun ds_of :: "ds_name \<Rightarrow> ('s, 'p) demuxer \<Rightarrow> demux_stream" where
  "ds_of D_audio dm = dm_audio dm"
| "ds_of D_video dm = dm_video dm"
| "ds_of D_sub dm = dm_sub dm"

fun set_ds :: "ds_name \<Rightarrow> demux_stream \<Rightarrow> ('s, 'p) demuxer \<Rightarrow> ('s, 'p) demuxer" where
  "set_ds D_audio ds dm = dm\<lparr>dm_audio := ds\<rparr>"
| "set_ds D_video ds dm = dm\<lparr>dm_video := ds\<rparr>"
| "set_ds D_sub ds dm = dm\<lparr>dm_sub := ds\<rparr>"

type_synonym ('s, 'p) fill = "ds_name \<Rightarrow> ('s, 'p) demuxer \<Rightarrow> (bool \<times> ('s, 'p) demuxer) option"

definition new_demuxer_stream :: "int \<Rightarrow> demux_stream" where
  "new_demuxer_stream n = \<lparr>ds_buffer_pos = 0, ds_buffer_size = 0, ds_buffer = None, ds_pts = 0, ds_pts_bytes = 0, ds_eof = False,
     ds_pos = 0, ds_dpos = 0, ds_pack_no = 0, ds_flags = 0, ds_fill_count = 0, ds_packs = 0, ds_bytes = 0, ds_first = None,
     ds_last = None, ds_current = None, ds_id = n, ds_asf_packet = None, ds_asf_seq = -1, ds_needs_parsing = None\<rparr>"

text \<open>\<open>new_demuxer\<close> without the driver's description; \<open>seek\<close> is \<open>stream_seek\<close> on the stream.\<close>

definition alloc_demuxer :: "pheap \<Rightarrow> 's stream \<Rightarrow> 'p \<Rightarrow> demux_stream \<Rightarrow> ('s, 'p) demuxer" where
  "alloc_demuxer h s p ds = \<lparr>dm_audio = ds, dm_video = ds, dm_sub = ds, dm_heap = h, dm_stream = s, dm_stream_pts = MP_NOPTS_VALUE,
     dm_movi_start = st_start_pos s, dm_movi_end = st_end_pos s, dm_filepos = -1, dm_priv = p\<rparr>"

definition new_demuxer :: "('s stream \<Rightarrow> int \<Rightarrow> (int \<times> 's stream) option) \<Rightarrow> pheap \<Rightarrow> 's stream \<Rightarrow> 'p \<Rightarrow> int \<Rightarrow> int \<Rightarrow> int \<Rightarrow>
    ('s, 'p) demuxer option" where
  "new_demuxer seek h s p a_id v_id s_id =
     (let d = (alloc_demuxer h s p (new_demuxer_stream 0))\<lparr>dm_audio := new_demuxer_stream a_id,
            dm_video := new_demuxer_stream v_id, dm_sub := new_demuxer_stream s_id\<rparr>
      in Option.bind (seek (s\<lparr>st_eof := False\<rparr>) (st_start_pos s)) (\<lambda>r. Some (d\<lparr>dm_stream := snd r\<rparr>)))"

definition ds_tell :: "demux_stream \<Rightarrow> int" where
  "ds_tell ds = (ds_dpos ds - ds_buffer_size ds) + ds_buffer_pos ds"

definition ds_tell_pts :: "demux_stream \<Rightarrow> int" where
  "ds_tell_pts ds = (ds_pts_bytes ds - ds_buffer_size ds) + ds_buffer_pos ds"

section \<open>Adding packets\<close>

definition ds_add_packet_internal :: "ds_name \<Rightarrow> nat \<Rightarrow> ('s, 'p) demuxer \<Rightarrow> ('s, 'p) demuxer option" where
  "ds_add_packet_internal w a dm = do {
     p \<leftarrow> ph_packets (dm_heap dm) a;
     let ds = (ds_of w dm)\<lparr>ds_packs := ds_packs (ds_of w dm) + 1, ds_bytes := ds_bytes (ds_of w dm) + pk_len p\<rparr>;
     case ds_last ds of
       Some l \<Rightarrow> do {
         q \<leftarrow> ph_packets (dm_heap dm) l;
         Some (set_ds w (ds\<lparr>ds_last := Some a\<rparr>) (dm\<lparr>dm_heap := set_packet l (q\<lparr>pk_next := Some a\<rparr>) (dm_heap dm)\<rparr>)) }
     | None \<Rightarrow> Some (set_ds w (ds\<lparr>ds_first := Some a, ds_last := Some a\<rparr>) dm) }"

text \<open>\<open>PARSE_ON_ADD\<close> is 0.\<close>

definition ds_add_packet :: "ds_name \<Rightarrow> nat \<Rightarrow> ('s, 'p) demuxer \<Rightarrow> ('s, 'p) demuxer option" where
  "ds_add_packet w a dm = ds_add_packet_internal w a dm"

text \<open>Storing \<open>data\<close> at the start of a packet's buffer.\<close>

definition write_packet :: "nat \<Rightarrow> bytes \<Rightarrow> pheap \<Rightarrow> pheap option" where
  "write_packet a data h = do {
     p \<leftarrow> ph_packets h a;
     case pk_buffer p of
       None \<Rightarrow> if data = [] then Some h else None
     | Some b \<Rightarrow> do {
         bs \<leftarrow> ph_buffers h b;
         if length data \<le> length bs then Some (h\<lparr>ph_buffers := (ph_buffers h)(b := Some (data @ drop (length data) bs))\<rparr>)
         else None } }"

definition ds_read_packet :: "'s filler \<Rightarrow> ds_name \<Rightarrow> int \<Rightarrow> rat \<Rightarrow> int \<Rightarrow> int \<Rightarrow> ('s, 'p) demuxer \<Rightarrow> ('s, 'p) demuxer option" where
  "ds_read_packet sfill w len pts pos flags dm =
     (case new_demux_packet len (dm_heap dm) of
        (None, h) \<Rightarrow> Some (dm\<lparr>dm_heap := h\<rparr>)
      | (Some a, h) \<Rightarrow> do {
          (len, data, s) \<leftarrow> stream_read sfill (dm_stream dm) len;
          h \<leftarrow> write_packet a data h;
          h \<leftarrow> resize_demux_packet a len h;
          p \<leftarrow> ph_packets h a;
          ds_add_packet w a (dm\<lparr>dm_stream := s, dm_heap := set_packet a (p\<lparr>pk_pts := pts, pk_pos := pos, pk_flags := flags\<rparr>) h\<rparr>) })"

section \<open>Filling the buffer of a stream\<close>

text \<open>The branch of the loop of \<open>ds_fill_buffer\<close> for a stream with packets.\<close>

definition ds_take_packet :: "ds_name \<Rightarrow> ('s, 'p) demuxer \<Rightarrow> ('s, 'p) demuxer option" where
  "ds_take_packet w dm = do {
     a \<leftarrow> ds_first (ds_of w dm);
     p \<leftarrow> ph_packets (dm_heap dm) a;
     let ds = (ds_of w dm)\<lparr>ds_eof := False, ds_fill_count := 0, ds_buffer := pk_buffer p, ds_buffer_pos := 0,
       ds_buffer_size := pk_len p, ds_pos := pk_pos p, ds_dpos := ds_dpos (ds_of w dm) + pk_len p,
       ds_pack_no := ds_pack_no (ds_of w dm) + 1\<rparr>;
     let ds = (if pk_pts p \<noteq> MP_NOPTS_VALUE then ds\<lparr>ds_pts := pk_pts p, ds_pts_bytes := 0\<rparr> else ds);
     let ds = ds\<lparr>ds_pts_bytes := ds_pts_bytes ds + pk_len p, ds_flags := pk_flags p, ds_bytes := ds_bytes ds - pk_len p,
       ds_current := Some a, ds_first := pk_next p, ds_last := (if pk_next p = None then None else ds_last ds),
       ds_packs := ds_packs ds - 1\<rparr>;
     Some (set_ds w ds (if pk_stream_pts p \<noteq> MP_NOPTS_VALUE then dm\<lparr>dm_stream_pts := pk_stream_pts p\<rparr> else dm)) }"

definition ds_at_end :: "ds_name \<Rightarrow> ('s, 'p) demuxer \<Rightarrow> ('s, 'p) demuxer" where
  "ds_at_end w dm = set_ds w ((ds_of w dm)\<lparr>ds_buffer_pos := 0, ds_buffer_size := 0, ds_buffer := None, ds_eof := True\<rparr>) dm"

definition too_many :: "demux_stream \<Rightarrow> bool" where
  "too_many ds \<longleftrightarrow> ds_packs ds \<ge> MAX_PACKS \<or> ds_bytes ds \<ge> MAX_PACK_BYTES"

text \<open>Counting a call of \<open>fill\<close> that took \<open>dm\<close> to \<open>dm'\<close>.\<close>

definition ds_count_fill :: "ds_name \<Rightarrow> ('s, 'p) demuxer \<Rightarrow> ('s, 'p) demuxer \<Rightarrow> ('s, 'p) demuxer" where
  "ds_count_fill w dm dm' =
     (let n = ds_fill_count (ds_of w dm') + (ds_packs (dm_audio dm') - ds_packs (dm_audio dm));
          n = (if ds_packs (dm_video dm') > ds_packs (dm_video dm) \<and> ds_bytes (dm_video dm') > ds_bytes (dm_video dm) + 100 \<and>
            ds_needs_parsing (dm_video dm') = Some False then n + 1 else n)
      in set_ds w ((ds_of w dm')\<lparr>ds_fill_count := n\<rparr>) dm')"

partial_function (option) ds_fill_loop ::
  "bool \<Rightarrow> ('s, 'p) fill \<Rightarrow> ds_name \<Rightarrow> ('s, 'p) demuxer \<Rightarrow> (bool \<times> ('s, 'p) demuxer) option" where
  "ds_fill_loop force_ni fill w dm =
     (if ds_packs (ds_of w dm) \<noteq> 0 then map_option (Pair True) (ds_take_packet w dm)
      else if \<not> force_ni \<and> ds_fill_count (ds_of w dm) > 80 then Some (False, ds_at_end w dm)
      else if ds_eof (ds_of w dm) then Some (False, ds_at_end w dm)
      else if \<not> force_ni \<and> too_many (dm_audio dm) then Some (False, ds_at_end w dm)
      else if \<not> force_ni \<and> too_many (dm_video dm) then Some (False, ds_at_end w dm)
      else Option.bind (fill w dm) (\<lambda>r.
        if \<not> fst r then Some (False, ds_at_end w (snd r))
        else ds_fill_loop force_ni fill w (ds_count_fill w dm (snd r))))"

definition ds_free_current :: "ds_name \<Rightarrow> ('s, 'p) demuxer \<Rightarrow> ('s, 'p) demuxer option" where
  "ds_free_current w dm =
     (case ds_current (ds_of w dm) of None \<Rightarrow> Some dm
      | Some a \<Rightarrow> Option.bind (free_demux_packet a (dm_heap dm)) (\<lambda>h.
          Some (set_ds w ((ds_of w dm)\<lparr>ds_current := None\<rparr>) (dm\<lparr>dm_heap := h\<rparr>))))"

definition ds_fill_buffer :: "bool \<Rightarrow> ('s, 'p) fill \<Rightarrow> ds_name \<Rightarrow> ('s, 'p) demuxer \<Rightarrow> (bool \<times> ('s, 'p) demuxer) option" where
  "ds_fill_buffer force_ni fill w dm = Option.bind (ds_free_current w dm) (ds_fill_loop force_ni fill w)"

section \<open>Reading a demuxed stream\<close>

text \<open>\<open>x\<close> bytes of the buffer from \<open>buffer_pos\<close> on.\<close>

definition ds_bytes_at :: "ds_name \<Rightarrow> int \<Rightarrow> ('s, 'p) demuxer \<Rightarrow> bytes option" where
  "ds_bytes_at w x dm = do {
     b \<leftarrow> ds_buffer (ds_of w dm);
     bs \<leftarrow> ph_buffers (dm_heap dm) b;
     let p = ds_buffer_pos (ds_of w dm);
     if 0 \<le> p \<and> 0 \<le> x \<and> p + x \<le> int (length bs) then Some (take (nat x) (drop (nat p) bs)) else None }"

definition ds_advance :: "ds_name \<Rightarrow> int \<Rightarrow> ('s, 'p) demuxer \<Rightarrow> ('s, 'p) demuxer" where
  "ds_advance w x dm = set_ds w ((ds_of w dm)\<lparr>ds_buffer_pos := ds_buffer_pos (ds_of w dm) + x\<rparr>) dm"

text \<open>The result is (bytes stored in \<open>mem\<close>, demuxer); the return value is their number.\<close>

partial_function (option) demux_read_loop ::
  "bool \<Rightarrow> ('s, 'p) fill \<Rightarrow> ds_name \<Rightarrow> int \<Rightarrow> bytes \<Rightarrow> ('s, 'p) demuxer \<Rightarrow> (bytes \<times> ('s, 'p) demuxer) option" where
  "demux_read_loop force_ni fill w len mem dm =
     (if len > 0 then
        (let x = ds_buffer_size (ds_of w dm) - ds_buffer_pos (ds_of w dm)
         in if x = 0 then
              Option.bind (ds_fill_buffer force_ni fill w dm) (\<lambda>r.
                if \<not> fst r then Some (mem, snd r) else demux_read_loop force_ni fill w len mem (snd r))
            else Option.bind (ds_bytes_at w (min x len) dm) (\<lambda>data.
                demux_read_loop force_ni fill w (len - min x len) (mem @ data) (ds_advance w (min x len) dm)))
      else Some (mem, dm))"

definition demux_read_data :: "bool \<Rightarrow> ('s, 'p) fill \<Rightarrow> ds_name \<Rightarrow> int \<Rightarrow> ('s, 'p) demuxer \<Rightarrow> (bytes \<times> ('s, 'p) demuxer) option" where
  "demux_read_data force_ni fill w len dm = demux_read_loop force_ni fill w len [] dm"

definition demux_peekc :: "bool \<Rightarrow> ('s, 'p) fill \<Rightarrow> ds_name \<Rightarrow> ('s, 'p) demuxer \<Rightarrow> (int \<times> ('s, 'p) demuxer) option" where
  "demux_peekc force_ni fill w dm =
     (if ds_buffer_pos (ds_of w dm) < ds_buffer_size (ds_of w dm) then do { c \<leftarrow> ds_bytes_at w 1 dm; Some (uint (hd c), dm) }
      else do {
        (r, dm) \<leftarrow> ds_fill_buffer force_ni fill w dm;
        if \<not> r then Some (-1, dm) else do { c \<leftarrow> ds_bytes_at w 1 dm; Some (uint (hd c), dm) } })"

definition demux_getc :: "bool \<Rightarrow> ('s, 'p) fill \<Rightarrow> ds_name \<Rightarrow> ('s, 'p) demuxer \<Rightarrow> (int \<times> ('s, 'p) demuxer) option" where
  "demux_getc force_ni fill w dm =
     (if ds_buffer_pos (ds_of w dm) < ds_buffer_size (ds_of w dm) then
        do { c \<leftarrow> ds_bytes_at w 1 dm; Some (uint (hd c), ds_advance w 1 dm) }
      else do {
        (r, dm) \<leftarrow> ds_fill_buffer force_ni fill w dm;
        if \<not> r then Some (-1, dm) else do { c \<leftarrow> ds_bytes_at w 1 dm; Some (uint (hd c), ds_advance w 1 dm) } })"

text \<open>A pointer into a packet's buffer is the buffer and an offset.\<close>

definition ds_get_packet :: "bool \<Rightarrow> ('s, 'p) fill \<Rightarrow> ds_name \<Rightarrow> ('s, 'p) demuxer \<Rightarrow>
    (int \<times> (nat option \<times> int) option \<times> ('s, 'p) demuxer) option" where
  "ds_get_packet force_ni fill w dm = do {
     (r, dm) \<leftarrow> (if ds_buffer_pos (ds_of w dm) \<ge> ds_buffer_size (ds_of w dm) then ds_fill_buffer force_ni fill w dm
       else Some (True, dm));
     if \<not> r then Some (-1, None, dm)
     else (let ds = ds_of w dm; len = ds_buffer_size ds - ds_buffer_pos ds
       in Some (len, Some (ds_buffer ds, ds_buffer_pos ds), ds_advance w len dm)) }"

text \<open>The result is (length, start, pts, endpts, demuxer).\<close>

definition ds_get_packet_pts_endpts :: "bool \<Rightarrow> ('s, 'p) fill \<Rightarrow> ds_name \<Rightarrow> ('s, 'p) demuxer \<Rightarrow>
    (int \<times> (nat option \<times> int) option \<times> rat \<times> rat \<times> ('s, 'p) demuxer) option" where
  "ds_get_packet_pts_endpts force_ni fill w dm = do {
     (len, start, dm) \<leftarrow> ds_get_packet force_ni fill w dm;
     if len < 0 then Some (len, start, MP_NOPTS_VALUE, MP_NOPTS_VALUE, dm)
     else do {
       pts \<leftarrow> (if len = ds_buffer_pos (ds_of w dm) then do {
           c \<leftarrow> ds_current (ds_of w dm); p \<leftarrow> ph_packets (dm_heap dm) c; Some (pk_pts p) } else Some MP_NOPTS_VALUE);
       endpts \<leftarrow> (if len = ds_buffer_size (ds_of w dm) then do {
           c \<leftarrow> ds_current (ds_of w dm); p \<leftarrow> ph_packets (dm_heap dm) c; Some (pk_endpts p) } else Some MP_NOPTS_VALUE);
       Some (len, start, pts, endpts, dm) } }"

definition ds_get_packet_pts :: "bool \<Rightarrow> ('s, 'p) fill \<Rightarrow> ds_name \<Rightarrow> ('s, 'p) demuxer \<Rightarrow>
    (int \<times> (nat option \<times> int) option \<times> rat \<times> ('s, 'p) demuxer) option" where
  "ds_get_packet_pts force_ni fill w dm =
     map_option (\<lambda>(len, start, pts, endpts, dm). (len, start, pts, dm)) (ds_get_packet_pts_endpts force_ni fill w dm)"


text \<open>\<open>pts\<close> and \<open>endpts\<close> are not null: \<open>max_pts\<close> is the value \<open>*pts\<close> has before the call.\<close>

definition ds_get_packet_sub :: "bool \<Rightarrow> ('s, 'p) fill \<Rightarrow> ds_name \<Rightarrow> rat \<Rightarrow> ('s, 'p) demuxer \<Rightarrow>
    (int \<times> (nat option \<times> int) option \<times> rat \<times> rat \<times> ('s, 'p) demuxer) option" where
  "ds_get_packet_sub force_ni fill w max_pts dm = do {
     (r, dm) \<leftarrow> (if ds_buffer_pos (ds_of w dm) \<ge> ds_buffer_size (ds_of w dm) then
         (if ds_packs (ds_of w dm) = 0 then Some (False, dm) else ds_fill_buffer force_ni fill w dm)
       else Some (True, dm));
     if \<not> r then Some (-1, None, MP_NOPTS_VALUE, MP_NOPTS_VALUE, dm)
     else do {
       (pts, endpts) \<leftarrow> (if ds_buffer_pos (ds_of w dm) = 0 then do {
           c \<leftarrow> ds_current (ds_of w dm); p \<leftarrow> ph_packets (dm_heap dm) c; Some (pk_pts p, pk_endpts p) }
         else Some (MP_NOPTS_VALUE, MP_NOPTS_VALUE));
       if ds_buffer_pos (ds_of w dm) = 0 \<and> pts \<noteq> MP_NOPTS_VALUE \<and> max_pts \<noteq> MP_NOPTS_VALUE \<and> pts > max_pts
       then Some (-1, None, pts, endpts, dm)
       else (let ds = ds_of w dm; len = ds_buffer_size ds - ds_buffer_pos ds
         in Some (len, Some (ds_buffer ds, ds_buffer_pos ds), pts, endpts, ds_advance w len dm)) } }"

partial_function (option) ds_get_next_pts :: "bool \<Rightarrow> ('s, 'p) fill \<Rightarrow> ds_name \<Rightarrow> ('s, 'p) demuxer \<Rightarrow> (rat \<times> ('s, 'p) demuxer) option" where
  "ds_get_next_pts force_ni fill w dm =
     (let ds = ds_of w dm
      in if ds_first ds = None \<and> (ds_current ds = None \<or> ds_buffer_pos ds \<noteq> 0) then
           (if \<not> force_ni \<and> too_many (dm_audio dm) then Some (MP_NOPTS_VALUE, dm)
            else if \<not> force_ni \<and> too_many (dm_video dm) then Some (MP_NOPTS_VALUE, dm)
            else Option.bind (fill w dm) (\<lambda>r.
              if \<not> fst r then Some (MP_NOPTS_VALUE, snd r) else ds_get_next_pts force_ni fill w (snd r)))
         else Option.bind (case ds_current ds of Some c \<Rightarrow> if ds_buffer_pos ds = 0 then Some c else ds_first ds | None \<Rightarrow> ds_first ds)
           (\<lambda>a. Option.bind (ph_packets (dm_heap dm) a) (\<lambda>p. Some (pk_pts p, dm))))"

section \<open>Dropping the packets\<close>

text \<open>The loop of \<open>ds_free_packs\<close>.\<close>

partial_function (option) free_chain :: "nat option \<Rightarrow> pheap \<Rightarrow> pheap option" where
  "free_chain dp h =
     (case dp of None \<Rightarrow> Some h
      | Some a \<Rightarrow> Option.bind (ph_packets h a) (\<lambda>p. Option.bind (free_demux_packet a h) (\<lambda>h. free_chain (pk_next p) h)))"

definition free_asf_packet :: "nat option \<Rightarrow> pheap \<Rightarrow> pheap option" where
  "free_asf_packet dp h = (case dp of None \<Rightarrow> Some h
     | Some a \<Rightarrow> do { p \<leftarrow> ph_packets h a; h \<leftarrow> free_buffer (pk_buffer p) h; free_struct a h })"

definition ds_free_packs :: "ds_name \<Rightarrow> ('s, 'p) demuxer \<Rightarrow> ('s, 'p) demuxer option" where
  "ds_free_packs w dm = do {
     h \<leftarrow> free_chain (ds_first (ds_of w dm)) (dm_heap dm);
     h \<leftarrow> free_asf_packet (ds_asf_packet (ds_of w dm)) h;
     h \<leftarrow> (case ds_current (ds_of w dm) of None \<Rightarrow> Some h | Some c \<Rightarrow> free_demux_packet c h);
     let ds = ds_of w dm;
     Some (set_ds w (ds\<lparr>ds_asf_packet := None, ds_first := None, ds_last := None, ds_packs := 0, ds_bytes := 0, ds_current := None,
       ds_buffer := None, ds_buffer_pos := ds_buffer_size ds, ds_pts := 0, ds_pts_bytes := 0\<rparr>) (dm\<lparr>dm_heap := h\<rparr>)) }"

section \<open>Searching a pattern\<close>

text \<open>The inner loop of \<open>demux_pattern_3\<close> over the bytes left in the buffer: the new \<open>head\<close> and the number of bytes used.\<close>

fun pattern_scan :: "32 word \<Rightarrow> bytes \<Rightarrow> 32 word \<Rightarrow> 32 word \<times> nat" where
  "pattern_scan pat [] head = (head, 0)"
| "pattern_scan pat (b # bs) head =
     (let head = push_bit 8 (or head (ucast b))
      in if bs \<noteq> [] \<and> head \<noteq> pat then (let r = pattern_scan pat bs head in (fst r, snd r + 1)) else (head, 1))"

partial_function (option) demux_pattern_loop ::
  "bool \<Rightarrow> ('s, 'p) fill \<Rightarrow> ds_name \<Rightarrow> int \<Rightarrow> 32 word \<Rightarrow> 32 word \<Rightarrow> bytes \<Rightarrow> ('s, 'p) demuxer \<Rightarrow> (32 word \<times> bytes \<times> ('s, 'p) demuxer) option" where
  "demux_pattern_loop force_ni fill w maxlen pat head mem dm =
     (let ds = ds_of w dm; len = ds_buffer_size ds - ds_buffer_pos ds
      in Option.bind (if len \<le> 0 then map_option (\<lambda>r. (head, mem, snd r)) (ds_fill_buffer force_ni fill w dm)
           else Option.bind (ds_bytes_at w len dm) (\<lambda>bs.
             let r = pattern_scan pat bs head; n = min (int (snd r)) (maxlen - int (length mem))
             in Option.bind (demux_read_data force_ni fill w n dm) (\<lambda>d. Some (fst r, mem @ fst d, snd d))))
         (\<lambda>r. if (fst r \<noteq> pat \<or> int (length (fst (snd r))) < 3) \<and> int (length (fst (snd r))) < maxlen \<and>
                \<not> ds_eof (ds_of w (snd (snd r)))
              then demux_pattern_loop force_ni fill w maxlen pat (fst r) (fst (snd r)) (snd (snd r)) else Some r))"

text \<open>The result is (found, bytes read, demuxer).\<close>

definition demux_pattern_3 :: "bool \<Rightarrow> ('s, 'p) fill \<Rightarrow> ds_name \<Rightarrow> int \<Rightarrow> 32 word \<Rightarrow> ('s, 'p) demuxer \<Rightarrow> (bool \<times> bytes \<times> ('s, 'p) demuxer) option" where
  "demux_pattern_3 force_ni fill w maxlen pattern dm =
     (let pat = and pattern 0xffffff00
      in map_option (\<lambda>r. (int (length (fst (snd r))) \<ge> 3 \<and> fst r = pat, fst (snd r), snd (snd r)))
           (demux_pattern_loop force_ni fill w maxlen pat 0xffffff00 [] dm))"

section \<open>Queues of packets as lists\<close>

text \<open>Following the \<open>next\<close> pointers from \<open>first\<close> gives the packets \<open>q\<close>.\<close>

fun chain :: "(nat \<Rightarrow> packet option) \<Rightarrow> nat option \<Rightarrow> nat list \<Rightarrow> bool" where
  "chain P f [] \<longleftrightarrow> f = None"
| "chain P f (a # q) \<longleftrightarrow> f = Some a \<and> (\<exists>p. P a = Some p \<and> chain P (pk_next p) q)"

definition packet_len :: "pheap \<Rightarrow> nat \<Rightarrow> int" where
  "packet_len h a = (case ph_packets h a of None \<Rightarrow> 0 | Some p \<Rightarrow> pk_len p)"

text \<open>The bytes of a packet.\<close>

definition packet_bytes :: "pheap \<Rightarrow> nat \<Rightarrow> bytes" where
  "packet_bytes h a = (case ph_packets h a of None \<Rightarrow> [] | Some p \<Rightarrow>
     (case pk_buffer p of None \<Rightarrow> [] | Some b \<Rightarrow> (case ph_buffers h b of None \<Rightarrow> [] | Some bs \<Rightarrow> take (nat (pk_len p)) bs)))"

definition ds_inv :: "pheap \<Rightarrow> demux_stream \<Rightarrow> nat list \<Rightarrow> bool" where
  "ds_inv h ds q \<longleftrightarrow> chain (ph_packets h) (ds_first ds) q \<and> ds_last ds = (if q = [] then None else Some (last q)) \<and>
     ds_packs ds = int (length q) \<and> ds_bytes ds = sum_list (map (packet_len h) q) \<and>
     0 \<le> ds_buffer_pos ds \<and> ds_buffer_pos ds \<le> ds_buffer_size ds \<and> ds_asf_packet ds = None \<and>
     (case ds_current ds of None \<Rightarrow> ds_buffer_pos ds = ds_buffer_size ds
      | Some c \<Rightarrow> \<exists>p. ph_packets h c = Some p \<and> ds_buffer ds = pk_buffer p \<and> ds_buffer_size ds = pk_len p)"

definition current_list :: "demux_stream \<Rightarrow> nat list" where
  "current_list ds = (case ds_current ds of None \<Rightarrow> [] | Some c \<Rightarrow> [c])"

text \<open>The packets a stream holds: its queue and the packet it is reading.\<close>

definition ds_holds :: "demux_stream \<Rightarrow> nat list \<Rightarrow> nat list" where
  "ds_holds ds q = q @ current_list ds"

text \<open>
  The state of a demuxer between calls: the heap is consistent, each stream's pointers and counters describe its queue
  \<open>Q w\<close>, and every held packet belongs to one place of one stream only. \<open>H\<close> may have further packets, held by the
  demuxer itself.
\<close>

definition dm_inv :: "nat set \<Rightarrow> (ds_name \<Rightarrow> nat list) \<Rightarrow> ('s, 'p) demuxer \<Rightarrow> bool" where
  "dm_inv H Q dm \<longleftrightarrow> heap_ok H (dm_heap dm) \<and>
     (\<forall>w. ds_inv (dm_heap dm) (ds_of w dm) (Q w) \<and> set (ds_holds (ds_of w dm) (Q w)) \<subseteq> H \<and> distinct (ds_holds (ds_of w dm) (Q w))) \<and>
     (\<forall>w w'. w \<noteq> w' \<longrightarrow> set (ds_holds (ds_of w dm) (Q w)) \<inter> set (ds_holds (ds_of w' dm) (Q w')) = {})"

text \<open>The bytes a stream still has to deliver.\<close>

definition ds_left :: "pheap \<Rightarrow> demux_stream \<Rightarrow> nat list \<Rightarrow> bytes" where
  "ds_left h ds q = drop (nat (ds_buffer_pos ds)) (concat (map (packet_bytes h) (current_list ds))) @ concat (map (packet_bytes h) q)"

lemma ds_of_set_ds [simp]: "ds_of w (set_ds w' ds dm) = (if w = w' then ds else ds_of w dm)"
  by (cases w; cases w') simp_all

lemma set_ds_simps [simp]:
  "dm_heap (set_ds w ds dm) = dm_heap dm" "dm_stream (set_ds w ds dm) = dm_stream dm" "dm_priv (set_ds w ds dm) = dm_priv dm"
  "dm_movi_start (set_ds w ds dm) = dm_movi_start dm" "dm_movi_end (set_ds w ds dm) = dm_movi_end dm"
  by (cases w; simp)+

lemma ds_of_update [simp]:
  "ds_of w (dm\<lparr>dm_heap := h\<rparr>) = ds_of w dm" "ds_of w (dm\<lparr>dm_stream := s\<rparr>) = ds_of w dm"
  "ds_of w (dm\<lparr>dm_stream_pts := t\<rparr>) = ds_of w dm"
  by (cases w; simp)+

lemma dm_invD:
  assumes "dm_inv H Q dm"
  shows "heap_ok H (dm_heap dm)" "ds_inv (dm_heap dm) (ds_of w dm) (Q w)" "set (ds_holds (ds_of w dm) (Q w)) \<subseteq> H"
    "distinct (ds_holds (ds_of w dm) (Q w))"
    "w \<noteq> w' \<Longrightarrow> set (ds_holds (ds_of w dm) (Q w)) \<inter> set (ds_holds (ds_of w' dm) (Q w')) = {}"
  using assms unfolding dm_inv_def by blast+

lemma keeps_refl: "ph_packets h a = Some p \<Longrightarrow> keeps h h a"
  by (cases p) (simp add: keeps_def)

lemma keeps_facts:
  assumes "keeps h h' a"
  shows "\<exists>p p'. ph_packets h a = Some p \<and> ph_packets h' a = Some p' \<and> pk_next p' = pk_next p \<and> pk_len p' = pk_len p \<and> pk_buffer p' = pk_buffer p"
    "packet_len h' a = packet_len h a" "packet_bytes h' a = packet_bytes h a"
proof -
  from assms obtain p p' where p: "ph_packets h a = Some p" "ph_packets h' a = Some p'" "p'\<lparr>pk_refcount := pk_refcount p\<rparr> = p"
    "\<And>b. pk_buffer p = Some b \<Longrightarrow> ph_buffers h' b = ph_buffers h b" unfolding keeps_def by blast
  have f: "pk_next p' = pk_next p" "pk_len p' = pk_len p" "pk_buffer p' = pk_buffer p"
    using p(3) by (cases p; cases p'; simp)+
  show "\<exists>p p'. ph_packets h a = Some p \<and> ph_packets h' a = Some p' \<and> pk_next p' = pk_next p \<and> pk_len p' = pk_len p \<and> pk_buffer p' = pk_buffer p"
    using p f by blast
  show "packet_len h' a = packet_len h a" using p f by (simp add: packet_len_def)
  show "packet_bytes h' a = packet_bytes h a" using p f by (auto simp: packet_bytes_def split: option.splits)
qed

lemma chain_cong:
  "(\<And>a. a \<in> set q \<Longrightarrow> map_option pk_next (P' a) = map_option pk_next (P a)) \<Longrightarrow> chain P' f q = chain P f q"
proof (induction q arbitrary: f)
  case (Cons a q)
  have "map_option pk_next (P' a) = map_option pk_next (P a)" by (rule Cons.prems) simp
  moreover have "chain P' f' q = chain P f' q" for f' by (rule Cons.IH) (rule Cons.prems, simp)
  ultimately show ?case by (cases "P a"; cases "P' a") auto
qed simp

lemma ds_inv_keeps:
  assumes "ds_inv h ds q" "\<And>a. a \<in> set (ds_holds ds q) \<Longrightarrow> keeps h h' a"
  shows "ds_inv h' ds q" "ds_left h' ds q = ds_left h ds q"
proof -
  have in_q: "keeps h h' a" if "a \<in> set q" for a using assms(2) that by (simp add: ds_holds_def)
  have in_c: "keeps h h' a" if "a \<in> set (current_list ds)" for a using assms(2) that by (simp add: ds_holds_def)
  have "chain (ph_packets h') (ds_first ds) q = chain (ph_packets h) (ds_first ds) q"
    by (rule chain_cong) (use keeps_facts(1) [OF in_q] in fastforce)
  moreover have "sum_list (map (packet_len h') q) = sum_list (map (packet_len h) q)"
    using keeps_facts(2) [OF in_q] by (simp cong: map_cong)
  moreover have "\<exists>p'. ph_packets h' c = Some p' \<and> ds_buffer ds = pk_buffer p' \<and> ds_buffer_size ds = pk_len p'"
    if "ds_current ds = Some c" "ph_packets h c = Some p" "ds_buffer ds = pk_buffer p" "ds_buffer_size ds = pk_len p" for c p
    using keeps_facts(1) [OF in_c, of c] that by (auto simp: current_list_def)
  ultimately show "ds_inv h' ds q" using assms(1) unfolding ds_inv_def by (auto split: option.splits)
  have m: "map (packet_bytes h') q = map (packet_bytes h) q" "map (packet_bytes h') (current_list ds) = map (packet_bytes h) (current_list ds)"
    using keeps_facts(3) [OF in_q] keeps_facts(3) [OF in_c] by simp_all
  show "ds_left h' ds q = ds_left h ds q" by (simp only: ds_left_def m)
qed

text \<open>Changing the heap in a way that keeps what the streams hold.\<close>

lemma dm_inv_heap:
  assumes inv: "dm_inv H Q dm" and ok: "heap_ok H' h'" and sub: "\<And>w. set (ds_holds (ds_of w dm) (Q w)) \<subseteq> H'"
    and k: "\<And>w a. a \<in> set (ds_holds (ds_of w dm) (Q w)) \<Longrightarrow> keeps (dm_heap dm) h' a"
  shows "dm_inv H' Q (dm\<lparr>dm_heap := h'\<rparr>)" "ds_left h' (ds_of w dm) (Q w) = ds_left (dm_heap dm) (ds_of w dm) (Q w)"
  using ds_inv_keeps [OF dm_invD(2) [OF inv] k] dm_invD [OF inv] ok sub unfolding dm_inv_def by simp_all

text \<open>Replacing one stream by one that holds no other packets.\<close>

lemma dm_inv_set:
  assumes inv: "dm_inv H Q dm" and ds: "ds_inv (dm_heap dm) ds q" "set (ds_holds ds q) \<subseteq> set (ds_holds (ds_of w dm) (Q w))"
    "distinct (ds_holds ds q)"
  shows "dm_inv H (Q(w := q)) (set_ds w ds dm)"
proof -
  let ?hold = "\<lambda>w'. set (ds_holds (ds_of w' (set_ds w ds dm)) ((Q(w := q)) w'))"
  have sub: "?hold w' \<subseteq> set (ds_holds (ds_of w' dm) (Q w'))" for w' using ds(2) by simp
  have "?hold w1 \<inter> ?hold w2 = {}" if "w1 \<noteq> w2" for w1 w2
    using sub [of w1] sub [of w2] dm_invD(5) [OF inv that] by blast
  moreover have "?hold w' \<subseteq> H" for w' using sub [of w'] dm_invD(3) [OF inv, of w'] by blast
  moreover have "ds_inv (dm_heap dm) (ds_of w' (set_ds w ds dm)) ((Q(w := q)) w') \<and> distinct (ds_holds (ds_of w' (set_ds w ds dm)) ((Q(w := q)) w'))"
    for w' using ds dm_invD(2,4) [OF inv, of w'] by simp
  ultimately show ?thesis using dm_invD(1) [OF inv] unfolding dm_inv_def set_ds_simps by blast
qed

lemma chain_append:
  "chain P f q \<Longrightarrow> q \<noteq> [] \<Longrightarrow> distinct q \<Longrightarrow> a \<notin> set q \<Longrightarrow> P (last q) = Some l \<Longrightarrow> P a = Some p \<Longrightarrow> pk_next p = None \<Longrightarrow>
    chain (P(last q := Some (l\<lparr>pk_next := Some a\<rparr>))) f (q @ [a])"
proof (induction q arbitrary: f)
  case (Cons x q)
  show ?case
  proof (cases "q = []")
    case True
    then show ?thesis using Cons.prems by auto
  next
    case False
    then have "last q \<in> set q" by simp
    then have "x \<noteq> last q" using Cons.prems by auto
    then show ?thesis using Cons.prems False Cons.IH by (auto simp del: fun_upd_apply simp add: fun_upd_other)
  qed
qed simp

lemma chain_mem: "chain P f q \<Longrightarrow> a \<in> set q \<Longrightarrow> \<exists>p. P a = Some p"
  by (induction q arbitrary: f) auto


lemma chain_last: "chain P f q \<Longrightarrow> q \<noteq> [] \<Longrightarrow> P (last q) = Some l \<Longrightarrow> pk_next l = None"
proof (induction q arbitrary: f)
  case (Cons a q)
  then show ?case by (cases q) auto
qed simp

text \<open>Adding a packet appends it to the queue of its stream and changes nothing else.\<close>

lemma add_packet:
  assumes inv: "dm_inv H Q dm" and a: "a \<in> H" "\<And>w. a \<notin> set (ds_holds (ds_of w dm) (Q w))"
    and p: "ph_packets (dm_heap dm) a = Some p" "pk_next p = None"
  shows "\<exists>dm'. ds_add_packet w a dm = Some dm' \<and> dm_inv H (Q(w := Q w @ [a])) dm' \<and>
    (\<forall>w'. ds_left (dm_heap dm') (ds_of w' dm') ((Q(w := Q w @ [a])) w')
      = ds_left (dm_heap dm) (ds_of w' dm) (Q w') @ (if w' = w then packet_bytes (dm_heap dm) a else [])) \<and>
    (\<forall>w'. w' \<noteq> w \<longrightarrow> ds_of w' dm' = ds_of w' dm) \<and>
    (\<exists>n b f l. ds_of w dm' = (ds_of w dm)\<lparr>ds_packs := n, ds_bytes := b, ds_first := f, ds_last := l\<rparr>) \<and>
    dm_stream dm' = dm_stream dm \<and> dm_priv dm' = dm_priv dm \<and> ph_limit (dm_heap dm') = ph_limit (dm_heap dm) \<and>
    dm_movi_start dm' = dm_movi_start dm"
proof -
  let ?ds = "ds_of w dm" and ?h = "dm_heap dm"
  note d = dm_invD [OF inv]
  have ch: "chain (ph_packets ?h) (ds_first ?ds) (Q w)" and last: "ds_last ?ds = (if Q w = [] then None else Some (last (Q w)))"
    using d(2) [of w] by (simp_all add: ds_inv_def)
  let ?d1 = "?ds\<lparr>ds_packs := ds_packs ?ds + 1, ds_bytes := ds_bytes ?ds + pk_len p\<rparr>"
  have aq: "a \<notin> set (Q w)" "distinct (Q w)" using a(2) [of w] d(4) [of w] by (auto simp: ds_holds_def)
  have lens: "packet_len ?h a = pk_len p" using p by (simp add: packet_len_def)
  obtain f h' where dm': "ds_add_packet w a dm = Some (set_ds w (?d1\<lparr>ds_first := f, ds_last := Some a\<rparr>) (dm\<lparr>dm_heap := h'\<rparr>))"
    "heap_ok H h'" "ph_limit h' = ph_limit ?h" "chain (ph_packets h') f (Q w @ [a])"
    "\<And>x. x \<in> H \<Longrightarrow> x \<notin> set (Q w) \<Longrightarrow> keeps ?h h' x"
    "\<And>x. packet_len h' x = packet_len ?h x" "\<And>x. packet_bytes h' x = packet_bytes ?h x"
  proof (cases "Q w = []")
    case True
    have "dm\<lparr>dm_heap := ?h\<rparr> = dm" by simp
    then have "ds_add_packet w a dm = Some (set_ds w (?d1\<lparr>ds_first := Some a, ds_last := Some a\<rparr>) (dm\<lparr>dm_heap := ?h\<rparr>))"
      using p True last by (simp add: ds_add_packet_def ds_add_packet_internal_def Let_def)
    moreover have "keeps ?h ?h x" if "x \<in> H" for x using heap_okD(2) [OF d(1) that] keeps_refl by blast
    moreover have "chain (ph_packets ?h) (Some a) (Q w @ [a])" using p True by simp
    ultimately show ?thesis using that [of "Some a" ?h] d(1) by blast
next
    case False
    have ql: "last (Q w) \<in> set (Q w)" using False by simp
    then obtain l where l: "ph_packets ?h (last (Q w)) = Some l" using chain_mem [OF ch] by blast
    let ?h' = "set_packet (last (Q w)) (l\<lparr>pk_next := Some a\<rparr>) ?h"
    have "?d1\<lparr>ds_first := ds_first ?ds, ds_last := Some a\<rparr> = ?d1\<lparr>ds_last := Some a\<rparr>" by simp
    then have run: "ds_add_packet w a dm = Some (set_ds w (?d1\<lparr>ds_first := ds_first ?ds, ds_last := Some a\<rparr>) (dm\<lparr>dm_heap := ?h'\<rparr>))"
      using p False last l by (simp add: ds_add_packet_def ds_add_packet_internal_def Let_def)
    have ok: "heap_ok H ?h'" by (rule set_packet_ok [OF d(1) l]) simp_all
    have ch': "chain (ph_packets ?h') (ds_first ?ds) (Q w @ [a])"
      using chain_append [OF ch False aq(2,1) l p] by (simp add: set_packet_def)
    have k: "keeps ?h ?h' x" if "x \<in> H" "x \<notin> set (Q w)" for x
    proof -
      have "x \<noteq> last (Q w)" using that(2) ql by blast
      then show ?thesis using heap_okD(2) [OF d(1) that(1)] by (auto simp: keeps_def set_packet_def)
    qed
    have "packet_len ?h' x = packet_len ?h x" "packet_bytes ?h' x = packet_bytes ?h x" for x
      using l by (auto simp: packet_len_def packet_bytes_def set_packet_def split: option.splits)
    moreover have "ph_limit ?h' = ph_limit ?h" by (simp add: set_packet_def)
    ultimately show ?thesis using that [of "ds_first ?ds" ?h'] run ok ch' k by blast
  qed
  define ds' where "ds' = ?d1\<lparr>ds_first := f, ds_last := Some a\<rparr>"
  define dm' where "dm' = set_ds w ds' (dm\<lparr>dm_heap := h'\<rparr>)"
  have cur: "current_list ds' = current_list ?ds" "ds_buffer_pos ds' = ds_buffer_pos ?ds" "ds_current ds' = ds_current ?ds"
    "ds_buffer ds' = ds_buffer ?ds" "ds_buffer_size ds' = ds_buffer_size ?ds" "ds_asf_packet ds' = ds_asf_packet ?ds"
    "ds_packs ds' = ds_packs ?ds + 1" "ds_bytes ds' = ds_bytes ?ds + pk_len p" "ds_first ds' = f" "ds_last ds' = Some a"
    by (simp_all add: ds'_def current_list_def)
  have dsw: "ds_of w dm' = ds'" "\<And>w'. w' \<noteq> w \<Longrightarrow> ds_of w' dm' = ds_of w' dm" and hp: "dm_heap dm' = h'" by (simp_all add: dm'_def)
  have keep_other: "keeps ?h h' x" if "w' \<noteq> w" "x \<in> set (ds_holds (ds_of w' dm) (Q w'))" for w' x
  proof (rule dm'(5))
    show "x \<in> H" using d(3) [of w'] that(2) by blast
    show "x \<notin> set (Q w)" using d(5) [of w w'] that by (auto simp: ds_holds_def)
  qed
  have keep_cur: "keeps ?h h' x" if "x \<in> set (current_list ?ds)" for x
  proof (rule dm'(5))
    show "x \<in> H" using d(3) [of w] that by (auto simp: ds_holds_def)
    show "x \<notin> set (Q w)" using d(4) [of w] that by (auto simp: ds_holds_def)
  qed
  have inv_w: "ds_inv h' ds' (Q w @ [a])"
  proof -
    have "packet_len h' = packet_len ?h" using dm'(6) by (intro ext)
    then have sum: "sum_list (map (packet_len h') (Q w @ [a])) = sum_list (map (packet_len ?h) (Q w)) + pk_len p"
      using lens by simp
    have "\<exists>p'. ph_packets h' c = Some p' \<and> ds_buffer ?ds = pk_buffer p' \<and> ds_buffer_size ?ds = pk_len p'"
      if "ds_current ?ds = Some c" "ph_packets ?h c = Some r" "ds_buffer ?ds = pk_buffer r" "ds_buffer_size ?ds = pk_len r" for c r
      using keeps_facts(1) [OF keep_cur, of c] that by (auto simp: current_list_def)
    moreover have "case ds_current ?ds of None \<Rightarrow> ds_buffer_pos ?ds = ds_buffer_size ?ds
        | Some c \<Rightarrow> \<exists>p. ph_packets ?h c = Some p \<and> ds_buffer ?ds = pk_buffer p \<and> ds_buffer_size ?ds = pk_len p"
      using d(2) [of w] by (simp add: ds_inv_def)
    ultimately have "case ds_current ?ds of None \<Rightarrow> ds_buffer_pos ?ds = ds_buffer_size ?ds
        | Some c \<Rightarrow> \<exists>p. ph_packets h' c = Some p \<and> ds_buffer ?ds = pk_buffer p \<and> ds_buffer_size ?ds = pk_len p"
      by (cases "ds_current ?ds") auto
    then show ?thesis using d(2) [of w] dm'(4) sum unfolding ds_inv_def cur by simp
  qed
  have left: "ds_left h' (ds_of w' dm') ((Q(w := Q w @ [a])) w') = ds_left ?h (ds_of w' dm) (Q w') @ (if w' = w then packet_bytes ?h a else [])" for w'
  proof (cases "w' = w")
    case True
    have "packet_bytes h' = packet_bytes ?h" using dm'(7) by (intro ext)
    then show ?thesis using True cur dsw by (simp add: ds_left_def)
  next
    case False
    then show ?thesis using ds_inv_keeps(2) [OF d(2) [of w'] keep_other] dsw by simp
  qed
  have holds_w: "ds_holds ds' (Q w @ [a]) = Q w @ [a] @ current_list ?ds" by (simp add: ds_holds_def cur)
  have ins: "ds_inv h' (ds_of w' dm') ((Q(w := Q w @ [a])) w') \<and> set (ds_holds (ds_of w' dm') ((Q(w := Q w @ [a])) w')) \<subseteq> H \<and>
      distinct (ds_holds (ds_of w' dm') ((Q(w := Q w @ [a])) w'))" for w'
  proof (cases "w' = w")
    case True
    then show ?thesis using inv_w holds_w dsw d(3) [of w] d(4) [of w] a by (auto simp: ds_holds_def)
  next
    case False
    then show ?thesis using ds_inv_keeps(1) [OF d(2) [of w'] keep_other] d(3) [of w'] d(4) [of w'] dsw by simp
  qed
  have set_holds: "set (ds_holds (ds_of w' dm') ((Q(w := Q w @ [a])) w'))
      = set (ds_holds (ds_of w' dm) (Q w')) \<union> (if w' = w then {a} else {})" for w'
    using holds_w dsw by (auto simp: ds_holds_def)
  have dis: "set (ds_holds (ds_of w1 dm') ((Q(w := Q w @ [a])) w1)) \<inter> set (ds_holds (ds_of w2 dm') ((Q(w := Q w @ [a])) w2)) = {}"
    if "w1 \<noteq> w2" for w1 w2
    unfolding set_holds using d(5) [OF that] a(2) that by auto
  have "dm_inv H (Q(w := Q w @ [a])) dm'" unfolding dm_inv_def hp using dm'(2) ins dis by blast
  moreover have "\<exists>n b f l. ds_of w dm' = ?ds\<lparr>ds_packs := n, ds_bytes := b, ds_first := f, ds_last := l\<rparr>"
    unfolding dsw(1) ds'_def by blast
  moreover have "ds_add_packet w a dm = Some dm'" using dm'(1) by (simp add: dm'_def ds'_def)
  moreover have "dm_stream dm' = dm_stream dm \<and> dm_priv dm' = dm_priv dm \<and> ph_limit (dm_heap dm') = ph_limit ?h \<and>
      dm_movi_start dm' = dm_movi_start dm" using dm'(3) by (simp add: dm'_def)
  ultimately show ?thesis using left dsw(2) by - (rule exI [of _ dm'], unfold hp, blast)
qed


text \<open>Taking the first packet of a queue makes it the current one.\<close>

lemma take_packet:
  assumes inv: "dm_inv H Q dm" and q: "Q w = a # q" and cur: "ds_current (ds_of w dm) = None"
  shows "\<exists>dm'. ds_take_packet w dm = Some dm' \<and> dm_inv H (Q(w := q)) dm' \<and>
    ds_left (dm_heap dm') (ds_of w dm') q = ds_left (dm_heap dm) (ds_of w dm) (a # q) \<and>
    (\<forall>w'. w' \<noteq> w \<longrightarrow> ds_of w' dm' = ds_of w' dm) \<and> dm_heap dm' = dm_heap dm \<and>
    dm_stream dm' = dm_stream dm \<and> dm_priv dm' = dm_priv dm \<and> dm_movi_start dm' = dm_movi_start dm \<and>
    ds_current (ds_of w dm') = Some a \<and> ds_buffer_pos (ds_of w dm') = 0 \<and> ds_fill_count (ds_of w dm') = 0 \<and> \<not> ds_eof (ds_of w dm')"
proof -
  let ?ds = "ds_of w dm" and ?h = "dm_heap dm"
  note d = dm_invD [OF inv]
  have dsi: "ds_first ?ds = Some a" "\<exists>p. ph_packets ?h a = Some p \<and> chain (ph_packets ?h) (pk_next p) q"
    "ds_last ?ds = Some (last (a # q))" "ds_packs ?ds = 1 + int (length q)"
    "ds_bytes ?ds = packet_len ?h a + sum_list (map (packet_len ?h) q)" "ds_asf_packet ?ds = None"
    using d(2) [of w] q by (auto simp: ds_inv_def)
  then obtain p where p: "ph_packets ?h a = Some p" "chain (ph_packets ?h) (pk_next p) q" by blast
  have nxt: "pk_next p = None \<longleftrightarrow> q = []" using p(2) by (cases q) auto
  have pb: "buffer_ok ?h p" using packet_buffer [OF d(1) p(1)] .
  then have pl: "0 \<le> pk_len p" by (auto simp: buffer_ok_def split: option.splits)
  obtain dm' where dm': "ds_take_packet w dm = Some dm'" by (simp add: ds_take_packet_def dsi(1) p(1) Let_def)
  then have f: "ds_current (ds_of w dm') = Some a" "ds_buffer_pos (ds_of w dm') = 0" "ds_fill_count (ds_of w dm') = 0"
    "\<not> ds_eof (ds_of w dm')" "ds_first (ds_of w dm') = pk_next p" "ds_last (ds_of w dm') = (if pk_next p = None then None else ds_last ?ds)"
    "ds_packs (ds_of w dm') = ds_packs ?ds - 1" "ds_bytes (ds_of w dm') = ds_bytes ?ds - pk_len p" "ds_buffer (ds_of w dm') = pk_buffer p"
    "ds_buffer_size (ds_of w dm') = pk_len p" "ds_asf_packet (ds_of w dm') = ds_asf_packet ?ds"
    and g: "\<And>w'. w' \<noteq> w \<Longrightarrow> ds_of w' dm' = ds_of w' dm" "dm_heap dm' = ?h" "dm_stream dm' = dm_stream dm" "dm_priv dm' = dm_priv dm"
      "dm_movi_start dm' = dm_movi_start dm"
    by (cases "pk_pts p = MP_NOPTS_VALUE"; cases "pk_stream_pts p = MP_NOPTS_VALUE"; auto simp: ds_take_packet_def dsi(1) p(1) Let_def)+
  have "ds_inv ?h (ds_of w dm') q"
    using p pl dsi(3-6) nxt unfolding ds_inv_def f by (simp add: packet_len_def)
  moreover have holds: "ds_holds (ds_of w dm') q = q @ [a]" "ds_holds ?ds (Q w) = a # q"
    using cur q by (simp_all add: ds_holds_def current_list_def f(1))
  then have set_holds: "set (ds_holds (ds_of w' dm') ((Q(w := q)) w')) = set (ds_holds (ds_of w' dm) (Q w'))" for w'
    using g(1) by auto
  have dis: "distinct (ds_holds (ds_of w' dm') ((Q(w := q)) w'))" for w'
    using d(4) [of w'] holds g(1) by (cases "w' = w") auto
  ultimately have "dm_inv H (Q(w := q)) dm'"
    using d(1,2,3,5) dis unfolding dm_inv_def set_holds g(2) by (simp add: g(1))
  moreover have "ds_left ?h (ds_of w dm') q = ds_left ?h ?ds (a # q)"
    using cur by (simp add: ds_left_def current_list_def f)
  ultimately show ?thesis using dm' f(1-4) g by - (rule exI [of _ dm'], simp)
qed

text \<open>Freeing the current packet, once it has been read.\<close>

lemma free_current:
  assumes inv: "dm_inv H Q dm" and e: "ds_buffer_pos (ds_of w dm) = ds_buffer_size (ds_of w dm)"
  shows "\<exists>H' dm'. ds_free_current w dm = Some dm' \<and> dm_inv H' Q dm' \<and> H' = H - set (current_list (ds_of w dm)) \<and>
    (\<forall>w'. ds_left (dm_heap dm') (ds_of w' dm') (Q w') = ds_left (dm_heap dm) (ds_of w' dm) (Q w')) \<and>
    ds_of w dm' = (ds_of w dm)\<lparr>ds_current := None\<rparr> \<and> (\<forall>w'. w' \<noteq> w \<longrightarrow> ds_of w' dm' = ds_of w' dm) \<and>
    dm_stream dm' = dm_stream dm \<and> dm_priv dm' = dm_priv dm \<and> dm_movi_start dm' = dm_movi_start dm \<and>
    ph_limit (dm_heap dm') = ph_limit (dm_heap dm)"
proof (cases "ds_current (ds_of w dm)")
  case None
  have "(ds_of w dm)\<lparr>ds_current := None\<rparr> = ds_of w dm" using None by simp
  then show ?thesis using inv None by (simp add: ds_free_current_def current_list_def)
next
  case (Some c)
  let ?ds = "ds_of w dm" and ?h = "dm_heap dm"
  note d = dm_invD [OF inv]
  have cl: "current_list ?ds = [c]" using Some by (simp add: current_list_def)
  have c: "c \<in> H" "c \<notin> set (Q w)" using d(3) [of w] d(4) [of w] cl by (auto simp: ds_holds_def)
  from free_packet_ok [OF d(1) c(1)] obtain h' where h': "free_demux_packet c ?h = Some h'" "heap_ok (H - {c}) h'"
    "\<And>x. x \<in> H - {c} \<Longrightarrow> keeps ?h h' x" "ph_limit h' = ph_limit ?h" by blast
  let ?ds' = "?ds\<lparr>ds_current := None\<rparr>"
  let ?dm = "set_ds w ?ds' dm"
  have left0: "ds_left ?h ?ds' (Q w) = ds_left ?h ?ds (Q w)"
  proof -
    have "length (packet_bytes ?h c) = nat (ds_buffer_size ?ds)"
    proof -
      from d(2) [of w] Some obtain p where p: "ph_packets ?h c = Some p" "ds_buffer_size ?ds = pk_len p" by (auto simp: ds_inv_def)
      show ?thesis using packet_buffer [OF d(1) p(1)] p by (auto simp: buffer_ok_def packet_bytes_def split: option.splits)
    qed
    then show ?thesis using e cl by (simp add: ds_left_def current_list_def)
  qed
  have "ds_inv ?h ?ds' (Q w)" using d(2) [of w] e by (auto simp: ds_inv_def)
  then have inv': "dm_inv H Q ?dm"
    using dm_inv_set [OF inv, of ?ds' "Q w" w] d(4) [of w] by (simp add: ds_holds_def current_list_def)
  have nc: "c \<notin> set (ds_holds (ds_of w' ?dm) (Q w'))" for w'
  proof (cases "w' = w")
    case True
    then show ?thesis using c(2) by (simp add: ds_holds_def current_list_def)
  next
    case False
    have "c \<in> set (ds_holds ?ds (Q w))" by (simp add: ds_holds_def cl)
    then show ?thesis using d(5) [of w w'] False by auto
  qed
  have sub: "set (ds_holds (ds_of w' ?dm) (Q w')) \<subseteq> H - {c}" for w' using dm_invD(3) [OF inv', of w'] nc by blast
  have k: "keeps (dm_heap ?dm) h' x" if "x \<in> set (ds_holds (ds_of w' ?dm) (Q w'))" for w' x
    using h'(3) sub [of w'] that by auto
  let ?dm' = "set_ds w ?ds' (dm\<lparr>dm_heap := h'\<rparr>)"
  have same: "?dm\<lparr>dm_heap := h'\<rparr> = ?dm'" by (cases w) simp_all
  have run: "ds_free_current w dm = Some ?dm'" using Some h'(1) by (simp add: ds_free_current_def)
  have "ds_left h' (ds_of w' ?dm') (Q w') = ds_left ?h (ds_of w' dm) (Q w')" for w'
  proof -
    have "ds_left h' (ds_of w' ?dm) (Q w') = ds_left (dm_heap ?dm) (ds_of w' ?dm) (Q w')"
      by (rule dm_inv_heap(2) [where H = H and H' = "H - {c}"]) (use inv' h'(2) sub k in blast)+
    then show ?thesis using left0 by (cases "w' = w") simp_all
  qed
  moreover have "dm_inv (H - {c}) Q ?dm'" 
  proof -
    have "dm_inv (H - {c}) Q (?dm\<lparr>dm_heap := h'\<rparr>)" 
      by (rule dm_inv_heap(1) [where H = H]) (use inv' h'(2) sub k in blast)+
    then show ?thesis unfolding same .
  qed
  ultimately show ?thesis using run h'(4) cl by - (rule exI [of _ "H - {c}"], rule exI [of _ ?dm'], simp)
qed

section \<open>A demuxer with one stream\<close>

text \<open>
  What \<open>fill\<close> of a demuxer promises whose stream \<open>w\<close> is the only one with packets: as long as it succeeds it appends one
  packet with the next bytes of what is left in the file, and it fails when nothing is left.
\<close>

locale single_source =
  fixes fill :: "('s, 'p) fill" and w :: ds_name and rest :: "'s stream \<Rightarrow> 'p \<Rightarrow> bytes"
    and own :: "int \<Rightarrow> 's stream \<Rightarrow> 'p \<Rightarrow> bool" and fuel :: "'s stream \<Rightarrow> 'p \<Rightarrow> nat"
  assumes fill_spec: "dm_inv H Q dm \<Longrightarrow> own (ph_limit (dm_heap dm)) (dm_stream dm) (dm_priv dm) \<Longrightarrow>
    (\<exists>dm' H' a bs. fill w dm = Some (True, dm') \<and> dm_inv H' (Q(w := Q w @ [a])) dm' \<and>
      own (ph_limit (dm_heap dm')) (dm_stream dm') (dm_priv dm') \<and> fuel (dm_stream dm') (dm_priv dm') < fuel (dm_stream dm) (dm_priv dm) \<and>
      ds_left (dm_heap dm') (ds_of w dm') (Q w @ [a]) = ds_left (dm_heap dm) (ds_of w dm) (Q w) @ bs \<and>
      rest (dm_stream dm) (dm_priv dm) = bs @ rest (dm_stream dm') (dm_priv dm') \<and>
      ds_current (ds_of w dm') = ds_current (ds_of w dm))
    \<or> fill w dm = Some (False, dm) \<and> rest (dm_stream dm) (dm_priv dm) = []"
begin

text \<open>The stream still delivers \<open>bs\<close>; \<open>n\<close> bounds the number of packets to come.\<close>

definition source :: "nat \<Rightarrow> bytes \<Rightarrow> ('s, 'p) demuxer \<Rightarrow> bool" where
  "source n bs dm \<longleftrightarrow> (\<exists>H Q. dm_inv H Q dm \<and> own (ph_limit (dm_heap dm)) (dm_stream dm) (dm_priv dm) \<and> (\<forall>w'. w' \<noteq> w \<longrightarrow> Q w' = []) \<and>
     ds_fill_count (ds_of w dm) = 0 \<and> (ds_eof (ds_of w dm) \<longrightarrow> rest (dm_stream dm) (dm_priv dm) = []) \<and>
     n = length (Q w) + fuel (dm_stream dm) (dm_priv dm) \<and>
     bs = ds_left (dm_heap dm) (ds_of w dm) (Q w) @ rest (dm_stream dm) (dm_priv dm))"

lemma loop_take:
  assumes inv: "dm_inv H Q dm" and own: "own (ph_limit (dm_heap dm)) (dm_stream dm) (dm_priv dm)" and o: "\<And>w'. w' \<noteq> w \<Longrightarrow> Q w' = []"
    and q: "Q w = a # q" and cur: "ds_current (ds_of w dm) = None"
  shows "\<exists>dm'. ds_fill_loop force_ni fill w dm = Some (True, dm') \<and>
    source (length q + fuel (dm_stream dm) (dm_priv dm)) (ds_left (dm_heap dm) (ds_of w dm) (Q w) @ rest (dm_stream dm) (dm_priv dm)) dm'"
proof -
  from take_packet [OF inv q cur] obtain dm' where dm': "ds_take_packet w dm = Some dm'" "dm_inv H (Q(w := q)) dm'"
    "ds_left (dm_heap dm') (ds_of w dm') q = ds_left (dm_heap dm) (ds_of w dm) (a # q)" "dm_heap dm' = dm_heap dm"
    "dm_stream dm' = dm_stream dm" "dm_priv dm' = dm_priv dm" "ds_fill_count (ds_of w dm') = 0" "\<not> ds_eof (ds_of w dm')" by blast
  have "ds_packs (ds_of w dm) \<noteq> 0" using dm_invD(2) [OF inv, of w] q by (simp add: ds_inv_def)
  then have "ds_fill_loop force_ni fill w dm = Some (True, dm')" using dm'(1) by (subst ds_fill_loop.simps) simp
  moreover have "source (length q + fuel (dm_stream dm) (dm_priv dm)) (ds_left (dm_heap dm) (ds_of w dm) (Q w) @ rest (dm_stream dm) (dm_priv dm)) dm'"
    unfolding source_def using dm' own o q by (intro exI [of _ H] exI [of _ "Q(w := q)"]) simp
  ultimately show ?thesis by blast
qed

lemma empty_few: "ds_inv h ds [] \<Longrightarrow> \<not> too_many ds"
  by (simp add: ds_inv_def too_many_def MAX_PACKS_def MAX_PACK_BYTES_def)

lemma fill_buffer:
  assumes src: "source n bs dm" and e: "ds_buffer_pos (ds_of w dm) = ds_buffer_size (ds_of w dm)"
  shows "\<exists>dm'. ds_fill_buffer force_ni fill w dm = Some (True, dm') \<and> (\<exists>n' < n. source n' bs dm')
    \<or> ds_fill_buffer force_ni fill w dm = Some (False, dm') \<and> bs = [] \<and> source n bs dm'"
proof -
  from src obtain H Q where inv: "dm_inv H Q dm" and own: "own (ph_limit (dm_heap dm)) (dm_stream dm) (dm_priv dm)"
    and o: "\<And>w'. w' \<noteq> w \<Longrightarrow> Q w' = []" and fc: "ds_fill_count (ds_of w dm) = 0"
    and eof: "ds_eof (ds_of w dm) \<Longrightarrow> rest (dm_stream dm) (dm_priv dm) = []"
    and n: "n = length (Q w) + fuel (dm_stream dm) (dm_priv dm)"
    and bs: "bs = ds_left (dm_heap dm) (ds_of w dm) (Q w) @ rest (dm_stream dm) (dm_priv dm)"
    unfolding source_def by blast
  from free_current [OF inv e] obtain H1 d where d: "ds_free_current w dm = Some d" "dm_inv H1 Q d"
    "ds_left (dm_heap d) (ds_of w d) (Q w) = ds_left (dm_heap dm) (ds_of w dm) (Q w)" "ds_of w d = (ds_of w dm)\<lparr>ds_current := None\<rparr>"
    "dm_stream d = dm_stream dm" "dm_priv d = dm_priv dm" "ph_limit (dm_heap d) = ph_limit (dm_heap dm)" by blast
  have cur: "ds_current (ds_of w d) = None" by (simp add: d(4))
  have own_d: "own (ph_limit (dm_heap d)) (dm_stream d) (dm_priv d)" using own d by simp
  have run: "ds_fill_buffer force_ni fill w dm = ds_fill_loop force_ni fill w d" by (simp add: ds_fill_buffer_def d(1))
  show ?thesis
  proof (cases "Q w")
    case (Cons a q)
    from loop_take [OF d(2) own_d o Cons cur, of force_ni] show ?thesis
      using run n bs d(3,5,6) Cons by auto
  next
    case Nil
    have packs: "ds_packs (ds_of w d) = 0" using dm_invD(2) [OF d(2), of w] Nil by (simp add: ds_inv_def)
    have few: "\<not> too_many (dm_audio d)" "\<not> too_many (dm_video d)"
      using empty_few dm_invD(2) [OF d(2), of D_audio] dm_invD(2) [OF d(2), of D_video] o [of D_audio] o [of D_video] Nil
      by (cases w; fastforce)+
    have left: "ds_left (dm_heap d) (ds_of w d) [] = []" by (simp add: ds_left_def current_list_def cur)
    have end_ok: "source n bs (ds_at_end w d)" if "rest (dm_stream dm) (dm_priv dm) = []"
    proof -
      let ?ds = "(ds_of w d)\<lparr>ds_buffer_pos := 0, ds_buffer_size := 0, ds_buffer := None, ds_eof := True\<rparr>"
      have "dm_inv H1 (Q(w := [])) (set_ds w ?ds d)"
        by (rule dm_inv_set [OF d(2)]) (use dm_invD(2) [OF d(2), of w] Nil cur in \<open>simp_all add: ds_inv_def ds_holds_def current_list_def\<close>)
      moreover have "Q(w := []) = Q" using Nil by auto
      ultimately have "dm_inv H1 Q (ds_at_end w d)" by (simp add: ds_at_end_def)
      moreover have "ds_left (dm_heap d) ?ds [] = []" by (simp add: ds_left_def current_list_def cur)
      ultimately show ?thesis unfolding source_def using own_d o fc n bs that Nil d left
        by (intro exI [of _ H1] exI [of _ Q]) (simp add: ds_at_end_def)
    qed
    have loop: "ds_fill_loop force_ni fill w d = (if ds_eof (ds_of w d) then Some (False, ds_at_end w d) else
        Option.bind (fill w d) (\<lambda>r. if \<not> fst r then Some (False, ds_at_end w (snd r))
          else ds_fill_loop force_ni fill w (ds_count_fill w d (snd r))))"
      using packs few fc by (subst ds_fill_loop.simps) (simp add: d(4))
    have bs0: "bs = rest (dm_stream dm) (dm_priv dm)" using bs d(3) left Nil by simp
    show ?thesis
    proof (cases "ds_eof (ds_of w d)")
      case True
      then have "rest (dm_stream dm) (dm_priv dm) = []" using eof by (simp add: d(4))
      then show ?thesis using run loop True end_ok bs0 by auto
    next
      case False
      from fill_spec [OF d(2) own_d] show ?thesis
      proof (elim disjE exE conjE)
        assume "fill w d = Some (False, d)" "rest (dm_stream d) (dm_priv d) = []"
        then show ?thesis using run loop False end_ok bs0 d by auto
      next
        fix d1 H2 a b
        assume f: "fill w d = Some (True, d1)" "dm_inv H2 (Q(w := Q w @ [a])) d1" "own (ph_limit (dm_heap d1)) (dm_stream d1) (dm_priv d1)"
          "fuel (dm_stream d1) (dm_priv d1) < fuel (dm_stream d) (dm_priv d)"
          "ds_left (dm_heap d1) (ds_of w d1) (Q w @ [a]) = ds_left (dm_heap d) (ds_of w d) (Q w) @ b"
          "rest (dm_stream d) (dm_priv d) = b @ rest (dm_stream d1) (dm_priv d1)" "ds_current (ds_of w d1) = ds_current (ds_of w d)"
        let ?d2 = "ds_count_fill w d d1"
        obtain k where d2: "?d2 = set_ds w ((ds_of w d1)\<lparr>ds_fill_count := k\<rparr>) d1" by (simp add: ds_count_fill_def Let_def)
        have inv2: "dm_inv H2 (Q(w := [a])) ?d2"
        proof -
          have "dm_inv H2 ((Q(w := Q w @ [a]))(w := [a])) ?d2"
            unfolding d2 by (rule dm_inv_set [OF f(2)])
              (use dm_invD(2,4) [OF f(2), of w] Nil f(7) cur in \<open>simp_all add: ds_inv_def ds_holds_def current_list_def\<close>)
          then show ?thesis by simp
        qed
        have left2: "ds_left (dm_heap ?d2) (ds_of w ?d2) [a] = b"
          using f(5) Nil left by (simp add: d2 ds_left_def current_list_def)
        have "\<exists>dm'. ds_fill_loop force_ni fill w ?d2 = Some (True, dm') \<and>
            source (length ([] :: nat list) + fuel (dm_stream ?d2) (dm_priv ?d2)) (ds_left (dm_heap ?d2) (ds_of w ?d2) ((Q(w := [a])) w) @ rest (dm_stream ?d2) (dm_priv ?d2)) dm'"
          by (rule loop_take [OF inv2]) (use f(3,7) cur o in \<open>simp_all add: d2\<close>)
        then obtain dm' where "ds_fill_loop force_ni fill w ?d2 = Some (True, dm')" "source (fuel (dm_stream d1) (dm_priv d1)) bs dm'"
          using left2 f(6) bs0 d by (auto simp: d2)
        then show ?thesis using run loop False f(1,4) n Nil d(5,6) by auto
      qed
    qed
  qed
qed

lemma read_step:
  assumes src: "source n bs dm" and "0 < x" "x \<le> ds_buffer_size (ds_of w dm) - ds_buffer_pos (ds_of w dm)"
  shows "ds_bytes_at w x dm = Some (take (nat x) bs)" "source n (drop (nat x) bs) (ds_advance w x dm)" "nat x \<le> length bs"
proof -
  from src obtain H Q where inv: "dm_inv H Q dm" and own: "own (ph_limit (dm_heap dm)) (dm_stream dm) (dm_priv dm)"
    and o: "\<And>w'. w' \<noteq> w \<Longrightarrow> Q w' = []" and fc: "ds_fill_count (ds_of w dm) = 0"
    and eof: "ds_eof (ds_of w dm) \<Longrightarrow> rest (dm_stream dm) (dm_priv dm) = []"
    and n: "n = length (Q w) + fuel (dm_stream dm) (dm_priv dm)"
    and bs: "bs = ds_left (dm_heap dm) (ds_of w dm) (Q w) @ rest (dm_stream dm) (dm_priv dm)"
    unfolding source_def by blast
  let ?ds = "ds_of w dm" and ?h = "dm_heap dm"
  have di: "ds_inv ?h ?ds (Q w)" using dm_invD(2) [OF inv] .
  then obtain c p where c: "ds_current ?ds = Some c" "ph_packets ?h c = Some p" "ds_buffer ?ds = pk_buffer p" "ds_buffer_size ?ds = pk_len p"
    "0 \<le> ds_buffer_pos ?ds"
    using assms(2,3) by (auto simp: ds_inv_def split: option.splits)
  have "pk_len p \<noteq> 0" using c assms(2,3) by auto
  then obtain b buf where b: "pk_buffer p = Some b" "ph_buffers ?h b = Some buf" "length buf = nat (pk_len p) + MP_INPUT_BUFFER_PADDING_SIZE"
    using packet_buffer [OF dm_invD(1) [OF inv] c(2)] by (auto simp: buffer_ok_def split: option.splits)
  have pb: "packet_bytes ?h c = take (nat (pk_len p)) buf" by (simp add: packet_bytes_def c b)
  let ?cur = "drop (nat (ds_buffer_pos ?ds)) (packet_bytes ?h c)"
  have xle: "nat (ds_buffer_pos ?ds) + nat x \<le> nat (pk_len p)" using assms(2,3) c(4,5) by linarith
  have len: "nat x \<le> length ?cur" using xle b(3) by (simp add: pb)
  have bs': "bs = ?cur @ concat (map (packet_bytes ?h) (Q w)) @ rest (dm_stream dm) (dm_priv dm)"
    by (simp add: bs ds_left_def current_list_def c)
  show "nat x \<le> length bs" using len by (simp add: bs')
  have "take (nat x) (drop (nat (ds_buffer_pos ?ds)) buf) = take (nat x) bs"
  proof -
    have "nat x \<le> nat (pk_len p) - nat (ds_buffer_pos ?ds)" using xle by linarith
    then have "take (nat x) ?cur = take (nat x) (drop (nat (ds_buffer_pos ?ds)) buf)"
      unfolding pb by (simp add: drop_take min_absorb1)
    then show ?thesis using len by (simp add: bs')
  qed
  moreover have "ds_buffer_pos ?ds + x \<le> int (length buf)" using b(3) assms(3) c(4) assms(2) by simp
  ultimately show "ds_bytes_at w x dm = Some (take (nat x) bs)"
    using c b assms(2) by (simp add: ds_bytes_at_def Let_def)
  let ?ds' = "?ds\<lparr>ds_buffer_pos := ds_buffer_pos ?ds + x\<rparr>"
  have "dm_inv H (Q(w := Q w)) (set_ds w ?ds' dm)"
    by (rule dm_inv_set [OF inv])
       (use di c assms(2,3) dm_invD(4) [OF inv, of w] in \<open>simp_all add: ds_inv_def ds_holds_def current_list_def\<close>)
  then have "dm_inv H Q (ds_advance w x dm)" by (simp add: ds_advance_def)
  moreover have "ds_left ?h ?ds' (Q w) = drop (nat x) (ds_left ?h ?ds (Q w))"
  proof -
    have "nat (ds_buffer_pos ?ds + x) = nat x + nat (ds_buffer_pos ?ds)" using c(5) assms(2) by (simp add: nat_add_distrib)
    then show ?thesis using len by (simp add: ds_left_def current_list_def c(1))
  qed
  moreover have "nat x \<le> length (ds_left ?h ?ds (Q w))" using len by (simp add: ds_left_def current_list_def c(1))
  ultimately show "source n (drop (nat x) bs) (ds_advance w x dm)"
    unfolding source_def using own o fc eof n bs by (intro exI [of _ H] exI [of _ Q]) (simp add: ds_advance_def)
qed

lemma read_loop:
  "source n bs dm \<Longrightarrow> \<exists>dm' n'. demux_read_loop force_ni fill w len mem dm = Some (mem @ take (nat len) bs, dm') \<and>
    source n' (drop (nat len) bs) dm'"
proof (induction "(nat len, n)" arbitrary: len n bs mem dm rule: wf_induct_rule [OF wf_lex_prod [OF wf_less_than wf_less_than]])
  case 1
  show ?case
  proof (cases "0 < len")
    case False
    then show ?thesis using 1 by (subst demux_read_loop.simps) auto
  next
    case len: True
    let ?x = "ds_buffer_size (ds_of w dm) - ds_buffer_pos (ds_of w dm)"
    have x: "0 \<le> ?x" using 1(2) dm_invD(2) unfolding source_def ds_inv_def by force
    show ?thesis
    proof (cases "?x = 0")
      case True
      then have e: "ds_buffer_pos (ds_of w dm) = ds_buffer_size (ds_of w dm)" by simp
      have loop: "demux_read_loop force_ni fill w len mem dm = Option.bind (ds_fill_buffer force_ni fill w dm) (\<lambda>r.
          if \<not> fst r then Some (mem, snd r) else demux_read_loop force_ni fill w len mem (snd r))"
        using len True by (subst demux_read_loop.simps) simp
      from fill_buffer [OF 1(2) e, of force_ni] show ?thesis
      proof (elim exE disjE conjE)
        fix dm' n' assume f: "ds_fill_buffer force_ni fill w dm = Some (True, dm')" "n' < n" "source n' bs dm'"
        then show ?thesis using 1(1) [OF _ f(3), of len mem] loop by simp
      next
        fix dm' assume "ds_fill_buffer force_ni fill w dm = Some (False, dm')" "bs = []" "source n bs dm'"
        then show ?thesis using loop by auto
      qed
    next
      case False
      let ?y = "min ?x len"
      have y: "0 < ?y" "?y \<le> ?x" "nat (len - ?y) < nat len" using len x False by auto
      note st = read_step [OF 1(2) y(1,2)]
      have "demux_read_loop force_ni fill w len mem dm
          = demux_read_loop force_ni fill w (len - ?y) (mem @ take (nat ?y) bs) (ds_advance w ?y dm)"
        using len False st(1) by (subst demux_read_loop.simps) (simp add: Let_def)
      moreover have "nat len = nat ?y + nat (len - ?y)" using y(1) len by linarith
      ultimately show ?thesis using 1(1) [OF _ st(2), of "len - ?y" "mem @ take (nat ?y) bs"] y(3)
        by (simp add: take_add add.commute)
    qed
  qed
qed

lemma read_data:
  "source n bs dm \<Longrightarrow> \<exists>dm' n'. demux_read_data force_ni fill w len dm = Some (take (nat len) bs, dm') \<and>
    source n' (drop (nat len) bs) dm'"
  using read_loop [of n bs dm force_ni len "[]"] by (simp add: demux_read_data_def)

end

section \<open>Changing the buffer of a packet\<close>

lemma keeps_trans: "keeps h h1 a \<Longrightarrow> keeps h1 h2 a \<Longrightarrow> keeps h h2 a"
proof -
  assume "keeps h h1 a" "keeps h1 h2 a"
  then obtain p p1 p2 where p: "ph_packets h a = Some p" "ph_packets h1 a = Some p1" "p1\<lparr>pk_refcount := pk_refcount p\<rparr> = p"
    "\<And>b. pk_buffer p = Some b \<Longrightarrow> ph_buffers h1 b = ph_buffers h b"
    "ph_packets h2 a = Some p2" "p2\<lparr>pk_refcount := pk_refcount p1\<rparr> = p1" "\<And>b. pk_buffer p1 = Some b \<Longrightarrow> ph_buffers h2 b = ph_buffers h1 b"
    unfolding keeps_def by auto
  have "p2\<lparr>pk_refcount := pk_refcount p\<rparr> = p" using p(3,6) by (cases p; cases p1; cases p2) simp
  moreover have "pk_buffer p1 = pk_buffer p" using p(3) by (cases p; cases p1) simp
  ultimately show "keeps h h2 a" using p unfolding keeps_def by auto
qed

text \<open>A packet without clones may get another buffer, a fresh one or the old one with other contents.\<close>

lemma update_buffer_ok:
  assumes ok: "heap_ok H h" and p: "ph_packets h a = Some p" "pk_master p = None"
    and nc: "\<And>x q. ph_packets h x = Some q \<Longrightarrow> pk_master q \<noteq> Some a"
    and h': "ph_packets h' = (ph_packets h)(a := Some (p\<lparr>pk_buffer := b, pk_len := n\<rparr>))" "ph_fresh h \<le> ph_fresh h'"
    and new: "buffer_ok h' (p\<lparr>pk_buffer := b, pk_len := n\<rparr>)" "\<And>y. b = Some y \<Longrightarrow> b = pk_buffer p \<or> ph_fresh h \<le> y \<and> y < ph_fresh h'"
    and old: "\<And>y. pk_buffer p \<noteq> Some y \<Longrightarrow> b \<noteq> Some y \<Longrightarrow> ph_buffers h' y = ph_buffers h y"
      "\<And>y. pk_buffer p = Some y \<Longrightarrow> b \<noteq> Some y \<Longrightarrow> ph_buffers h' y = None"
  shows "heap_ok H h' \<and> (\<forall>x \<in> H - {a}. keeps h h' x)"
proof -
  let ?p' = "p\<lparr>pk_buffer := b, pk_len := n\<rparr>"
  have own: "own_buffers h" using ok by (simp add: heap_ok_def)
  have other: "pk_buffer p \<noteq> Some y \<and> b \<noteq> Some y" if x: "x \<noteq> a" "ph_packets h x = Some q" "pk_buffer q = Some y" for x q y
  proof -
    obtain x' q' where q': "ph_packets h x' = Some q'" "pk_master q' = None" "pk_buffer q' = Some y" "x' \<noteq> a"
    proof (cases "pk_master q")
      case None
      then show ?thesis using that [of x q] x by blast
    next
      case (Some m)
      then have "m \<noteq> a" using nc [OF x(2)] by auto
      moreover obtain r where "ph_packets h m = Some r" "pk_master r = None" "pk_buffer r = Some y"
        using packet_clone(2) [OF ok x(2) Some] x(3) by auto
      ultimately show ?thesis using that [of m r] by blast
    qed
    have a: "pk_buffer p \<noteq> Some y" using heap_okD(6) [OF ok q'(1) p(1) q'(2) p(2) q'(3)] q'(4) by auto
    have "ph_buffers h y \<noteq> None" using packet_buffer [OF ok q'(1)] q'(3) by (auto simp: buffer_ok_def)
    then have "y < ph_fresh h" using heap_okD(5) [OF ok] by (auto simp: buffer_owned_def)
    then show ?thesis using a new(2) [of y] by auto
  qed
  have bufs: "buffer_ok h' q" if "x \<noteq> a" "ph_packets h x = Some q" for x q
    using packet_buffer [OF ok that(2)] other [OF that] old(1) by (auto simp: buffer_ok_def split: option.splits)
  have hold: "holders H h' x = holders H h x" for x
  proof -
    have "(\<exists>r. ph_packets h' y = Some r \<and> pk_master r = Some x) = (\<exists>r. ph_packets h y = Some r \<and> pk_master r = Some x)" for y
      using p by (auto simp: h'(1))
    then show ?thesis unfolding holders_def by blast
  qed
  have "packet_ok H h' x q" if q: "ph_packets h' x = Some q" for x q
  proof (cases "x = a")
    case True
    then have "q = ?p'" using q by (simp add: h'(1))
    then show ?thesis using True packet_master [OF ok p] heap_okD(4) [OF ok p(1)] h'(2) new(1) p(2) by (simp add: packet_ok_def hold)
  next
    case False
    then have q: "ph_packets h x = Some q" using q by (simp add: h'(1))
    show ?thesis
    proof (cases "pk_master q")
      case None
      then show ?thesis using packet_master [OF ok q None] bufs [OF False q] heap_okD(4) [OF ok q] h'(2) by (simp add: packet_ok_def hold)
    next
      case (Some m)
      then have "m \<noteq> a" using nc [OF q] by auto
      then show ?thesis using packet_clone [OF ok q Some] Some heap_okD(4) [OF ok q] h' by (simp add: packet_ok_def)
    qed
  qed
  moreover have "buffer_owned h' y" if y: "ph_buffers h' y \<noteq> None" for y
  proof (cases "b = Some y")
    case True
    have "y < ph_fresh h'"
    proof (cases "b = pk_buffer p")
      case True
      then have "ph_buffers h y \<noteq> None" using packet_buffer [OF ok p(1)] \<open>b = Some y\<close>
        by (auto simp: buffer_ok_def split: option.splits)
      then show ?thesis using heap_okD(5) [OF ok, of y] h'(2) by (auto simp: buffer_owned_def)
    qed (use new(2) True in auto)
    then show ?thesis using True p(2) by (auto simp: buffer_owned_def h'(1) intro!: exI [of _ a])
  next
    case False
    then have np: "pk_buffer p \<noteq> Some y" using old(2) [of y] y by auto
    then have "ph_buffers h y \<noteq> None" using old(1) False y by simp
    from heap_okD(5) [OF ok this] obtain x q where q: "y < ph_fresh h" "ph_packets h x = Some q" "pk_master q = None" "pk_buffer q = Some y"
      unfolding buffer_owned_def by blast
    moreover have "x \<noteq> a" using q np p(1) by auto
    ultimately show ?thesis using h' by (auto simp: buffer_owned_def intro!: exI [of _ x])
  qed
  moreover have "own_buffers h'"
    unfolding own_buffers_def
  proof (intro allI impI)
    fix x q y r z
    assume a: "ph_packets h' x = Some q" "ph_packets h' y = Some r" "pk_master q = None" "pk_master r = None" "pk_buffer q = Some z" "pk_buffer r = Some z"
    show "x = y"
    proof (rule ccontr)
      assume ne: "x \<noteq> y"
      consider "x = a" "y \<noteq> a" | "x \<noteq> a" "y = a" | "x \<noteq> a" "y \<noteq> a" using ne by blast
      then show False
      proof cases
        case 1
        then show False using a other [of y r z] by (auto simp: h'(1))
      next
        case 2
        then show False using a other [of x q z] by (auto simp: h'(1))
      next
        case 3
        then show False using a heap_okD(6) [OF ok, of x q y r z] ne by (auto simp: h'(1))
      qed
    qed
  qed
  moreover have "keeps h h' x" if x: "x \<in> H - {a}" for x
  proof -
    from heap_okD(2) [OF ok, of x] x obtain q where q: "ph_packets h x = Some q" by blast
    have "ph_buffers h' y = ph_buffers h y" if "pk_buffer q = Some y" for y using other [OF _ q that] old(1) x by auto
    then show ?thesis using q x by (auto simp: keeps_def h'(1))
  qed
  moreover have "H \<subseteq> dom (ph_packets h')" using heap_okD(2) [OF ok] by (auto simp: h'(1))
  ultimately show ?thesis using heap_okD(1) [OF ok] by (auto simp: heap_ok_def)
qed


section \<open>A packet read from a stream\<close>

lemma no_clones:
  assumes ok: "heap_ok H h" and p: "ph_packets h a = Some p" "pk_master p = None" "pk_refcount p = 1" and a: "a \<in> H"
    and x: "ph_packets h x = Some q"
  shows "pk_master q \<noteq> Some a"
proof
  assume m: "pk_master q = Some a"
  have "a \<in> holders H h a" "x \<in> holders H h a"
    using a x m packet_clone(1) [OF ok x m] by (auto simp: holders_def)
  moreover have "card (holders H h a) = 1" using packet_master(2) [OF ok p(1,2)] p(3) by simp
  ultimately have "x = a" by (auto simp: card_1_singleton_iff)
  then show False using x m p by simp
qed

lemma write_packet_ok:
  assumes ok: "heap_ok H h" and p: "ph_packets h a = Some p" "pk_master p = None" "pk_refcount p = 1" and a: "a \<in> H"
    and len: "int (length data) \<le> pk_len p"
  shows "\<exists>h'. write_packet a data h = Some h' \<and> heap_ok H h' \<and> (\<forall>x \<in> H - {a}. keeps h h' x) \<and> ph_packets h' = ph_packets h \<and>
    take (length data) (packet_bytes h' a) = data \<and> ph_limit h' = ph_limit h"
proof (cases "pk_buffer p")
  case None
  then have "data = []" using len packet_buffer [OF ok p(1)] by (simp add: buffer_ok_def)
  moreover have "keeps h h x" if "x \<in> H" for x using heap_okD(2) [OF ok that] keeps_refl by blast
  ultimately show ?thesis using ok p None by (simp add: write_packet_def)
next
  case (Some b)
  obtain bs where bs: "ph_buffers h b = Some bs" "length bs = nat (pk_len p) + MP_INPUT_BUFFER_PADDING_SIZE" "0 < pk_len p"
    using packet_buffer [OF ok p(1)] Some by (auto simp: buffer_ok_def)
  let ?bs = "data @ drop (length data) bs"
  let ?h = "h\<lparr>ph_buffers := (ph_buffers h)(b := Some ?bs)\<rparr>"
  have lb: "length ?bs = length bs" using bs len by simp
  have run: "write_packet a data h = Some ?h" using p Some bs len by (simp add: write_packet_def)
  have same: "(ph_packets h)(a := Some (p\<lparr>pk_buffer := Some b, pk_len := pk_len p\<rparr>)) = ph_packets h"
    using p Some by (metis fun_upd_triv packet.surjective packet.update_convs(1,6))
  have "heap_ok H ?h \<and> (\<forall>x \<in> H - {a}. keeps h ?h x)"
  proof (rule update_buffer_ok [OF ok p(1,2)])
    show "pk_master q \<noteq> Some a" if "ph_packets h x = Some q" for x q by (rule no_clones [OF ok p a that])
    show "ph_packets ?h = (ph_packets h)(a := Some (p\<lparr>pk_buffer := Some b, pk_len := pk_len p\<rparr>))" using same by simp
  qed (use Some bs lb in \<open>auto simp: buffer_ok_def\<close>)
  moreover have "take (length data) (packet_bytes ?h a) = data" using p Some len by (simp add: packet_bytes_def min_absorb2)
  ultimately show ?thesis using run by (intro exI [of _ ?h]) simp
qed

lemma resize_packet_ok:
  assumes ok: "heap_ok H h" and p: "ph_packets h a = Some p" "pk_master p = None" "pk_refcount p = 1" and a: "a \<in> H"
    and n: "n \<le> pk_len p" "n \<le> ph_limit h" "0 \<le> n"
  shows "\<exists>h'. resize_demux_packet a n h = Some h' \<and> heap_ok H h' \<and> (\<forall>x \<in> H - {a}. keeps h h' x) \<and>
    (\<exists>p'. ph_packets h' a = Some p' \<and> pk_next p' = pk_next p) \<and> packet_bytes h' a = take (nat n) (packet_bytes h a) \<and>
    ph_limit h' = ph_limit h"
proof -
  obtain old where old: "(case pk_buffer p of None \<Rightarrow> Some [] | Some b \<Rightarrow> ph_buffers h b) = Some old"
    "nat (pk_len p) \<le> length old" "packet_bytes h a = take (nat (pk_len p)) old"
    using packet_buffer [OF ok p(1)] p(1) by (auto simp: buffer_ok_def packet_bytes_def split: option.splits)
  let ?freed = "case pk_buffer p of None \<Rightarrow> ph_buffers h | Some b \<Rightarrow> (ph_buffers h)(b := None)"
  let ?f = "ph_fresh h"
  note nc = no_clones [OF ok p a]
  have lim: "b < ?f" if "pk_buffer p = Some b" for b
    using packet_buffer [OF ok p(1)] that heap_okD(5) [OF ok, of b] by (auto simp: buffer_ok_def buffer_owned_def)
  have freed: "?freed y = (if pk_buffer p = Some y then None else ph_buffers h y)" for y by (cases "pk_buffer p") auto
  show ?thesis
  proof (cases "0 < n")
    case True
    let ?bs = "take (nat n) (old @ replicate (nat n) (ph_junk h)) @ padding"
    let ?p = "p\<lparr>pk_buffer := Some ?f, pk_len := n\<rparr>"
    let ?h = "(set_packet a ?p h)\<lparr>ph_buffers := ?freed(?f := Some ?bs), ph_fresh := ?f + 1\<rparr>"
    have bs: "length ?bs = nat n + MP_INPUT_BUFFER_PADDING_SIZE" "take (nat n) ?bs = take (nat n) old"
      using n old(2) by (simp_all add: padding_def)
    have run: "resize_demux_packet a n h = Some ?h" using p(1) old(1) True n(2) by (simp add: resize_demux_packet_def Let_def)
    have "heap_ok H ?h \<and> (\<forall>x \<in> H - {a}. keeps h ?h x)"
      by (rule update_buffer_ok [OF ok p(1,2) nc]) (use bs True lim in \<open>auto simp: set_packet_def buffer_ok_def freed\<close>)
    moreover have "packet_bytes ?h a = take (nat n) (packet_bytes h a)"
    proof -
      have "packet_bytes ?h a = take (nat n) ?bs" by (simp add: packet_bytes_def set_packet_def)
      then show ?thesis using n bs(2) old(3) by (simp add: min_absorb1 nat_mono)
    qed
    ultimately show ?thesis using run by (intro exI [of _ ?h]) (simp add: set_packet_def)
  next
    case False
    then have n0: "n = 0" using n by simp
    let ?p = "p\<lparr>pk_buffer := None, pk_len := 0\<rparr>"
    let ?h = "(set_packet a ?p h)\<lparr>ph_buffers := ?freed\<rparr>"
    have run: "resize_demux_packet a n h = Some ?h" using p(1) old(1) False by (simp add: resize_demux_packet_def Let_def)
    have "heap_ok H ?h \<and> (\<forall>x \<in> H - {a}. keeps h ?h x)"
      by (rule update_buffer_ok [OF ok p(1,2) nc]) (auto simp: set_packet_def buffer_ok_def freed)
    moreover have "packet_bytes ?h a = []" by (simp add: packet_bytes_def set_packet_def)
    ultimately show ?thesis using run n0 by (intro exI [of _ ?h]) (simp add: set_packet_def)
  qed
qed

end
