(* ===== verification/DemuxRaw.thy ===== *)
theory DemuxRaw
  imports Demux
begin

text \<open>
  libmpdemux/demux_rawaudio.c: the demuxer of raw audio, down to the stream it reads. The quotient of a position and the
  byte rate, a \<open>float\<close>, is the parameter \<open>fdiv\<close>. Seeking (\<open>demux_rawaudio_seek\<close>, floating-point positions) is not modelled.
\<close>

section \<open>The options and the audio header\<close>

record rawaudio_opts =
  ra_channels :: int
  ra_samplerate :: int
  ra_samplesize :: int
  ra_bitrate :: int
  ra_format :: int

definition rawaudio_defaults :: rawaudio_opts where
  "rawaudio_defaults = \<lparr>ra_channels = 2, ra_samplerate = 44100, ra_samplesize = 2, ra_bitrate = 0, ra_format = 1\<rparr>"

text \<open>The ranges of \<open>demux_rawaudio_opts\<close>.\<close>

definition rawaudio_range :: "rawaudio_opts \<Rightarrow> bool" where
  "rawaudio_range opts \<longleftrightarrow> 1 \<le> ra_channels opts \<and> ra_channels opts \<le> 8 \<and> 1000 \<le> ra_samplerate opts \<and> ra_samplerate opts \<le> 8 * 48000 \<and>
     1 \<le> ra_samplesize opts \<and> ra_samplesize opts \<le> 8 \<and> 0 \<le> ra_bitrate opts \<and> ra_bitrate opts < 2 ^ 31 \<and> 0 \<le> ra_format opts"

text \<open>The fields of \<open>sh_audio_t\<close> and its \<open>WAVEFORMATEX\<close> that are set.\<close>

record sh_audio =
  sh_format :: int
  sh_channels :: int
  sh_samplerate :: int
  sh_samplesize :: int
  wf_nAvgBytesPerSec :: int
  wf_nBlockAlign :: int
  wf_wBitsPerSample :: int

definition rawaudio_header :: "rawaudio_opts \<Rightarrow> sh_audio" where
  "rawaudio_header opts =
     \<lparr>sh_format = ra_format opts, sh_channels = ra_channels opts, sh_samplerate = ra_samplerate opts, sh_samplesize = ra_samplesize opts,
      wf_nAvgBytesPerSec =
        (if ra_bitrate opts > 999 then ra_bitrate opts div 8
         else if ra_bitrate opts > 0 then ra_bitrate opts * 125
         else ra_samplerate opts * ra_samplesize opts * ra_channels opts),
      wf_nBlockAlign = ra_channels opts * ra_samplesize opts, wf_wBitsPerSample = 8 * ra_samplesize opts\<rparr>"

definition demux_rawaudio_open :: "rawaudio_opts \<Rightarrow> ('s, sh_audio) demuxer \<Rightarrow> ('s, sh_audio) demuxer" where
  "demux_rawaudio_open opts dm = dm\<lparr>dm_priv := rawaudio_header opts,
     dm_movi_start := st_start_pos (dm_stream dm), dm_movi_end := st_end_pos (dm_stream dm),
     dm_audio := (dm_audio dm)\<lparr>ds_id := 0, ds_needs_parsing := Some True\<rparr>\<rparr>"

section \<open>Reading a packet\<close>

definition demux_rawaudio_fill_buffer :: "(int \<Rightarrow> int \<Rightarrow> rat) \<Rightarrow> 's filler \<Rightarrow> ('s, sh_audio) fill" where
  "demux_rawaudio_fill_buffer fdiv sfill w dm =
     (let l = wf_nAvgBytesPerSec (dm_priv dm); spos = stream_tell (dm_stream dm)
      in if st_eof (dm_stream dm) then Some (False, dm)
         else do {
           let (a, h) = new_demux_packet l (dm_heap dm);
           a \<leftarrow> a;
           p \<leftarrow> ph_packets h a;
           let h = set_packet a (p\<lparr>pk_pts := fdiv (spos - dm_movi_start dm) l, pk_pos := spos - dm_movi_start dm\<rparr>) h;
           (l, data, s) \<leftarrow> stream_read sfill (dm_stream dm) l;
           h \<leftarrow> write_packet a data h;
           h \<leftarrow> resize_demux_packet a l h;
           dm \<leftarrow> ds_add_packet w a (dm\<lparr>dm_stream := s, dm_heap := h\<rparr>);
           Some (True, dm) })"

section \<open>The end of the stream\<close>

text \<open>The \<open>eof\<close> mark of a stream after refilling tells whether there was anything left.\<close>

locale eof_filler = filler +
  assumes fill_eof: "ok s \<Longrightarrow> st_buf_pos s = st_buf_len s \<Longrightarrow> fill s = Some (r, s') \<Longrightarrow> st_eof s' = (r = 0)"
begin

text \<open>A stream whose \<open>eof\<close> mark, if set, is right.\<close>

definition eof_right :: "'a stream \<Rightarrow> bool" where
  "eof_right s \<longleftrightarrow> (st_eof s \<longrightarrow> stream_tell s = int (length content))"

lemma read_loop_eof:
  "ok s \<Longrightarrow> \<not> st_eof s \<Longrightarrow> stream_read_loop fill count len mem s = Some (c, m, s') \<Longrightarrow> st_eof s' = (c < count)"
proof (induction "nat len" arbitrary: len mem s rule: less_induct)
  case less
  note v = ok_view [OF less.prems(1)]
  have step: ?case if t: "0 < len" "ok s1" "st_buf_pos s1 < st_buf_len s1" "\<not> st_eof s1"
    "(if st_buf_len s - st_buf_pos s = 0 then fill s else Some (1, s)) = Some (r, s1)" "r \<noteq> 0" for r s1
  proof -
    let ?x = "min (st_buf_len s1 - st_buf_pos s1) len"
    let ?s = "s1\<lparr>st_buf_pos := st_buf_pos s1 + ?x\<rparr>"
    have x: "0 < ?x" "?x \<le> len" "st_buf_pos s1 + ?x \<le> st_buf_len s1" using t by auto
    have ok: "ok ?s" using ok_move [OF t(2), of "st_buf_pos s1 + ?x"] x ok_view [OF t(2)] by simp
    obtain data where "buffer_slice s1 ?x = Some data" using ok_slice [OF t(2) _ x(3)] x(1) by simp
    then have go: "stream_read_loop fill count (len - ?x) (mem @ data) ?s = Some (c, m, s')"
      using less.prems(3) t by (subst (asm) stream_read_loop.simps) simp
    have small: "nat (len - ?x) < nat len" using x t(1) by linarith
    show ?thesis using less.hyps [OF small ok _ go] t(4) by simp
  qed
  show ?case
  proof (cases "0 < len")
    case False
    then show ?thesis using less.prems by (subst (asm) stream_read_loop.simps) simp
  next
    case len: True
    show ?thesis
    proof (cases "st_buf_pos s = st_buf_len s")
      case False
      then show ?thesis using step [OF len less.prems(1), of 1] v less.prems(2) by simp
    next
      case e: True
      show ?thesis
      proof (cases "st_pos s < int (length content)")
        case True
        from fill_more [OF less.prems(1) e this] obtain r s1 where f: "fill s = Some (r, s1)" "0 < r" "ok s1"
          "st_buf_pos s1 < st_buf_len s1" by blast
        moreover have "\<not> st_eof s1" using fill_eof [OF less.prems(1) e f(1)] f(2) by simp
        ultimately show ?thesis using step [OF len, of s1 r] e by simp
      next
        case False
        then have "st_pos s = int (length content)" using v by simp
        from fill_none [OF less.prems(1) e this] obtain s1 where f: "fill s = Some (0, s1)" by blast
        then have "st_eof s1" using fill_eof [OF less.prems(1) e f] by simp
        moreover have "c = count - len \<and> s' = s1" using less.prems(3) f e len by (subst (asm) stream_read_loop.simps) simp
        ultimately show ?thesis using len by simp
      qed
    qed
  qed
qed

lemma read_eof:
  assumes "ok s" "\<not> st_eof s" "0 < n"
  shows "\<exists>k s'. stream_read fill s n = Some (k, segment content (stream_tell s) k, s') \<and> ok s' \<and> stream_tell s' = stream_tell s + k \<and>
    0 \<le> k \<and> k \<le> n \<and> stream_tell s + k \<le> int (length content) \<and> eof_right s' \<and> (\<not> st_eof s' \<longrightarrow> k = n)"
proof -
  define k where "k = min n (int (length content) - stream_tell s)"
  from read_bytes [OF assms(1) _ k_def] assms(3) obtain s' where s': "stream_read fill s n = Some (k, segment content (stream_tell s) k, s')"
    "ok s'" "stream_tell s' = stream_tell s + k" by auto
  moreover have "st_eof s' = (k < n)" using read_loop_eof [OF assms(1,2)] s'(1) by (simp add: stream_read_def)
  moreover have "0 \<le> k" "k \<le> n" "stream_tell s + k \<le> int (length content)" "k < n \<Longrightarrow> stream_tell s + k = int (length content)"
    using ok_tell [OF assms(1)] assms(3) by (auto simp: k_def)
  ultimately show ?thesis by (auto simp: eof_right_def)
qed

section \<open>The raw audio demuxer delivers the stream\<close>

definition raw_own :: "int \<Rightarrow> 'a stream \<Rightarrow> sh_audio \<Rightarrow> bool" where
  "raw_own limit s sh \<longleftrightarrow> ok s \<and> eof_right s \<and> 0 < wf_nAvgBytesPerSec sh \<and> wf_nAvgBytesPerSec sh \<le> limit"

definition raw_rest :: "'a stream \<Rightarrow> sh_audio \<Rightarrow> bytes" where
  "raw_rest s sh = drop (nat (stream_tell s)) content"

definition raw_fuel :: "'a stream \<Rightarrow> sh_audio \<Rightarrow> nat" where
  "raw_fuel s sh = 2 * (length content - nat (stream_tell s)) + (if st_eof s then 0 else 1)"

lemma raw_fill:
  assumes inv: "dm_inv H Q dm" and own: "raw_own (ph_limit (dm_heap dm)) (dm_stream dm) (dm_priv dm)"
  shows "(\<exists>dm' H' a bs. demux_rawaudio_fill_buffer fdiv fill w dm = Some (True, dm') \<and> dm_inv H' (Q(w := Q w @ [a])) dm' \<and>
      raw_own (ph_limit (dm_heap dm')) (dm_stream dm') (dm_priv dm') \<and>
      raw_fuel (dm_stream dm') (dm_priv dm') < raw_fuel (dm_stream dm) (dm_priv dm) \<and>
      ds_left (dm_heap dm') (ds_of w dm') (Q w @ [a]) = ds_left (dm_heap dm) (ds_of w dm) (Q w) @ bs \<and>
      raw_rest (dm_stream dm) (dm_priv dm) = bs @ raw_rest (dm_stream dm') (dm_priv dm') \<and>
      ds_current (ds_of w dm') = ds_current (ds_of w dm))
    \<or> demux_rawaudio_fill_buffer fdiv fill w dm = Some (False, dm) \<and> raw_rest (dm_stream dm) (dm_priv dm) = []"
proof (cases "st_eof (dm_stream dm)")
  case True
  then show ?thesis using own by (simp add: demux_rawaudio_fill_buffer_def raw_own_def eof_right_def raw_rest_def Let_def)
next
  case False
  let ?s = "dm_stream dm" and ?h = "dm_heap dm" and ?l = "wf_nAvgBytesPerSec (dm_priv dm)"
  let ?a = "ph_fresh ?h" and ?pos = "stream_tell ?s - dm_movi_start dm"
  note d = dm_invD [OF inv]
  have o: "ok ?s" "0 < ?l" "?l \<le> ph_limit ?h" using own by (simp_all add: raw_own_def)
  from new_packet_ok [OF d(1), of ?l] o obtain h1 p where n: "new_demux_packet ?l ?h = (Some ?a, h1)" "heap_ok (insert ?a H) h1" "?a \<notin> H"
    "\<And>x. x \<in> H \<Longrightarrow> keeps ?h h1 x" "ph_packets h1 ?a = Some p" "pk_len p = ?l" "pk_refcount p = 1" "pk_master p = None" "pk_next p = None"
    "ph_limit h1 = ph_limit ?h" by auto
  let ?p = "p\<lparr>pk_pts := fdiv ?pos ?l, pk_pos := ?pos\<rparr>"
  let ?h2 = "set_packet ?a ?p h1"
  have h2: "heap_ok (insert ?a H) ?h2" by (rule set_packet_ok [OF n(2,5)]) simp_all
  have p2: "ph_packets ?h2 ?a = Some ?p" "ph_limit ?h2 = ph_limit ?h" by (simp_all add: set_packet_def n(10))
  have k2: "keeps h1 ?h2 x" if "x \<in> H" for x
    using heap_okD(2) [OF n(2), of x] that n(3) by (auto simp: keeps_def set_packet_def)
  from read_eof [OF o(1) False o(2)] obtain k s' where r: "stream_read fill ?s ?l = Some (k, segment content (stream_tell ?s) k, s')"
    "ok s'" "stream_tell s' = stream_tell ?s + k" "0 \<le> k" "k \<le> ?l" "stream_tell ?s + k \<le> int (length content)" "eof_right s'"
    "\<not> st_eof s' \<Longrightarrow> k = ?l" by blast
  let ?data = "segment content (stream_tell ?s) k"
  have tl: "0 \<le> stream_tell ?s" using ok_tell [OF o(1)] by simp
  have len: "int (length ?data) = k" using length_segment [OF tl r(4,6)] r(4) by simp
  from write_packet_ok [OF h2 p2(1), of ?data] obtain h3 where w: "write_packet ?a ?data ?h2 = Some h3" "heap_ok (insert ?a H) h3"
    "\<And>x. x \<in> H \<Longrightarrow> x \<noteq> ?a \<Longrightarrow> keeps ?h2 h3 x" "ph_packets h3 = ph_packets ?h2" "take (length ?data) (packet_bytes h3 ?a) = ?data"
    "ph_limit h3 = ph_limit ?h" using n(6-8) r(5) len p2(2) by auto
  have p3: "ph_packets h3 ?a = Some ?p" using w(4) p2(1) by simp
  from resize_packet_ok [OF w(2) p3, of k] obtain h4 q where z: "resize_demux_packet ?a k h3 = Some h4" "heap_ok (insert ?a H) h4"
    "\<And>x. x \<in> H \<Longrightarrow> x \<noteq> ?a \<Longrightarrow> keeps h3 h4 x" "ph_packets h4 ?a = Some q" "pk_next q = None" "packet_bytes h4 ?a = take (nat k) (packet_bytes h3 ?a)"
    "ph_limit h4 = ph_limit ?h" using n(6-9) r(4,5) o(3) w(6) by auto
  have bytes: "packet_bytes h4 ?a = ?data"
  proof -
    have "length ?data = nat k" using len by linarith
    then show ?thesis using z(6) w(5) by simp
  qed
  have ne: "x \<noteq> ?a" if "x \<in> H" for x using that n(3) by auto
  have keep: "keeps ?h h4 x" if "x \<in> H" for x
    using keeps_trans [OF keeps_trans [OF keeps_trans [OF n(4) [OF that] k2 [OF that]] w(3) [OF that ne [OF that]]] z(3) [OF that ne [OF that]]] .
  let ?dm = "dm\<lparr>dm_stream := s'\<rparr>\<lparr>dm_heap := h4\<rparr>"
  have inv_s: "dm_inv H Q (dm\<lparr>dm_stream := s'\<rparr>)" using inv by (simp add: dm_inv_def)
  have holdH: "set (ds_holds (ds_of w' (dm\<lparr>dm_stream := s'\<rparr>)) (Q w')) \<subseteq> H" for w' using d(3) [of w'] by simp
  have inv4: "dm_inv (insert ?a H) Q ?dm"
    by (rule dm_inv_heap(1) [OF inv_s z(2)]) (use holdH keep in \<open>auto\<close>)
  have left4: "ds_left h4 (ds_of w ?dm) (Q w) = ds_left ?h (ds_of w dm) (Q w)"
  proof -
    have "ds_left h4 (ds_of w (dm\<lparr>dm_stream := s'\<rparr>)) (Q w) = ds_left (dm_heap (dm\<lparr>dm_stream := s'\<rparr>)) (ds_of w (dm\<lparr>dm_stream := s'\<rparr>)) (Q w)"
      by (rule dm_inv_heap(2) [OF inv_s z(2)]) (use holdH keep in \<open>auto\<close>)
    then show ?thesis by simp
  qed
  have na: "?a \<notin> set (ds_holds (ds_of w' ?dm) (Q w'))" for w' using holdH [of w'] n(3) by auto
  have heap4: "ph_packets (dm_heap ?dm) ?a = Some q" using z(4) by simp
  from add_packet [OF inv4 insertI1 na heap4 z(5), of w] obtain dm' n b f l where add: "ds_add_packet w ?a ?dm = Some dm'"
    "dm_inv (insert ?a H) (Q(w := Q w @ [?a])) dm'"
    "\<And>w'. ds_left (dm_heap dm') (ds_of w' dm') ((Q(w := Q w @ [?a])) w') = ds_left (dm_heap ?dm) (ds_of w' ?dm) (Q w') @
      (if w' = w then packet_bytes (dm_heap ?dm) ?a else [])"
    "ds_of w dm' = (ds_of w ?dm)\<lparr>ds_packs := n, ds_bytes := b, ds_first := f, ds_last := l\<rparr>"
    "dm_stream dm' = dm_stream ?dm" "dm_priv dm' = dm_priv ?dm" "ph_limit (dm_heap dm') = ph_limit (dm_heap ?dm)" by blast
  have dm': "ds_add_packet w ?a ?dm = Some dm'" "dm_inv (insert ?a H) (Q(w := Q w @ [?a])) dm'"
    "ds_left (dm_heap dm') (ds_of w dm') (Q w @ [?a]) = ds_left h4 (ds_of w ?dm) (Q w) @ packet_bytes h4 ?a"
    "ds_current (ds_of w dm') = ds_current (ds_of w dm)" "dm_stream dm' = s'" "dm_priv dm' = dm_priv dm" "ph_limit (dm_heap dm') = ph_limit ?h"
    using add(1,2) add(3) [of w] add(4-7) z(7) by simp_all
  have run: "demux_rawaudio_fill_buffer fdiv fill w dm = Some (True, dm')"
    using False n(1,5) r(1) w(1) z(1) dm'(1) by (simp add: demux_rawaudio_fill_buffer_def Let_def)
  have tell: "nat (stream_tell s') = nat (stream_tell ?s) + nat k" using r(3,4) tl by (simp add: nat_add_distrib)
  have "raw_rest ?s (dm_priv dm) = ?data @ raw_rest s' (dm_priv dm)"
    by (simp add: raw_rest_def tell segment_def add.commute flip: drop_drop)
  moreover have "raw_fuel s' (dm_priv dm) < raw_fuel ?s (dm_priv dm)"
  proof (cases "st_eof s'")
    case True
    then show ?thesis using False tell by (simp add: raw_fuel_def)
  next
    case more: False
    then have "0 < nat k" using r(8) o(2) by simp
    moreover have "nat (stream_tell ?s) + nat k \<le> length content" using r(3,6) tl tell by linarith
    ultimately have "length content - nat (stream_tell s') < length content - nat (stream_tell ?s)" using tell by linarith
    then show ?thesis using False more by (simp add: raw_fuel_def)
  qed
  moreover have "raw_own (ph_limit (dm_heap dm')) (dm_stream dm') (dm_priv dm')" using r(2,7) o dm' by (simp add: raw_own_def)
  ultimately have "demux_rawaudio_fill_buffer fdiv fill w dm = Some (True, dm') \<and> dm_inv (insert ?a H) (Q(w := Q w @ [?a])) dm' \<and>
      raw_own (ph_limit (dm_heap dm')) (dm_stream dm') (dm_priv dm') \<and>
      raw_fuel (dm_stream dm') (dm_priv dm') < raw_fuel ?s (dm_priv dm) \<and>
      ds_left (dm_heap dm') (ds_of w dm') (Q w @ [?a]) = ds_left ?h (ds_of w dm) (Q w) @ ?data \<and>
      raw_rest ?s (dm_priv dm) = ?data @ raw_rest (dm_stream dm') (dm_priv dm') \<and>
      ds_current (ds_of w dm') = ds_current (ds_of w dm)"
    using run dm' left4 bytes by simp
  then show ?thesis by blast
qed

end

section \<open>Raw audio from a local file\<close>

interpretation disk_eof: eof_filler "stream_fill_buffer file_driver" content "file_ok content" for content
proof -
  have e: "file_ok content = disk.stream_ok content" by (rule ext) (rule file_ok)
  show "eof_filler (stream_fill_buffer file_driver) content (file_ok content)"
    unfolding e
  proof (intro eof_filler.intro eof_filler_axioms.intro)
    show "filler (stream_fill_buffer file_driver) content (disk.stream_ok content)" by (rule disk.fl.filler_axioms)
    fix s s' :: "fd_state stream" and r
    assume ok: "disk.stream_ok content s" and e: "st_buf_pos s = st_buf_len s" and f: "stream_fill_buffer file_driver s = Some (r, s')"
    show "st_eof s' = (r = 0)"
    proof (cases "st_pos s < int (length content)")
      case True
      from disk.fl.fill_more [OF ok e this] f have "0 < r" by auto
      then show ?thesis using f by (auto simp: stream_fill_buffer_def split: Option.bind_splits if_splits)
    next
      case False
      then have "st_pos s = int (length content)" using disk.fl.ok_view [OF ok] by simp
      from disk.fill_end [OF ok this] f show ?thesis by auto
    qed
  qed
qed

interpretation raw_disk: single_source "demux_rawaudio_fill_buffer fdiv (stream_fill_buffer file_driver)" w
    "disk_eof.raw_rest content" "disk_eof.raw_own content" "disk_eof.raw_fuel content" for content w fdiv
  by unfold_locales (rule disk_eof.raw_fill)

text \<open>A demuxer for raw audio on a local file, as \<open>new_demuxer\<close> and \<open>demux_rawaudio_open\<close> set it up.\<close>

definition rawaudio_on_file :: "rawaudio_opts \<Rightarrow> pheap \<Rightarrow> fd_state \<Rightarrow> sh_audio \<Rightarrow> (fd_state, sh_audio) demuxer option" where
  "rawaudio_on_file opts h fd sh =
     map_option (demux_rawaudio_open opts) (new_demuxer (stream_seek (stream_seek_long file_driver)) h (open_f fd) sh (-1) (-1) (-1))"

lemma rawaudio_rate: "rawaudio_range opts \<Longrightarrow> 0 < wf_nAvgBytesPerSec (rawaudio_header opts) \<and> wf_nAvgBytesPerSec (rawaudio_header opts) < 2 ^ 28"
proof -
  assume r: "rawaudio_range opts"
  have "ra_samplerate opts * ra_samplesize opts * ra_channels opts \<le> (8 * 48000) * 8 * 8"
    using r by (intro mult_mono) (auto simp: rawaudio_range_def)
  moreover have "0 < ra_samplerate opts * ra_samplesize opts * ra_channels opts" using r by (simp add: rawaudio_range_def)
  moreover have "ra_bitrate opts div 8 < 2 ^ 28"
  proof -
    have "b < 2147483648 \<Longrightarrow> b div 8 < 268435456" for b :: int by presburger
    then show ?thesis using r by (simp add: rawaudio_range_def)
  qed
  ultimately show ?thesis using r by (auto simp: rawaudio_header_def rawaudio_range_def)
qed

lemma rawaudio_source:
  assumes "rawaudio_range opts" "ph_packets h = Map.empty" "ph_buffers h = Map.empty" "2 ^ 28 \<le> ph_limit h"
    and "0 < fd_chunk fd" "fd_seekable fd" "fd_offset fd = 0"
  shows "\<exists>dm n. rawaudio_on_file opts h fd sh = Some dm \<and> raw_disk.source D_audio (fd_content fd) n (fd_content fd) dm"
proof -
  let ?s = "open_f fd"
  have s: "st_eof ?s = False" "st_pos ?s = 0" "st_buf_len ?s = 0" "st_start_pos ?s = 0" "stream_tell ?s = 0"
    by (simp_all add: open_f_def new_stream_def stream_tell_def Let_def)
  have seof: "?s\<lparr>st_eof := False\<rparr> = ?s" using s(1) by simp
  let ?dm = "demux_rawaudio_open opts ((alloc_demuxer h ?s sh (new_demuxer_stream 0))\<lparr>dm_audio := new_demuxer_stream (-1),
    dm_video := new_demuxer_stream (-1), dm_sub := new_demuxer_stream (-1), dm_stream := ?s\<rparr>)"
  have run: "rawaudio_on_file opts h fd sh = Some ?dm"
    using s by (simp add: rawaudio_on_file_def new_demuxer_def stream_seek_def seof)
  have f: "dm_heap ?dm = h" "dm_stream ?dm = ?s" "dm_priv ?dm = rawaudio_header opts"
    by (simp_all add: demux_rawaudio_open_def alloc_demuxer_def)
  have ds: "ds_of w ?dm = new_demuxer_stream (ds_id (ds_of w ?dm))\<lparr>ds_needs_parsing := ds_needs_parsing (ds_of w ?dm)\<rparr>" for w
    by (cases w) (simp_all add: demux_rawaudio_open_def alloc_demuxer_def new_demuxer_stream_def)
  have inv_ds: "ds_inv h (ds_of w ?dm) []" "ds_holds (ds_of w ?dm) [] = []" "ds_left h (ds_of w ?dm) [] = []" for w
    by (subst ds, simp add: ds_inv_def new_demuxer_stream_def ds_holds_def current_list_def ds_left_def)+
  have heap: "heap_ok {} h" using assms(2,3) by (simp add: heap_ok_def own_buffers_def)
  have inv: "dm_inv {} (\<lambda>w. []) ?dm" unfolding dm_inv_def f(1) using heap inv_ds by simp
  have "disk_eof.raw_own (fd_content fd) (ph_limit h) ?s (rawaudio_header opts)"
    using open_f_ok [OF assms(5,6,7)] rawaudio_rate [OF assms(1)] assms(4) s by (simp add: disk_eof.raw_own_def disk_eof.eof_right_def)
  moreover have "ds_fill_count (ds_of D_audio ?dm) = 0" "\<not> ds_eof (ds_of D_audio ?dm)" by (subst ds, simp add: new_demuxer_stream_def)+
  moreover have "fd_content fd = disk_eof.raw_rest (fd_content fd) ?s (rawaudio_header opts)" by (simp add: disk_eof.raw_rest_def s)
  ultimately show ?thesis unfolding raw_disk.source_def
    using run inv inv_ds(3) [of D_audio] f by (intro exI [of _ ?dm] exI conjI) (rule run, rule inv, simp_all)
qed

text \<open>Reading pieces of these lengths one after the other.\<close>

fun demux_reads :: "bool \<Rightarrow> ('s, 'p) fill \<Rightarrow> ds_name \<Rightarrow> int list \<Rightarrow> ('s, 'p) demuxer \<Rightarrow> bytes list option" where
  "demux_reads force_ni fill w [] dm = Some []"
| "demux_reads force_ni fill w (n # ns) dm = do {
     (bs, dm) \<leftarrow> demux_read_data force_ni fill w n dm;
     bss \<leftarrow> demux_reads force_ni fill w ns dm;
     Some (bs # bss) }"

fun pieces :: "int list \<Rightarrow> bytes \<Rightarrow> bytes list" where
  "pieces [] c = []"
| "pieces (n # ns) c = take (nat n) c # pieces ns (drop (nat n) c)"


lemma reads_source: "raw_disk.source w content n c dm \<Longrightarrow>
    demux_reads force_ni (demux_rawaudio_fill_buffer fdiv (stream_fill_buffer file_driver)) w ns dm = Some (pieces ns c)"
proof (induction ns arbitrary: n c dm)
  case (Cons m ns)
  from raw_disk.read_data [OF Cons.prems, of force_ni fdiv m] obtain dm' n' where
    "demux_read_data force_ni (demux_rawaudio_fill_buffer fdiv (stream_fill_buffer file_driver)) w m dm = Some (take (nat m) c, dm')"
    "raw_disk.source w content n' (drop (nat m) c) dm'" by blast
  then show ?case using Cons.IH by simp
qed simp

section \<open>Properties\<close>

text \<open>C2: reading a raw audio file through its demuxer in pieces of any lengths gives the bytes of the file one after the other, to
  the end, for all options in their ranges, however the descriptor's reads are split and whether or not interleaving is
  forced off; every read returns. (The heap serves buffers of up to 2^28 bytes.)\<close>

theorem raw_audio_reads_file:
  assumes "rawaudio_range opts" "ph_packets h = Map.empty" "ph_buffers h = Map.empty" "2 ^ 28 \<le> ph_limit h"
    and "0 < fd_chunk fd" "fd_seekable fd" "fd_offset fd = 0"
  shows "\<exists>dm. rawaudio_on_file opts h fd sh = Some dm \<and>
    demux_reads force_ni (demux_rawaudio_fill_buffer fdiv (stream_fill_buffer file_driver)) D_audio ns dm = Some (pieces ns (fd_content fd))"
  using rawaudio_source [OF assms, of sh] reads_source by blast

theorem raw_audio_reads_file_witness:
  "\<exists>dm. rawaudio_on_file rawaudio_defaults (empty_heap) ten_bytes (rawaudio_header rawaudio_defaults) = Some dm \<and>
    demux_reads False (demux_rawaudio_fill_buffer (\<lambda>a b. 0) (stream_fill_buffer file_driver)) D_audio [3, 4, 5] dm
      = Some [[10, 20, 30], [40, 50, 60, 70], [80, 90, 100]]"
proof -
  have "rawaudio_range rawaudio_defaults" by (simp add: rawaudio_range_def rawaudio_defaults_def)
  moreover have "pieces [3, 4, 5] (fd_content ten_bytes) = [[10, 20, 30], [40, 50, 60, 70], [80, 90, 100]]"
    by (simp add: ten_bytes_def)
  ultimately show ?thesis
    using raw_audio_reads_file [of rawaudio_defaults empty_heap ten_bytes "rawaudio_header rawaudio_defaults" False "\<lambda>a b. 0" "[3, 4, 5]"]
    by (simp add: empty_heap_def) (simp add: ten_bytes_def)
qed

text \<open>At the end of a raw audio file whose length is a multiple of the byte rate, here an empty one, the demuxer makes a packet
  of no bytes, \<open>ds_fill_buffer\<close> reports success, and \<open>demux_getc\<close> reads through the null pointer of that packet's buffer.\<close>

theorem demux_getc_reads_null:
  "Option.bind (rawaudio_on_file rawaudio_defaults empty_heap (ten_bytes\<lparr>fd_content := []\<rparr>) (rawaudio_header rawaudio_defaults))
      (demux_getc False (demux_rawaudio_fill_buffer (\<lambda>a b. 0) (stream_fill_buffer file_driver)) D_audio) = None \<and>
   rawaudio_on_file rawaudio_defaults empty_heap (ten_bytes\<lparr>fd_content := []\<rparr>) (rawaudio_header rawaudio_defaults) \<noteq> None"
  by (simp add: rawaudio_on_file_def new_demuxer_def open_f_def new_stream_def ten_bytes_def stream_seek_def demux_rawaudio_open_def
      alloc_demuxer_def demux_getc_def new_demuxer_stream_def ds_fill_buffer_def ds_free_current_def ds_fill_loop.simps too_many_def
      MAX_PACKS_def MAX_PACK_BYTES_def demux_rawaudio_fill_buffer_def rawaudio_header_def rawaudio_defaults_def new_demux_packet_def
      empty_heap_def stream_tell_def stream_read_def stream_read_loop.simps stream_fill_buffer_def stream_read_internal.simps
      stream_read_switch_def file_driver_def file_fill_buffer_def file_fd_read_def fd_read_def stream_consts write_packet_def
      resize_demux_packet_def set_packet_def ds_add_packet_def ds_add_packet_internal_def ds_count_fill_def ds_take_packet_def
      ds_bytes_at_def Let_def MP_NOPTS_VALUE_def)

text \<open>\<open>demux_pattern_3\<close> reports the pattern 0 0 1 although the three bytes it was allowed to read do not hold it: it had
  looked at bytes of the buffer behind them.\<close>

theorem demux_pattern_beyond_limit:
  "\<exists>h dm. new_demux_packet 4 empty_heap = (Some 0, h) \<and>
     Option.bind (write_packet 0 [0xAA, 0, 0, 1] h) (\<lambda>h. ds_add_packet D_audio 0 (alloc_demuxer h (open_f ten_bytes) () (new_demuxer_stream 0)))
       = Some dm \<and>
     map_option (\<lambda>(found, mem, dm). (found, mem)) (demux_pattern_3 False (\<lambda>w dm. Some (False, dm)) D_audio 3 0x100 dm)
       = Some (True, [0xAA, 0, 0])"
  by (simp add: open_f_def new_stream_def ten_bytes_def alloc_demuxer_def new_demuxer_stream_def new_demux_packet_def empty_heap_def
      write_packet_def set_packet_def ds_add_packet_def ds_add_packet_internal_def demux_pattern_3_def demux_pattern_loop.simps
      ds_fill_buffer_def ds_free_current_def ds_fill_loop.simps ds_take_packet_def ds_bytes_at_def demux_read_data_def demux_read_loop.simps
      ds_advance_def MP_NOPTS_VALUE_def padding_def MP_INPUT_BUFFER_PADDING_SIZE_def Let_def)
    (rule exI, rule TrueI)

end
