(* ===== verification/InputCmd.thy ===== *)
theory InputCmd
  imports CString Complex_Main
begin

text \<open>
  The commands of input/input.c: their table and the parser that turns a line of the slave mode protocol, or the text bound
  to a key, into a command. A command identifier is the name of the enumerator. The text of a command is edited in place
  by the parser; the pointer into it is the string from there on.
\<close>

section \<open>Commands\<close>

text \<open>An argument with its type; \<open>ARG_END\<close> is the type -1 that ends the arguments. A \<open>float\<close> is the number it was
  read from, without rounding; the string \<open>None\<close> is the null pointer.\<close>

datatype mp_cmd_arg = ARG_INT int | ARG_FLOAT rat | ARG_STRING "string option" | ARG_VOID | ARG_END

definition MP_CMD_MAX_ARGS :: nat where "MP_CMD_MAX_ARGS = 6"

record mp_cmd =
  cmd_id :: string
  cmd_name :: string
  cmd_nargs :: nat
  cmd_args :: "mp_cmd_arg list"
  cmd_pausing :: int

text \<open>The initialiser of a table entry: after its last argument come the end mark and zero bytes.\<close>

definition cmd_def :: "string \<Rightarrow> string \<Rightarrow> nat \<Rightarrow> mp_cmd_arg list \<Rightarrow> mp_cmd" where
  "cmd_def i n k args = \<lparr>cmd_id = i, cmd_name = n, cmd_nargs = k,
     cmd_args = take MP_CMD_MAX_ARGS (args @ ARG_END # replicate MP_CMD_MAX_ARGS (ARG_INT 0)), cmd_pausing = 0\<rparr>"

text \<open>The table, each entry with the configuration switch it depends on, if any.\<close>

definition mp_cmd_table :: "(string \<times> mp_cmd) list" where
  "mp_cmd_table =
    [(''CONFIG_RADIO'', cmd_def ''MP_CMD_RADIO_STEP_CHANNEL'' ''radio_step_channel'' 1 [ARG_INT 0]),
     (''CONFIG_RADIO'', cmd_def ''MP_CMD_RADIO_SET_CHANNEL'' ''radio_set_channel'' 1 [ARG_STRING None]),
     (''CONFIG_RADIO'', cmd_def ''MP_CMD_RADIO_SET_FREQ'' ''radio_set_freq'' 1 [ARG_FLOAT 0]),
     (''CONFIG_RADIO'', cmd_def ''MP_CMD_RADIO_STEP_FREQ'' ''radio_step_freq'' 1 [ARG_FLOAT 0]),
     ('''', cmd_def ''MP_CMD_SEEK'' ''seek'' 1 [ARG_FLOAT 0, ARG_INT 0]),
     ('''', cmd_def ''MP_CMD_EDL_LOADFILE'' ''edl_loadfile'' 1 [ARG_STRING None]),
     ('''', cmd_def ''MP_CMD_EDL_MARK'' ''edl_mark'' 0 []),
     ('''', cmd_def ''MP_CMD_AUDIO_DELAY'' ''audio_delay'' 1 [ARG_FLOAT 0, ARG_INT 0]),
     ('''', cmd_def ''MP_CMD_SPEED_INCR'' ''speed_incr'' 1 [ARG_FLOAT 0]),
     ('''', cmd_def ''MP_CMD_SPEED_MULT'' ''speed_mult'' 1 [ARG_FLOAT 0]),
     ('''', cmd_def ''MP_CMD_SPEED_SET'' ''speed_set'' 1 [ARG_FLOAT 0]),
     ('''', cmd_def ''MP_CMD_QUIT'' ''quit'' 0 [ARG_INT 0]),
     ('''', cmd_def ''MP_CMD_STOP'' ''stop'' 0 []),
     ('''', cmd_def ''MP_CMD_PAUSE'' ''pause'' 0 []),
     ('''', cmd_def ''MP_CMD_FRAME_STEP'' ''frame_step'' 0 []),
     ('''', cmd_def ''MP_CMD_PLAY_TREE_STEP'' ''pt_step'' 1 [ARG_INT 0, ARG_INT 0]),
     ('''', cmd_def ''MP_CMD_PLAY_TREE_UP_STEP'' ''pt_up_step'' 1 [ARG_INT 0, ARG_INT 0]),
     ('''', cmd_def ''MP_CMD_PLAY_ALT_SRC_STEP'' ''alt_src_step'' 1 [ARG_INT 0]),
     ('''', cmd_def ''MP_CMD_LOOP'' ''loop'' 1 [ARG_INT 0, ARG_INT 0]),
     ('''', cmd_def ''MP_CMD_SUB_DELAY'' ''sub_delay'' 1 [ARG_FLOAT 0, ARG_INT 0]),
     ('''', cmd_def ''MP_CMD_SUB_STEP'' ''sub_step'' 1 [ARG_INT 0, ARG_INT 0]),
     ('''', cmd_def ''MP_CMD_OSD'' ''osd'' 0 [ARG_INT (- 1)]),
     ('''', cmd_def ''MP_CMD_OSD_SHOW_TEXT'' ''osd_show_text'' 1 [ARG_STRING None, ARG_INT (- 1), ARG_INT 0]),
     ('''', cmd_def ''MP_CMD_OSD_SHOW_PROPERTY_TEXT'' ''osd_show_property_text'' 1 [ARG_STRING None, ARG_INT (- 1), ARG_INT 0]),
     ('''', cmd_def ''MP_CMD_OSD_SHOW_PROGRESSION'' ''osd_show_progression'' 0 []),
     ('''', cmd_def ''MP_CMD_VOLUME'' ''volume'' 1 [ARG_FLOAT 0, ARG_INT 0]),
     ('''', cmd_def ''MP_CMD_BALANCE'' ''balance'' 1 [ARG_FLOAT 0, ARG_INT 0]),
     ('''', cmd_def ''MP_CMD_MIXER_USEMASTER'' ''use_master'' 0 []),
     ('''', cmd_def ''MP_CMD_MUTE'' ''mute'' 0 [ARG_INT (- 1)]),
     ('''', cmd_def ''MP_CMD_CONTRAST'' ''contrast'' 1 [ARG_INT 0, ARG_INT 0]),
     ('''', cmd_def ''MP_CMD_GAMMA'' ''gamma'' 1 [ARG_INT 0, ARG_INT 0]),
     ('''', cmd_def ''MP_CMD_BRIGHTNESS'' ''brightness'' 1 [ARG_INT 0, ARG_INT 0]),
     ('''', cmd_def ''MP_CMD_HUE'' ''hue'' 1 [ARG_INT 0, ARG_INT 0]),
     ('''', cmd_def ''MP_CMD_SATURATION'' ''saturation'' 1 [ARG_INT 0, ARG_INT 0]),
     ('''', cmd_def ''MP_CMD_FRAMEDROPPING'' ''frame_drop'' 0 [ARG_INT (- 1)]),
     ('''', cmd_def ''MP_CMD_SUB_POS'' ''sub_pos'' 1 [ARG_INT 0, ARG_INT 0]),
     ('''', cmd_def ''MP_CMD_SUB_ALIGNMENT'' ''sub_alignment'' 0 [ARG_INT (- 1)]),
     ('''', cmd_def ''MP_CMD_SUB_VISIBILITY'' ''sub_visibility'' 0 [ARG_INT (- 1)]),
     ('''', cmd_def ''MP_CMD_SUB_LOAD'' ''sub_load'' 1 [ARG_STRING None]),
     ('''', cmd_def ''MP_CMD_SUB_REMOVE'' ''sub_remove'' 0 [ARG_INT (- 1)]),
     ('''', cmd_def ''MP_CMD_SUB_SELECT'' ''vobsub_lang'' 0 [ARG_INT (- 2)]),
     ('''', cmd_def ''MP_CMD_SUB_SELECT'' ''sub_select'' 0 [ARG_INT (- 2)]),
     ('''', cmd_def ''MP_CMD_SUB_SOURCE'' ''sub_source'' 0 [ARG_INT (- 2)]),
     ('''', cmd_def ''MP_CMD_SUB_VOB'' ''sub_vob'' 0 [ARG_INT (- 2)]),
     ('''', cmd_def ''MP_CMD_SUB_DEMUX'' ''sub_demux'' 0 [ARG_INT (- 2)]),
     ('''', cmd_def ''MP_CMD_SUB_FILE'' ''sub_file'' 0 [ARG_INT (- 2)]),
     ('''', cmd_def ''MP_CMD_SUB_LOG'' ''sub_log'' 0 []),
     ('''', cmd_def ''MP_CMD_SUB_SCALE'' ''sub_scale'' 1 [ARG_FLOAT 0, ARG_INT 0]),
     (''CONFIG_ASS'', cmd_def ''MP_CMD_ASS_USE_MARGINS'' ''ass_use_margins'' 0 [ARG_INT (- 1)]),
     ('''', cmd_def ''MP_CMD_GET_PERCENT_POS'' ''get_percent_pos'' 0 []),
     ('''', cmd_def ''MP_CMD_GET_TIME_POS'' ''get_time_pos'' 0 []),
     ('''', cmd_def ''MP_CMD_GET_TIME_LENGTH'' ''get_time_length'' 0 []),
     ('''', cmd_def ''MP_CMD_GET_FILENAME'' ''get_file_name'' 0 []),
     ('''', cmd_def ''MP_CMD_GET_VIDEO_CODEC'' ''get_video_codec'' 0 []),
     ('''', cmd_def ''MP_CMD_GET_VIDEO_BITRATE'' ''get_video_bitrate'' 0 []),
     ('''', cmd_def ''MP_CMD_GET_VIDEO_RESOLUTION'' ''get_video_resolution'' 0 []),
     ('''', cmd_def ''MP_CMD_GET_AUDIO_CODEC'' ''get_audio_codec'' 0 []),
     ('''', cmd_def ''MP_CMD_GET_AUDIO_BITRATE'' ''get_audio_bitrate'' 0 []),
     ('''', cmd_def ''MP_CMD_GET_AUDIO_SAMPLES'' ''get_audio_samples'' 0 []),
     ('''', cmd_def ''MP_CMD_GET_META_TITLE'' ''get_meta_title'' 0 []),
     ('''', cmd_def ''MP_CMD_GET_META_ARTIST'' ''get_meta_artist'' 0 []),
     ('''', cmd_def ''MP_CMD_GET_META_ALBUM'' ''get_meta_album'' 0 []),
     ('''', cmd_def ''MP_CMD_GET_META_YEAR'' ''get_meta_year'' 0 []),
     ('''', cmd_def ''MP_CMD_GET_META_COMMENT'' ''get_meta_comment'' 0 []),
     ('''', cmd_def ''MP_CMD_GET_META_TRACK'' ''get_meta_track'' 0 []),
     ('''', cmd_def ''MP_CMD_GET_META_GENRE'' ''get_meta_genre'' 0 []),
     ('''', cmd_def ''MP_CMD_SWITCH_AUDIO'' ''switch_audio'' 0 [ARG_INT (- 1)]),
     ('''', cmd_def ''MP_CMD_SWITCH_ANGLE'' ''switch_angle'' 0 [ARG_INT (- 1)]),
     ('''', cmd_def ''MP_CMD_SWITCH_TITLE'' ''switch_title'' 0 [ARG_INT (- 1)]),
     (''CONFIG_TV'', cmd_def ''MP_CMD_TV_START_SCAN'' ''tv_start_scan'' 0 []),
     (''CONFIG_TV'', cmd_def ''MP_CMD_TV_STEP_CHANNEL'' ''tv_step_channel'' 1 [ARG_INT 0]),
     (''CONFIG_TV'', cmd_def ''MP_CMD_TV_STEP_NORM'' ''tv_step_norm'' 0 []),
     (''CONFIG_TV'', cmd_def ''MP_CMD_TV_STEP_CHANNEL_LIST'' ''tv_step_chanlist'' 0 []),
     (''CONFIG_TV'', cmd_def ''MP_CMD_TV_SET_CHANNEL'' ''tv_set_channel'' 1 [ARG_STRING None]),
     (''CONFIG_TV'', cmd_def ''MP_CMD_TV_LAST_CHANNEL'' ''tv_last_channel'' 0 []),
     (''CONFIG_TV'', cmd_def ''MP_CMD_TV_SET_FREQ'' ''tv_set_freq'' 1 [ARG_FLOAT 0]),
     (''CONFIG_TV'', cmd_def ''MP_CMD_TV_STEP_FREQ'' ''tv_step_freq'' 1 [ARG_FLOAT 0]),
     (''CONFIG_TV'', cmd_def ''MP_CMD_TV_SET_NORM'' ''tv_set_norm'' 1 [ARG_STRING None]),
     (''CONFIG_TV'', cmd_def ''MP_CMD_TV_SET_BRIGHTNESS'' ''tv_set_brightness'' 1 [ARG_INT 0, ARG_INT 1]),
     (''CONFIG_TV'', cmd_def ''MP_CMD_TV_SET_CONTRAST'' ''tv_set_contrast'' 1 [ARG_INT 0, ARG_INT 1]),
     (''CONFIG_TV'', cmd_def ''MP_CMD_TV_SET_HUE'' ''tv_set_hue'' 1 [ARG_INT 0, ARG_INT 1]),
     (''CONFIG_TV'', cmd_def ''MP_CMD_TV_SET_SATURATION'' ''tv_set_saturation'' 1 [ARG_INT 0, ARG_INT 1]),
     ('''', cmd_def ''MP_CMD_SUB_FORCED_ONLY'' ''forced_subs_only'' 0 [ARG_INT (- 1)]),
     (''CONFIG_DVBIN'', cmd_def ''MP_CMD_DVB_SET_CHANNEL'' ''dvb_set_channel'' 2 [ARG_INT 0, ARG_INT 0]),
     ('''', cmd_def ''MP_CMD_SWITCH_RATIO'' ''switch_ratio'' 0 [ARG_FLOAT 0]),
     ('''', cmd_def ''MP_CMD_VO_FULLSCREEN'' ''vo_fullscreen'' 0 [ARG_INT (- 1)]),
     ('''', cmd_def ''MP_CMD_VO_ONTOP'' ''vo_ontop'' 0 [ARG_INT (- 1)]),
     ('''', cmd_def ''MP_CMD_FILE_FILTER'' ''file_filter'' 1 [ARG_INT 0]),
     ('''', cmd_def ''MP_CMD_VO_ROOTWIN'' ''vo_rootwin'' 0 [ARG_INT (- 1)]),
     ('''', cmd_def ''MP_CMD_VO_BORDER'' ''vo_border'' 0 [ARG_INT (- 1)]),
     ('''', cmd_def ''MP_CMD_SCREENSHOT'' ''screenshot'' 0 [ARG_INT 0]),
     ('''', cmd_def ''MP_CMD_PANSCAN'' ''panscan'' 1 [ARG_FLOAT 0, ARG_INT 0]),
     ('''', cmd_def ''MP_CMD_SWITCH_VSYNC'' ''switch_vsync'' 0 [ARG_INT 0]),
     ('''', cmd_def ''MP_CMD_LOADFILE'' ''loadfile'' 1 [ARG_STRING None, ARG_INT 0]),
     ('''', cmd_def ''MP_CMD_LOADLIST'' ''loadlist'' 1 [ARG_STRING None, ARG_INT 0]),
     ('''', cmd_def ''MP_CMD_RUN'' ''run'' 1 [ARG_STRING None]),
     ('''', cmd_def ''MP_CMD_CAPTURING'' ''capturing'' 0 []),
     ('''', cmd_def ''MP_CMD_VF_CHANGE_RECTANGLE'' ''change_rectangle'' 2 [ARG_INT 0, ARG_INT 0]),
     ('''', cmd_def ''MP_CMD_TV_TELETEXT_ADD_DEC'' ''teletext_add_dec'' 1 [ARG_STRING None]),
     ('''', cmd_def ''MP_CMD_TV_TELETEXT_GO_LINK'' ''teletext_go_link'' 1 [ARG_INT 0]),
     ('''', cmd_def ''MP_CMD_OVERLAY_ADD'' ''overlay_add'' 5 [ARG_STRING None, ARG_INT 0, ARG_INT 0, ARG_INT 0, ARG_INT 0]),
     ('''', cmd_def ''MP_CMD_OVERLAY_REMOVE'' ''overlay_remove'' 1 [ARG_INT 0]),
     (''CONFIG_DVDNAV'', cmd_def ''MP_CMD_DVDNAV'' ''dvdnav'' 1 [ARG_STRING None]),
     (''CONFIG_MENU'', cmd_def ''MP_CMD_MENU'' ''menu'' 1 [ARG_STRING None]),
     (''CONFIG_MENU'', cmd_def ''MP_CMD_SET_MENU'' ''set_menu'' 1 [ARG_STRING None, ARG_STRING None]),
     (''CONFIG_MENU'', cmd_def ''MP_CMD_CHELP'' ''help'' 0 []),
     (''CONFIG_MENU'', cmd_def ''MP_CMD_CEXIT'' ''exit'' 0 []),
     (''CONFIG_MENU'', cmd_def ''MP_CMD_CHIDE'' ''hide'' 0 [ARG_INT 3000]),
     ('''', cmd_def ''MP_CMD_GET_VO_FULLSCREEN'' ''get_vo_fullscreen'' 0 []),
     ('''', cmd_def ''MP_CMD_GET_SUB_VISIBILITY'' ''get_sub_visibility'' 0 []),
     ('''', cmd_def ''MP_CMD_KEYDOWN_EVENTS'' ''key_down_event'' 1 [ARG_INT 0]),
     ('''', cmd_def ''MP_CMD_SET_PROPERTY'' ''set_property'' 2 [ARG_STRING None, ARG_STRING None]),
     ('''', cmd_def ''MP_CMD_GET_PROPERTY'' ''get_property'' 1 [ARG_STRING None]),
     ('''', cmd_def ''MP_CMD_STEP_PROPERTY'' ''step_property'' 1 [ARG_STRING None, ARG_FLOAT 0, ARG_INT 0]),
     ('''', cmd_def ''MP_CMD_SEEK_CHAPTER'' ''seek_chapter'' 1 [ARG_INT 0, ARG_INT 0]),
     ('''', cmd_def ''MP_CMD_SET_MOUSE_POS'' ''set_mouse_pos'' 2 [ARG_INT 0, ARG_INT 0]),
     ('''', cmd_def ''MP_CMD_AF_SWITCH'' ''af_switch'' 1 [ARG_STRING None]),
     ('''', cmd_def ''MP_CMD_AF_ADD'' ''af_add'' 1 [ARG_STRING None]),
     ('''', cmd_def ''MP_CMD_AF_DEL'' ''af_del'' 1 [ARG_STRING None]),
     ('''', cmd_def ''MP_CMD_AF_CLR'' ''af_clr'' 0 []),
     ('''', cmd_def ''MP_CMD_AF_CMDLINE'' ''af_cmdline'' 2 [ARG_STRING None, ARG_STRING None]),
     ('''', cmd_def ''MP_CMD_GUI'' ''gui'' 1 [ARG_STRING None])]"

definition mp_cmds :: "string set \<Rightarrow> mp_cmd list" where
  "mp_cmds cfg = map snd (filter (\<lambda>(g, c). g = '''' \<or> g \<in> cfg) mp_cmd_table)"

section \<open>Numbers\<close>

text \<open>\<open>atoi\<close> of a number outside the 64-bit \<open>long\<close> sets \<open>errno\<close> and gives the lower half of the largest or smallest
  \<open>long\<close>; otherwise it gives the lower 32 bits. The flag tells whether \<open>errno\<close> was set.\<close>

definition atoi_errno :: "string \<Rightarrow> int \<times> bool" where
  "atoi_errno s = (let v = atoi s in
     if v < - (2 ^ 63) then (0, True) else if 2 ^ 63 \<le> v then (- 1, True)
     else ((v + 2 ^ 31) mod 2 ^ 32 - 2 ^ 31, False))"

definition sign_split :: "string \<Rightarrow> bool \<times> string" where
  "sign_split s = (case s of [] \<Rightarrow> (False, [])
     | c # cs \<Rightarrow> if c = CHR ''-'' then (True, cs) else if c = CHR ''+'' then (False, cs) else (False, s))"

text \<open>The exponent part of a decimal number: it counts only when it has a digit.\<close>

definition exponent_part :: "string \<Rightarrow> int" where
  "exponent_part s = (case s of [] \<Rightarrow> 0
     | c # cs \<Rightarrow> if c = CHR ''e'' \<or> c = CHR ''E'' then
         (let (neg, ds) = sign_split cs; e = dec_value (takeWhile is_digit ds) in if neg then - e else e)
       else 0)"

text \<open>\<open>atof\<close> for numbers in decimal notation; hexadecimal numbers, infinities and NaN are read as far as they look like
  decimal ones. A result too large or too small for a \<open>double\<close> sets \<open>errno\<close>.\<close>

definition atof :: "string \<Rightarrow> rat" where
  "atof s = (let (neg, t) = sign_split (dropWhile is_space s);
       i = takeWhile is_digit t; t = dropWhile is_digit t;
       f = (if t \<noteq> [] \<and> hd t = CHR ''.'' then takeWhile is_digit (tl t) else []);
       t = (if t \<noteq> [] \<and> hd t = CHR ''.'' then dropWhile is_digit (tl t) else t);
       e = (if i = [] \<and> f = [] then 0 else exponent_part t);
       m = of_int (dec_value (i @ f)) / 10 ^ length f;
       v = (if 0 \<le> e then m * 10 ^ nat e else m / 10 ^ nat (- e))
     in if neg then - v else v)"

definition atof_errno :: "string \<Rightarrow> rat \<times> bool" where
  "atof_errno s = (let v = atof s in (v, v \<noteq> 0 \<and> (\<bar>v\<bar> < 1 / 2 ^ 1022 \<or> 2 ^ 1024 \<le> \<bar>v\<bar>)))"

section \<open>Parsing\<close>

definition is_blank :: "char \<Rightarrow> bool" where
  "is_blank c \<longleftrightarrow> c = CHR '' '' \<or> c = CHR 0x09"

text \<open>The index of the first \<open>tm\<close> from \<open>p\<close> on that has no backslash before it.\<close>

function arg_end :: "char \<Rightarrow> nat \<Rightarrow> string \<Rightarrow> nat option" where
  "arg_end tm p s = (case strchr tm (drop p s) of None \<Rightarrow> None
     | Some k \<Rightarrow> if k = 0 \<or> s ! (p + k - 1) \<noteq> CHR 0x5C then Some (p + k) else arg_end tm (p + k + 1) s)"
  by pat_completeness auto
termination
  by (relation "measure (\<lambda>(tm, p, s). length s - p)") (auto dest: strchr_bound)

text \<open>Removing backslashes, each of which saves the character after it, from the first \<open>l\<close> characters.\<close>

function unescape :: "nat \<Rightarrow> nat \<Rightarrow> string \<Rightarrow> string \<times> nat" where
  "unescape p l s = (case strchr (CHR 0x5C) (drop p s) of None \<Rightarrow> (s, l)
     | Some k \<Rightarrow> if p + k < l then unescape (p + k + 1) (l - 1) (take (p + k) s @ drop (p + k + 1) s) else (s, l))"
  by pat_completeness auto
termination by (relation "measure (\<lambda>(p, l, s). l)") auto

text \<open>A string argument that starts the text: its value and the text at the new position of the pointer. An unterminated
  argument has no value and stops the parsing.\<close>

definition parse_string_arg :: "string \<Rightarrow> (string \<times> string) option" where
  "parse_string_arg r =
     (let quoted = (r \<noteq> [] \<and> hd r \<in> {CHR 0x27, CHR 0x22});
          tm = (if quoted then hd r else CHR '' '');
          start = (if quoted then tl r else r)
      in case arg_end tm 0 start of
           None \<Rightarrow> if quoted then None
             else (let (t, l) = unescape 0 (length start) start in Some (take l t, t))
         | Some e \<Rightarrow> (let (t, l) = unescape 0 e start in Some (take l t, if quoted then drop (l + 1) t else t)))"

text \<open>One argument of the type of \<open>d\<close>; without a new position the parsing stops.\<close>

definition parse_arg :: "mp_cmd_arg \<Rightarrow> string \<Rightarrow> mp_cmd_arg \<times> string option" where
  "parse_arg d r = (case d of
       ARG_INT _ \<Rightarrow> (let (v, err) = atoi_errno r in (ARG_INT v, if err then None else Some r))
     | ARG_FLOAT _ \<Rightarrow> (let (v, err) = atof_errno r in (ARG_FLOAT v, if err then None else Some r))
     | ARG_STRING _ \<Rightarrow> (case parse_string_arg r of None \<Rightarrow> (ARG_STRING None, None)
         | Some (v, r) \<Rightarrow> (ARG_STRING (Some v), Some r))
     | ARG_VOID \<Rightarrow> (ARG_VOID, Some r)
     | ARG_END \<Rightarrow> (ARG_END, None))"

function parse_args :: "mp_cmd_arg list \<Rightarrow> nat \<Rightarrow> string \<Rightarrow> mp_cmd_arg list \<Rightarrow> nat \<times> mp_cmd_arg list" where
  "parse_args defs i ptr args =
     (if MP_CMD_MAX_ARGS \<le> i then (i, args) else
      let ptr = dropWhile (\<lambda>c. \<not> is_blank c) ptr in
      if ptr = [] then (i, args) else
      let ptr = dropWhile is_blank ptr in
      if ptr = [] \<or> hd ptr = CHR ''#'' then (i, args) else
      (case parse_arg (defs ! i) ptr of
         (v, None) \<Rightarrow> (i + 1, args[i := v])
       | (v, Some ptr) \<Rightarrow> parse_args defs (i + 1) ptr (args[i := v])))"
  by pat_completeness auto
termination by (relation "measure (\<lambda>(defs, i, ptr, args). MP_CMD_MAX_ARGS - i)") auto

text \<open>The defaults of the arguments from \<open>i\<close> on that were not given, and the end mark.\<close>

function default_args :: "mp_cmd_arg list \<Rightarrow> nat \<Rightarrow> mp_cmd_arg list \<Rightarrow> mp_cmd_arg list" where
  "default_args defs i args =
     (if i < MP_CMD_MAX_ARGS \<and> defs ! i \<noteq> ARG_END then default_args defs (i + 1) (args[i := defs ! i])
      else if i < MP_CMD_MAX_ARGS then args[i := ARG_END] else args)"
  by pat_completeness auto
termination by (relation "measure (\<lambda>(defs, i, args). MP_CMD_MAX_ARGS - i)") auto

declare arg_end.simps [simp del] unescape.simps [simp del] parse_args.simps [simp del] default_args.simps [simp del]

text \<open>The prefix that says what happens to the pause, and the text after it.\<close>

definition pausing_prefix :: "string \<Rightarrow> int \<times> string" where
  "pausing_prefix s =
     (if is_prefix ''pausing '' s then (1, drop 8 s)
      else if is_prefix ''pausing_keep '' s then (2, drop 13 s)
      else if is_prefix ''pausing_toggle '' s then (3, drop 15 s)
      else if is_prefix ''pausing_keep_force '' s then (4, drop 19 s)
      else (- 1, s))"

text \<open>\<open>av_strncasecmp(name, word, l) == 0\<close> where \<open>l\<close> is the length of \<open>word\<close>\<close>

definition name_matches :: "string \<Rightarrow> string \<Rightarrow> bool" where
  "name_matches word name \<longleftrightarrow> is_prefix (map tolower word) (map tolower name)"

definition default_pausing :: "int \<Rightarrow> string \<Rightarrow> int" where
  "default_pausing pausing_default i =
     (if i \<in> {''MP_CMD_KEYDOWN_EVENTS'', ''MP_CMD_SET_MOUSE_POS''} then 4 else pausing_default)"

definition mp_input_parse_cmd :: "string set \<Rightarrow> int \<Rightarrow> string \<Rightarrow> mp_cmd option" where
  "mp_input_parse_cmd cfg pausing_default s =
     (let (pausing, str) = pausing_prefix (dropWhile is_blank s);
          name = takeWhile (\<lambda>c. \<not> is_blank c) str
      in if name = [] then None else
      (case find (\<lambda>d. name_matches name (cmd_name d)) (mp_cmds cfg) of
         None \<Rightarrow> None
       | Some d \<Rightarrow>
           (let (n, args) = parse_args (cmd_args d) 0 str (replicate MP_CMD_MAX_ARGS (ARG_INT 0))
            in if n < cmd_nargs d then None
            else Some \<lparr>cmd_id = cmd_id d, cmd_name = cmd_name d, cmd_nargs = n,
              cmd_args = default_args (cmd_args d) n args,
              cmd_pausing = (if pausing = - 1 then default_pausing pausing_default (cmd_id d) else pausing)\<rparr>)))"

section \<open>Looking up a command by its name\<close>

fun unshadowed :: "string list \<Rightarrow> bool" where
  "unshadowed [] = True"
| "unshadowed (a # as) = (list_all (\<lambda>b. \<not> is_prefix b a) as \<and> unshadowed as)"

text \<open>The names are checked in blocks of eleven.\<close>

definition clear_of :: "string list \<Rightarrow> string list \<Rightarrow> bool" where
  "clear_of as bs = list_all (\<lambda>a. list_all (\<lambda>b. \<not> is_prefix b a) bs) as"

fun unshadowed_blocks :: "string list list \<Rightarrow> bool" where
  "unshadowed_blocks [] = True"
| "unshadowed_blocks (as # bss) = (list_all (clear_of as) bss \<and> unshadowed as \<and> unshadowed_blocks bss)"

fun blocks :: "nat \<Rightarrow> 'a list \<Rightarrow> 'a list list" where
  "blocks 0 xs = [xs]"
| "blocks (Suc n) xs = take 11 xs # blocks n (drop 11 xs)"

lemma concat_blocks: "concat (blocks n xs) = xs"
  by (induction n arbitrary: xs) simp_all

lemma unshadowed_append: "unshadowed (xs @ ys) \<longleftrightarrow> unshadowed xs \<and> unshadowed ys \<and> clear_of xs ys"
  by (induction xs) (auto simp: clear_of_def list_all_iff)

lemma clear_of_concat: "list_all (clear_of as) bss \<longleftrightarrow> clear_of as (concat bss)"
  by (auto simp: clear_of_def list_all_iff)

lemma unshadowed_concat: "unshadowed_blocks bss \<Longrightarrow> unshadowed (concat bss)"
  by (induction bss) (simp_all add: unshadowed_append clear_of_concat)

lemma names_unshadowed: "unshadowed (map (cmd_name \<circ> snd) mp_cmd_table)"
proof -
  have "unshadowed_blocks (blocks 11 (map (cmd_name \<circ> snd) mp_cmd_table))" by code_simp
  then show ?thesis using unshadowed_concat concat_blocks by metis
qed

lemma names_plain:
  "list_all (\<lambda>e. map tolower (cmd_name (snd e)) = cmd_name (snd e) \<and> cmd_name (snd e) \<noteq> [] \<and>
     list_all (\<lambda>c. \<not> is_space c) (cmd_name (snd e)) \<and>
     cmd_name (snd e) \<notin> {''pausing'', ''pausing_keep'', ''pausing_toggle'', ''pausing_keep_force''} \<and>
     length (takeWhile (\<lambda>a. a \<noteq> ARG_END) (cmd_args (snd e))) < MP_CMD_MAX_ARGS) mp_cmd_table"
  by code_simp

lemma unshadowed_filter: "unshadowed (map f xs) \<Longrightarrow> unshadowed (map f (filter P xs))"
  by (induction xs) (auto simp: list_all_iff)

lemma unshadowed_find:
  "unshadowed (map f xs) \<Longrightarrow> x \<in> set xs \<Longrightarrow> find (\<lambda>y. is_prefix (f x) (f y)) xs = Some x"
proof (induction xs)
  case (Cons y xs)
  have "is_prefix (f x) (f x)" by (simp add: is_prefix_iff)
  then show ?case using Cons by (auto simp: list_all_iff)
qed simp

lemma mp_cmds_name:
  assumes "d \<in> set (mp_cmds cfg)"
  shows "map tolower (cmd_name d) = cmd_name d" "cmd_name d \<noteq> []" "list_all (\<lambda>c. \<not> is_space c) (cmd_name d)"
    "cmd_name d \<notin> {''pausing'', ''pausing_keep'', ''pausing_toggle'', ''pausing_keep_force''}"
    "length (takeWhile (\<lambda>a. a \<noteq> ARG_END) (cmd_args d)) < MP_CMD_MAX_ARGS"
  using assms names_plain by (fastforce simp: mp_cmds_def list_all_iff)+

lemma find_name:
  assumes "d \<in> set (mp_cmds cfg)" "map tolower word = cmd_name d"
  shows "find (\<lambda>e. name_matches word (cmd_name e)) (mp_cmds cfg) = Some d"
proof -
  have "unshadowed (map cmd_name (mp_cmds cfg))"
    using unshadowed_filter [OF names_unshadowed] by (simp add: mp_cmds_def)
  from unshadowed_find [OF this assms(1)] have "find (\<lambda>e. is_prefix (cmd_name d) (cmd_name e)) (mp_cmds cfg) = Some d" .
  moreover have "name_matches word (cmd_name e) = is_prefix (cmd_name d) (cmd_name e)" if "e \<in> set (mp_cmds cfg)" for e
    using mp_cmds_name(1) [OF that] assms(2) by (simp add: name_matches_def)
  ultimately show ?thesis by (metis (mono_tags, lifting) find_cong)
qed

section \<open>Reading back an argument\<close>

text \<open>The end of an argument: nothing or a blank.\<close>

definition blank_end :: "string \<Rightarrow> bool" where
  "blank_end r \<longleftrightarrow> r = [] \<or> hd r = CHR '' ''"

lemma blank_end_digits:
  assumes "blank_end r"
  shows "takeWhile is_digit (x @ r) = takeWhile is_digit x" "dropWhile is_digit (x @ r) = dropWhile is_digit x @ r"
proof -
  have "\<not> is_digit (CHR '' '')" by code_simp
  then show "takeWhile is_digit (x @ r) = takeWhile is_digit x" "dropWhile is_digit (x @ r) = dropWhile is_digit x @ r"
    using assms by (induction x; cases r; simp add: blank_end_def)+
qed

lemma atoi_dec_string:
  assumes "blank_end r"
  shows "atoi (dec_string n @ r) = n"
proof -
  have nd: "r = [] \<or> \<not> is_digit (hd r)" using assms by (auto simp: blank_end_def is_digit_def char_le_code char_code_def)
  show ?thesis
  proof (cases "n < 0")
    case True
    have "atoi (dec_string n @ r) = - dec_value (takeWhile is_digit (dec_digits (nat (- n)) @ r))"
      using True by (simp add: dec_string_def atoi_def is_space_def char_le_code char_code_def)
    also have "takeWhile is_digit (dec_digits (nat (- n)) @ r) = dec_digits (nat (- n))"
      using dec_digits_all [of "nat (- n)"] by (simp add: blank_end_digits [OF assms] list_all_iff takeWhile_eq_all_conv)
    finally show ?thesis using True by (simp add: dec_value_digits)
  next
    case False
    then show ?thesis using atoi_dec_digits [OF nd, of "nat n"] by (simp add: dec_string_def)
  qed
qed

lemma blank_not_digit: "\<not> is_digit (CHR '' '')"
  by code_simp

lemma sign_split_append: "x \<noteq> [] \<Longrightarrow> sign_split (x @ r) = (fst (sign_split x), snd (sign_split x) @ r)"
  by (cases x) (auto simp: sign_split_def)

lemma exponent_part_blank:
  assumes "blank_end r"
  shows "exponent_part (x @ r) = exponent_part x"
proof (cases x)
  case Nil
  then show ?thesis using assms by (cases r) (auto simp: exponent_part_def blank_end_def)
next
  case (Cons c cs)
  have "takeWhile is_digit (snd (sign_split (cs @ r))) = takeWhile is_digit (snd (sign_split cs)) \<and>
    (fst (sign_split (cs @ r)) = fst (sign_split cs))"
  proof (cases "cs = []")
    case True
    then show ?thesis using assms by (cases r) (auto simp: sign_split_def blank_end_def blank_not_digit)
  next
    case False
    then show ?thesis by (simp add: sign_split_append blank_end_digits [OF assms])
  qed
  then show ?thesis using Cons by (simp add: exponent_part_def Let_def split_beta)
qed

definition token :: "string \<Rightarrow> bool" where
  "token t \<longleftrightarrow> t \<noteq> [] \<and> hd t \<noteq> CHR ''#'' \<and> list_all (\<lambda>c. \<not> is_space c) t"

lemma atof_token:
  assumes "token t" "blank_end r"
  shows "atof (t @ r) = atof t"
proof -
  let ?t = "snd (sign_split t)"
  obtain c cs where c: "t = c # cs" "\<not> is_space c" using assms(1) by (cases t) (auto simp: token_def)
  then have d: "dropWhile is_space (t @ r) = t @ r" "dropWhile is_space t = t" by simp_all
  have s: "sign_split (t @ r) = (fst (sign_split t), ?t @ r)" using c by (intro sign_split_append) simp
  have dot: "(x @ r \<noteq> [] \<and> hd (x @ r) = CHR ''.'') = (x \<noteq> [] \<and> hd x = CHR ''.'')" for x
    using assms(2) by (cases x; cases r) (auto simp: blank_end_def)
  have tl: "x \<noteq> [] \<Longrightarrow> tl (x @ r) = tl x @ r" for x by (cases x) auto
  show ?thesis
    unfolding atof_def d s Let_def split_beta fst_conv snd_conv blank_end_digits [OF assms(2)] dot
    by (simp add: tl blank_end_digits [OF assms(2)] exponent_part_blank [OF assms(2)] cong: if_cong)
qed

section \<open>Quoting a string\<close>

definition escape :: "string \<Rightarrow> string" where
  "escape s = concat (map (\<lambda>c. if c = CHR 0x22 \<or> c = CHR 0x5C then [CHR 0x5C, c] else [c]) s)"

definition quote_string :: "string \<Rightarrow> string" where
  "quote_string s = CHR 0x22 # escape s @ [CHR 0x22]"

lemma escape_simps:
  "escape [] = []" "escape (a @ b) = escape a @ escape b"
  "escape (c # s) = (if c = CHR 0x22 \<or> c = CHR 0x5C then [CHR 0x5C, c] else [c]) @ escape s"
  by (simp_all add: escape_def)

lemma escape_plain: "CHR 0x22 \<notin> set s \<Longrightarrow> CHR 0x5C \<notin> set s \<Longrightarrow> escape s = s"
  by (induction s) (auto simp: escape_simps)

lemma last_escape: "s \<noteq> [] \<Longrightarrow> last (escape s) = last s" "escape s = [] \<longleftrightarrow> s = []"
  by (induction s) (auto simp: escape_simps)

lemma set_escape: "CHR 0x22 \<notin> set s \<Longrightarrow> CHR 0x22 \<notin> set (escape s)"
  by (induction s) (auto simp: escape_simps)

lemma arg_end_escape:
  "s = [] \<or> last s \<noteq> CHR 0x5C \<Longrightarrow>
    arg_end (CHR 0x22) (length a) (a @ escape s @ CHR 0x22 # r) = Some (length a + length (escape s))"
proof (induction "length s" arbitrary: s a rule: less_induct)
  case less
  show ?case
  proof (cases "CHR 0x22 \<in> set s")
    case False
    have "strchr (CHR 0x22) (drop (length a) (a @ escape s @ CHR 0x22 # r)) = Some (length (escape s))"
      by (simp add: strchr_first set_escape [OF False])
    moreover have "(a @ escape s @ CHR 0x22 # r) ! (length a + length (escape s) - 1) \<noteq> CHR 0x5C" if "length (escape s) \<noteq> 0"
    proof -
      have "(a @ escape s @ CHR 0x22 # r) ! (length a + length (escape s) - 1) = escape s ! (length (escape s) - 1)"
        using that by (cases "escape s") (simp_all add: nth_append nth_Cons')
      also have "\<dots> = last s" using that last_escape [of s] by (simp add: last_conv_nth [of "escape s"])
      finally show ?thesis using that less.prems by (auto simp: escape_simps)
    qed
    ultimately show ?thesis by (subst arg_end.simps) auto
  next
    case True
    then obtain s1 s2 where s: "s = s1 @ CHR 0x22 # s2" "CHR 0x22 \<notin> set s1" using split_list_first by metis
    let ?b = "a @ escape s1 @ [CHR 0x5C, CHR 0x22]"
    have eq: "a @ escape s @ CHR 0x22 # r = ?b @ escape s2 @ CHR 0x22 # r" by (simp add: s(1) escape_simps)
    have "strchr (CHR 0x22) ((escape s1 @ [CHR 0x5C]) @ CHR 0x22 # escape s2 @ CHR 0x22 # r) = Some (length (escape s1 @ [CHR 0x5C]))"
      by (rule strchr_first) (simp add: set_escape [OF s(2)])
    then have f: "strchr (CHR 0x22) (drop (length a) (a @ escape s @ CHR 0x22 # r)) = Some (length (escape s1) + 1)"
      by (simp add: eq)
    have prev: "(a @ escape s @ CHR 0x22 # r) ! (length a + length (escape s1)) = CHR 0x5C"
      by (simp add: eq nth_append)
    have "arg_end (CHR 0x22) (length ?b) (?b @ escape s2 @ CHR 0x22 # r) = Some (length ?b + length (escape s2))"
      using less.prems by (intro less.hyps) (auto simp: s(1))
    then show ?thesis using f prev by (subst arg_end.simps) (simp add: eq escape_simps s(1))
  qed
qed

lemma unescape_escape:
  "unescape (length a) (length a + length (escape s)) (a @ escape s @ x) = (a @ s @ x, length a + length s)"
proof (induction "length s" arbitrary: s a rule: less_induct)
  case less
  show ?case
  proof (cases "CHR 0x22 \<in> set s \<or> CHR 0x5C \<in> set s")
    case False
    then have e: "escape s = s" by (simp add: escape_plain)
    have "length s \<le> k" if "strchr (CHR 0x5C) (s @ x) = Some k" for k
      using strchr_nth [OF that] False nth_mem [of k s] by (cases "k < length s") (auto simp: nth_append)
    then show ?thesis
      by (cases "strchr (CHR 0x5C) (s @ x)") (simp_all add: e unescape.simps [of "length a"] not_less)
  next
    case True
    then have "\<exists>c \<in> set s. c = CHR 0x22 \<or> c = CHR 0x5C" by blast
    then obtain s1 c s2 where s: "s = s1 @ c # s2" "c = CHR 0x22 \<or> c = CHR 0x5C" "CHR 0x22 \<notin> set s1" "CHR 0x5C \<notin> set s1"
      by (rule split_list_first_propE) blast
    let ?b = "a @ s1 @ [c]"
    have e: "escape s = s1 @ CHR 0x5C # c # escape s2" using s by (auto simp: escape_simps escape_plain)
    have "unescape (length ?b) (length ?b + length (escape s2)) (?b @ escape s2 @ x) = (?b @ s2 @ x, length ?b + length s2)"
      by (rule less.hyps) (simp add: s(1))
    then have "unescape (length ?b) (length ?b + length (escape s2)) (a @ s1 @ c # escape s2 @ x) = (a @ s @ x, length a + length s)"
      by (simp add: s(1))
    moreover have "strchr (CHR 0x5C) (drop (length a) (a @ escape s @ x)) = Some (length s1)"
      using s(4) by (simp add: e strchr_first)
    moreover have "take (length a + length s1) (a @ escape s @ x) @ drop (length a + length s1 + 1) (a @ escape s @ x)
      = a @ s1 @ c # escape s2 @ x" by (simp add: e)
    ultimately show ?thesis by (subst unescape.simps) (simp add: e add.assoc)
  qed
qed

lemma parse_quoted:
  assumes "s = [] \<or> last s \<noteq> CHR 0x5C"
  shows "parse_string_arg (quote_string s @ r) = Some (s, r)"
  using arg_end_escape [OF assms, of "[]" r] unescape_escape [of "[]" s "CHR 0x22 # r"]
  by (simp add: parse_string_arg_def quote_string_def)


section \<open>Reading back a command\<close>

text \<open>\<open>t\<close> is a way to write the argument \<open>v\<close> of the type of \<open>d\<close>. A string is written in double quotes; it must
  not end in a backslash.\<close>

definition arg_text :: "mp_cmd_arg \<Rightarrow> mp_cmd_arg \<Rightarrow> string \<Rightarrow> bool" where
  "arg_text d v t \<longleftrightarrow> (case d of
       ARG_INT _ \<Rightarrow> \<exists>n. v = ARG_INT n \<and> t = dec_string n \<and> - (2 ^ 31) \<le> n \<and> n < 2 ^ 31
     | ARG_FLOAT _ \<Rightarrow> v = ARG_FLOAT (atof t) \<and> token t \<and> \<not> snd (atof_errno t)
     | ARG_STRING _ \<Rightarrow> \<exists>s. v = ARG_STRING (Some s) \<and> t = quote_string s \<and> (s = [] \<or> last s \<noteq> CHR 0x5C)
     | _ \<Rightarrow> False)"

definition args_text :: "string list \<Rightarrow> string" where
  "args_text ts = concat (map (\<lambda>t. CHR '' '' # t) ts)"

lemma args_text_simps: "args_text [] = []" "args_text (t # ts) = CHR '' '' # t @ args_text ts"
  by (simp_all add: args_text_def)

lemma blank_end_args: "blank_end (args_text ts)"
  by (cases ts) (simp_all add: blank_end_def args_text_simps)

definition unblank :: "string \<Rightarrow> bool" where
  "unblank w \<longleftrightarrow> list_all (\<lambda>c. \<not> is_blank c) w"

lemma digit_not_space: "is_digit c \<Longrightarrow> \<not> is_space c" "is_digit c \<Longrightarrow> c \<noteq> CHR ''#''"
  by (auto simp: is_digit_def is_space_def char_le_code char_code_def)

lemma dec_string_token: "token (dec_string n)"
proof -
  have "\<not> is_space (CHR ''-'')" by code_simp
  moreover have "list_all (\<lambda>c. \<not> is_space c) (dec_digits k) \<and> dec_digits k \<noteq> [] \<and> hd (dec_digits k) \<noteq> CHR ''#''" for k
    using dec_digits_all [of k] dec_digits_ne [of k] digit_not_space by (auto simp: list_all_iff)
  ultimately show ?thesis by (simp add: token_def dec_string_def)
qed

lemma space_blank: "is_blank c \<Longrightarrow> is_space c"
  by (auto simp: is_blank_def is_space_def char_le_code char_code_def)

lemma token_unblank: "token t \<Longrightarrow> unblank t"
  using space_blank by (auto simp: token_def unblank_def list_all_iff)

text \<open>An argument starts with a character that is neither a blank nor a comment, and reading it leaves the pointer at or
  before its last character.\<close>

lemma arg_text_start: "arg_text d v t \<Longrightarrow> t \<noteq> [] \<and> \<not> is_blank (hd t) \<and> hd t \<noteq> CHR ''#''"
proof -
  have q: "\<not> is_blank (CHR 0x22)" by code_simp
  have "token t \<Longrightarrow> t \<noteq> [] \<and> \<not> is_blank (hd t) \<and> hd t \<noteq> CHR ''#''"
    using token_unblank [of t] by (cases t) (auto simp: token_def unblank_def)
  then show "arg_text d v t \<Longrightarrow> t \<noteq> [] \<and> \<not> is_blank (hd t) \<and> hd t \<noteq> CHR ''#''"
    using q dec_string_token by (auto simp: arg_text_def quote_string_def split: mp_cmd_arg.splits)
qed

lemma parse_arg_text:
  assumes "arg_text d v t" "blank_end r"
  shows "\<exists>w. unblank w \<and> parse_arg d (t @ r) = (v, Some (w @ r))"
proof (cases d)
  case (ARG_INT k)
  then obtain n where n: "v = ARG_INT n" "t = dec_string n" "- (2 ^ 31) \<le> n" "n < 2 ^ 31"
    using assms(1) by (auto simp: arg_text_def)
  then have "atoi_errno (t @ r) = (n, False)" by (simp add: atoi_errno_def atoi_dec_string [OF assms(2)])
  then show ?thesis using n token_unblank [OF dec_string_token [of n]] by (auto simp: parse_arg_def ARG_INT)
next
  case (ARG_FLOAT k)
  then have f: "v = ARG_FLOAT (atof t)" "token t" "\<not> snd (atof_errno t)" using assms(1) by (auto simp: arg_text_def)
  then have "atof_errno (t @ r) = (atof t, False)"
    by (simp add: atof_errno_def Let_def atof_token [OF f(2) assms(2)])
  then show ?thesis using f token_unblank by (auto simp: parse_arg_def ARG_FLOAT)
next
  case (ARG_STRING k)
  then obtain s where "v = ARG_STRING (Some s)" "t = quote_string s" "s = [] \<or> last s \<noteq> CHR 0x5C"
    using assms(1) by (auto simp: arg_text_def)
  then show ?thesis using parse_quoted [of s r] by (intro exI [of _ "[]"]) (simp add: parse_arg_def ARG_STRING unblank_def)
qed (use assms(1) in \<open>simp_all add: arg_text_def\<close>)

lemma dropWhile_unblank:
  assumes "unblank w"
  shows "dropWhile (\<lambda>c. \<not> is_blank c) (w @ args_text ts) = args_text ts"
    "takeWhile (\<lambda>c. \<not> is_blank c) (w @ args_text ts) = w"
proof -
  have w: "c \<in> set w \<Longrightarrow> \<not> is_blank c" for c using assms by (simp add: unblank_def list_all_iff)
  have b: "is_blank (CHR '' '')" by code_simp
  have "dropWhile (\<lambda>c. \<not> is_blank c) (args_text ts) = args_text ts" "takeWhile (\<lambda>c. \<not> is_blank c) (args_text ts) = []"
    using b by (cases ts; simp add: args_text_simps)+
  then show "dropWhile (\<lambda>c. \<not> is_blank c) (w @ args_text ts) = args_text ts"
    "takeWhile (\<lambda>c. \<not> is_blank c) (w @ args_text ts) = w"
    using w by (simp_all add: dropWhile_append2 takeWhile_append2)
qed

lemma parse_args_text:
  assumes "length ts = length vs" "i + length vs \<le> MP_CMD_MAX_ARGS" "length args = MP_CMD_MAX_ARGS"
    "\<forall>k < length vs. arg_text (defs ! (i + k)) (vs ! k) (ts ! k)" "unblank w"
  shows "parse_args defs i (w @ args_text ts) args = (i + length vs, take i args @ vs @ drop (i + length vs) args)"
  using assms
proof (induction vs arbitrary: ts i args w)
  case Nil
  then show ?case using dropWhile_unblank(1) [of w "[]"] by (subst parse_args.simps) (simp add: args_text_simps Let_def)
next
  case (Cons v vs)
  then obtain t us where ts: "ts = t # us" "length us = length vs" by (cases ts) auto
  have all: "arg_text (defs ! (i + k)) ((v # vs) ! k) ((t # us) ! k)" if "k < length (v # vs)" for k
    using Cons.prems(4) that unfolding ts by blast
  have a: "arg_text (defs ! i) v t" using all [of 0] by simp
  have all': "\<forall>k < length vs. arg_text (defs ! (i + 1 + k)) (vs ! k) (us ! k)" using all [of "Suc k" for k] by simp
  from arg_text_start [OF a] obtain c cs where t: "t = c # cs" "\<not> is_blank c" "c \<noteq> CHR ''#''" by (cases t) auto
  from parse_arg_text [OF a blank_end_args] obtain w' where w': "unblank w'"
    "parse_arg (defs ! i) (t @ args_text us) = (v, Some (w' @ args_text us))" by blast
  have b: "is_blank (CHR '' '')" by code_simp
  have "parse_args defs (i + 1) (w' @ args_text us) (args[i := v])
    = (i + 1 + length vs, take (i + 1) (args[i := v]) @ vs @ drop (i + 1 + length vs) (args[i := v]))"
    using Cons.prems(2,3) by (intro Cons.IH ts(2) all' w'(1)) simp_all
  moreover have "take (i + 1) (args[i := v]) = take i args @ [v]"
    using Cons.prems by (simp add: take_Suc_conv_app_nth)
  moreover have "parse_args defs i (w @ args_text ts) args = parse_args defs (i + 1) (w' @ args_text us) (args[i := v])"
  proof -
    have "dropWhile is_blank (args_text ts) = t @ args_text us" using t b by (simp add: ts args_text_simps)
    moreover have "args_text ts \<noteq> []" "t @ args_text us \<noteq> []" "hd (t @ args_text us) \<noteq> CHR ''#''"
      using t by (simp_all add: ts args_text_simps)
    moreover have "\<not> MP_CMD_MAX_ARGS \<le> i" using Cons.prems(2) by simp
    ultimately show ?thesis
      unfolding parse_args.simps [of defs i "w @ args_text ts"] Let_def dropWhile_unblank(1) [OF Cons.prems(5)]
      by (simp only: w'(2) if_False prod.case option.case HOL.simp_thms)
  qed
  ultimately show ?case using Cons.prems(2,3) by simp
qed

text \<open>The declared arguments of a command.\<close>

definition declared :: "mp_cmd \<Rightarrow> mp_cmd_arg list" where
  "declared d = takeWhile (\<lambda>a. a \<noteq> ARG_END) (cmd_args d)"

lemma default_args_from:
  assumes "defs = D @ ARG_END # z" "ARG_END \<notin> set D" "length D < MP_CMD_MAX_ARGS"
  shows "length args = MP_CMD_MAX_ARGS \<Longrightarrow> n \<le> length D \<Longrightarrow>
    default_args defs n args = take n args @ drop n D @ ARG_END # drop (length D + 1) args"
proof (induction "length D - n" arbitrary: n args)
  case 0
  then have "n = length D" by simp
  moreover have "defs ! length D = ARG_END" using assms(1) by simp
  ultimately show ?case using 0 assms(3) by (subst default_args.simps) (simp add: upd_conv_take_nth_drop)
next
  case (Suc j)
  then have n: "n < length D" by simp
  then have d: "defs ! n = D ! n" "D ! n \<in> set D" using assms(1) by (simp_all add: nth_append)
  then have ne: "D ! n \<noteq> ARG_END" using assms(2) by metis
  have "default_args defs (n + 1) (args[n := D ! n]) = take (n + 1) (args[n := D ! n]) @
    drop (n + 1) D @ ARG_END # drop (length D + 1) (args[n := D ! n])"
    using Suc n by (intro Suc.hyps) auto
  moreover have "take (n + 1) (args[n := D ! n]) = take n args @ [D ! n]"
    using Suc.prems assms(3) n by (simp add: take_Suc_conv_app_nth)
  moreover have "drop n D = D ! n # drop (n + 1) D" using n by (simp add: Cons_nth_drop_Suc)
  moreover have "default_args defs n args = default_args defs (n + 1) (args[n := D ! n])"
    using n assms(3) d(1) ne by (subst default_args.simps) simp
  ultimately show ?case using n by simp
qed

lemma declared_split:
  assumes "d \<in> set (mp_cmds cfg)"
  shows "\<exists>z. cmd_args d = declared d @ ARG_END # z" "ARG_END \<notin> set (declared d)" "length (declared d) < MP_CMD_MAX_ARGS"
proof -
  have e: "list_all (\<lambda>e. ARG_END \<in> set (cmd_args (snd e))) mp_cmd_table" by code_simp
  then have "ARG_END \<in> set (cmd_args d)" using assms by (fastforce simp: mp_cmds_def list_all_iff)
  then have "dropWhile (\<lambda>a. a \<noteq> ARG_END) (cmd_args d) \<noteq> []" by (auto simp: dropWhile_eq_Nil_conv)
  then obtain c z where "dropWhile (\<lambda>a. a \<noteq> ARG_END) (cmd_args d) = c # z" "c = ARG_END"
    using hd_dropWhile by (metis (mono_tags, lifting) list.exhaust_sel)
  then show "\<exists>z. cmd_args d = declared d @ ARG_END # z"
    unfolding declared_def by (metis takeWhile_dropWhile_id)
  show "ARG_END \<notin> set (declared d)" by (auto simp: declared_def dest: set_takeWhileD)
  show "length (declared d) < MP_CMD_MAX_ARGS" using mp_cmds_name(5) [OF assms] by (simp add: declared_def)
qed

text \<open>The pausing prefixes of a command line.\<close>

definition pausing_words :: "(string \<times> int) list" where
  "pausing_words = [('''', - 1), (''pausing '', 1), (''pausing_keep '', 2), (''pausing_toggle '', 3), (''pausing_keep_force '', 4)]"

lemma prefix_word: "unblank a \<Longrightarrow> is_prefix (a @ [CHR '' '']) s \<Longrightarrow> takeWhile (\<lambda>c. \<not> is_blank c) s = a"
proof -
  assume a: "unblank a" "is_prefix (a @ [CHR '' '']) s"
  then obtain t where "s = a @ CHR '' '' # t" by (auto simp: is_prefix_iff)
  moreover have "is_blank (CHR '' '')" by code_simp
  ultimately show ?thesis using a(1) by (simp add: takeWhile_append2 unblank_def list_all_iff)
qed

lemma pausing_prefix_none:
  assumes "takeWhile (\<lambda>c. \<not> is_blank c) s \<notin> {''pausing'', ''pausing_keep'', ''pausing_toggle'', ''pausing_keep_force''}"
  shows "pausing_prefix s = (- 1, s)"
proof -
  have "unblank ''pausing''" "unblank ''pausing_keep''" "unblank ''pausing_toggle''" "unblank ''pausing_keep_force''"
    by code_simp+
  from this [THEN prefix_word, of s] show ?thesis using assms by (auto simp: pausing_prefix_def)
qed

lemma pausing_prefix_word:
  assumes "(pre, mode) \<in> set pausing_words"
    "takeWhile (\<lambda>c. \<not> is_blank c) s \<notin> {''pausing'', ''pausing_keep'', ''pausing_toggle'', ''pausing_keep_force''}"
  shows "pausing_prefix (pre @ s) = (mode, s)"
  using assms(1) pausing_prefix_none [OF assms(2)] by (auto simp: pausing_words_def pausing_prefix_def)

lemma tolower_unblank:
  assumes "list_all (\<lambda>c. \<not> is_space c) (map tolower w)"
  shows "unblank w"
proof -
  have "tolower (CHR '' '') = CHR '' ''" "tolower (CHR 0x09) = CHR 0x09" "is_space (CHR '' '')" "is_space (CHR 0x09)" by code_simp+
  then show ?thesis using assms by (auto simp: unblank_def list_all_iff is_blank_def)
qed

lemma pausing_blank: "(pre, mode) \<in> set pausing_words \<Longrightarrow> pre = [] \<or> \<not> is_blank (hd pre)"
  by (auto simp: pausing_words_def is_blank_def)

lemma parse_cmd_text:
  assumes "d \<in> set (mp_cmds cfg)" "map tolower word = cmd_name d" "(pre, mode) \<in> set pausing_words"
    and "cmd_nargs d \<le> length vs" "length vs \<le> length (declared d)" "list_all2 (\<lambda>(a, v) t. arg_text a v t) (zip (declared d) vs) ts"
  shows "\<exists>z. mp_input_parse_cmd cfg pausing_default (pre @ word @ args_text ts) =
    Some \<lparr>cmd_id = cmd_id d, cmd_name = cmd_name d, cmd_nargs = length vs,
      cmd_args = vs @ drop (length vs) (declared d) @ ARG_END # z,
      cmd_pausing = (if pre = [] then default_pausing pausing_default (cmd_id d) else mode)\<rparr>"
proof -
  note name = mp_cmds_name [OF assms(1)] and decl = declared_split [OF assms(1)]
  obtain rest where rest: "cmd_args d = declared d @ ARG_END # rest" using decl(1) by blast
  let ?s = "word @ args_text ts"
  have ub: "unblank word" using name(3) assms(2) by (intro tolower_unblank) simp
  have ne: "word \<noteq> []" using name(2) assms(2) by auto
  have word: "takeWhile (\<lambda>c. \<not> is_blank c) ?s = word" by (rule dropWhile_unblank(2) [OF ub])
  have "word \<notin> {''pausing'', ''pausing_keep'', ''pausing_toggle'', ''pausing_keep_force''}"
    using name(4) assms(2) [symmetric] by (auto simp: tolower_def is_upper_def char_le_code char_code_def)
  then have pp: "pausing_prefix (pre @ ?s) = (mode, ?s)" by (intro pausing_prefix_word assms(3)) (simp add: word)
  have nb: "dropWhile is_blank (pre @ ?s) = pre @ ?s"
    using pausing_blank [OF assms(3)] ub ne by (cases pre; cases word) (auto simp: unblank_def)
  have len: "length ts = length vs" using assms(5) list_all2_lengthD [OF assms(6)] by simp
  have texts: "\<forall>k < length vs. arg_text (cmd_args d ! (0 + k)) (vs ! k) (ts ! k)"
    using list_all2_nthD [OF assms(6)] assms(5) by (auto simp: rest nth_append)
  have args: "parse_args (cmd_args d) 0 ?s (replicate MP_CMD_MAX_ARGS (ARG_INT 0)) =
    (length vs, vs @ replicate (MP_CMD_MAX_ARGS - length vs) (ARG_INT 0))"
    using parse_args_text [OF len _ _ texts ub, of "replicate MP_CMD_MAX_ARGS (ARG_INT 0)"] assms(5) decl(3) by simp
  have "default_args (cmd_args d) (length vs) (vs @ replicate (MP_CMD_MAX_ARGS - length vs) (ARG_INT 0)) =
      vs @ drop (length vs) (declared d) @ ARG_END # drop (length (declared d) + 1) (vs @ replicate (MP_CMD_MAX_ARGS - length vs) (ARG_INT 0))"
    using default_args_from [OF rest decl(2,3)] assms(5) decl(3) by simp
  moreover have "(mode = - 1) = (pre = [])" using assms(3) by (auto simp: pausing_words_def)
  ultimately show ?thesis
    using ne assms(4) by (simp add: mp_input_parse_cmd_def nb pp word find_name [OF assms(1,2)] args)
qed

text \<open>C10: A line made of an optional pausing prefix, the name of a command in any case and the text of its arguments is
  parsed to this command with these arguments, the defaults for those left out, and the right pausing mode.\<close>

theorem command_roundtrip:
  assumes "d \<in> set (mp_cmds cfg)" "map tolower word = cmd_name d" "(pre, mode) \<in> set pausing_words"
    and "cmd_nargs d \<le> length vs" "length vs \<le> length (declared d)" "list_all2 (\<lambda>(a, v) t. arg_text a v t) (zip (declared d) vs) ts"
  shows "\<exists>z. mp_input_parse_cmd cfg pausing_default (pre @ word @ args_text ts) =
    Some \<lparr>cmd_id = cmd_id d, cmd_name = cmd_name d, cmd_nargs = length vs,
      cmd_args = vs @ drop (length vs) (declared d) @ ARG_END # z,
      cmd_pausing = (if pre = [] then default_pausing pausing_default (cmd_id d) else mode)\<rparr>"
  using assms by (rule parse_cmd_text)

lemma loadfile_cmd: "cmd_def ''MP_CMD_LOADFILE'' ''loadfile'' 1 [ARG_STRING None, ARG_INT 0] \<in> set (mp_cmds cfg)"
proof -
  have "('''', cmd_def ''MP_CMD_LOADFILE'' ''loadfile'' 1 [ARG_STRING None, ARG_INT 0]) \<in> set mp_cmd_table" by code_simp
  then show ?thesis by (force simp: mp_cmds_def)
qed

theorem command_roundtrip_witness:
  "\<exists>z. mp_input_parse_cmd {} 0 (''pausing LoadFile'' @ args_text [quote_string [CHR ''a'', CHR '' '', CHR 0x22, CHR ''b''], ''1'']) =
    Some \<lparr>cmd_id = ''MP_CMD_LOADFILE'', cmd_name = ''loadfile'', cmd_nargs = 2,
      cmd_args = [ARG_STRING (Some [CHR ''a'', CHR '' '', CHR 0x22, CHR ''b'']), ARG_INT 1, ARG_END] @ z, cmd_pausing = 1\<rparr>"
proof -
  define d where "d = cmd_def ''MP_CMD_LOADFILE'' ''loadfile'' 1 [ARG_STRING None, ARG_INT 0]"
  let ?s = "[CHR ''a'', CHR '' '', CHR 0x22, CHR ''b'']"
  have "dec_string 1 = ''1''" by code_simp
  then have a: "arg_text (ARG_STRING None) (ARG_STRING (Some ?s)) (quote_string ?s)" "arg_text (ARG_INT 0) (ARG_INT 1) ''1''"
    by (simp_all add: arg_text_def)
  have d: "declared d = [ARG_STRING None, ARG_INT 0]" "cmd_id d = ''MP_CMD_LOADFILE''" "cmd_name d = ''loadfile''" "cmd_nargs d = 1"
    by (simp_all add: d_def declared_def cmd_def_def MP_CMD_MAX_ARGS_def)
  have "map tolower ''LoadFile'' = ''loadfile''" by code_simp
  moreover have "d \<in> set (mp_cmds {})" unfolding d_def by (rule loadfile_cmd)
  ultimately show ?thesis
    using command_roundtrip [of d "{}" "''LoadFile''" "''pausing ''" 1 "[ARG_STRING (Some ?s), ARG_INT 1]" "[quote_string ?s, ''1'']" 0] a
    by (simp add: d pausing_words_def eval_nat_numeral)
qed



end
