(* ===== verification/InputFd.thy ===== *)
theory InputFd
  imports InputCmd
begin

text \<open>
  Reading lines of commands from a pipe, input/input.c: the descriptor with its buffer of 4096 bytes, mp_input_read_cmd and
  the default read function on top of the system call. The buffer is the list of its first \<open>pos\<close> bytes. A read function
  is a parameter; the locale \<open>cmd_source\<close> says what it promises, and the pipe of the system is an interpretation.
\<close>


section \<open>Reading\<close>

text \<open>What a read function reports: the bytes it got (none at the end of the file) or one of the error codes.\<close>

datatype read_result = READ string | MP_INPUT_ERROR | MP_INPUT_DEAD | MP_INPUT_NO_INPUT | MP_INPUT_RETRY

text \<open>What the system call \<open>read\<close> does: it gives bytes or fails with an error number.\<close>

datatype sys_read = SYS_BYTES string | SYS_EINTR | SYS_EAGAIN | SYS_FAIL

partial_function (option) mp_input_default_cmd_func ::
    "(nat \<Rightarrow> 'd \<Rightarrow> sys_read \<times> 'd) \<Rightarrow> nat \<Rightarrow> 'd \<Rightarrow> (read_result \<times> 'd) option" where
  "mp_input_default_cmd_func sys l d = (case sys l d of
       (SYS_BYTES bs, d) \<Rightarrow> Some (READ bs, d)
     | (SYS_EINTR, d) \<Rightarrow> mp_input_default_cmd_func sys l d
     | (SYS_EAGAIN, d) \<Rightarrow> Some (MP_INPUT_NO_INPUT, d)
     | (SYS_FAIL, d) \<Rightarrow> Some (MP_INPUT_ERROR, d))"

definition MP_CMD_MAX_SIZE :: nat where "MP_CMD_MAX_SIZE = 4096"

text \<open>The buffer holds the first \<open>pos\<close> bytes.\<close>

record mp_input_fd =
  fd_buffer :: string
  fd_eof :: bool
  fd_drop :: bool
  fd_dead :: bool
  fd_got_cmd :: bool

definition new_input_fd :: mp_input_fd where
  "new_input_fd = \<lparr>fd_buffer = [], fd_eof = False, fd_drop = False, fd_dead = False, fd_got_cmd = False\<rparr>"

text \<open>The loop that gets some data. A code is returned to the caller at once.\<close>

partial_function (option) read_cmd_fill ::
    "(nat \<Rightarrow> 'd \<Rightarrow> (read_result \<times> 'd) option) \<Rightarrow> mp_input_fd \<Rightarrow> 'd \<Rightarrow> (read_result option \<times> mp_input_fd \<times> 'd) option" where
  "read_cmd_fill rf f d =
     (if fd_got_cmd f \<or> fd_eof f \<or> MP_CMD_MAX_SIZE \<le> length (fd_buffer f) + 1 then Some (None, f, d) else
      (case rf (MP_CMD_MAX_SIZE - 1 - length (fd_buffer f)) d of
         None \<Rightarrow> None
       | Some (READ bs, d) \<Rightarrow>
           if bs = [] then Some (None, f\<lparr>fd_eof := True\<rparr>, d) else Some (None, f\<lparr>fd_buffer := fd_buffer f @ bs\<rparr>, d)
       | Some (MP_INPUT_RETRY, d) \<Rightarrow> read_cmd_fill rf f d
       | Some (code, d) \<Rightarrow> Some (Some code, f, d)))"

text \<open>The loop that looks for a line in the buffer; \<open>ret\<close> is the line it has found.\<close>

definition cr_to_nl :: "string \<Rightarrow> string" where
  "cr_to_nl b = (case strchr (CHR 0x0D) (c_str b) of None \<Rightarrow> b | Some k \<Rightarrow> b[k := CHR 0x0A])"

lemma length_cr_to_nl [simp]: "length (cr_to_nl b) = length b"
  by (simp add: cr_to_nl_def split: option.splits)

function read_cmd_scan :: "mp_input_fd \<Rightarrow> string option \<Rightarrow> string option \<times> mp_input_fd" where
  "read_cmd_scan f ret =
     (let b = cr_to_nl (fd_buffer f)
      in case strchr (CHR 0x0A) (c_str b) of
           None \<Rightarrow> (ret, if MP_CMD_MAX_SIZE \<le> length b + 1 then f\<lparr>fd_buffer := [], fd_drop := True\<rparr> else f\<lparr>fd_buffer := b\<rparr>)
         | Some l \<Rightarrow> if ret \<noteq> None then (ret, f\<lparr>fd_buffer := b, fd_got_cmd := True\<rparr>)
             else read_cmd_scan (f\<lparr>fd_buffer := drop (l + 1) b, fd_drop := False\<rparr>)
               (if fd_drop f then None else Some (take l b)))"
  by pat_completeness auto
termination
proof (relation "measure (\<lambda>(f, ret). length (fd_buffer f))", goal_cases)
  case (2 f ret b l)
  then have "l < length (c_str b)" by (simp add: strchr_bound)
  also have "\<dots> \<le> length b" by (simp add: c_str_def length_takeWhile_le)
  finally show ?case using 2(1) by simp
qed simp

declare read_cmd_scan.simps [simp del]

text \<open>The result is the code to return, or no code and the line that was found, if any.\<close>

definition mp_input_read_cmd ::
    "(nat \<Rightarrow> 'd \<Rightarrow> (read_result \<times> 'd) option) \<Rightarrow> mp_input_fd \<Rightarrow> 'd \<Rightarrow> (read_result option \<times> string option \<times> mp_input_fd \<times> 'd) option" where
  "mp_input_read_cmd rf f d = (case read_cmd_fill rf f d of
       None \<Rightarrow> None
     | Some (Some code, f, d) \<Rightarrow> Some (Some code, None, f, d)
     | Some (None, f, d) \<Rightarrow> (let (ret, f) = read_cmd_scan (f\<lparr>fd_got_cmd := False\<rparr>) None
         in Some (if ret = None then Some MP_INPUT_NO_INPUT else None, ret, f, d)))"

section \<open>What the lines of a text are\<close>

definition is_eol :: "char \<Rightarrow> bool" where
  "is_eol c \<longleftrightarrow> c = CHR 0x0A \<or> c = CHR 0x0D"

text \<open>The lines of a text that have an end and fit into the buffer; the first one does not count when \<open>skip\<close> is set.\<close>

lemma length_after_eol: "dropWhile P s = c # t \<Longrightarrow> length t < length s"
  using length_dropWhile_le [of P s] by simp

function kept_lines :: "bool \<Rightarrow> string \<Rightarrow> string list" where
  "kept_lines skip s =
     (case dropWhile (\<lambda>c. \<not> is_eol c) s of
        [] \<Rightarrow> []
      | c # t \<Rightarrow> (let l = takeWhile (\<lambda>c. \<not> is_eol c) s
          in if skip \<or> MP_CMD_MAX_SIZE \<le> length l + 1 then kept_lines False t else l # kept_lines False t))"
  by pat_completeness auto
termination by (relation "measure (length \<circ> snd)") (simp_all add: length_after_eol)

declare kept_lines.simps [simp del]

lemma is_eol_cases [simp]: "is_eol (CHR 0x0A)" "is_eol (CHR 0x0D)"
  by (simp_all add: is_eol_def)

abbreviation unended :: "string \<Rightarrow> bool" where
  "unended \<equiv> list_all (\<lambda>c. \<not> is_eol c)"

lemma unended_dropWhile: "unended b \<Longrightarrow> dropWhile (\<lambda>c. \<not> is_eol c) b = []"
  by (simp add: list_all_iff)

lemma unended_append:
  assumes "unended b"
  shows "dropWhile (\<lambda>c. \<not> is_eol c) (b @ s) = dropWhile (\<lambda>c. \<not> is_eol c) s"
    "takeWhile (\<lambda>c. \<not> is_eol c) (b @ s) = b @ takeWhile (\<lambda>c. \<not> is_eol c) s"
  using assms by (simp_all add: dropWhile_append2 takeWhile_append2 list_all_iff)

lemma kept_lines_none: "unended b \<Longrightarrow> kept_lines skip b = []"
  by (simp add: kept_lines.simps [of skip b] unended_dropWhile)

text \<open>Text without an end of line does not matter when it is skipped, or too long for a line.\<close>

lemma kept_lines_skip:
  assumes "unended b" "skip \<or> MP_CMD_MAX_SIZE \<le> length b + 1"
  shows "kept_lines skip (b @ s) = kept_lines True s"
proof (cases "dropWhile (\<lambda>c. \<not> is_eol c) s")
  case Nil
  then show ?thesis
    unfolding kept_lines.simps [of skip "b @ s"] kept_lines.simps [of True s] unended_append [OF assms(1)] Nil by simp
next
  case (Cons c t)
  show ?thesis
    unfolding kept_lines.simps [of skip "b @ s"] kept_lines.simps [of True s] unended_append [OF assms(1)] Cons
    using assms(2) by (auto simp: Let_def)
qed

lemma kept_lines_line:
  assumes "unended l" "is_eol c"
  shows "kept_lines skip (l @ c # s) = (if skip \<or> MP_CMD_MAX_SIZE \<le> length l + 1 then [] else [l]) @ kept_lines False s"
  using unended_append [OF assms(1), of "c # s"] assms(2)
  by (simp add: kept_lines.simps [of skip "l @ c # s"] Let_def)

text \<open>Which of the two line ends is used does not matter.\<close>

definition norm_eol :: "char \<Rightarrow> char" where
  "norm_eol c = (if c = CHR 0x0D then CHR 0x0A else c)"

lemma is_eol_norm [simp]: "is_eol (norm_eol c) = is_eol c"
  by (simp add: norm_eol_def is_eol_def)

lemma map_norm_unended: "unended l \<Longrightarrow> map norm_eol l = l"
  by (induction l) (auto simp: norm_eol_def)

lemma kept_lines_norm: "kept_lines skip (map norm_eol s) = kept_lines skip s"
proof (induction skip s rule: kept_lines.induct)
  case (1 skip s)
  let ?l = "takeWhile (\<lambda>c. \<not> is_eol c) s"
  have l: "unended ?l" by (auto simp: list_all_iff dest: set_takeWhileD)
  show ?case
  proof (cases "dropWhile (\<lambda>c. \<not> is_eol c) s")
    case Nil
    then have "unended s" by (auto simp: dropWhile_eq_Nil_conv list_all_iff)
    then show ?thesis by (simp add: map_norm_unended)
  next
    case (Cons c t)
    then have c: "is_eol c" and s: "s = ?l @ c # t"
      using hd_dropWhile [of "\<lambda>c. \<not> is_eol c" s] takeWhile_dropWhile_id [of "\<lambda>c. \<not> is_eol c" s] by simp_all
    have "kept_lines False (map norm_eol t) = kept_lines False t"
      using 1 Cons by (cases "skip \<or> MP_CMD_MAX_SIZE \<le> length ?l + 1") auto
    moreover have "map norm_eol s = ?l @ norm_eol c # map norm_eol t"
      using arg_cong [OF s, of "map norm_eol"] by (simp add: map_norm_unended [OF l])
    ultimately show ?thesis
      using kept_lines_line [OF l, of "norm_eol c" skip "map norm_eol t"] kept_lines_line [OF l c, of skip t] c s by simp
  qed
qed

lemma strchr_split: "strchr c s = Some k \<Longrightarrow> s = take k s @ c # drop (k + 1) s \<and> c \<notin> set (take k s)"
  by (induction s arbitrary: k) (auto simp: strchr_single split: if_splits)

lemma cr_to_nl_norm:
  assumes "no_nul b"
  shows "map norm_eol (cr_to_nl b) = map norm_eol b" "no_nul (cr_to_nl b)"
proof -
  show "map norm_eol (cr_to_nl b) = map norm_eol b"
  proof (cases "strchr (CHR 0x0D) b")
    case (Some k)
    then have "b ! k = CHR 0x0D" "k < length b" by (rule strchr_nth, rule strchr_bound)
    then have "map norm_eol b ! k = norm_eol (CHR 0x0A)" by (simp add: norm_eol_def)
    then show ?thesis using Some by (simp add: cr_to_nl_def c_str_id [OF assms] map_update) (metis list_update_id)
  qed (simp add: cr_to_nl_def c_str_id [OF assms])
  show "no_nul (cr_to_nl b)"
    using assms by (auto simp: cr_to_nl_def no_nul_def split: option.splits dest!: set_update_subset_insert [THEN subsetD])
qed

text \<open>Where the scanner finds the end of a line.\<close>

lemma scan_none:
  assumes "no_nul b" "strchr (CHR 0x0A) (c_str (cr_to_nl b)) = None"
  shows "unended b" "cr_to_nl b = b"
proof -
  have nl: "CHR 0x0A \<notin> set (cr_to_nl b)"
    using assms(2) by (simp add: c_str_id [OF cr_to_nl_norm(2) [OF assms(1)]] strchr_none)
  have cr: "strchr (CHR 0x0D) b = None"
  proof (rule ccontr)
    assume "strchr (CHR 0x0D) b \<noteq> None"
    then obtain k where k: "strchr (CHR 0x0D) b = Some k" by auto
    then have "cr_to_nl b = b[k := CHR 0x0A]" "k < length b"
      by (auto simp: cr_to_nl_def c_str_id [OF assms(1)] dest: strchr_bound)
    then show False using nl set_update_memI by metis
  qed
  then show "cr_to_nl b = b" by (simp add: cr_to_nl_def c_str_id [OF assms(1)])
  then show "unended b" using nl cr by (auto simp: list_all_iff is_eol_def strchr_none)
qed

lemma scan_some:
  assumes "no_nul b" "strchr (CHR 0x0A) (c_str (cr_to_nl b)) = Some l"
  shows "cr_to_nl b = take l (cr_to_nl b) @ CHR 0x0A # drop (l + 1) (cr_to_nl b)" "unended (take l (cr_to_nl b))"
proof -
  let ?b = "cr_to_nl b"
  have l: "strchr (CHR 0x0A) ?b = Some l" using assms(2) by (simp add: c_str_id [OF cr_to_nl_norm(2) [OF assms(1)]])
  from strchr_split [OF this] show "?b = take l ?b @ CHR 0x0A # drop (l + 1) ?b" by blast
  have nl: "CHR 0x0A \<notin> set (take l ?b)" using strchr_split [OF l] by blast
  have "CHR 0x0D \<notin> set (take l ?b)"
  proof (cases "strchr (CHR 0x0D) b")
    case None
    moreover from this have "CHR 0x0D \<notin> set b" by (simp add: strchr_none)
    ultimately have "CHR 0x0D \<notin> set ?b" by (simp add: cr_to_nl_def c_str_id [OF assms(1)])
    then show ?thesis using set_take_subset by fastforce
  next
    case (Some k)
    then have b: "?b = b[k := CHR 0x0A]" "k < length b" "CHR 0x0D \<notin> set (take k b)"
      using strchr_split [OF Some] strchr_bound [OF Some] by (auto simp: cr_to_nl_def c_str_id [OF assms(1)])
    have "l \<le> k"
    proof (rule ccontr)
      assume "\<not> l \<le> k"
      then have "CHR 0x0A \<in> set (take l ?b)" using b(1,2) by (auto simp: in_set_conv_nth intro!: exI [of _ k])
      then show False using nl by blast
    qed
    then have "take l ?b = take l b" using b(1) by simp
    then show ?thesis using b(3) \<open>l \<le> k\<close> set_take_subset_set_take [of l k b] by auto
  qed
  then show "unended (take l ?b)" using nl by (auto simp: list_all_iff is_eol_def)
qed

section \<open>What one call does\<close>

text \<open>Between calls the buffer holds an unfinished line, which is not full, unless a further line is known to be in it.\<close>

definition fd_ok :: "mp_input_fd \<Rightarrow> bool" where
  "fd_ok f \<longleftrightarrow> no_nul (fd_buffer f) \<and> length (fd_buffer f) < MP_CMD_MAX_SIZE \<and>
     (if fd_got_cmd f then \<not> unended (fd_buffer f) else unended (fd_buffer f) \<and> length (fd_buffer f) + 1 < MP_CMD_MAX_SIZE)"

definition lines_left :: "mp_input_fd \<Rightarrow> string \<Rightarrow> string list" where
  "lines_left f rest = kept_lines (fd_drop f) (fd_buffer f @ rest)"

lemma kept_lines_cr: "no_nul b \<Longrightarrow> kept_lines skip (cr_to_nl b @ s) = kept_lines skip (b @ s)"
  using kept_lines_norm [of skip "cr_to_nl b @ s"] kept_lines_norm [of skip "b @ s"] by (simp add: cr_to_nl_norm)

lemma no_nul_drop: "no_nul b \<Longrightarrow> no_nul (drop n b)"
  by (auto simp: no_nul_def dest: in_set_dropD)

definition list_of :: "'a option \<Rightarrow> 'a list" where
  "list_of x = (case x of None \<Rightarrow> [] | Some a \<Rightarrow> [a])"

lemma list_of_simps [simp]: "list_of None = []" "list_of (Some a) = [a]"
  by (simp_all add: list_of_def)

lemma scan_lines:
  assumes "read_cmd_scan f ret = (ret', f')" "no_nul (fd_buffer f)" "length (fd_buffer f) < MP_CMD_MAX_SIZE" "\<not> fd_got_cmd f"
  shows "(if ret = None then lines_left f rest = list_of ret' @ lines_left f' rest else ret' = ret \<and> lines_left f rest = lines_left f' rest) \<and>
    fd_ok f' \<and> fd_eof f' = fd_eof f \<and> fd_dead f' = fd_dead f \<and> length (fd_buffer f') \<le> length (fd_buffer f) \<and>
    (\<not> unended (fd_buffer f) \<longrightarrow> ret = None \<longrightarrow> length (fd_buffer f') < length (fd_buffer f))"
  using assms
proof (induction f ret arbitrary: ret' f' rule: read_cmd_scan.induct)
  case (1 f ret)
  let ?b = "cr_to_nl (fd_buffer f)"
  note step = read_cmd_scan.simps [of f ret]
  show ?case
  proof (cases "strchr (CHR 0x0A) (c_str ?b)")
    case None
    note none = scan_none [OF 1(3) None]
    have r: "ret' = ret" "f' = (if MP_CMD_MAX_SIZE \<le> length (fd_buffer f) + 1 then f\<lparr>fd_buffer := [], fd_drop := True\<rparr> else f\<lparr>fd_buffer := fd_buffer f\<rparr>)"
      using 1(2) None none(2) by (auto simp: step Let_def)
    show ?thesis
      using 1(3-5) none(1) kept_lines_skip [OF none(1), of "fd_drop f" rest]
      by (simp add: r fd_ok_def lines_left_def no_nul_def MP_CMD_MAX_SIZE_def)
  next
    case (Some l)
    note some = scan_some [OF 1(3) Some] and cr = cr_to_nl_norm [OF 1(3)]
    have len: "l < length (fd_buffer f)" using arg_cong [OF some(1), of length] by simp
    show ?thesis
    proof (cases "ret = None")
      case False
      have "\<not> unended ?b" using arg_cong [OF some(1), of unended] by simp
      moreover have "ret' = ret" "f' = f\<lparr>fd_buffer := ?b, fd_got_cmd := True\<rparr>"
        using False 1(2) Some by (simp_all add: step Let_def)
      ultimately show ?thesis
        using False 1(4) cr(2) kept_lines_cr [OF 1(3)] by (simp add: fd_ok_def lines_left_def)
    next
      case True
      let ?f = "f\<lparr>fd_buffer := drop (l + 1) ?b, fd_drop := False\<rparr>" and ?r = "if fd_drop f then None else Some (take l ?b)"
      have eq: "read_cmd_scan ?f ?r = (ret', f')" using 1(2) True Some by (simp add: read_cmd_scan.simps [of f None] Let_def)
      have "lines_left f rest = kept_lines (fd_drop f) ((take l ?b @ CHR 0x0A # drop (l + 1) ?b) @ rest)"
        using kept_lines_cr [OF 1(3)] some(1) by (simp only: lines_left_def)
      also have "\<dots> = list_of ?r @ lines_left ?f rest"
        using kept_lines_line [OF some(2), of "CHR 0x0A" "fd_drop f" "drop (l + 1) ?b @ rest"] len 1(4)
        by (simp add: lines_left_def min_def)
      finally have l: "lines_left f rest = list_of ?r @ lines_left ?f rest" .
      have pre: "no_nul (fd_buffer ?f)" "length (fd_buffer ?f) < MP_CMD_MAX_SIZE" "\<not> fd_got_cmd ?f"
        using no_nul_drop [OF cr(2), of "l + 1"] 1(4,5) len by simp_all
      have nn: "\<not> ret \<noteq> None" using True by simp
      note ih = 1(1) [OF refl Some nn eq pre]
      show ?thesis using ih True l len by (cases "fd_drop f") auto
    qed
  qed
qed

section \<open>A pipe with commands\<close>

text \<open>What a source of commands promises: it never gives more than is asked for, hands over the \<open>rest\<close> of its text in
  order, and reports the end of the file only when all of it was handed over. The \<open>budget\<close> bounds how often it reports that
  it has nothing to give.\<close>

locale cmd_source =
  fixes rf :: "nat \<Rightarrow> 'd \<Rightarrow> (read_result \<times> 'd) option" and rest :: "'d \<Rightarrow> string" and budget :: "'d \<Rightarrow> nat"
  assumes read_law: "0 < n \<Longrightarrow> \<exists>r d'. rf n d = Some (r, d') \<and> r \<noteq> MP_INPUT_DEAD \<and>
    (case r of READ bs \<Rightarrow> length bs \<le> n \<and> rest d = bs @ rest d' \<and> (if bs = [] then rest d = [] else budget d' + length bs < budget d)
       | _ \<Rightarrow> rest d' = rest d \<and> budget d' < budget d)"

text \<open>All calls for one descriptor, until it is removed: the lines that were returned.\<close>

partial_function (option) serve_cmd_fd ::
    "(nat \<Rightarrow> 'd \<Rightarrow> (read_result \<times> 'd) option) \<Rightarrow> mp_input_fd \<Rightarrow> 'd \<Rightarrow> string list option" where
  "serve_cmd_fd rf f d =
     (if fd_dead f \<or> fd_eof f then Some [] else do {
        (code, cmd, f, d) \<leftarrow> mp_input_read_cmd rf f d;
        cmds \<leftarrow> serve_cmd_fd rf (if code = Some MP_INPUT_DEAD then f\<lparr>fd_dead := True\<rparr> else f) d;
        Some (list_of cmd @ cmds)
      })"

context cmd_source
begin

text \<open>What filling the buffer leads to, when the budget is \<open>m\<close> and the text still to come is \<open>txt\<close>.\<close>

definition filled :: "mp_input_fd \<Rightarrow> nat \<Rightarrow> string \<Rightarrow> read_result option \<Rightarrow> mp_input_fd \<Rightarrow> 'd \<Rightarrow> bool" where
  "filled f m txt code f' d' \<longleftrightarrow> code \<noteq> Some MP_INPUT_DEAD \<and> fd_dead f' = fd_dead f \<and>
    fd_drop f' = fd_drop f \<and> fd_got_cmd f' = fd_got_cmd f \<and> length (fd_buffer f') < MP_CMD_MAX_SIZE \<and>
    fd_buffer f' @ rest d' = txt \<and>
    (if code \<noteq> None then f' = f \<and> budget d' < m
     else if fd_eof f' then rest d' = [] \<and> fd_buffer f' = fd_buffer f \<and> \<not> fd_got_cmd f
     else if fd_got_cmd f then f' = f \<and> budget d' \<le> m
     else budget d' + length (fd_buffer f') < m + length (fd_buffer f))"

lemma filled_mono: "filled f m txt code f' d' \<Longrightarrow> m \<le> m' \<Longrightarrow> filled f m' txt code f' d'"
  by (auto simp: filled_def split: if_splits)

lemma fill_returns:
  assumes "fd_ok f" "\<not> fd_eof f"
  shows "\<exists>code f' d'. read_cmd_fill rf f d = Some (code, f', d') \<and> filled f (budget d) (fd_buffer f @ rest d) code f' d'"
proof (induction "budget d" arbitrary: d rule: less_induct)
  case less
  have len: "length (fd_buffer f) < MP_CMD_MAX_SIZE" using assms(1) by (simp add: fd_ok_def)
  show ?case
  proof (cases "fd_got_cmd f")
    case True
    then show ?thesis using assms(2) len by (subst read_cmd_fill.simps) (simp add: filled_def)
  next
    case False
    let ?n = "MP_CMD_MAX_SIZE - 1 - length (fd_buffer f)"
    have n: "0 < ?n" "\<not> MP_CMD_MAX_SIZE \<le> length (fd_buffer f) + 1" using assms(1) False by (auto simp: fd_ok_def)
    from read_law [OF n(1), of d] obtain r d' where r: "rf ?n d = Some (r, d')" "r \<noteq> MP_INPUT_DEAD"
      "case r of READ bs \<Rightarrow> length bs \<le> ?n \<and> rest d = bs @ rest d' \<and> (if bs = [] then rest d = [] else budget d' + length bs < budget d)
       | _ \<Rightarrow> rest d' = rest d \<and> budget d' < budget d" by blast
    note step = read_cmd_fill.simps [of rf f d]
    show ?thesis
    proof (cases r)
      case (READ bs)
      show ?thesis
      proof (cases "bs = []")
        case True
        then have "read_cmd_fill rf f d = Some (None, f\<lparr>fd_eof := True\<rparr>, d')"
          using READ r(1) False assms(2) n(2) by (simp add: step)
        moreover have "filled f (budget d) (fd_buffer f @ rest d) None (f\<lparr>fd_eof := True\<rparr>) d'"
          using READ r(3) True False len by (auto simp: filled_def)
        ultimately show ?thesis by blast
      next
        case ne: False
        then have "read_cmd_fill rf f d = Some (None, f\<lparr>fd_buffer := fd_buffer f @ bs\<rparr>, d')"
          using READ r(1) False assms(2) n(2) by (simp add: step)
        moreover have "filled f (budget d) (fd_buffer f @ rest d) None (f\<lparr>fd_buffer := fd_buffer f @ bs\<rparr>) d'"
          using READ r(3) ne False len assms(2) n by (simp add: filled_def, linarith)
        ultimately show ?thesis by blast
      qed
    next
      case MP_INPUT_RETRY
      then have b: "budget d' < budget d" "rest d' = rest d" using r(3) by simp_all
      have "read_cmd_fill rf f d = read_cmd_fill rf f d'"
        using MP_INPUT_RETRY r(1) False assms(2) n(2) by (simp add: step)
      moreover obtain code f' d'' where "read_cmd_fill rf f d' = Some (code, f', d'')"
        "filled f (budget d') (fd_buffer f @ rest d') code f' d''" using less [OF b(1)] by blast
      ultimately show ?thesis using filled_mono [of f "budget d'" _ code f' d'' "budget d"] b by auto
    next
      case MP_INPUT_ERROR
      then have "read_cmd_fill rf f d = Some (Some r, f, d')" "filled f (budget d) (fd_buffer f @ rest d) (Some r) f d'"
        using r n(2) False assms(2) len by (simp_all add: step filled_def)
      then show ?thesis by blast
    next
      case MP_INPUT_NO_INPUT
      then have "read_cmd_fill rf f d = Some (Some r, f, d')" "filled f (budget d) (fd_buffer f @ rest d) (Some r) f d'"
        using r n(2) False assms(2) len by (simp_all add: step filled_def)
      then show ?thesis by blast
    qed (use r(2) in simp)
  qed
qed

lemma no_nul_append: "no_nul (a @ b) \<longleftrightarrow> no_nul a \<and> no_nul b"
  by (auto simp: no_nul_def)

text \<open>One call hands over at most one line of what is still to come, and uses up some of the source or of the buffer.\<close>

lemma read_cmd_step:
  assumes "fd_ok f" "\<not> fd_eof f" "no_nul (rest d)"
  shows "\<exists>code cmd f' d'. mp_input_read_cmd rf f d = Some (code, cmd, f', d') \<and> code \<noteq> Some MP_INPUT_DEAD \<and>
    lines_left f (rest d) = list_of cmd @ lines_left f' (rest d') \<and> fd_ok f' \<and> no_nul (rest d') \<and> fd_dead f' = fd_dead f \<and>
    (if fd_eof f' then cmd = None \<and> lines_left f' (rest d') = []
     else budget d' + length (fd_buffer f') < budget d + length (fd_buffer f))"
proof -
  obtain code g e where g: "read_cmd_fill rf f d = Some (code, g, e)" "filled f (budget d) (fd_buffer f @ rest d) code g e"
    using fill_returns [OF assms(1,2)] by blast
  have nn: "no_nul (rest e)" "no_nul (fd_buffer g)"
    using g(2) assms no_nul_append [of "fd_buffer g" "rest e"] no_nul_append [of "fd_buffer f" "rest d"]
    by (simp_all add: filled_def fd_ok_def)
  have left: "lines_left g (rest e) = lines_left f (rest d)" using g(2) by (simp add: filled_def lines_left_def)
  show ?thesis
  proof (cases "code = None")
    case False
    then have "mp_input_read_cmd rf f d = Some (code, None, g, e)" using g(1) by (auto simp: mp_input_read_cmd_def)
    moreover have "g = f" "budget e < budget d" "code \<noteq> Some MP_INPUT_DEAD" using g(2) False by (simp_all add: filled_def)
    ultimately show ?thesis using nn(1) left assms(1,2)
      by - (rule exI [of _ code], rule exI [of _ None], rule exI [of _ g], rule exI [of _ e], simp)
  next
    case True
    let ?g = "g\<lparr>fd_got_cmd := False\<rparr>"
    obtain ret f' where s: "read_cmd_scan ?g None = (ret, f')" by (cases "read_cmd_scan ?g None") auto
    have res: "mp_input_read_cmd rf f d = Some (if ret = None then Some MP_INPUT_NO_INPUT else None, ret, f', e)"
      using g(1) True s by (simp add: mp_input_read_cmd_def)
    have len: "length (fd_buffer g) < MP_CMD_MAX_SIZE" using g(2) by (simp add: filled_def)
    note scan = scan_lines [OF s, of "rest e"]
    have post: "lines_left g (rest e) = list_of ret @ lines_left f' (rest e)" "fd_ok f'" "fd_eof f' = fd_eof g" "fd_dead f' = fd_dead g"
      "length (fd_buffer f') \<le> length (fd_buffer g)" "\<not> unended (fd_buffer g) \<Longrightarrow> length (fd_buffer f') < length (fd_buffer g)"
      using scan nn(2) len by (simp_all add: lines_left_def)
    have fin: "if fd_eof f' then ret = None \<and> lines_left f' (rest e) = []
      else budget e + length (fd_buffer f') < budget d + length (fd_buffer f)"
    proof (cases "fd_eof g")
      case eof: True
      then have "rest e = []" "unended (fd_buffer g)" using g(2) True assms(1) by (auto simp: filled_def fd_ok_def)
      then have "lines_left g (rest e) = []" by (simp add: lines_left_def kept_lines_none)
      then show ?thesis using post(1,3) eof by (cases ret) simp_all
    next
      case eof: False
      then show ?thesis using g(2) True post(3,5,6) assms(1) by (cases "fd_got_cmd f") (auto simp: filled_def fd_ok_def)
    qed
    show ?thesis using res post(1,2,4) left nn(1) g(2) fin by (auto simp: filled_def)
  qed
qed

theorem serve_lines:
  assumes "fd_ok f" "\<not> fd_eof f" "\<not> fd_dead f" "no_nul (rest d)"
  shows "serve_cmd_fd rf f d = Some (lines_left f (rest d))"
  using assms
proof (induction "budget d + length (fd_buffer f)" arbitrary: f d rule: less_induct)
  case less
  from read_cmd_step [OF less.prems(1,2,4)] obtain code cmd f' d' where s:
    "mp_input_read_cmd rf f d = Some (code, cmd, f', d')" "code \<noteq> Some MP_INPUT_DEAD"
    "lines_left f (rest d) = list_of cmd @ lines_left f' (rest d')" "fd_ok f'" "no_nul (rest d')" "fd_dead f' = fd_dead f"
    "if fd_eof f' then cmd = None \<and> lines_left f' (rest d') = []
     else budget d' + length (fd_buffer f') < budget d + length (fd_buffer f)" by blast
  have "serve_cmd_fd rf f' d' = Some (lines_left f' (rest d'))"
  proof (cases "fd_eof f'")
    case True
    then show ?thesis using s(7) by (subst serve_cmd_fd.simps) simp
  next
    case False
    then show ?thesis using s(4-7) less.prems(3) by (intro less.hyps) simp_all
  qed
  then show ?case using s(1-3) less.prems(2,3) by (subst serve_cmd_fd.simps) simp
qed

end

section \<open>The pipe of the system is such a source\<close>

text \<open>A pipe: the pieces that successive \<open>read\<close> calls find in it, and calls that fail in between. A piece that is longer
  than the caller's memory is handed over in parts; an empty one does not end the call.\<close>

fun pipe_read :: "nat \<Rightarrow> sys_read list \<Rightarrow> sys_read \<times> sys_read list" where
  "pipe_read n [] = (SYS_BYTES [], [])"
| "pipe_read n (SYS_BYTES bs # ps) = (if bs = [] then pipe_read n ps
     else (SYS_BYTES (take n bs), if length bs \<le> n then ps else SYS_BYTES (drop n bs) # ps))"
| "pipe_read n (p # ps) = (p, ps)"

fun pipe_text :: "sys_read list \<Rightarrow> string" where
  "pipe_text [] = []"
| "pipe_text (SYS_BYTES bs # ps) = bs @ pipe_text ps"
| "pipe_text (p # ps) = pipe_text ps"

fun pipe_budget :: "sys_read list \<Rightarrow> nat" where
  "pipe_budget [] = 0"
| "pipe_budget (SYS_BYTES bs # ps) = 2 * length bs + 1 + pipe_budget ps"
| "pipe_budget (p # ps) = 1 + pipe_budget ps"

lemma pipe_read_law:
  assumes "0 < n"
  shows "\<exists>r ps'. mp_input_default_cmd_func pipe_read n ps = Some (r, ps') \<and> r \<noteq> MP_INPUT_DEAD \<and>
    (case r of READ bs \<Rightarrow> length bs \<le> n \<and> pipe_text ps = bs @ pipe_text ps' \<and>
         (if bs = [] then pipe_text ps = [] else pipe_budget ps' + length bs < pipe_budget ps)
       | _ \<Rightarrow> pipe_text ps' = pipe_text ps \<and> pipe_budget ps' < pipe_budget ps)"
proof (induction ps)
  case Nil
  show ?case by (subst mp_input_default_cmd_func.simps) simp
next
  case (Cons p ps)
  note step = mp_input_default_cmd_func.simps [of pipe_read n "p # ps"]
  obtain r ps' where r: "mp_input_default_cmd_func pipe_read n ps = Some (r, ps')" "r \<noteq> MP_INPUT_DEAD"
    "case r of READ bs \<Rightarrow> length bs \<le> n \<and> pipe_text ps = bs @ pipe_text ps' \<and>
         (if bs = [] then pipe_text ps = [] else pipe_budget ps' + length bs < pipe_budget ps)
       | _ \<Rightarrow> pipe_text ps' = pipe_text ps \<and> pipe_budget ps' < pipe_budget ps" using Cons by blast
  have skip: ?case if "mp_input_default_cmd_func pipe_read n (p # ps) = mp_input_default_cmd_func pipe_read n ps"
      "pipe_text (p # ps) = pipe_text ps" "pipe_budget ps \<le> pipe_budget (p # ps)"
    using r that by (cases r) (auto split: if_splits)
  show ?case
  proof (cases p)
    case (SYS_BYTES bs)
    show ?thesis
    proof (cases "bs = []")
      case True
      then show ?thesis
        using SYS_BYTES mp_input_default_cmd_func.simps [of pipe_read n ps]
          mp_input_default_cmd_func.simps [of pipe_read n "SYS_BYTES [] # ps"] by (intro skip) simp_all
    next
      case False
      then show ?thesis using assms unfolding SYS_BYTES mp_input_default_cmd_func.simps [of pipe_read n "SYS_BYTES bs # ps"] by (simp, arith)
    qed
  next
    case SYS_EINTR
    then show ?thesis using step by (intro skip) simp_all
  next
    case SYS_EAGAIN
    then show ?thesis using step by simp
  next
    case SYS_FAIL
    then show ?thesis using step by simp
  qed
qed

interpretation pipe: cmd_source "mp_input_default_cmd_func pipe_read" pipe_text pipe_budget
  by unfold_locales (rule pipe_read_law)

section \<open>Properties\<close>

lemma new_fd_ok: "fd_ok new_input_fd" "\<not> fd_eof new_input_fd" "\<not> fd_dead new_input_fd" "lines_left new_input_fd txt = kept_lines False txt"
  by (simp_all add: fd_ok_def new_input_fd_def no_nul_def MP_CMD_MAX_SIZE_def lines_left_def)

lemma kept_lines_written:
  assumes "list_all (\<lambda>l. unended l \<and> length l + 1 < MP_CMD_MAX_SIZE) ls" "unended rest"
  shows "kept_lines False (concat (map (\<lambda>l. l @ [CHR 0x0A]) ls) @ rest) = ls"
  using assms
proof (induction ls)
  case Nil
  then show ?case by (simp add: kept_lines_none)
next
  case (Cons l ls)
  then show ?case
    using kept_lines_line [of l "CHR 0x0A" False "concat (map (\<lambda>l. l @ [CHR 0x0A]) ls) @ rest"] by simp
qed

text \<open>The lines of a command pipe are handed over one by one, complete and in order, however the system splits the text
  into reads and whatever calls fail in between: exactly the lines that end in a newline or carriage return and have at
  most 4094 characters. So lines that another program writes, each with a newline after it, arrive as they are; a last line
  without an end is lost.\<close>

theorem slave_pipe_lines:
  assumes "no_nul (pipe_text ps)"
  shows "serve_cmd_fd (mp_input_default_cmd_func pipe_read) new_input_fd ps = Some (kept_lines False (pipe_text ps)) \<and>
    (\<forall>ls rest. pipe_text ps = concat (map (\<lambda>l. l @ [CHR 0x0A]) ls) @ rest \<longrightarrow> unended rest \<longrightarrow>
       list_all (\<lambda>l. unended l \<and> length l \<le> 4094) ls \<longrightarrow> kept_lines False (pipe_text ps) = ls)"
proof (intro conjI allI impI)
  show "serve_cmd_fd (mp_input_default_cmd_func pipe_read) new_input_fd ps = Some (kept_lines False (pipe_text ps))"
    using pipe.serve_lines [OF new_fd_ok(1-3) assms] by (simp add: new_fd_ok)
  fix ls rest
  assume "pipe_text ps = concat (map (\<lambda>l. l @ [CHR 0x0A]) ls) @ rest" "unended rest"
    "list_all (\<lambda>l. unended l \<and> length l \<le> 4094) ls"
  moreover from this have "list_all (\<lambda>l. unended l \<and> length l + 1 < MP_CMD_MAX_SIZE) ls"
    by (force simp: list_all_iff MP_CMD_MAX_SIZE_def)
  ultimately show "kept_lines False (pipe_text ps) = ls" by (simp add: kept_lines_written)
qed

theorem slave_pipe_lines_witness:
  "serve_cmd_fd (mp_input_default_cmd_func pipe_read) new_input_fd
     [SYS_BYTES ''pau'', SYS_EINTR, SYS_BYTES [CHR ''s'', CHR ''e'', CHR 0x0A, CHR ''m''], SYS_EAGAIN,
      SYS_BYTES [CHR ''u'', CHR ''t'', CHR ''e'', CHR 0x0D, CHR ''x'']]
   = Some [''pause'', ''mute'']"
proof -
  let ?ps = "[SYS_BYTES ''pau'', SYS_EINTR, SYS_BYTES [CHR ''s'', CHR ''e'', CHR 0x0A, CHR ''m''], SYS_EAGAIN,
      SYS_BYTES [CHR ''u'', CHR ''t'', CHR ''e'', CHR 0x0D, CHR ''x'']]"
  have "no_nul (pipe_text ?ps)" by code_simp
  moreover have "kept_lines False (pipe_text ?ps) = [''pause'', ''mute'']" by code_simp
  ultimately show ?thesis using slave_pipe_lines [of ?ps] by simp
qed

end
