(* ===== verification/InputKeys.thy ===== *)
theory InputKeys
  imports InputCmd KeyFifo
begin

text \<open>
  From key codes to commands, input/input.c: the names of keys, the tables of bindings with their sections, the keys held
  down with the commands of their combinations, and autorepeat. The array \<open>key_down\<close> has bounds: writing outside it is
  \<open>None\<close>. Time is the 32-bit microsecond timer of the player.
\<close>

unbundle bit_operations_syntax

section \<open>Names of keys\<close>

definition MP_MAX_KEY_DOWN :: nat where "MP_MAX_KEY_DOWN = 8"
definition KEY_BASE :: code where "KEY_BASE = 0x1000000"

definition key_names :: "(code \<times> string) list" where
  "key_names =
    [(0x20, ''SPACE''), (0x23, ''SHARP''), (0xd, ''ENTER''), (0x9, ''TAB''),
     (0x1000030, ''CTRL''), (0x8, ''BS''), (0x7f, ''DEL''), (0x1000000, ''INS''),
     (0x1000001, ''HOME''), (0x1000002, ''END''), (0x1000003, ''PGUP''), (0x1000004, ''PGDWN''),
     (0x1b, ''ESC''), (0x1000010, ''RIGHT''), (0x1000011, ''LEFT''), (0x1000012, ''DOWN''),
     (0x1000013, ''UP''), (0x1000041, ''F1''), (0x1000042, ''F2''), (0x1000043, ''F3''),
     (0x1000044, ''F4''), (0x1000045, ''F5''), (0x1000046, ''F6''), (0x1000047, ''F7''),
     (0x1000048, ''F8''), (0x1000049, ''F9''), (0x100004a, ''F10''), (0x100004b, ''F11''),
     (0x100004c, ''F12''), (0x1000020, ''KP0''), (0x1000021, ''KP1''), (0x1000022, ''KP2''),
     (0x1000023, ''KP3''), (0x1000024, ''KP4''), (0x1000025, ''KP5''), (0x1000026, ''KP6''),
     (0x1000027, ''KP7''), (0x1000028, ''KP8''), (0x1000029, ''KP9''), (0x100002c, ''KP_DEL''),
     (0x100002a, ''KP_DEC''), (0x100002b, ''KP_INS''), (0x100002d, ''KP_ENTER''), (0x10000200, ''MOUSE_BTN0''),
     (0x10000201, ''MOUSE_BTN1''), (0x10000202, ''MOUSE_BTN2''), (0x10000203, ''MOUSE_BTN3''), (0x10000204, ''MOUSE_BTN4''),
     (0x10000205, ''MOUSE_BTN5''), (0x10000206, ''MOUSE_BTN6''), (0x10000207, ''MOUSE_BTN7''), (0x10000208, ''MOUSE_BTN8''),
     (0x10000209, ''MOUSE_BTN9''), (0x1000020a, ''MOUSE_BTN10''), (0x1000020b, ''MOUSE_BTN11''), (0x1000020c, ''MOUSE_BTN12''),
     (0x1000020d, ''MOUSE_BTN13''), (0x1000020e, ''MOUSE_BTN14''), (0x1000020f, ''MOUSE_BTN15''), (0x10000210, ''MOUSE_BTN16''),
     (0x10000211, ''MOUSE_BTN17''), (0x10000212, ''MOUSE_BTN18''), (0x10000213, ''MOUSE_BTN19''), (0x10000300, ''MOUSE_BTN0_DBL''),
     (0x10000301, ''MOUSE_BTN1_DBL''), (0x10000302, ''MOUSE_BTN2_DBL''), (0x10000303, ''MOUSE_BTN3_DBL''), (0x10000304, ''MOUSE_BTN4_DBL''),
     (0x10000305, ''MOUSE_BTN5_DBL''), (0x10000306, ''MOUSE_BTN6_DBL''), (0x10000307, ''MOUSE_BTN7_DBL''), (0x10000308, ''MOUSE_BTN8_DBL''),
     (0x10000309, ''MOUSE_BTN9_DBL''), (0x1000030a, ''MOUSE_BTN10_DBL''), (0x1000030b, ''MOUSE_BTN11_DBL''), (0x1000030c, ''MOUSE_BTN12_DBL''),
     (0x1000030d, ''MOUSE_BTN13_DBL''), (0x1000030e, ''MOUSE_BTN14_DBL''), (0x1000030f, ''MOUSE_BTN15_DBL''), (0x10000310, ''MOUSE_BTN16_DBL''),
     (0x10000311, ''MOUSE_BTN17_DBL''), (0x10000312, ''MOUSE_BTN18_DBL''), (0x10000313, ''MOUSE_BTN19_DBL''), (0x183, ''JOY_UP''),
     (0x182, ''JOY_DOWN''), (0x181, ''JOY_LEFT''), (0x180, ''JOY_RIGHT''), (0x180, ''JOY_AXIS0_PLUS''),
     (0x181, ''JOY_AXIS0_MINUS''), (0x182, ''JOY_AXIS1_PLUS''), (0x183, ''JOY_AXIS1_MINUS''), (0x184, ''JOY_AXIS2_PLUS''),
     (0x185, ''JOY_AXIS2_MINUS''), (0x186, ''JOY_AXIS3_PLUS''), (0x187, ''JOY_AXIS3_MINUS''), (0x188, ''JOY_AXIS4_PLUS''),
     (0x189, ''JOY_AXIS4_MINUS''), (0x18a, ''JOY_AXIS5_PLUS''), (0x18b, ''JOY_AXIS5_MINUS''), (0x18c, ''JOY_AXIS6_PLUS''),
     (0x18d, ''JOY_AXIS6_MINUS''), (0x18e, ''JOY_AXIS7_PLUS''), (0x18f, ''JOY_AXIS7_MINUS''), (0x190, ''JOY_AXIS8_PLUS''),
     (0x191, ''JOY_AXIS8_MINUS''), (0x192, ''JOY_AXIS9_PLUS''), (0x193, ''JOY_AXIS9_MINUS''), (0x10000194, ''JOY_BTN0''),
     (0x10000195, ''JOY_BTN1''), (0x10000196, ''JOY_BTN2''), (0x10000197, ''JOY_BTN3''), (0x10000198, ''JOY_BTN4''),
     (0x10000199, ''JOY_BTN5''), (0x1000019a, ''JOY_BTN6''), (0x1000019b, ''JOY_BTN7''), (0x1000019c, ''JOY_BTN8''),
     (0x1000019d, ''JOY_BTN9''), (0x500, ''AR_PLAY''), (0x501, ''AR_PLAY_HOLD''), (0x502, ''AR_NEXT''),
     (0x503, ''AR_NEXT_HOLD''), (0x504, ''AR_PREV''), (0x505, ''AR_PREV_HOLD''), (0x506, ''AR_MENU''),
     (0x507, ''AR_MENU_HOLD''), (0x508, ''AR_VUP''), (0x509, ''AR_VDOWN''), (0x1000180, ''POWER''),
     (0x1000181, ''MENU''), (0x1000182, ''PLAY''), (0x1000183, ''PAUSE''), (0x1000184, ''PLAYPAUSE''),
     (0x1000185, ''STOP''), (0x1000186, ''FORWARD''), (0x1000187, ''REWIND''), (0x1000188, ''NEXT''),
     (0x1000189, ''PREV''), (0x100018a, ''VOLUME_UP''), (0x100018b, ''VOLUME_DOWN''), (0x100018c, ''MUTE''),
     (0x1000183, ''XF86_PAUSE''), (0x1000185, ''XF86_STOP''), (0x1000189, ''XF86_PREV''), (0x1000188, ''XF86_NEXT''),
     (0x1001000, ''CLOSE_WIN'')]"

definition hex_value :: "char \<Rightarrow> int option" where
  "hex_value c = (if is_digit c then Some (digit_value c)
     else if CHR ''a'' \<le> tolower c \<and> tolower c \<le> CHR ''f'' then Some (int (char_code (tolower c)) - 87) else None)"

fun strtol16 :: "int \<Rightarrow> string \<Rightarrow> int" where
  "strtol16 v [] = v"
| "strtol16 v (c # cs) = (case hex_value c of None \<Rightarrow> v | Some d \<Rightarrow> strtol16 (16 * v + d) cs)"

text \<open>The bytes after the first of a UTF-8 sequence; \<open>None\<close> is an error. The end of the string is one.\<close>

fun get_utf8_rest :: "code \<Rightarrow> code \<Rightarrow> string \<Rightarrow> (code \<times> code \<times> string) option" where
  "get_utf8_rest val tp [] = (if val AND tp = 0 then Some (val, tp, []) else None)"
| "get_utf8_rest val tp (c # cs) =
     (if val AND tp = 0 then Some (val, tp, c # cs)
      else let tmp = of_nat (char_code c) - 128
        in if drop_bit 6 tmp \<noteq> 0 then None else get_utf8_rest (push_bit 6 val + tmp) (push_bit 5 tp) cs)"

definition get_utf8 :: "char \<Rightarrow> string \<Rightarrow> (code \<times> string) option" where
  "get_utf8 c cs = (let val = of_nat (char_code c); tp = drop_bit 1 (val AND 128)
     in if val AND 0xC0 = 0x80 \<or> 0xFE \<le> val then None
        else map_option (\<lambda>(val, tp, cs). (val AND (push_bit 1 tp - 1), cs)) (get_utf8_rest val tp cs))"

text \<open>The byte behind an empty name, which the loop below has there, is not 0.\<close>

definition mp_input_get_key_from_name :: "string \<Rightarrow> code" where
  "mp_input_get_key_from_name name =
     (case name of
        [] \<Rightarrow> - 1
      | [c] \<Rightarrow> of_nat (char_code c)
      | c # cs \<Rightarrow>
          if length name > 2 \<and> name_matches ''0x'' name then
            (let v = strtol16 0 (drop 2 name) in if 2 ^ 63 \<le> v then - 1 else word_of_int v)
          else (case find (\<lambda>(k, n). av_strcaseeq n name) key_names of
              Some (k, n) \<Rightarrow> k
            | None \<Rightarrow> (case get_utf8 c cs of
                 Some (utf8, rest) \<Rightarrow> if rest = [] \<and> utf8 < KEY_BASE then utf8 else - 1
               | None \<Rightarrow> - 1)))"

text \<open>The names of a combination, separated by minus signs, from the \<open>n\<close>-th on.\<close>

function input_from_name :: "nat \<Rightarrow> string \<Rightarrow> code list option" where
  "input_from_name n ptr =
     (if ptr = [] \<or> MP_MAX_KEY_DOWN \<le> n then Some [] else
      let (name, rest) = (case strchr (CHR ''-'') ptr of
            None \<Rightarrow> (ptr, [])
          | Some k \<Rightarrow> if drop (k + 1) ptr = [] then (ptr, [])
              else if ptr ! (k + 1) = CHR ''-'' then (take (k + 1) ptr, drop (k + 2) ptr)
              else (take k ptr, drop (k + 1) ptr));
          key = mp_input_get_key_from_name name
      in if sint key < 0 then None else map_option (\<lambda>ks. key # ks) (input_from_name (n + 1) rest))"
  by pat_completeness auto
termination by (relation "measure (\<lambda>(n, ptr). MP_MAX_KEY_DOWN - n)") auto

declare input_from_name.simps [simp del]

definition mp_input_get_input_from_name :: "string \<Rightarrow> code list option" where
  "mp_input_get_input_from_name name = input_from_name 0 name"

section \<open>Bindings\<close>

text \<open>The codes of a binding are those before the 0 that ends them.\<close>

record mp_cmd_bind =
  bind_input :: "code list"
  bind_cmd :: string

definition def_cmd_bind_table :: "(string \<times> code list \<times> string) list" where
  "def_cmd_bind_table =
    [('''', [0x1000030], ''ignore''), ('''', [0x10000203], ''seek 10''), ('''', [0x10000204], ''seek -10''),
     ('''', [0x10000205], ''volume 1''), ('''', [0x10000206], ''volume -1''), (''CONFIG_DVDNAV'', [0x1000028], ''dvdnav up''),
     (''CONFIG_DVDNAV'', [0x1000022], ''dvdnav down''), (''CONFIG_DVDNAV'', [0x1000024], ''dvdnav left''), (''CONFIG_DVDNAV'', [0x1000026], ''dvdnav right''),
     (''CONFIG_DVDNAV'', [0x1000025], ''dvdnav menu''), (''CONFIG_DVDNAV'', [0x100002d], ''dvdnav select''), (''CONFIG_DVDNAV'', [0x10000200], ''dvdnav mouse''),
     (''CONFIG_DVDNAV'', [0x1000027], ''dvdnav prev''), ('''', [0x1000010], ''seek 10''), ('''', [0x1000011], ''seek -10''),
     ('''', [0x1000013], ''seek 60''), ('''', [0x1000012], ''seek -60''), ('''', [0x1000003], ''seek 600''),
     ('''', [0x1000004], ''seek -600''), ('''', [0x2b], ''audio_delay 0.100''), ('''', [0x2d], ''audio_delay -0.100''),
     ('''', [0x5b], ''speed_mult 0.9091''), ('''', [0x5d], ''speed_mult 1.1''), ('''', [0x7b], ''speed_mult 0.5''),
     ('''', [0x7d], ''speed_mult 2.0''), ('''', [0x8], ''speed_set 1.0''), ('''', [0x71], ''quit''),
     ('''', [0x1b], ''quit''), ('''', [0x70], ''pause''), ('''', [0x20], ''pause''),
     ('''', [0x2e], ''frame_step''), ('''', [0x1000001], ''pt_up_step 1''), ('''', [0x1000002], ''pt_up_step -1''),
     ('''', [0x3e], ''pt_step 1''), ('''', [0xd], ''pt_step 1 1''), ('''', [0x3c], ''pt_step -1''),
     ('''', [0x1000000], ''alt_src_step 1''), ('''', [0x7f], ''alt_src_step -1''), ('''', [0x6f], ''osd''),
     ('''', [0x49], ''osd_show_property_text '' @ CHR 0x22 # ''${filename}'' @ [CHR 0x22]), ('''', [0x50], ''osd_show_progression''), ('''', [0x7a], ''sub_delay -0.1''),
     ('''', [0x78], ''sub_delay +0.1''), ('''', [0x67], ''sub_step -1''), ('''', [0x79], ''sub_step +1''),
     ('''', [0x39], ''volume -1''), ('''', [0x2f], ''volume -1''), ('''', [0x30], ''volume 1''),
     ('''', [0x2a], ''volume 1''), ('''', [0x28], ''balance -0.1''), ('''', [0x29], ''balance 0.1''),
     ('''', [0x6d], ''mute''), ('''', [0x31], ''contrast -1''), ('''', [0x32], ''contrast 1''),
     ('''', [0x33], ''brightness -1''), ('''', [0x34], ''brightness 1''), ('''', [0x35], ''hue -1''),
     ('''', [0x36], ''hue 1''), ('''', [0x37], ''saturation -1''), ('''', [0x38], ''saturation 1''),
     ('''', [0x64], ''frame_drop''), ('''', [0x44], ''step_property deinterlace''), ('''', [0x72], ''sub_pos -1''),
     ('''', [0x74], ''sub_pos +1''), ('''', [0x61], ''sub_alignment''), ('''', [0x76], ''sub_visibility''),
     ('''', [0x6a], ''sub_select''), ('''', [0x4a], ''sub_select -3''), ('''', [0x46], ''forced_subs_only''),
     ('''', [0x23], ''switch_audio''), ('''', [0x5f], ''step_property switch_video''), ('''', [0x9], ''step_property switch_program''),
     ('''', [0x69], ''edl_mark''), (''CONFIG_TV'', [0x68], ''tv_step_channel 1''), (''CONFIG_TV'', [0x6b], ''tv_step_channel -1''),
     (''CONFIG_TV'', [0x6e], ''tv_step_norm''), (''CONFIG_TV'', [0x75], ''tv_step_chanlist''), ('''', [0x58], ''step_property teletext_mode 1''),
     ('''', [0x57], ''step_property teletext_page 1''), ('''', [0x51], ''step_property teletext_page -1''), (''CONFIG_JOYSTICK'', [0x180], ''seek 10''),
     (''CONFIG_JOYSTICK'', [0x181], ''seek -10''), (''CONFIG_JOYSTICK'', [0x183], ''seek 60''), (''CONFIG_JOYSTICK'', [0x182], ''seek -60''),
     (''CONFIG_JOYSTICK'', [0x10000194], ''pause''), (''CONFIG_JOYSTICK'', [0x10000195], ''osd''), (''CONFIG_JOYSTICK'', [0x10000196], ''volume 1''),
     (''CONFIG_JOYSTICK'', [0x10000197], ''volume -1''), (''CONFIG_APPLE_REMOTE'', [0x500], ''pause''), (''CONFIG_APPLE_REMOTE'', [0x501], ''quit''),
     (''CONFIG_APPLE_REMOTE'', [0x502], ''seek 30''), (''CONFIG_APPLE_REMOTE'', [0x503], ''seek 120''), (''CONFIG_APPLE_REMOTE'', [0x504], ''seek -10''),
     (''CONFIG_APPLE_REMOTE'', [0x505], ''seek -120''), (''CONFIG_APPLE_REMOTE'', [0x506], ''osd''), (''CONFIG_APPLE_REMOTE'', [0x507], ''mute''),
     (''CONFIG_APPLE_REMOTE'', [0x508], ''volume 1''), (''CONFIG_APPLE_REMOTE'', [0x509], ''volume -1''), ('''', [0x54], ''vo_ontop''),
     ('''', [0x66], ''vo_fullscreen''), ('''', [0x63], ''capturing''), ('''', [0x73], ''screenshot 0''),
     ('''', [0x53], ''screenshot 1''), ('''', [0x77], ''panscan -0.1''), ('''', [0x65], ''panscan +0.1''),
     ('''', [0x1000180], ''quit''), ('''', [0x1000181], ''osd''), ('''', [0x1000182], ''pause''),
     ('''', [0x1000183], ''pause''), ('''', [0x1000184], ''pause''), ('''', [0x1000185], ''quit''),
     ('''', [0x1000186], ''seek 60''), ('''', [0x1000187], ''seek -60''), ('''', [0x1000188], ''pt_step 1''),
     ('''', [0x1000189], ''pt_step -1''), ('''', [0x100018a], ''volume 1''), ('''', [0x100018b], ''volume -1''),
     ('''', [0x100018c], ''mute''), ('''', [0x1001000], ''quit''), ('''', [0x21], ''seek_chapter -1''),
     ('''', [0x40], ''seek_chapter 1''), ('''', [0x41], ''switch_angle 1''), ('''', [0x55], ''stop'')]"

definition def_cmd_binds :: "string set \<Rightarrow> mp_cmd_bind list" where
  "def_cmd_binds cfg = map (\<lambda>(g, i, c). \<lparr>bind_input = i, bind_cmd = c\<rparr>) (filter (\<lambda>(g, i, c). g = '''' \<or> g \<in> cfg) def_cmd_bind_table)"

fun keys_match :: "code list \<Rightarrow> code list \<Rightarrow> bool" where
  "keys_match (i # is) (k # ks) = (i = k \<and> keys_match is ks)"
| "keys_match is ks = (is = [] \<and> ks = [])"

definition mp_input_find_bind_for_key :: "mp_cmd_bind list \<Rightarrow> code list \<Rightarrow> string option" where
  "mp_input_find_bind_for_key binds keys =
     (if keys = [] then None else map_option bind_cmd (find (\<lambda>b. keys_match (bind_input b) keys) binds))"

text \<open>The sections of bindings, and the two tables that \<open>mp_input_set_section\<close> selected. An empty table is the null
  pointer.\<close>

record bindings =
  bs_sections :: "(string \<times> mp_cmd_bind list) list"
  bs_section :: "string option"
  bs_cmd_binds :: "mp_cmd_bind list"
  bs_cmd_binds_default :: "mp_cmd_bind list"
  bs_default_bindings :: bool

definition section_name :: "string option \<Rightarrow> string" where
  "section_name s = (case s of None \<Rightarrow> ''default'' | Some n \<Rightarrow> n)"

fun mp_input_get_bind_section :: "string \<Rightarrow> (string \<times> mp_cmd_bind list) list \<Rightarrow> mp_cmd_bind list \<times> (string \<times> mp_cmd_bind list) list" where
  "mp_input_get_bind_section s [] = ([], [(s, [])])"
| "mp_input_get_bind_section s ((n, bs) # ss) =
     (if s = n then (bs, (n, bs) # ss) else let (r, ss) = mp_input_get_bind_section s ss in (r, (n, bs) # ss))"

fun set_bind :: "code list \<Rightarrow> string \<Rightarrow> mp_cmd_bind list \<Rightarrow> mp_cmd_bind list" where
  "set_bind keys cmd [] = [\<lparr>bind_input = keys, bind_cmd = cmd\<rparr>]"
| "set_bind keys cmd (b # bs) = (if keys_match (bind_input b) keys then \<lparr>bind_input = keys, bind_cmd = cmd\<rparr> # bs
     else b # set_bind keys cmd bs)"

fun set_section_binds :: "string \<Rightarrow> mp_cmd_bind list \<Rightarrow> (string \<times> mp_cmd_bind list) list \<Rightarrow> (string \<times> mp_cmd_bind list) list" where
  "set_section_binds s bs [] = []"
| "set_section_binds s bs ((n, b) # ss) = (if s = n then (n, bs) # ss else (n, b) # set_section_binds s bs ss)"

definition space_char :: "char \<Rightarrow> bool" where
  "space_char c \<longleftrightarrow> c \<in> {CHR '' '', CHR 0x0A, CHR 0x0D, CHR 0x09}"

definition mp_input_bind_keys :: "code list \<Rightarrow> string \<Rightarrow> bindings \<Rightarrow> bindings" where
  "mp_input_bind_keys keys cmd s =
     (let (sec, cmd) = (case cmd of
            c # cs \<Rightarrow> (if c = CHR ''{'' then (case strchr (CHR ''}'') cs of
                  Some k \<Rightarrow> (Some (take k cs), dropWhile space_char (drop (k + 1) cs))
                | None \<Rightarrow> (None, cmd)) else (None, cmd))
          | [] \<Rightarrow> (None, cmd));
          (bs, ss) = mp_input_get_bind_section (section_name sec) (bs_sections s)
      in s\<lparr>bs_sections := set_section_binds (section_name sec) (set_bind keys cmd bs) ss\<rparr>)"

definition mp_input_set_section :: "string option \<Rightarrow> bindings \<Rightarrow> bindings" where
  "mp_input_set_section name s =
     (let sec = section_name name;
          (bs, ss) = mp_input_get_bind_section sec (bs_sections s);
          s = s\<lparr>bs_section := Some sec, bs_sections := ss, bs_cmd_binds := bs, bs_cmd_binds_default := []\<rparr>
      in if sec = ''default'' then s
         else let (bs, ss) = mp_input_get_bind_section ''default'' (bs_sections s)
           in s\<lparr>bs_sections := ss, bs_cmd_binds_default := bs\<rparr>)"

definition mp_input_get_cmd_from_keys :: "string set \<Rightarrow> int \<Rightarrow> bindings \<Rightarrow> code list \<Rightarrow> mp_cmd option" where
  "mp_input_get_cmd_from_keys cfg pausing_default s keys =
     (let cmd = mp_input_find_bind_for_key (bs_cmd_binds s) keys;
          cmd = (if cmd = None then mp_input_find_bind_for_key (bs_cmd_binds_default s) keys else cmd);
          cmd = (if bs_default_bindings s \<and> cmd = None then mp_input_find_bind_for_key (def_cmd_binds cfg) keys else cmd)
      in case cmd of None \<Rightarrow> None
         | Some c \<Rightarrow> if c = ''ignore'' then None else mp_input_parse_cmd cfg pausing_default c)"

section \<open>Keys held down\<close>

record key_state =
  ks_down :: "code list"
  ks_num :: nat
  ks_last :: "32 word"
  ks_ar_state :: int
  ks_ar_cmd :: "mp_cmd option"
  ks_last_ar :: "32 word"

definition new_key_state :: key_state where
  "new_key_state = \<lparr>ks_down = replicate MP_MAX_KEY_DOWN 0, ks_num = 0, ks_last = 0, ks_ar_state = - 1, ks_ar_cmd = None, ks_last_ar = 0\<rparr>"

text \<open>The place of a key among those held, or their number.\<close>

definition key_place :: "code \<Rightarrow> key_state \<Rightarrow> nat" where
  "key_place code s = length (takeWhile (\<lambda>k. k \<noteq> code) (take (ks_num s) (ks_down s)))"

text \<open>\<open>key_down[num_key_down] = code; num_key_down++\<close>\<close>

definition add_key :: "code \<Rightarrow> key_state \<Rightarrow> key_state option" where
  "add_key code s = (if ks_num s < length (ks_down s)
     then Some (s\<lparr>ks_down := (ks_down s)[ks_num s := code], ks_num := ks_num s + 1\<rparr>) else None)"

text \<open>The \<open>memmove\<close> that closes the gap at \<open>j\<close>.\<close>

definition remove_key :: "nat \<Rightarrow> key_state \<Rightarrow> key_state" where
  "remove_key j s = s\<lparr>ks_down := (if j + 1 < ks_num s
       then take j (ks_down s) @ drop (j + 1) (take (ks_num s) (ks_down s)) @ drop (ks_num s - 1) (ks_down s) else ks_down s),
     ks_num := ks_num s - 1\<rparr>"

definition press_key :: "32 word \<Rightarrow> code \<Rightarrow> key_state \<Rightarrow> key_state option" where
  "press_key now code s =
     (if ks_num s > MP_MAX_KEY_DOWN then Some s else
      let code = code AND NOT MP_KEY_DOWN
      in if key_place code s \<noteq> ks_num s then Some s
         else map_option (\<lambda>s. s\<lparr>ks_last := now, ks_ar_state := 0\<rparr>) (add_key code s))"

definition release_key :: "(code list \<Rightarrow> mp_cmd option) \<Rightarrow> code \<Rightarrow> key_state \<Rightarrow> (mp_cmd option \<times> key_state) option" where
  "release_key lookup code s =
     (let j = key_place code s
      in if j = ks_num s \<and> MP_MAX_KEY_DOWN \<le> ks_num s then Some (None, s) else do {
        s \<leftarrow> (if j = ks_num s then map_option (\<lambda>s. s\<lparr>ks_last := 1\<rparr>) (add_key code s) else Some s);
        let ret = (if ks_last s \<noteq> 0 then lookup (take (ks_num s) (ks_down s)) else None);
        Some (ret, (remove_key j s)\<lparr>ks_last := 0, ks_ar_state := - 1, ks_ar_cmd := None\<rparr>)
      })"

text \<open>\<open>key_cb\<close> is the menu's filter of key codes, if there is one.\<close>

definition interpret_key ::
    "(code list \<Rightarrow> mp_cmd option) \<Rightarrow> (code \<Rightarrow> bool) option \<Rightarrow> 32 word \<Rightarrow> code \<Rightarrow> key_state \<Rightarrow> (mp_cmd option \<times> key_state) option" where
  "interpret_key lookup key_cb now code s =
     (let release_all = (code AND MP_KEY_RELEASE_ALL \<noteq> 0);
          code = (if release_all then code AND NOT MP_KEY_RELEASE_ALL else code);
          s = (if release_all then s\<lparr>ks_down := replicate MP_MAX_KEY_DOWN 0, ks_num := 0, ks_last := 0\<rparr> else s)
      in if release_all \<and> code = 0 then Some (None, s)
         else if key_cb \<noteq> None \<and> code AND MP_KEY_DOWN \<noteq> 0 then Some (None, s)
         else let code = (if key_cb \<noteq> None then code AND NOT (MP_KEY_DOWN OR MP_NO_REPEAT_KEY) else code)
           in if (case key_cb of None \<Rightarrow> False | Some cb \<Rightarrow> cb code) then Some (None, s)
              else if code AND MP_KEY_DOWN \<noteq> 0 then map_option (\<lambda>s. (None, s)) (press_key now code s)
              else release_key lookup code s)"

text \<open>Cloning the null pointer is undefined; so is reading the last key when none is held.\<close>

definition check_autorepeat ::
    "(code list \<Rightarrow> mp_cmd option) \<Rightarrow> nat \<Rightarrow> nat \<Rightarrow> 32 word \<Rightarrow> key_state \<Rightarrow> (mp_cmd option \<times> key_state) option" where
  "check_autorepeat lookup ar_delay ar_rate t s =
     (if ar_rate > 0 \<and> ks_ar_state s \<ge> 0 \<and> ks_num s > 0 \<and> ks_down s ! (ks_num s - 1) AND MP_NO_REPEAT_KEY = 0 then
        if ks_ar_state s = 0 \<and> unat (t - ks_last s) \<ge> (ar_delay * 1000) mod 2 ^ 32 then
          (let cmd = lookup (take (ks_num s) (ks_down s)); s = s\<lparr>ks_ar_cmd := cmd\<rparr>
           in if cmd = None then Some (None, s\<lparr>ks_ar_state := - 1\<rparr>)
              else Some (cmd, s\<lparr>ks_ar_state := 1, ks_last_ar := t\<rparr>))
        else if ks_ar_state s = 1 \<and> unat (t - ks_last_ar s) \<ge> 1000000 div ar_rate then
          (case ks_ar_cmd s of None \<Rightarrow> None | Some cmd \<Rightarrow> Some (Some cmd, s\<lparr>ks_last_ar := t\<rparr>))
        else Some (None, s)
      else Some (None, s))"

section \<open>Facts about held keys\<close>

definition held :: "key_state \<Rightarrow> code list" where
  "held s = take (ks_num s) (ks_down s)"

text \<open>A command is repeated only when there is one.\<close>

definition keys_ok :: "key_state \<Rightarrow> bool" where
  "keys_ok s \<longleftrightarrow> length (ks_down s) = MP_MAX_KEY_DOWN \<and> ks_num s \<le> MP_MAX_KEY_DOWN \<and> distinct (held s) \<and>
     ks_ar_state s \<in> {- 1, 0, 1} \<and> (ks_ar_state s = 1 \<longrightarrow> ks_ar_cmd s \<noteq> None)"

lemma length_held: "keys_ok s \<Longrightarrow> length (held s) = ks_num s"
  by (simp add: keys_ok_def held_def)

lemma place_held: "key_place code s = length (takeWhile (\<lambda>k. k \<noteq> code) (held s))"
  by (simp add: key_place_def held_def)

lemma length_takeWhile_all: "length (takeWhile P xs) = length xs \<longleftrightarrow> list_all P xs"
  using length_takeWhile_le [of P] by (induction xs) (auto simp: Suc_le_eq)

lemma place_absent: "keys_ok s \<Longrightarrow> key_place code s = ks_num s \<longleftrightarrow> code \<notin> set (held s)"
  using length_held [of s] length_takeWhile_all [of "\<lambda>k. k \<noteq> code" "held s"] by (auto simp: place_held list_all_iff)

lemma place_split: "code \<in> set (held s) \<Longrightarrow>
    held s = take (key_place code s) (held s) @ code # drop (key_place code s + 1) (held s) \<and> key_place code s < length (held s)"
proof -
  assume "code \<in> set (held s)"
  then obtain a b where ab: "held s = a @ code # b" "code \<notin> set a" using split_list_first by metis
  then have "takeWhile (\<lambda>k. k \<noteq> code) (held s) = a" unfolding ab(1) by (subst takeWhile_append2) auto
  then show ?thesis using ab by (simp add: place_held)
qed

lemma add_key_held:
  assumes "keys_ok s" "ks_num s < MP_MAX_KEY_DOWN"
  shows "\<exists>s'. add_key code s = Some s' \<and> held s' = held s @ [code] \<and> ks_num s' = ks_num s + 1 \<and> length (ks_down s') = MP_MAX_KEY_DOWN \<and>
    ks_ar_state s' = ks_ar_state s \<and> ks_ar_cmd s' = ks_ar_cmd s \<and> ks_last s' = ks_last s \<and> ks_last_ar s' = ks_last_ar s"
  using assms by (simp add: add_key_def keys_ok_def held_def take_Suc_conv_app_nth)

lemma remove_key_held:
  assumes "length (ks_down s) = MP_MAX_KEY_DOWN" "ks_num s \<le> MP_MAX_KEY_DOWN" "j < ks_num s"
  shows "held (remove_key j s) = take j (held s) @ drop (j + 1) (held s)" "length (ks_down (remove_key j s)) = MP_MAX_KEY_DOWN"
    "ks_num (remove_key j s) = ks_num s - 1"
proof -
  show "length (ks_down (remove_key j s)) = MP_MAX_KEY_DOWN" "ks_num (remove_key j s) = ks_num s - 1"
    using assms by (auto simp: remove_key_def)
  show "held (remove_key j s) = take j (held s) @ drop (j + 1) (held s)"
  proof (cases "j + 1 < ks_num s")
    case True
    then show ?thesis using assms by (auto simp: remove_key_def held_def min_def)
  next
    case False
    then have "ks_num s = j + 1" using assms(3) by simp
    then show ?thesis by (simp add: remove_key_def held_def)
  qed
qed

text \<open>What pressing and releasing do to the keys held.\<close>

lemma press_key_held:
  assumes "keys_ok s" "k = code AND NOT MP_KEY_DOWN" "k \<in> set (held s) \<or> ks_num s < MP_MAX_KEY_DOWN"
  shows "\<exists>s'. press_key now code s = Some s' \<and> keys_ok s' \<and>
    (if k \<in> set (held s) then s' = s else held s' = held s @ [k] \<and> ks_last s' = now)"
proof (cases "k \<in> set (held s)")
  case True
  then show ?thesis using assms place_absent [OF assms(1), of k] by (auto simp: press_key_def keys_ok_def)
next
  case False
  then have "ks_num s < MP_MAX_KEY_DOWN" "key_place k s = ks_num s" using assms place_absent [OF assms(1), of k] by simp_all
  moreover from add_key_held [OF assms(1) this(1), of k] obtain s' where s': "add_key k s = Some s'" "held s' = held s @ [k]"
    "ks_num s' = ks_num s + 1" "length (ks_down s') = MP_MAX_KEY_DOWN" by blast
  moreover define s'' where "s'' = s'\<lparr>ks_last := now, ks_ar_state := 0\<rparr>"
  ultimately have "press_key now code s = Some s''" "held s'' = held s @ [k]" "ks_last s'' = now" "keys_ok s''"
    using assms(1,2) False by (auto simp: press_key_def keys_ok_def held_def)
  then show ?thesis using False by auto
qed

lemma release_key_held:
  assumes "keys_ok s" "k \<in> set (held s) \<or> ks_num s < MP_MAX_KEY_DOWN"
  shows "\<exists>s'. release_key lookup k s =
      Some (if k \<in> set (held s) then if ks_last s \<noteq> 0 then lookup (held s) else None else lookup (held s @ [k]), s') \<and> keys_ok s' \<and>
    held s' = remove1 k (held s) \<and> ks_last s' = 0"
proof (cases "k \<in> set (held s)")
  case True
  let ?j = "key_place k s" and ?s = "remove_key (key_place k s) s"
  have j: "?j < ks_num s" "held s = take ?j (held s) @ k # drop (?j + 1) (held s)"
    using place_split [OF True] length_held [OF assms(1)] by simp_all
  have d: "distinct (held s)" using assms(1) by (simp add: keys_ok_def)
  then have "distinct (take ?j (held s) @ k # drop (?j + 1) (held s))" using j(2) by simp
  then have "remove1 k (take ?j (held s) @ k # drop (?j + 1) (held s)) = take ?j (held s) @ drop (?j + 1) (held s)"
    by (simp add: remove1_append)
  then have r: "held ?s = remove1 k (held s)"
    using remove_key_held(1) [of s ?j] j assms(1) by (simp add: keys_ok_def)
  have "keys_ok (?s\<lparr>ks_last := 0, ks_ar_state := - 1, ks_ar_cmd := None\<rparr>)"
    using assms(1) j(1) remove_key_held(2,3) [of s ?j] r d by (auto simp: keys_ok_def held_def)
  then show ?thesis
    using True j(1) r by (auto simp: release_key_def Let_def held_def [symmetric]) (auto simp: held_def)
next
  case False
  then have n: "ks_num s < MP_MAX_KEY_DOWN" and p: "key_place k s = ks_num s" using assms place_absent [OF assms(1), of k] by simp_all
  from add_key_held [OF assms(1) n, of k] obtain s1 where s1: "add_key k s = Some s1" "held s1 = held s @ [k]"
    "ks_num s1 = ks_num s + 1" "length (ks_down s1) = MP_MAX_KEY_DOWN" "ks_ar_state s1 = ks_ar_state s" "ks_ar_cmd s1 = ks_ar_cmd s" by blast
  let ?s1 = "s1\<lparr>ks_last := 1\<rparr>"
  have h: "held ?s1 = held s @ [k]" using s1(2) by (simp add: held_def)
  have r: "held (remove_key (ks_num s) ?s1) = held s" "ks_num (remove_key (ks_num s) ?s1) = ks_num s"
    "length (ks_down (remove_key (ks_num s) ?s1)) = MP_MAX_KEY_DOWN"
    using remove_key_held [of ?s1 "ks_num s"] s1(3,4) n h length_held [OF assms(1)] by simp_all
  have "keys_ok ((remove_key (ks_num s) ?s1)\<lparr>ks_last := 0, ks_ar_state := - 1, ks_ar_cmd := None\<rparr>)"
    using assms(1) r by (simp add: keys_ok_def held_def)
  moreover have "release_key lookup k s = Some (lookup (held s @ [k]), (remove_key (ks_num s) ?s1)\<lparr>ks_last := 0, ks_ar_state := - 1, ks_ar_cmd := None\<rparr>)"
    using n p s1(1) h by (simp add: release_key_def held_def Let_def)
  ultimately show ?thesis using False r(1) by (auto simp: remove1_idem held_def)
qed

lemma release_key_full:
  assumes "keys_ok s" "k \<notin> set (held s)" "\<not> ks_num s < MP_MAX_KEY_DOWN"
  shows "release_key lookup k s = Some (None, s)"
  using assms place_absent [OF assms(1), of k] by (simp add: release_key_def)

lemma press_key_full:
  assumes "keys_ok s" "k = code AND NOT MP_KEY_DOWN" "k \<notin> set (held s)" "\<not> ks_num s < MP_MAX_KEY_DOWN"
  shows "press_key now code s = None"
  using assms place_absent [OF assms(1), of k] by (simp add: press_key_def add_key_def keys_ok_def Let_def)

text \<open>A key is pressed that is not held while the array of held keys is full.\<close>

definition one_key_too_many :: "code \<Rightarrow> key_state \<Rightarrow> bool" where
  "one_key_too_many code s \<longleftrightarrow> code AND MP_KEY_RELEASE_ALL = 0 \<and> code AND MP_KEY_DOWN \<noteq> 0 \<and>
     ks_num s = MP_MAX_KEY_DOWN \<and> code AND NOT MP_KEY_DOWN \<notin> set (held s)"

lemma keys_ok_released: "keys_ok s \<Longrightarrow> keys_ok (s\<lparr>ks_down := replicate MP_MAX_KEY_DOWN 0, ks_num := 0, ks_last := 0\<rparr>)"
  by (simp add: keys_ok_def held_def)

lemma press_key_total:
  assumes "keys_ok s"
  shows "(press_key now code s = None \<longleftrightarrow> ks_num s = MP_MAX_KEY_DOWN \<and> code AND NOT MP_KEY_DOWN \<notin> set (held s)) \<and>
    (\<forall>s'. press_key now code s = Some s' \<longrightarrow> keys_ok s')"
proof (cases "code AND NOT MP_KEY_DOWN \<in> set (held s) \<or> ks_num s < MP_MAX_KEY_DOWN")
  case True
  then show ?thesis using press_key_held [OF assms refl, of code now] by auto
next
  case False
  then show ?thesis using press_key_full [OF assms refl, of code now] assms by (auto simp: keys_ok_def)
qed

lemma release_key_total:
  assumes "keys_ok s"
  shows "\<exists>r s'. release_key lookup k s = Some (r, s') \<and> keys_ok s'"
proof (cases "k \<in> set (held s) \<or> ks_num s < MP_MAX_KEY_DOWN")
  case True
  then show ?thesis using release_key_held [OF assms True, of lookup] by blast
next
  case False
  then show ?thesis using release_key_full [OF assms, of k lookup] assms by auto
qed

lemma key_flags: "MP_KEY_DOWN AND MP_KEY_RELEASE_ALL = 0"
  by (simp add: MP_KEY_DOWN_def MP_KEY_RELEASE_ALL_def)

text \<open>The code and the state after a release of all keys.\<close>

definition unflagged :: "code \<Rightarrow> code" where
  "unflagged code = (if code AND MP_KEY_RELEASE_ALL \<noteq> 0 then code AND NOT MP_KEY_RELEASE_ALL else code)"

definition after_release_all :: "code \<Rightarrow> key_state \<Rightarrow> key_state" where
  "after_release_all code s = (if code AND MP_KEY_RELEASE_ALL \<noteq> 0
     then s\<lparr>ks_down := replicate MP_MAX_KEY_DOWN 0, ks_num := 0, ks_last := 0\<rparr> else s)"

lemma interpret_key_eq:
  "interpret_key lookup key_cb now code s =
    (let c = unflagged code; t = after_release_all code s in
     if code AND MP_KEY_RELEASE_ALL \<noteq> 0 \<and> c = 0 then Some (None, t)
     else case key_cb of
       None \<Rightarrow> if c AND MP_KEY_DOWN \<noteq> 0 then map_option (Pair None) (press_key now c t) else release_key lookup c t
     | Some cb \<Rightarrow> if c AND MP_KEY_DOWN \<noteq> 0 \<or> cb (c AND NOT (MP_KEY_DOWN OR MP_NO_REPEAT_KEY)) then Some (None, t)
         else release_key lookup (c AND NOT (MP_KEY_DOWN OR MP_NO_REPEAT_KEY)) t)"
proof (cases key_cb)
  case None
  show ?thesis
    unfolding interpret_key_def Let_def None unflagged_def [symmetric] after_release_all_def [symmetric] by simp
next
  case (Some cb)
  define m where "m = unflagged code AND NOT (MP_KEY_DOWN OR MP_NO_REPEAT_KEY)"
  have m: "m AND MP_KEY_DOWN = 0" unfolding m_def by (rule bit_word_eqI) (auto simp: bit_simps)
  have ne: "(Some cb \<noteq> None) = True" by simp
  show ?thesis
    unfolding interpret_key_def Let_def Some unflagged_def [symmetric] after_release_all_def [symmetric] ne if_True m_def [symmetric]
      option.case m by simp
qed

lemma one_key_too_many_iff:
  "one_key_too_many code s \<longleftrightarrow> unflagged code AND MP_KEY_DOWN \<noteq> 0 \<and> ks_num (after_release_all code s) = MP_MAX_KEY_DOWN \<and>
    unflagged code AND NOT MP_KEY_DOWN \<notin> set (held (after_release_all code s))"
  by (cases "code AND MP_KEY_RELEASE_ALL = 0")
    (simp_all add: one_key_too_many_def unflagged_def after_release_all_def MP_MAX_KEY_DOWN_def)

lemma interpret_key_total:
  assumes "keys_ok s"
  shows "interpret_key lookup key_cb now code s = None \<longleftrightarrow> key_cb = None \<and> one_key_too_many code s"
    and "interpret_key lookup key_cb now code s = Some (r, s') \<Longrightarrow> keys_ok s'"
proof -
  let ?c = "unflagged code" and ?t = "after_release_all code s"
  have t: "keys_ok ?t" using assms keys_ok_released by (simp add: after_release_all_def)
  have rel: "release_key lookup k ?t \<noteq> None" "release_key lookup k ?t = Some (r, s') \<Longrightarrow> keys_ok s'" for k
    using release_key_total [OF t, of lookup k] by auto
  have pr: "press_key now ?c ?t = None \<longleftrightarrow> ks_num ?t = MP_MAX_KEY_DOWN \<and> ?c AND NOT MP_KEY_DOWN \<notin> set (held ?t)"
    "press_key now ?c ?t = Some s' \<Longrightarrow> keys_ok s'"
    using press_key_total [OF t, of now ?c] by blast+
  have z: "?c AND MP_KEY_DOWN \<noteq> 0 \<Longrightarrow> ?c \<noteq> 0" by auto
  show "interpret_key lookup key_cb now code s = None \<longleftrightarrow> key_cb = None \<and> one_key_too_many code s"
  proof (cases key_cb)
    case None
    show ?thesis
    proof (cases "?c AND MP_KEY_DOWN \<noteq> 0")
      case True
      then show ?thesis using z pr(1) by (simp add: interpret_key_eq one_key_too_many_iff Let_def None)
    next
      case False
      then show ?thesis using rel(1) by (simp add: interpret_key_eq one_key_too_many_iff Let_def None)
    qed
  next
    case (Some cb)
    then show ?thesis using rel(1) by (simp add: interpret_key_eq Let_def)
  qed
  show "keys_ok s'" if "interpret_key lookup key_cb now code s = Some (r, s')"
    using that rel(2) pr(2) t unfolding interpret_key_eq Let_def
    by (cases key_cb) (auto split: if_splits)
qed

lemma check_autorepeat_total:
  assumes "keys_ok s"
  shows "\<exists>r s'. check_autorepeat lookup delay rate t s = Some (r, s') \<and> keys_ok s' \<and> held s' = held s"
  using assms by (auto simp: check_autorepeat_def keys_ok_def held_def Let_def)

section \<open>Properties\<close>

text \<open>C11: The keys held down: they are distinct and at most eight, and a command is repeated only when there is one.
  Every event keeps this, autorepeat included, and is well defined with one exception: pressing a ninth key while eight are
  held stores behind the end of \<open>key_down\<close>, because the guard compares with \<open>>\<close> instead of \<open>>=\<close>.\<close>

theorem held_keys_safe:
  assumes "keys_ok s"
  shows "(interpret_key lookup key_cb now code s = None \<longleftrightarrow> key_cb = None \<and> one_key_too_many code s) \<and>
    (\<forall>r s'. interpret_key lookup key_cb now code s = Some (r, s') \<longrightarrow> keys_ok s') \<and>
    (\<exists>r s'. check_autorepeat lookup delay rate t s = Some (r, s') \<and> keys_ok s' \<and> held s' = held s)"
proof (intro conjI allI impI)
  show "interpret_key lookup key_cb now code s = None \<longleftrightarrow> key_cb = None \<and> one_key_too_many code s"
    by (rule interpret_key_total(1) [OF assms])
  show "keys_ok s'" if "interpret_key lookup key_cb now code s = Some (r, s')" for r s'
    by (rule interpret_key_total(2) [OF assms that])
  show "\<exists>r s'. check_autorepeat lookup delay rate t s = Some (r, s') \<and> keys_ok s' \<and> held s' = held s"
    by (rule check_autorepeat_total [OF assms])
qed

text \<open>Feeding key codes, each at its time: the commands that come out.\<close>

fun interpret_keys ::
    "(code list \<Rightarrow> mp_cmd option) \<Rightarrow> (32 word \<times> code) list \<Rightarrow> key_state \<Rightarrow> (mp_cmd list \<times> key_state) option" where
  "interpret_keys lookup [] s = Some ([], s)"
| "interpret_keys lookup ((now, code) # evs) s = do {
     (r, s) \<leftarrow> interpret_key lookup None now code s;
     (rs, s) \<leftarrow> interpret_keys lookup evs s;
     Some ((case r of None \<Rightarrow> rs | Some c \<Rightarrow> c # rs), s)
   }"

theorem held_keys_safe_witness:
  "let s = new_key_state\<lparr>ks_down := [1, 2, 3, 4, 5, 6, 7, 8], ks_num := 8\<rparr>
   in keys_ok s \<and> interpret_key (\<lambda>_. None) None 1 (9 OR MP_KEY_DOWN) s = None \<and> interpret_key (\<lambda>_. None) None 1 (8 OR MP_KEY_DOWN) s \<noteq> None"
proof -
  let ?s = "new_key_state\<lparr>ks_down := [1, 2, 3, 4, 5, 6, 7, 8], ks_num := 8\<rparr>"
  have h: "held ?s = [1, 2, 3, 4, 5, 6, 7, 8]" by (simp add: held_def)
  then have "keys_ok ?s" by (simp add: keys_ok_def new_key_state_def MP_MAX_KEY_DOWN_def)
  note safe = held_keys_safe [OF this, of "\<lambda>_. None" None 1 _ 0 0 0, THEN conjunct1]
  have "one_key_too_many (9 OR MP_KEY_DOWN) ?s" "\<not> one_key_too_many (8 OR MP_KEY_DOWN) ?s"
    unfolding one_key_too_many_def h by (simp_all add: MP_MAX_KEY_DOWN_def MP_KEY_DOWN_def MP_KEY_RELEASE_ALL_def)
  then show ?thesis using safe \<open>keys_ok ?s\<close> by (simp add: Let_def del: not_None_eq)
qed

text \<open>A key without any flag.\<close>

definition plain_key :: "code \<Rightarrow> bool" where
  "plain_key k \<longleftrightarrow> k AND MP_KEY_DOWN = 0 \<and> k AND MP_KEY_RELEASE_ALL = 0"

lemma plain_press:
  assumes "plain_key k" "keys_ok s" "k \<notin> set (held s)" "length (held s) < MP_MAX_KEY_DOWN"
  shows "\<exists>s'. interpret_key lookup None now (k OR MP_KEY_DOWN) s = Some (None, s') \<and> keys_ok s' \<and> held s' = held s @ [k] \<and> ks_last s' = now"
proof -
  have k: "(k OR MP_KEY_DOWN) AND NOT MP_KEY_DOWN = k" "(k OR MP_KEY_DOWN) AND MP_KEY_RELEASE_ALL = 0" "(k OR MP_KEY_DOWN) AND MP_KEY_DOWN \<noteq> 0"
  proof -
    have "k AND NOT MP_KEY_DOWN = (k AND MP_KEY_DOWN) OR (k AND NOT MP_KEY_DOWN)" using assms(1) by (simp add: plain_key_def)
    also have "\<dots> = k" by (simp only: bit.conj_disj_distrib [symmetric] bit.disj_cancel_right bit.conj_one_right)
    finally show "(k OR MP_KEY_DOWN) AND NOT MP_KEY_DOWN = k" by (simp add: bit.conj_disj_distrib2)
    show "(k OR MP_KEY_DOWN) AND MP_KEY_RELEASE_ALL = 0"
      using assms(1) key_flags by (simp add: plain_key_def bit.conj_disj_distrib2)
    have "MP_KEY_DOWN \<noteq> 0" by (simp add: MP_KEY_DOWN_def)
    then show "(k OR MP_KEY_DOWN) AND MP_KEY_DOWN \<noteq> 0" using assms(1) by (simp add: plain_key_def bit.conj_disj_distrib2)
  qed
  have "\<exists>s'. press_key now (k OR MP_KEY_DOWN) s = Some s' \<and> keys_ok s' \<and> held s' = held s @ [k] \<and> ks_last s' = now"
    using press_key_held [OF assms(2) k(1) [symmetric], of now] assms(3,4) length_held [OF assms(2)] by auto
  then show ?thesis using k by (auto simp: interpret_key_eq unflagged_def after_release_all_def)
qed

lemma plain_release:
  assumes "plain_key k" "keys_ok s" "k \<in> set (held s)"
  shows "\<exists>s'. interpret_key lookup None now k s = Some (if ks_last s \<noteq> 0 then lookup (held s) else None, s') \<and> keys_ok s' \<and>
    held s' = remove1 k (held s) \<and> ks_last s' = 0"
  using release_key_held [OF assms(2) disjI1 [OF assms(3)], of lookup] assms(1,3)
  by (auto simp: interpret_key_eq unflagged_def after_release_all_def plain_key_def)

lemma presses:
  assumes "keys_ok s" "list_all (\<lambda>(t, k). plain_key k \<and> t \<noteq> 0) ps" "distinct (held s @ map snd ps)"
    "length (held s) + length ps \<le> MP_MAX_KEY_DOWN" "ps \<noteq> [] \<or> ks_last s \<noteq> 0"
  shows "\<exists>s'. interpret_keys lookup (map (\<lambda>(t, k). (t, k OR MP_KEY_DOWN)) ps) s = Some ([], s') \<and> keys_ok s' \<and>
    held s' = held s @ map snd ps \<and> ks_last s' \<noteq> 0"
  using assms
proof (induction ps arbitrary: s)
  case Nil
  then show ?case by simp
next
  case (Cons p ps)
  obtain t k where p: "p = (t, k)" by (cases p)
  have "\<exists>s1. interpret_key lookup None t (k OR MP_KEY_DOWN) s = Some (None, s1) \<and> keys_ok s1 \<and> held s1 = held s @ [k] \<and> ks_last s1 = t"
    using Cons.prems p by (intro plain_press) auto
  then obtain s1 where s1: "interpret_key lookup None t (k OR MP_KEY_DOWN) s = Some (None, s1)" "keys_ok s1"
    "held s1 = held s @ [k]" "ks_last s1 = t" by blast
  have "\<exists>s'. interpret_keys lookup (map (\<lambda>(t, k). (t, k OR MP_KEY_DOWN)) ps) s1 = Some ([], s') \<and> keys_ok s' \<and>
    held s' = held s1 @ map snd ps \<and> ks_last s' \<noteq> 0"
    using Cons.prems s1 p by (intro Cons.IH) auto
  then show ?case using s1 p by auto
qed

text \<open>After the first release of a combination the others give no command.\<close>

lemma releases:
  assumes "keys_ok s" "list_all (\<lambda>(t, k). plain_key k) rs" "distinct (map snd rs)" "set (map snd rs) \<subseteq> set (held s)"
  shows "\<exists>s'. interpret_keys lookup rs s =
      Some (if rs \<noteq> [] \<and> ks_last s \<noteq> 0 then (case lookup (held s) of None \<Rightarrow> [] | Some c \<Rightarrow> [c]) else [], s') \<and> keys_ok s' \<and>
    set (held s') = set (held s) - set (map snd rs)"
  using assms
proof (induction rs arbitrary: s)
  case Nil
  then show ?case by simp
next
  case (Cons r rs)
  obtain t k where r: "r = (t, k)" by (cases r)
  have "plain_key k" "k \<in> set (held s)" using Cons.prems r by simp_all
  from plain_release [OF this(1) Cons.prems(1) this(2), of lookup t]
  obtain s1 where s1: "interpret_key lookup None t k s = Some (if ks_last s \<noteq> 0 then lookup (held s) else None, s1)" "keys_ok s1"
    "held s1 = remove1 k (held s)" "ks_last s1 = 0" by blast
  have d: "distinct (held s)" using Cons.prems(1) by (simp add: keys_ok_def)
  have "\<exists>s'. interpret_keys lookup rs s1 = Some (if rs \<noteq> [] \<and> ks_last s1 \<noteq> 0 then (case lookup (held s1) of None \<Rightarrow> [] | Some c \<Rightarrow> [c]) else [], s') \<and>
    keys_ok s' \<and> set (held s') = set (held s1) - set (map snd rs)"
    using Cons.prems s1 r d by (intro Cons.IH) (auto simp: set_remove1_eq)
  then show ?case using s1 r d by (auto simp: set_remove1_eq split: option.splits)
qed

lemma interpret_keys_append:
  "interpret_keys lookup (xs @ ys) u = (case interpret_keys lookup xs u of None \<Rightarrow> None
    | Some (as, u) \<Rightarrow> (case interpret_keys lookup ys u of None \<Rightarrow> None | Some (bs, u) \<Rightarrow> Some (as @ bs, u)))"
proof (induction xs arbitrary: u)
  case Nil
  then show ?case by (auto split: option.splits)
next
  case (Cons x xs)
  obtain t k where x: "x = (t, k)" by (cases x)
  show ?case
  proof (cases "interpret_key lookup None t k u")
    case None
    then show ?thesis using x by simp
  next
    case (Some p)
    then show ?thesis using Cons x
      by (cases p; cases "interpret_keys lookup xs (snd p)") (auto split: option.splits)
  qed
qed

text \<open>C12: A combination of keys: pressing up to eight keys one after the other, in an idle state, gives no command; releasing
  them in any order gives the command bound to the keys in the order they were pressed, once, at the first release.\<close>

theorem key_combination:
  assumes "keys_ok s" "held s = []" "ps \<noteq> []" "length ps \<le> 8" "list_all (\<lambda>(t, k). plain_key k \<and> t \<noteq> 0) ps" "distinct (map snd ps)"
    and "distinct (map snd rs)" "set (map snd rs) = set (map snd ps)"
  shows "\<exists>s'. interpret_keys lookup (map (\<lambda>(t, k). (t, k OR MP_KEY_DOWN)) ps @ rs) s =
      Some (case lookup (map snd ps) of None \<Rightarrow> [] | Some c \<Rightarrow> [c], s') \<and> held s' = [] \<and> keys_ok s'"
proof -
  from presses [OF assms(1,5), of lookup] assms obtain s1 where s1:
    "interpret_keys lookup (map (\<lambda>(t, k). (t, k OR MP_KEY_DOWN)) ps) s = Some ([], s1)" "keys_ok s1" "held s1 = map snd ps" "ks_last s1 \<noteq> 0"
    by (auto simp: MP_MAX_KEY_DOWN_def)
  have ne: "rs \<noteq> []" using assms(3,8) by auto
  have pl: "list_all (\<lambda>(t, k). plain_key k) rs"
  proof -
    have "\<forall>k \<in> set (map snd ps). plain_key k" using assms(5) by (auto simp: list_all_iff)
    then have "\<forall>k \<in> set (map snd rs). plain_key k" by (simp only: assms(8))
    then show ?thesis by (auto simp: list_all_iff)
  qed
  from releases [OF s1(2) pl assms(7), of lookup] s1(3,4) assms(8) ne obtain s' where
    "interpret_keys lookup rs s1 = Some (case lookup (map snd ps) of None \<Rightarrow> [] | Some c \<Rightarrow> [c], s')" "keys_ok s'" "set (held s') = {}"
    by auto
  then show ?thesis using s1(1) by (simp add: interpret_keys_append)
qed

theorem key_combination_witness:
  "\<exists>c s'. interpret_keys (mp_input_get_cmd_from_keys {} 0 (mp_input_bind_keys [0x1000030, 97] ''mute'' \<lparr>bs_sections = [],
       bs_section = None, bs_cmd_binds = [\<lparr>bind_input = [0x1000030, 97], bind_cmd = ''mute''\<rparr>], bs_cmd_binds_default = [], bs_default_bindings = True\<rparr>))
     [(5, 0x1000030 OR MP_KEY_DOWN), (7, 97 OR MP_KEY_DOWN), (8, 97), (9, 0x1000030)] new_key_state = Some ([c], s') \<and> cmd_id c = ''MP_CMD_MUTE''"
proof -
  let ?l = "mp_input_get_cmd_from_keys {} 0 (mp_input_bind_keys [0x1000030, 97] ''mute'' \<lparr>bs_sections = [],
       bs_section = None, bs_cmd_binds = [\<lparr>bind_input = [0x1000030, 97], bind_cmd = ''mute''\<rparr>], bs_cmd_binds_default = [], bs_default_bindings = True\<rparr>)"
  have l: "map_option cmd_id (?l [0x1000030, 97]) = Some ''MP_CMD_MUTE''" by code_simp
  then obtain c where c: "?l [0x1000030, 97] = Some c" "cmd_id c = ''MP_CMD_MUTE''" by auto
  have ok: "keys_ok new_key_state" "held new_key_state = []" by (simp_all add: keys_ok_def held_def new_key_state_def)
  have "plain_key 0x1000030" "plain_key 97" by (simp_all add: plain_key_def MP_KEY_DOWN_def MP_KEY_RELEASE_ALL_def)
  then show ?thesis
    using key_combination [OF ok, of "[(5, 0x1000030), (7, 97)]" "[(8, 97), (9, 0x1000030)]" ?l] c by (auto simp: insert_commute)
qed

end
