(* ===== verification/Input.thy ===== *)
theory Input
  imports InputFd InputKeys
begin

text \<open>
  The queue of commands and the layer that fetches the next one, input/input.c: from the queue, from key codes, from
  autorepeat or from the command pipes, through the command filters. The drivers behind the descriptors and the answer of
  \<open>select\<close> are parameters on an environment \<open>'e\<close>. Freeing commands has no effect in the model.
\<close>

section \<open>The queue of commands\<close>

definition CMD_QUEUE_SIZE :: nat where "CMD_QUEUE_SIZE = 100"

record cmd_queue =
  cq_data :: "mp_cmd option list"
  cq_length :: nat
  cq_start :: nat
  cq_end :: nat

definition new_cmd_queue :: cmd_queue where
  "new_cmd_queue = \<lparr>cq_data = replicate CMD_QUEUE_SIZE None, cq_length = 0, cq_start = 0, cq_end = 0\<rparr>"

definition mp_input_queue_cmd :: "mp_cmd option \<Rightarrow> cmd_queue \<Rightarrow> bool \<times> cmd_queue" where
  "mp_input_queue_cmd cmd q =
     (if cmd = None \<or> CMD_QUEUE_SIZE \<le> cq_length q then (False, q)
      else (True, q\<lparr>cq_data := (cq_data q)[cq_end q := cmd], cq_end := (cq_end q + 1) mod CMD_QUEUE_SIZE, cq_length := cq_length q + 1\<rparr>))"

definition mp_input_get_queued_cmd :: "bool \<Rightarrow> cmd_queue \<Rightarrow> mp_cmd option \<times> cmd_queue" where
  "mp_input_get_queued_cmd peek_only q =
     (if cq_length q = 0 then (None, q)
      else (cq_data q ! cq_start q,
        if peek_only then q else q\<lparr>cq_length := cq_length q - 1, cq_start := (cq_start q + 1) mod CMD_QUEUE_SIZE\<rparr>))"

text \<open>The commands of a text, one per line; the value is the number of lines that were commands.\<close>

definition text_blank :: "char \<Rightarrow> bool" where
  "text_blank c \<longleftrightarrow> c = CHR 0x0A \<or> c = CHR 0x0D \<or> c = CHR '' ''"

function queue_cmds :: "(string \<Rightarrow> mp_cmd option) \<Rightarrow> string \<Rightarrow> nat \<Rightarrow> cmd_queue \<Rightarrow> nat \<times> cmd_queue" where
  "queue_cmds parse str n q =
     (let str = dropWhile text_blank str
      in if str = [] then (n, q)
         else let cmd = parse (takeWhile (\<lambda>c. \<not> is_eol c) str)
           in queue_cmds parse (dropWhile (\<lambda>c. \<not> is_eol c) str) (if cmd = None then n else n + 1) (snd (mp_input_queue_cmd cmd q)))"
  by pat_completeness auto
termination
proof (relation "measure (\<lambda>(parse, str, n, q). length str)", goal_cases)
  case (2 parse str n q t cmd)
  then obtain c cs where t: "t = c # cs" "\<not> text_blank c" using hd_dropWhile [of text_blank str]
    by (metis list.exhaust_sel)
  then have "\<not> is_eol c" by (auto simp: text_blank_def is_eol_def)
  then have "length (dropWhile (\<lambda>c. \<not> is_eol c) t) \<le> length cs" using t length_dropWhile_le by simp
  moreover have "length t \<le> length str" unfolding 2(1) by (rule length_dropWhile_le)
  ultimately show ?case using t(1) by simp
qed simp

declare queue_cmds.simps [simp del]

definition mp_input_parse_and_queue_cmds :: "(string \<Rightarrow> mp_cmd option) \<Rightarrow> string \<Rightarrow> cmd_queue \<Rightarrow> nat \<times> cmd_queue" where
  "mp_input_parse_and_queue_cmds parse str q = queue_cmds parse str 0 q"

section \<open>Descriptors\<close>

text \<open>A key descriptor: its number, whether it is left out of \<open>select\<close>, whether its driver is dead, and whether its function
  has no result (an event function, which puts key codes into the ring).\<close>

record key_fd =
  kd_fd :: int
  kd_no_select :: bool
  kd_dead :: bool
  kd_event :: bool

record cmd_fd =
  cd_fd :: int
  cd_no_select :: bool
  cd_in :: mp_input_fd

definition MP_MAX_KEY_FD :: nat where "MP_MAX_KEY_FD = 10"
definition MP_MAX_CMD_FD :: nat where "MP_MAX_CMD_FD = 10"

definition mp_input_add_cmd_fd :: "int \<Rightarrow> bool \<Rightarrow> cmd_fd list \<Rightarrow> bool \<times> cmd_fd list" where
  "mp_input_add_cmd_fd fd sel fds =
     (if length fds = MP_MAX_CMD_FD \<or> sel \<and> fd < 0 then (False, fds)
      else (True, fds @ [\<lparr>cd_fd = fd, cd_no_select = \<not> sel, cd_in = new_input_fd\<rparr>]))"

definition mp_input_add_key_fd :: "int \<Rightarrow> bool \<Rightarrow> key_fd list \<Rightarrow> bool \<times> key_fd list" where
  "mp_input_add_key_fd fd sel fds =
     (if length fds = MP_MAX_KEY_FD \<or> sel \<and> fd < 0 then (False, fds)
      else (True, fds @ [\<lparr>kd_fd = fd, kd_no_select = \<not> sel, kd_dead = False, kd_event = False\<rparr>]))"

definition mp_input_add_event_fd :: "int \<Rightarrow> key_fd list \<Rightarrow> bool \<times> key_fd list" where
  "mp_input_add_event_fd fd fds =
     (if length fds = MP_MAX_KEY_FD \<or> fd < 0 then (False, fds)
      else (True, fds @ [\<lparr>kd_fd = fd, kd_no_select = False, kd_dead = False, kd_event = True\<rparr>]))"

text \<open>Removing a descriptor removes the first entry with its number.\<close>

fun remove_first :: "('a \<Rightarrow> bool) \<Rightarrow> 'a list \<Rightarrow> 'a list" where
  "remove_first P [] = []"
| "remove_first P (x # xs) = (if P x then xs else x # remove_first P xs)"

definition mp_input_rm_cmd_fd :: "int \<Rightarrow> cmd_fd list \<Rightarrow> cmd_fd list" where
  "mp_input_rm_cmd_fd fd fds = remove_first (\<lambda>f. cd_fd f = fd) fds"

definition mp_input_rm_key_fd :: "int \<Rightarrow> key_fd list \<Rightarrow> key_fd list" where
  "mp_input_rm_key_fd fd fds = remove_first (\<lambda>f. kd_fd f = fd) fds"

lemma length_remove_first: "x \<in> set xs \<Longrightarrow> P x \<Longrightarrow> length (remove_first P xs) < length xs"
  by (induction xs) auto

lemma length_rm_fd:
  assumes "i < length fds" "P (fds ! i)"
  shows "length (remove_first P fds) - i < length fds - i"
proof -
  have "length (remove_first P fds) < length fds" using length_remove_first [of "fds ! i" fds P] assms by simp
  then show ?thesis using assms(1) by simp
qed

text \<open>The loops that remove the descriptors of dead drivers and ended pipes. After a removal the same index is looked at
  again.\<close>

function purge_key_fds :: "nat \<Rightarrow> key_fd list \<Rightarrow> key_fd list" where
  "purge_key_fds i fds =
     (if i < length fds then
        if kd_dead (fds ! i) then purge_key_fds i (mp_input_rm_key_fd (kd_fd (fds ! i)) fds) else purge_key_fds (i + 1) fds
      else fds)"
  by pat_completeness auto
termination
  by (relation "measure (\<lambda>(i, fds). length fds - i)") (simp_all add: mp_input_rm_key_fd_def length_rm_fd)

text \<open>The first component says whether a descriptor was seen whose buffer still holds a line.\<close>

function purge_cmd_fds :: "nat \<Rightarrow> bool \<Rightarrow> cmd_fd list \<Rightarrow> bool \<times> cmd_fd list" where
  "purge_cmd_fds i got fds =
     (if i < length fds then
        if fd_dead (cd_in (fds ! i)) \<or> fd_eof (cd_in (fds ! i)) then purge_cmd_fds i got (mp_input_rm_cmd_fd (cd_fd (fds ! i)) fds)
        else purge_cmd_fds (i + 1) (got \<or> fd_got_cmd (cd_in (fds ! i))) fds
      else (got, fds))"
  by pat_completeness auto
termination
  by (relation "measure (\<lambda>(i, got, fds). length fds - i)") (simp_all add: mp_input_rm_cmd_fd_def length_rm_fd)

declare purge_key_fds.simps [simp del] purge_cmd_fds.simps [simp del]

section \<open>Reading events\<close>

record 'e input_state =
  in_key_fds :: "key_fd list"
  in_cmd_fds :: "cmd_fd list"
  in_queue :: cmd_queue
  in_keys :: key_state
  in_clicks :: click_state
  in_env :: 'e

text \<open>A key driver gives a key code or an error code.\<close>

datatype key_result = KEY code | KEY_ERROR | KEY_DEAD | KEY_NOTHING

text \<open>What lies outside: the configuration and bindings, the menu's key filter, the timer, autorepeat's settings, whether
  \<open>select\<close> is used, what it answers, and the functions of the drivers. An event function calls \<open>mplayer_put_key\<close>, each time
  with the time and the code, and \<open>mp_input_queue_cmd\<close>.\<close>

record 'e input_ctx =
  cx_parse :: "string \<Rightarrow> mp_cmd option"
  cx_lookup :: "code list \<Rightarrow> mp_cmd option"
  cx_key_cb :: "(code \<Rightarrow> bool) option"
  cx_now :: "'e \<Rightarrow> 32 word"
  cx_ar_delay :: nat
  cx_ar_rate :: nat
  cx_use_select :: bool
  cx_select :: "int \<Rightarrow> 'e \<Rightarrow> bool"
  cx_read_key :: "int \<Rightarrow> 'e \<Rightarrow> key_result \<times> 'e"
  cx_doubleclick :: "32 word"
  cx_event :: "int \<Rightarrow> 'e \<Rightarrow> (32 word \<times> code) list \<times> mp_cmd list \<times> 'e"
  cx_read_cmd :: "int \<Rightarrow> nat \<Rightarrow> 'e \<Rightarrow> (read_result \<times> 'e) option"

definition fd_ready :: "'e input_ctx \<Rightarrow> bool \<Rightarrow> 'e \<Rightarrow> bool \<Rightarrow> int \<Rightarrow> bool" where
  "fd_ready cx got_cmd e no_select fd \<longleftrightarrow> \<not> cx_use_select cx \<or> no_select \<or> (\<not> got_cmd \<and> cx_select cx fd e)"

text \<open>One key descriptor. The first component of the result says that the caller returns, with this command.\<close>

definition read_key_fd :: "'e input_ctx \<Rightarrow> nat \<Rightarrow> 'e input_state \<Rightarrow> (mp_cmd option option \<times> 'e input_state) option" where
  "read_key_fd cx i s =
     (let f = in_key_fds s ! i in
      if kd_event f then
        (let (ks, cs, e) = cx_event cx (kd_fd f) (in_env s);
             clicks = fold (\<lambda>(t, k). mplayer_put_key (cx_doubleclick cx) t k) ks (in_clicks s);
             q = fold (\<lambda>c q. snd (mp_input_queue_cmd (Some c) q)) cs (in_queue s);
             s = s\<lparr>in_queue := q, in_clicks := clicks, in_env := e\<rparr>
         in if cq_length q \<noteq> 0 then Some (Some None, s)
            else let (code, ff) = mplayer_get_key (ck_fifo clicks); s = s\<lparr>in_clicks := clicks\<lparr>ck_fifo := ff\<rparr>\<rparr>
              in if sint code < 0 then Some (None, s)
                 else map_option (\<lambda>(r, ks). (if r = None then None else Some r, s\<lparr>in_keys := ks\<rparr>))
                   (interpret_key (cx_lookup cx) (cx_key_cb cx) (cx_now cx e) code (in_keys s)))
      else
        (let (r, e) = cx_read_key cx (kd_fd f) (in_env s); s = s\<lparr>in_env := e\<rparr>
         in case r of
              KEY code \<Rightarrow> map_option (\<lambda>(r, ks). (if r = None then None else Some r, s\<lparr>in_keys := ks\<rparr>))
                (interpret_key (cx_lookup cx) (cx_key_cb cx) (cx_now cx e) code (in_keys s))
            | KEY_DEAD \<Rightarrow> Some (None, s\<lparr>in_key_fds := (in_key_fds s)[i := f\<lparr>kd_dead := True\<rparr>]\<rparr>)
            | _ \<Rightarrow> Some (None, s)))"

text \<open>One command descriptor. A line that is no command does not end the search.\<close>

definition read_cmd_fd :: "'e input_ctx \<Rightarrow> nat \<Rightarrow> 'e input_state \<Rightarrow> (mp_cmd option option \<times> 'e input_state) option" where
  "read_cmd_fd cx i s =
     (let f = in_cmd_fds s ! i in
      case mp_input_read_cmd (cx_read_cmd cx (cd_fd f)) (cd_in f) (in_env s) of
        None \<Rightarrow> None
      | Some (code, line, g, e) \<Rightarrow>
          (let g = (if code = Some MP_INPUT_DEAD then g\<lparr>fd_dead := True\<rparr> else g);
               s = s\<lparr>in_cmd_fds := (in_cmd_fds s)[i := f\<lparr>cd_in := g\<rparr>], in_env := e\<rparr>
           in case line of None \<Rightarrow> Some (None, s)
              | Some l \<Rightarrow> (case cx_parse cx l of None \<Rightarrow> Some (None, s) | Some c \<Rightarrow> Some (Some (Some c), s))))"

text \<open>A loop over indices that stops when the caller returns.\<close>

fun first_event :: "(nat \<Rightarrow> 's \<Rightarrow> bool) \<Rightarrow> (nat \<Rightarrow> 's \<Rightarrow> ('r option \<times> 's) option) \<Rightarrow> nat list \<Rightarrow> 's \<Rightarrow> ('r option \<times> 's) option" where
  "first_event ready step [] s = Some (None, s)"
| "first_event ready step (i # is) s =
     (if ready i s then (case step i s of None \<Rightarrow> None | Some (Some r, s) \<Rightarrow> Some (Some r, s) | Some (None, s) \<Rightarrow> first_event ready step is s)
      else first_event ready step is s)"

definition read_events :: "'e input_ctx \<Rightarrow> 'e input_state \<Rightarrow> (mp_cmd option \<times> 'e input_state) option" where
  "read_events cx s =
     (let (got_cmd, cmd_fds) = purge_cmd_fds 0 False (in_cmd_fds s);
          s = s\<lparr>in_key_fds := purge_key_fds 0 (in_key_fds s), in_cmd_fds := cmd_fds\<rparr>;
          e0 = in_env s
      in case first_event (\<lambda>i s. fd_ready cx got_cmd e0 (kd_no_select (in_key_fds s ! i)) (kd_fd (in_key_fds s ! i)))
           (read_key_fd cx) [0..<length (in_key_fds s)] s of
         None \<Rightarrow> None
       | Some (Some r, s) \<Rightarrow> Some (r, s)
       | Some (None, s) \<Rightarrow>
           (case check_autorepeat (cx_lookup cx) (cx_ar_delay cx) (cx_ar_rate cx) (cx_now cx (in_env s)) (in_keys s) of
              None \<Rightarrow> None
            | Some (Some c, ks) \<Rightarrow> Some (Some c, s\<lparr>in_keys := ks\<rparr>)
            | Some (None, ks) \<Rightarrow>
                (let s = s\<lparr>in_keys := ks\<rparr>
                 in case first_event (\<lambda>i s. fd_got_cmd (cd_in (in_cmd_fds s ! i)) \<or>
                        fd_ready cx got_cmd e0 (cd_no_select (in_cmd_fds s ! i)) (cd_fd (in_cmd_fds s ! i)))
                      (read_cmd_fd cx) [0..<length (in_cmd_fds s)] s of
                   None \<Rightarrow> None
                 | Some (Some r, s) \<Rightarrow> Some (r, s)
                 | Some (None, s) \<Rightarrow> Some (None, s))))"

section \<open>Fetching a command\<close>

text \<open>\<open>events\<close> is \<open>read_events\<close>, \<open>filters\<close> the command filters, which tell whether they ate the command, \<open>quit\<close> the request to
  quit from a signal handler.\<close>

definition mp_input_get_cmd ::
    "('e input_state \<Rightarrow> (mp_cmd option \<times> 'e input_state) option) \<Rightarrow> (string \<Rightarrow> mp_cmd option) \<Rightarrow> (mp_cmd \<Rightarrow> bool) list \<Rightarrow>
     bool \<Rightarrow> bool \<Rightarrow> 'e input_state \<Rightarrow> (mp_cmd option \<times> 'e input_state) option" where
  "mp_input_get_cmd events parse filters async_quit peek_only s =
     (let enqueue = (\<lambda>ret s. if \<not> peek_only then (ret, s)
            else let (ok, q) = mp_input_queue_cmd ret (in_queue s) in (if ok then ret else None, s\<lparr>in_queue := q\<rparr>))
      in if async_quit then Some (enqueue (parse ''quit 1'') s) else
      let (ret, q) = mp_input_get_queued_cmd peek_only (in_queue s) in do {
        (from_queue, ret, s) \<leftarrow> (if ret \<noteq> None then Some (True, ret, s\<lparr>in_queue := q\<rparr>)
          else do {
            (ret, s) \<leftarrow> events s;
            Some (if ret \<noteq> None then (False, ret, s)
              else let (ret, q) = mp_input_get_queued_cmd peek_only (in_queue s) in (True, ret, s\<lparr>in_queue := q\<rparr>))
          });
        Some (case ret of None \<Rightarrow> (None, s)
          | Some c \<Rightarrow> if list_ex (\<lambda>f. f c) filters
              then (None, if peek_only \<and> from_queue then s\<lparr>in_queue := snd (mp_input_get_queued_cmd False (in_queue s))\<rparr> else s)
              else if from_queue then (ret, s) else enqueue ret s)
      })"

text \<open>Commands that interrupt a blocking operation stay in the queue; others are dropped. The second call may read events
  again.\<close>

definition mp_input_check_interrupt ::
    "(bool \<Rightarrow> 'e input_state \<Rightarrow> (mp_cmd option \<times> 'e input_state) option) \<Rightarrow> 'e input_state \<Rightarrow> (bool \<times> 'e input_state) option" where
  "mp_input_check_interrupt get_cmd s = do {
     (cmd, s) \<leftarrow> get_cmd True s;
     (case cmd of None \<Rightarrow> Some (False, s)
      | Some c \<Rightarrow> if cmd_id c \<in> {''MP_CMD_QUIT'', ''MP_CMD_PLAY_TREE_STEP'', ''MP_CMD_PLAY_TREE_UP_STEP'', ''MP_CMD_PLAY_ALT_SRC_STEP''}
          then Some (True, s)
          else do { (cmd, s) \<leftarrow> get_cmd False s; Some (False, s) })
   }"

section \<open>The queue is a bounded queue\<close>

definition cq_contents :: "cmd_queue \<Rightarrow> mp_cmd option list" where
  "cq_contents q = map (\<lambda>k. cq_data q ! ((cq_start q + k) mod CMD_QUEUE_SIZE)) [0..<cq_length q]"

definition cq_ok :: "cmd_queue \<Rightarrow> bool" where
  "cq_ok q \<longleftrightarrow> length (cq_data q) = CMD_QUEUE_SIZE \<and> cq_length q \<le> CMD_QUEUE_SIZE \<and> cq_start q < CMD_QUEUE_SIZE \<and>
     cq_end q = (cq_start q + cq_length q) mod CMD_QUEUE_SIZE \<and> None \<notin> set (cq_contents q)"

definition cq_room :: "cmd_queue \<Rightarrow> bool" where
  "cq_room q \<longleftrightarrow> cq_length q < CMD_QUEUE_SIZE"

lemma length_cq_contents [simp]: "length (cq_contents q) = cq_length q"
  by (simp add: cq_contents_def)

lemma queue_size_pos: "0 < CMD_QUEUE_SIZE" by (simp add: CMD_QUEUE_SIZE_def)

lemma ring_distinct: "k < l \<Longrightarrow> l < n \<Longrightarrow> (s + k) mod n \<noteq> (s + l) mod (n::nat)"
  using mod_near [of "s + k" "s + l" n] by simp

lemma queue_put:
  assumes "cq_ok q" "cq_room q" "c \<noteq> None"
  shows "cq_ok (snd (mp_input_queue_cmd c q)) \<and> cq_contents (snd (mp_input_queue_cmd c q)) = cq_contents q @ [c]"
proof -
  let ?q = "snd (mp_input_queue_cmd c q)"
  have q: "?q = q\<lparr>cq_data := (cq_data q)[cq_end q := c], cq_end := (cq_end q + 1) mod CMD_QUEUE_SIZE, cq_length := cq_length q + 1\<rparr>"
    using assms(2,3) by (cases c) (auto simp: mp_input_queue_cmd_def cq_room_def)
  have e: "cq_end q = (cq_start q + cq_length q) mod CMD_QUEUE_SIZE" "cq_length q < CMD_QUEUE_SIZE" "length (cq_data q) = CMD_QUEUE_SIZE"
    using assms by (simp_all add: cq_ok_def cq_room_def)
  then have lt: "cq_end q < CMD_QUEUE_SIZE" using queue_size_pos by simp
  have "(cq_start q + k) mod CMD_QUEUE_SIZE \<noteq> cq_end q" if "k < cq_length q" for k
    using ring_distinct [OF that e(2)] e(1) by simp
  then have c: "cq_contents ?q = cq_contents q @ [c]"
    using e lt by (auto simp: cq_contents_def q nth_list_update) metis
  have "cq_end ?q = (cq_start ?q + cq_length ?q) mod CMD_QUEUE_SIZE"
    using e(1) by (simp add: q mod_Suc_eq)
  then show ?thesis using assms e c unfolding cq_ok_def c by (auto simp: q)
qed

lemma queue_get:
  assumes "cq_ok q" "cq_contents q = c # cs"
  shows "\<exists>q'. mp_input_get_queued_cmd False q = (c, q') \<and> cq_ok q' \<and> cq_contents q' = cs" "fst (mp_input_get_queued_cmd True q) = c"
    "snd (mp_input_get_queued_cmd True q) = q"
proof -
  have n: "cq_length q \<noteq> 0" using arg_cong [OF assms(2), of length] by simp
  let ?q = "q\<lparr>cq_length := cq_length q - 1, cq_start := (cq_start q + 1) mod CMD_QUEUE_SIZE\<rparr>"
  have "[0..<cq_length q] = 0 # map Suc [0..<cq_length q - 1]"
    using n upt_conv_Cons [of 0 "cq_length q"] by (simp add: map_Suc_upt)
  then have s: "cq_data q ! (cq_start q mod CMD_QUEUE_SIZE) = c" "map (\<lambda>k. cq_data q ! ((cq_start q + Suc k) mod CMD_QUEUE_SIZE)) [0..<cq_length q - 1] = cs"
    using assms(2) by (simp_all add: cq_contents_def comp_def)
  have st: "cq_start q mod CMD_QUEUE_SIZE = cq_start q" using assms(1) by (simp add: cq_ok_def)
  have cs: "cq_contents ?q = cs" using s(2) by (simp add: cq_contents_def mod_add_left_eq)
  have "((cq_start q + 1) mod CMD_QUEUE_SIZE + (cq_length q - 1)) mod CMD_QUEUE_SIZE = (cq_start q + 1 + (cq_length q - 1)) mod CMD_QUEUE_SIZE"
    by (rule mod_add_left_eq)
  then have "cq_end ?q = (cq_start ?q + cq_length ?q) mod CMD_QUEUE_SIZE" using assms(1) n by (simp add: cq_ok_def)
  then have "cq_ok ?q" using assms n cs queue_size_pos unfolding cq_ok_def cs by (simp, linarith)
  then show "\<exists>q'. mp_input_get_queued_cmd False q = (c, q') \<and> cq_ok q' \<and> cq_contents q' = cs"
    using n s(1) st cs by (auto simp: mp_input_get_queued_cmd_def)
  show "fst (mp_input_get_queued_cmd True q) = c" "snd (mp_input_get_queued_cmd True q) = q"
    using n s(1) st by (simp_all add: mp_input_get_queued_cmd_def)
qed

interpretation cq: bounded_queue cq_contents cq_ok cq_room "\<lambda>c. c \<noteq> None" "\<lambda>c q. snd (mp_input_queue_cmd c q)"
    "mp_input_get_queued_cmd False" None
  by unfold_locales (use queue_put queue_get(1) in \<open>auto simp: cq_contents_def mp_input_get_queued_cmd_def\<close>)

section \<open>Where commands come from\<close>

text \<open>What \<open>mp_input_get_cmd\<close> relies on when it reads events with an empty queue: the queue stays well-formed, and a command
  is returned only when the queue is still empty, so that no queued command is overtaken.\<close>

locale event_reader =
  fixes events :: "'e input_state \<Rightarrow> (mp_cmd option \<times> 'e input_state) option"
  assumes events_queue: "cq_ok (in_queue s) \<Longrightarrow> cq_contents (in_queue s) = [] \<Longrightarrow> events s = Some (r, s') \<Longrightarrow>
    cq_ok (in_queue s') \<and> (r \<noteq> None \<longrightarrow> cq_contents (in_queue s') = [])"

definition eaten :: "(mp_cmd \<Rightarrow> bool) list \<Rightarrow> mp_cmd \<Rightarrow> bool" where
  "eaten filters c \<longleftrightarrow> list_ex (\<lambda>f. f c) filters"

text \<open>The first command in the queue is taken, or stays there when it is only looked at and no filter ate it.\<close>

lemma get_cmd_queued:
  assumes "cq_ok (in_queue s)" "cq_contents (in_queue s) = Some c # cs"
  shows "\<exists>s'. mp_input_get_cmd events parse filters False peek s = Some (if eaten filters c then None else Some c, s') \<and>
    cq_ok (in_queue s') \<and> cq_contents (in_queue s') = (if peek \<and> \<not> eaten filters c then Some c # cs else cs) \<and>
    s' = s\<lparr>in_queue := in_queue s'\<rparr>"
proof -
  obtain q' where q': "mp_input_get_queued_cmd False (in_queue s) = (Some c, q')" "cq_ok q'" "cq_contents q' = cs"
    using queue_get(1) [OF assms] by blast
  have p: "mp_input_get_queued_cmd True (in_queue s) = (Some c, in_queue s)"
    using queue_get(2,3) [OF assms] by (simp add: prod_eq_iff)
  show ?thesis
    using q' p assms by (cases peek) (auto simp: mp_input_get_cmd_def eaten_def)
qed

context event_reader
begin

text \<open>With an empty queue the events decide; a command that is only looked at is put into the queue.\<close>

lemma get_cmd_read:
  assumes "cq_ok (in_queue s)" "cq_contents (in_queue s) = []" "events s = Some (Some c, s1)"
  shows "\<exists>s'. mp_input_get_cmd events parse filters False peek s = Some (if eaten filters c then None else Some c, s') \<and>
    cq_ok (in_queue s') \<and> cq_contents (in_queue s') = (if peek \<and> \<not> eaten filters c then [Some c] else [])"
proof -
  have e: "cq_ok (in_queue s1)" "cq_contents (in_queue s1) = []" using events_queue [OF assms] by simp_all
  have n: "mp_input_get_queued_cmd peek (in_queue s) = (None, in_queue s)"
    using assms(2) by (simp add: mp_input_get_queued_cmd_def cq_contents_def)
  have r: "cq_room (in_queue s1)" using arg_cong [OF e(2), of length] by (simp add: cq_room_def CMD_QUEUE_SIZE_def)
  have put: "cq_ok (snd (mp_input_queue_cmd (Some c) (in_queue s1)))" "cq_contents (snd (mp_input_queue_cmd (Some c) (in_queue s1))) = [Some c]"
    "fst (mp_input_queue_cmd (Some c) (in_queue s1))"
    using cq.put_contents [OF e(1) r, of "Some c"] e(2) r by (simp_all add: mp_input_queue_cmd_def cq_room_def)
  show ?thesis
    using n assms(3) e put by (cases peek) (auto simp: mp_input_get_cmd_def eaten_def split: prod.splits)
qed

text \<open>Events that gave no command may have queued some.\<close>

lemma get_cmd_none:
  assumes "cq_ok (in_queue s)" "cq_contents (in_queue s) = []" "events s = Some (None, s1)"
  shows "cq_ok (in_queue s1) \<and> mp_input_get_cmd events parse filters False peek s =
    (case cq_contents (in_queue s1) of [] \<Rightarrow> Some (None, s1) | _ \<Rightarrow> mp_input_get_cmd events parse filters False peek s1)"
proof -
  have e: "cq_ok (in_queue s1)" using events_queue [OF assms] by simp
  have n: "mp_input_get_queued_cmd peek (in_queue s) = (None, in_queue s)"
    using assms(2) by (simp add: mp_input_get_queued_cmd_def cq_contents_def)
  show ?thesis
  proof (cases "cq_contents (in_queue s1)")
    case Nil
    then have "mp_input_get_queued_cmd peek (in_queue s1) = (None, in_queue s1)"
      by (simp add: mp_input_get_queued_cmd_def cq_contents_def)
    then show ?thesis using e n assms(3) Nil by (simp add: mp_input_get_cmd_def)
  next
    case (Cons x xs)
    then obtain c where c: "x = Some c" using e by (cases x) (auto simp: cq_ok_def)
    have g: "fst (mp_input_get_queued_cmd peek (in_queue s1)) = Some c"
      using queue_get(1,2) [OF e Cons] c by (cases peek) auto
    then show ?thesis using e n assms(3) Cons by (auto simp: mp_input_get_cmd_def split: prod.splits)
  qed
qed

text \<open>A command that was looked at is the one the next call gets.\<close>

lemma peeked_stays:
  assumes "cq_ok (in_queue s)" "mp_input_get_cmd events parse filters False True s = Some (Some c, s1)"
  shows "\<exists>cs. cq_ok (in_queue s1) \<and> cq_contents (in_queue s1) = Some c # cs \<and> \<not> eaten filters c"
proof -
  have queued: "\<exists>cs. cq_ok (in_queue s1) \<and> cq_contents (in_queue s1) = Some c # cs \<and> \<not> eaten filters c"
    if ok: "cq_ok (in_queue t)" and q: "cq_contents (in_queue t) = x # xs"
      and g: "mp_input_get_cmd events parse filters False True t = Some (Some c, s1)" for t x xs
  proof -
    obtain d where "x = Some d" using ok q by (cases x) (auto simp: cq_ok_def)
    with get_cmd_queued [OF ok, of d xs events parse filters True] q g show ?thesis by (auto split: if_splits)
  qed
  show ?thesis
  proof (cases "cq_contents (in_queue s)")
    case (Cons x xs)
    then show ?thesis using queued [OF assms(1) Cons assms(2)] by blast
  next
    case Nil
    then have n: "mp_input_get_queued_cmd True (in_queue s) = (None, in_queue s)"
      by (simp add: mp_input_get_queued_cmd_def cq_contents_def)
    obtain r s2 where ev: "events s = Some (r, s2)"
      using assms(2) n by (cases "events s") (auto simp: mp_input_get_cmd_def)
    show ?thesis
    proof (cases r)
      case None
      with get_cmd_none [OF assms(1) Nil, of s2 parse filters True] ev assms(2) queued [of s2] show ?thesis
        by (auto split: list.splits)
    next
      case (Some d)
      with get_cmd_read [OF assms(1) Nil, of d s2 parse filters True] ev assms(2) show ?thesis by (auto split: if_splits)
    qed
  qed
qed

end

section \<open>Reading events is such a source\<close>

lemma queue_cmd_ok:
  assumes "cq_ok q"
  shows "cq_ok (snd (mp_input_queue_cmd c q))"
proof (cases "cq_room q \<and> c \<noteq> None")
  case True
  then show ?thesis using queue_put [OF assms] by blast
next
  case False
  then show ?thesis using assms by (auto simp: mp_input_queue_cmd_def cq_room_def)
qed

lemma queue_cmds_ok: "cq_ok q \<Longrightarrow> cq_ok (fold (\<lambda>c q. snd (mp_input_queue_cmd (Some c) q)) cs q)"
  by (induction cs arbitrary: q) (auto intro: queue_cmd_ok)

text \<open>What a step of the loops over the descriptors keeps: with a command the queue is empty.\<close>

definition queue_kept :: "mp_cmd option option \<Rightarrow> 'e input_state \<Rightarrow> bool" where
  "queue_kept r s \<longleftrightarrow> cq_ok (in_queue s) \<and> (r \<noteq> Some None \<longrightarrow> cq_contents (in_queue s) = [])"

lemma contents_empty: "cq_contents q = [] \<longleftrightarrow> cq_length q = 0"
  by (simp add: cq_contents_def)

lemma read_key_fd_queue:
  assumes "queue_kept None s" "read_key_fd cx i s = Some (r, s')"
  shows "queue_kept r s'"
proof (cases "kd_event (in_key_fds s ! i)")
  case False
  then show ?thesis
    using assms by (auto simp: read_key_fd_def queue_kept_def Let_def split: prod.splits key_result.splits if_splits)
next
  case True
  obtain ks cs e where ev: "cx_event cx (kd_fd (in_key_fds s ! i)) (in_env s) = (ks, cs, e)" by (cases "cx_event cx (kd_fd (in_key_fds s ! i)) (in_env s)")
  let ?q = "fold (\<lambda>c q. snd (mp_input_queue_cmd (Some c) q)) cs (in_queue s)"
  have "cq_ok ?q" using assms(1) queue_cmds_ok by (simp add: queue_kept_def)
  then show ?thesis
    using True ev assms(2) by (auto simp: read_key_fd_def queue_kept_def contents_empty Let_def split: prod.splits if_splits)
qed

lemma read_cmd_fd_queue:
  assumes "queue_kept None s" "read_cmd_fd cx i s = Some (r, s')"
  shows "queue_kept r s' \<and> r \<noteq> Some None"
  using assms by (auto simp: read_cmd_fd_def queue_kept_def Let_def split: prod.splits option.splits)

lemma first_event_keeps:
  assumes "\<And>i s r s'. P None s \<Longrightarrow> step i s = Some (r, s') \<Longrightarrow> P r s'"
  shows "P None s \<Longrightarrow> first_event ready step is s = Some (r, s') \<Longrightarrow> P r s'"
proof (induction "is" arbitrary: s)
  case Nil
  then show ?case by simp
next
  case (Cons i "is")
  show ?case
  proof (cases "ready i s")
    case False
    then show ?thesis using Cons by simp
  next
    case True
    then obtain x s1 where s1: "step i s = Some (x, s1)" using Cons.prems(2) by (cases "step i s") auto
    from assms [OF Cons.prems(1) s1] have "P x s1" .
    then show ?thesis using Cons s1 True by (cases x) auto
  qed
qed

lemma queue_kept_keys [simp]: "queue_kept r (t\<lparr>in_keys := k\<rparr>) \<longleftrightarrow> queue_kept r t"
  by (simp add: queue_kept_def)

lemma read_events_kept:
  fixes s :: "'e input_state"
  assumes "queue_kept None s" "read_events cx s = Some (r, s')"
  shows "queue_kept (Some r) s' \<or> queue_kept None s'"
proof -
  obtain got fds where purged: "purge_cmd_fds 0 False (in_cmd_fds s) = (got, fds)" by fastforce
  define s0 where "s0 = s\<lparr>in_key_fds := purge_key_fds 0 (in_key_fds s), in_cmd_fds := fds\<rparr>"
  define kready where "kready = (\<lambda>i (s :: 'e input_state). fd_ready cx got (in_env s0) (kd_no_select (in_key_fds s ! i)) (kd_fd (in_key_fds s ! i)))"
  define cready where "cready = (\<lambda>i (s :: 'e input_state). fd_got_cmd (cd_in (in_cmd_fds s ! i)) \<or>
    fd_ready cx got (in_env s0) (cd_no_select (in_cmd_fds s ! i)) (cd_fd (in_cmd_fds s ! i)))"
  note ev = assms(2) [unfolded read_events_def purged Let_def prod.case, folded s0_def, folded kready_def cready_def]
  have s0: "queue_kept None s0" using assms(1) by (simp add: queue_kept_def s0_def)
  obtain a s1 where k: "first_event kready (read_key_fd cx) [0..<length (in_key_fds s0)] s0 = Some (a, s1)"
    using ev by (auto split: option.splits)
  have k1: "queue_kept a s1" by (rule first_event_keeps [of queue_kept "read_key_fd cx", OF read_key_fd_queue s0 k])
  show ?thesis
  proof (cases a)
    case (Some x)
    then show ?thesis using ev k k1 by simp
  next
    case None
    note ev1 = ev [unfolded k None option.case prod.case]
    obtain b ks where ar: "check_autorepeat (cx_lookup cx) (cx_ar_delay cx) (cx_ar_rate cx) (cx_now cx (in_env s1)) (in_keys s1) = Some (b, ks)"
      using ev1 by (auto split: option.splits)
    show ?thesis
    proof (cases b)
      case (Some c)
      then show ?thesis using ev1 [unfolded ar Some option.case prod.case] k1 None by auto
    next
      case b: None
      have s2: "queue_kept None (s1\<lparr>in_keys := ks\<rparr>)" using k1 None by simp
      note ev2 = ev1 [unfolded ar b option.case prod.case]
      then obtain d s3 where c: "first_event cready (read_cmd_fd cx) [0..<length (in_cmd_fds (s1\<lparr>in_keys := ks\<rparr>))] (s1\<lparr>in_keys := ks\<rparr>) = Some (d, s3)"
        by (auto split: option.splits)
      have "queue_kept d s3"
        by (rule first_event_keeps [of queue_kept "read_cmd_fd cx", OF conjunct1 [OF read_cmd_fd_queue] s2 c])
      then show ?thesis using ev2 [unfolded c option.case prod.case] by (cases d) auto
    qed
  qed
qed

lemma read_events_queue:
  "cq_ok (in_queue s) \<Longrightarrow> cq_contents (in_queue s) = [] \<Longrightarrow> read_events cx s = Some (r, s') \<Longrightarrow>
    cq_ok (in_queue s') \<and> (r \<noteq> None \<longrightarrow> cq_contents (in_queue s') = [])"
  using read_events_kept [of s cx r s'] by (auto simp: queue_kept_def)

interpretation reader: event_reader "read_events cx" for cx
  by unfold_locales (rule read_events_queue)

section \<open>A session over a pipe\<close>

text \<open>In slave mode the player has one command pipe, and one key descriptor that reads the ring of key codes (mplayer.c). The
  calls of \<open>mp_input_get_cmd\<close> until every pipe has ended, and the commands they return.\<close>

partial_function (option) slave_session :: "'e input_ctx \<Rightarrow> 'e input_state \<Rightarrow> mp_cmd list option" where
  "slave_session cx s =
     (if list_all (\<lambda>f. fd_dead (cd_in f) \<or> fd_eof (cd_in f)) (in_cmd_fds s) then Some [] else do {
        (cmd, s) \<leftarrow> mp_input_get_cmd (read_events cx) (cx_parse cx) [] False False s;
        cmds \<leftarrow> slave_session cx s;
        Some (list_of cmd @ cmds)
      })"

text \<open>A state with one pipe \<open>f\<close>, nothing queued, no key waiting and none to repeat.\<close>

definition slave_state :: "'e input_ctx \<Rightarrow> cmd_fd \<Rightarrow> 'e input_state \<Rightarrow> bool" where
  "slave_state cx f s \<longleftrightarrow> list_all (\<lambda>k. \<not> kd_dead k \<and> \<not> kd_event k \<and> (\<forall>e. cx_read_key cx (kd_fd k) e = (KEY_NOTHING, e))) (in_key_fds s) \<and>
     in_cmd_fds s = [f] \<and> cq_length (in_queue s) = 0 \<and> ks_ar_state (in_keys s) < 0"

text \<open>The pipe is always ready, or is not subject to \<open>select\<close>.\<close>

definition always_read :: "'e input_ctx \<Rightarrow> cmd_fd \<Rightarrow> bool" where
  "always_read cx f \<longleftrightarrow> \<not> cx_use_select cx \<or> cd_no_select f \<or> (\<forall>e. cx_select cx (cd_fd f) e)"

lemma purge_key_none: "list_all (\<lambda>k. \<not> kd_dead k) fds \<Longrightarrow> purge_key_fds i fds = fds"
  by (induction i fds rule: purge_key_fds.induct) (subst purge_key_fds.simps, simp add: list_all_length)

lemma purge_cmd_none: "\<not> fd_dead (cd_in f) \<Longrightarrow> \<not> fd_eof (cd_in f) \<Longrightarrow> purge_cmd_fds 0 False [f] = (fd_got_cmd (cd_in f), [f])"
  by (simp add: purge_cmd_fds.simps)

lemma first_event_none: "\<forall>i \<in> set is. step i s = Some (None, s) \<Longrightarrow> first_event ready step is s = Some (None, s)"
  by (induction "is") simp_all

lemma read_cmd_fd_one:
  assumes "in_cmd_fds s = [f]" "code \<noteq> Some MP_INPUT_DEAD"
    "mp_input_read_cmd (cx_read_cmd cx (cd_fd f)) (cd_in f) (in_env s) = Some (code, line, g, e)"
  shows "read_cmd_fd cx 0 s = Some (map_option Some (Option.bind line (cx_parse cx)), s\<lparr>in_cmd_fds := [f\<lparr>cd_in := g\<rparr>], in_env := e\<rparr>)"
  using assms by (auto simp: read_cmd_fd_def Let_def split: option.splits)

lemma read_events_pipe:
  fixes s :: "'e input_state"
  assumes "slave_state cx f s" "always_read cx f" "\<not> fd_dead (cd_in f)" "\<not> fd_eof (cd_in f)" "code \<noteq> Some MP_INPUT_DEAD"
    "mp_input_read_cmd (cx_read_cmd cx (cd_fd f)) (cd_in f) (in_env s) = Some (code, line, g, e)"
  shows "read_events cx s = Some (Option.bind line (cx_parse cx), s\<lparr>in_cmd_fds := [f\<lparr>cd_in := g\<rparr>], in_env := e\<rparr>)"
proof -
  have s: "in_cmd_fds s = [f]" "\<not> 0 \<le> ks_ar_state (in_keys s)" "purge_key_fds 0 (in_key_fds s) = in_key_fds s"
    using assms(1) purge_key_none [of "in_key_fds s" 0] by (simp_all add: slave_state_def list_all_iff)
  have "read_key_fd cx i s = Some (None, s)" if "i < length (in_key_fds s)" for i
    using assms(1) that by (simp add: slave_state_def list_all_length read_key_fd_def)
  then have keys: "first_event ready (read_key_fd cx) [0..<length (in_key_fds s)] s = Some (None, s)" for ready :: "nat \<Rightarrow> 'e input_state \<Rightarrow> bool"
    by (intro first_event_none) simp
  have ar: "check_autorepeat lk d r t (in_keys s) = Some (None, in_keys s)" for lk d r t
    using s(2) by (simp add: check_autorepeat_def)
  have ready: "fd_got_cmd (cd_in f) \<or> fd_ready cx (fd_got_cmd (cd_in f)) (in_env s) (cd_no_select f) (cd_fd f)"
    using assms(2) by (auto simp: always_read_def fd_ready_def)
  have one: "read_cmd_fd cx 0 s = Some (map_option Some (Option.bind line (cx_parse cx)), s\<lparr>in_cmd_fds := [f\<lparr>cd_in := g\<rparr>], in_env := e\<rparr>)"
    by (rule read_cmd_fd_one [OF s(1) assms(5,6)])
  have upd: "s\<lparr>in_cmd_fds := [f]\<rparr> = s" "s\<lparr>in_keys := in_keys s\<rparr> = s" using s by simp_all
  show ?thesis
    using ready one by (cases "Option.bind line (cx_parse cx)")
      (simp_all add: read_events_def Let_def s purge_cmd_none assms(3,4) keys ar upd)
qed

lemma get_cmd_pipe:
  assumes "slave_state cx f s" "read_events cx s = Some (r, s')" "in_queue s' = in_queue s"
  shows "mp_input_get_cmd (read_events cx) parse [] False False s = Some (r, s')"
  using assms by (cases r) (auto simp: mp_input_get_cmd_def mp_input_get_queued_cmd_def slave_state_def)

text \<open>The commands of a session are those of the lines of the pipe.\<close>

definition lines_cmds :: "(string \<Rightarrow> mp_cmd option) \<Rightarrow> string list \<Rightarrow> mp_cmd list" where
  "lines_cmds parse ls = concat (map (\<lambda>l. list_of (parse l)) ls)"

lemma lines_cmds_append: "lines_cmds parse (list_of line @ ls) = list_of (Option.bind line parse) @ lines_cmds parse ls"
  by (cases line) (simp_all add: lines_cmds_def)

context cmd_source
begin

lemma session_lines:
  assumes "slave_state cx f s" "always_read cx f" "cx_read_cmd cx (cd_fd f) = rf"
    "fd_ok (cd_in f)" "\<not> fd_eof (cd_in f)" "\<not> fd_dead (cd_in f)" "no_nul (rest (in_env s))"
  shows "slave_session cx s = Some (lines_cmds (cx_parse cx) (lines_left (cd_in f) (rest (in_env s))))"
  using assms
proof (induction "budget (in_env s) + length (fd_buffer (cd_in f))" arbitrary: f s rule: less_induct)
  case less
  from read_cmd_step [OF less.prems(4,5,7)] obtain code line g e where g:
    "mp_input_read_cmd rf (cd_in f) (in_env s) = Some (code, line, g, e)" "code \<noteq> Some MP_INPUT_DEAD"
    "lines_left (cd_in f) (rest (in_env s)) = list_of line @ lines_left g (rest e)" "fd_ok g" "no_nul (rest e)" "fd_dead g = fd_dead (cd_in f)"
    "if fd_eof g then line = None \<and> lines_left g (rest e) = []
     else budget e + length (fd_buffer g) < budget (in_env s) + length (fd_buffer (cd_in f))" by blast
  let ?s = "s\<lparr>in_cmd_fds := [f\<lparr>cd_in := g\<rparr>], in_env := e\<rparr>"
  have "read_events cx s = Some (Option.bind line (cx_parse cx), ?s)"
    using less.prems g(1,2) by (intro read_events_pipe [where code = code]) simp_all
  then have cmd: "mp_input_get_cmd (read_events cx) (cx_parse cx) [] False False s = Some (Option.bind line (cx_parse cx), ?s)"
    using less.prems(1) by (intro get_cmd_pipe) simp_all
  have s: "in_cmd_fds s = [f]" using less.prems(1) by (simp add: slave_state_def)
  have "slave_session cx ?s = Some (lines_cmds (cx_parse cx) (lines_left g (rest e)))"
  proof (cases "fd_eof g")
    case True
    then show ?thesis using g(7) by (subst slave_session.simps) (simp add: lines_cmds_def)
  next
    case False
    then show ?thesis
      using less.hyps [of ?s "f\<lparr>cd_in := g\<rparr>"] less.prems g(4-7) by (simp add: slave_state_def always_read_def)
  qed
  then show ?case
    using cmd less.prems(5,6) by (subst slave_session.simps) (simp add: s g(3) lines_cmds_append)
qed

end

lemma unended_quoted: "unended n \<Longrightarrow> unended (quote_string n)"
proof -
  have q: "\<not> is_eol (CHR 0x22)" "\<not> is_eol (CHR 0x5C)" by code_simp+
  then have "unended n \<Longrightarrow> unended (escape n)" by (induction n) (simp_all add: escape_simps)
  then show "unended n \<Longrightarrow> unended (quote_string n)" using q by (simp add: quote_string_def)
qed

text \<open>A quoted file name comes back from the parser.\<close>

lemma loadfile_parsed:
  assumes "n = [] \<or> last n \<noteq> CHR 0x5C"
  shows "\<exists>c. mp_input_parse_cmd cfg p (''loadfile '' @ quote_string n) = Some c \<and> cmd_id c = ''MP_CMD_LOADFILE'' \<and>
    cmd_args c ! 0 = ARG_STRING (Some n)"
proof -
  define d where "d = cmd_def ''MP_CMD_LOADFILE'' ''loadfile'' 1 [ARG_STRING None, ARG_INT 0]"
  have d: "declared d = [ARG_STRING None, ARG_INT 0]" "cmd_id d = ''MP_CMD_LOADFILE''" "cmd_name d = ''loadfile''" "cmd_nargs d = 1"
    by (simp_all add: d_def declared_def cmd_def_def MP_CMD_MAX_ARGS_def)
  have "map tolower ''loadfile'' = ''loadfile''" by code_simp
  moreover have "d \<in> set (mp_cmds cfg)" unfolding d_def by (rule loadfile_cmd)
  moreover have "arg_text (ARG_STRING None) (ARG_STRING (Some n)) (quote_string n)" using assms by (simp add: arg_text_def)
  ultimately obtain z where "mp_input_parse_cmd cfg p (''loadfile'' @ args_text [quote_string n]) =
    Some \<lparr>cmd_id = ''MP_CMD_LOADFILE'', cmd_name = ''loadfile'', cmd_nargs = 1,
      cmd_args = ARG_STRING (Some n) # ARG_INT 0 # ARG_END # z, cmd_pausing = default_pausing p ''MP_CMD_LOADFILE''\<rparr>"
    using parse_cmd_text [of d cfg "''loadfile''" "[]" "- 1" "[ARG_STRING (Some n)]" "[quote_string n]" p]
    by (auto simp: d pausing_words_def)
  then show ?thesis by (simp add: args_text_simps)
qed

lemma loadfiles_parsed:
  assumes "list_all (\<lambda>n. n = [] \<or> last n \<noteq> CHR 0x5C) names"
  shows "map (\<lambda>c. (cmd_id c, cmd_args c ! 0)) (lines_cmds (mp_input_parse_cmd cfg p) (map (\<lambda>n. ''loadfile '' @ quote_string n) names)) =
    map (\<lambda>n. (''MP_CMD_LOADFILE'', ARG_STRING (Some n))) names"
  using assms
proof (induction names)
  case (Cons n names)
  then show ?case using loadfile_parsed [of n cfg p] by (auto simp: lines_cmds_def)
qed (simp add: lines_cmds_def)

section \<open>Properties\<close>

text \<open>C9: A command that \<open>mp_input_get_cmd\<close> only looked at stays the next one: whatever sources it came from (the queue,
  keys, autorepeat or a pipe), the next call returns the same command, looking again changes nothing, and fetching it
  removes it and leaves the commands behind it in their order. No event is read for that.\<close>

theorem peeked_command_stays:
  assumes "cq_ok (in_queue s)" "mp_input_get_cmd (read_events cx) parse filters False True s = Some (Some c, s1)"
  shows "\<exists>s2. mp_input_get_cmd events parse filters False True s1 = Some (Some c, s1) \<and>
    mp_input_get_cmd events parse filters False False s1 = Some (Some c, s2) \<and>
    cq_contents (in_queue s1) = Some c # cq_contents (in_queue s2) \<and> s2 = s1\<lparr>in_queue := in_queue s2\<rparr>"
proof -
  from reader.peeked_stays [OF assms] obtain cs where q: "cq_ok (in_queue s1)" "cq_contents (in_queue s1) = Some c # cs"
    "\<not> eaten filters c" by blast
  have "mp_input_get_cmd events parse filters False True s1 = Some (Some c, s1)"
    using q queue_get(2,3) [OF q(1,2)] by (auto simp: mp_input_get_cmd_def eaten_def split: prod.splits)
  then show ?thesis using get_cmd_queued [OF q(1,2), of events parse filters False] q(2,3) by auto
qed

text \<open>C8: In slave mode, the calls of \<open>mp_input_get_cmd\<close> until the pipe ends return the commands of its complete lines, in order,
  and end, however the system splits the text into reads. A program that writes a \<open>loadfile\<close> line for each of some names,
  quoted as the protocol wants it, has exactly these names loaded, whatever characters other than line ends and a final
  backslash are in them.\<close>

theorem slave_session_commands:
  assumes "slave_state cx f s" "cd_in f = new_input_fd" "always_read cx f"
    and "cx_read_cmd cx (cd_fd f) = mp_input_default_cmd_func pipe_read" "cx_parse cx = mp_input_parse_cmd cfg p"
    and "no_nul (pipe_text (in_env s))"
  shows "slave_session cx s = Some (lines_cmds (mp_input_parse_cmd cfg p) (kept_lines False (pipe_text (in_env s)))) \<and>
    (\<forall>names rest. pipe_text (in_env s) = concat (map (\<lambda>n. ''loadfile '' @ quote_string n @ [CHR 0x0A]) names) @ rest \<longrightarrow> unended rest \<longrightarrow>
       list_all (\<lambda>n. unended n \<and> length (quote_string n) \<le> 4085 \<and> (n = [] \<or> last n \<noteq> CHR 0x5C)) names \<longrightarrow>
       map_option (map (\<lambda>c. (cmd_id c, cmd_args c ! 0))) (slave_session cx s) = Some (map (\<lambda>n. (''MP_CMD_LOADFILE'', ARG_STRING (Some n))) names))"
proof -
  have session: "slave_session cx s = Some (lines_cmds (mp_input_parse_cmd cfg p) (kept_lines False (pipe_text (in_env s))))"
    using pipe.session_lines [OF assms(1,3,4)] assms(2,5,6) by (simp add: new_fd_ok)
  have "kept_lines False (concat (map (\<lambda>n. ''loadfile '' @ quote_string n @ [CHR 0x0A]) names) @ rest) =
      map (\<lambda>n. ''loadfile '' @ quote_string n) names"
    if "unended rest" "list_all (\<lambda>n. unended n \<and> length (quote_string n) \<le> 4085 \<and> (n = [] \<or> last n \<noteq> CHR 0x5C)) names" for names rest
  proof -
    have "unended ''loadfile ''" by code_simp
    then have "list_all (\<lambda>l. unended l \<and> length l + 1 < MP_CMD_MAX_SIZE) (map (\<lambda>n. ''loadfile '' @ quote_string n) names)"
      using that(2) unended_quoted by (auto simp: list_all_iff MP_CMD_MAX_SIZE_def)
    from kept_lines_written [OF this that(1)] show ?thesis by (simp add: comp_def)
  qed
  moreover have "list_all (\<lambda>n. n = [] \<or> last n \<noteq> CHR 0x5C) names"
    if "list_all (\<lambda>n. unended n \<and> length (quote_string n) \<le> 4085 \<and> (n = [] \<or> last n \<noteq> CHR 0x5C)) names" for names
    using that by (auto simp: list_all_iff)
  ultimately show ?thesis using session loadfiles_parsed by auto
qed

text \<open>A session over a pipe for the witnesses, with the key descriptor of the ring of key codes.\<close>

definition pipe_ctx :: "sys_read list input_ctx" where
  "pipe_ctx = \<lparr>cx_parse = mp_input_parse_cmd {} 0, cx_lookup = (\<lambda>_. None), cx_key_cb = None, cx_now = (\<lambda>_. 0), cx_ar_delay = 100,
     cx_ar_rate = 8, cx_use_select = True, cx_select = (\<lambda>_ _. True), cx_read_key = (\<lambda>_ e. (KEY_NOTHING, e)), cx_doubleclick = 300,
     cx_event = (\<lambda>_ e. ([], [], e)), cx_read_cmd = (\<lambda>_. mp_input_default_cmd_func pipe_read)\<rparr>"

definition pipe_state :: "cmd_queue \<Rightarrow> sys_read list \<Rightarrow> sys_read list input_state" where
  "pipe_state q ps = \<lparr>in_key_fds = snd (mp_input_add_key_fd (- 1) False []), in_cmd_fds = snd (mp_input_add_cmd_fd 0 True []),
     in_queue = q, in_keys = new_key_state,
     in_clicks = \<lparr>ck_fifo = \<lparr>kf_size = 7, kf_data = None, kf_read = 0, kf_write = 0, kf_previous_down_key = 0\<rparr>, ck_last_key = (0, 0), ck_last_key_time = (0, 0)\<rparr>,
     in_env = ps\<rparr>"

theorem slave_session_commands_witness:
  "map_option (map (\<lambda>c. (cmd_id c, cmd_args c ! 0))) (slave_session pipe_ctx (pipe_state new_cmd_queue
     [SYS_BYTES ''loadf'', SYS_EAGAIN, SYS_BYTES (''ile '' @ CHR 0x22 # ''a b'' @ [CHR 0x22, CHR 0x0A])])) =
   Some [(''MP_CMD_LOADFILE'', ARG_STRING (Some ''a b''))]"
proof -
  let ?ps = "[SYS_BYTES ''loadf'', SYS_EAGAIN, SYS_BYTES (''ile '' @ CHR 0x22 # ''a b'' @ [CHR 0x22, CHR 0x0A])]"
  let ?f = "\<lparr>cd_fd = 0, cd_no_select = False, cd_in = new_input_fd\<rparr>"
  have st: "slave_state pipe_ctx ?f (pipe_state new_cmd_queue ?ps)"
    by (simp add: slave_state_def pipe_state_def pipe_ctx_def mp_input_add_key_fd_def mp_input_add_cmd_fd_def MP_MAX_KEY_FD_def
        MP_MAX_CMD_FD_def new_cmd_queue_def new_key_state_def)
  have cx: "always_read pipe_ctx ?f" "cx_read_cmd pipe_ctx (cd_fd ?f) = mp_input_default_cmd_func pipe_read"
    "cx_parse pipe_ctx = mp_input_parse_cmd {} 0" "cd_in ?f = new_input_fd"
    by (simp_all add: pipe_ctx_def always_read_def)
  have env: "in_env (pipe_state new_cmd_queue ?ps) = ?ps" by (simp add: pipe_state_def)
  have bytes: "no_nul (pipe_text ?ps)" "pipe_text ?ps = concat (map (\<lambda>n. ''loadfile '' @ quote_string n @ [CHR 0x0A]) [''a b'']) @ []"
    "list_all (\<lambda>n. unended n \<and> length (quote_string n) \<le> 4085 \<and> (n = [] \<or> last n \<noteq> CHR 0x5C)) [''a b'']" "unended []"
    by code_simp+
  note loads = conjunct2 [OF slave_session_commands [OF st cx(4,1,2,3), unfolded env, OF bytes(1)]]
  show ?thesis using loads [THEN spec, THEN spec, THEN mp, THEN mp, THEN mp, OF bytes(2,4,3)] by (simp only: list.map)
qed

lemma new_queue: "cq_ok new_cmd_queue" "cq_contents new_cmd_queue = []" "cq_room new_cmd_queue"
  by (simp_all add: cq_ok_def cq_room_def cq_contents_def new_cmd_queue_def CMD_QUEUE_SIZE_def)

definition pause_cmd :: mp_cmd where
  "pause_cmd = cmd_def ''MP_CMD_PAUSE'' ''pause'' 0 []"

theorem peeked_command_stays_witness:
  "\<exists>s2. mp_input_get_cmd (read_events pipe_ctx) (\<lambda>_. None) [] False False (pipe_state (snd (mp_input_queue_cmd (Some pause_cmd) new_cmd_queue)) []) =
    Some (Some pause_cmd, s2) \<and> cq_contents (in_queue s2) = []"
proof -
  let ?q = "snd (mp_input_queue_cmd (Some pause_cmd) new_cmd_queue)"
  let ?s = "pipe_state ?q []"
  have q: "cq_ok ?q" "cq_contents ?q = [Some pause_cmd]" using new_queue queue_put [of new_cmd_queue "Some pause_cmd"] by simp_all
  moreover have "in_queue ?s = ?q" by (simp add: pipe_state_def)
  moreover from q this have "mp_input_get_cmd (read_events pipe_ctx) (\<lambda>_. None) [] False True ?s = Some (Some pause_cmd, ?s)"
    using queue_get(2,3) [of ?q "Some pause_cmd" "[]"] by (auto simp: mp_input_get_cmd_def split: prod.splits)
  ultimately show ?thesis using peeked_command_stays [of ?s pipe_ctx "\<lambda>_. None" "[]" pause_cmd ?s "read_events pipe_ctx"] by auto
qed

text \<open>The lines of a text, without spaces in front of them and without empty ones.\<close>

fun split_eol :: "string \<Rightarrow> string list" where
  "split_eol [] = [[]]"
| "split_eol (c # s) = (case split_eol s of [] \<Rightarrow> [] | l # ls \<Rightarrow> if is_eol c then [] # l # ls else (c # l) # ls)"

definition text_lines :: "string \<Rightarrow> string list" where
  "text_lines s = filter (\<lambda>l. l \<noteq> []) (map (dropWhile (\<lambda>c. c = CHR '' '')) (split_eol s))"

lemma split_eol_Cons: "\<exists>l ls. split_eol s = l # ls"
  by (induction s) (auto split: list.splits)

lemma text_lines_blank: "text_blank c \<Longrightarrow> text_lines (c # s) = text_lines s"
proof -
  assume c: "text_blank c"
  show ?thesis
  proof (cases "is_eol c")
    case True
    then show ?thesis using split_eol_Cons [of s] by (auto simp: text_lines_def)
  next
    case False
    then have "c = CHR '' ''" using c by (simp add: text_blank_def is_eol_def)
    obtain h t where h: "split_eol s = h # t" using split_eol_Cons by blast
    then have "split_eol (c # s) = (c # h) # t" using False by simp
    with h show ?thesis unfolding text_lines_def by (simp add: \<open>c = CHR '' ''\<close>)
  qed
qed

lemma text_lines_dropWhile: "text_lines (dropWhile text_blank s) = text_lines s"
  by (induction s) (simp_all add: text_lines_blank)

lemma split_eol_line:
  "split_eol s = takeWhile (\<lambda>c. \<not> is_eol c) s # (case dropWhile (\<lambda>c. \<not> is_eol c) s of [] \<Rightarrow> [] | c # t \<Rightarrow> split_eol t)"
proof (induction s)
  case (Cons c s)
  obtain l ls where "split_eol s = l # ls" using split_eol_Cons by blast
  then show ?case using Cons by simp
qed simp

lemma text_lines_line:
  assumes "s \<noteq> []" "\<not> text_blank (hd s)"
  shows "text_lines s = takeWhile (\<lambda>c. \<not> is_eol c) s # text_lines (dropWhile (\<lambda>c. \<not> is_eol c) s)"
proof -
  obtain c t where s: "s = c # t" "\<not> is_eol c" "c \<noteq> CHR '' ''" using assms by (cases s) (auto simp: text_blank_def is_eol_def)
  let ?d = "dropWhile (\<lambda>c. \<not> is_eol c) s"
  have "text_lines ?d = filter (\<lambda>l. l \<noteq> []) (map (dropWhile (\<lambda>c. c = CHR '' '')) (case ?d of [] \<Rightarrow> [] | c # t \<Rightarrow> split_eol t))"
  proof (cases ?d)
    case (Cons x y)
    then have "is_eol x" using hd_dropWhile [of "\<lambda>c. \<not> is_eol c" s] by simp
    moreover obtain l ls where "split_eol y = l # ls" using split_eol_Cons by blast
    ultimately show ?thesis unfolding Cons by (simp add: text_lines_def)
  next
    case Nil
    then show ?thesis unfolding Nil by (simp add: text_lines_def)
  qed
  then show ?thesis using s by (subst text_lines_def, subst split_eol_line) simp
qed

lemma queue_takes:
  assumes "cq_ok q"
  shows "cq_contents (snd (mp_input_queue_cmd c q)) = take CMD_QUEUE_SIZE (cq_contents q @ map Some (list_of c))"
proof (cases "cq_room q \<and> c \<noteq> None")
  case True
  moreover from this obtain d where "c = Some d" by blast
  ultimately show ?thesis using queue_put [OF assms] by (simp add: cq_room_def)
next
  case False
  then have "snd (mp_input_queue_cmd c q) = q" by (auto simp: mp_input_queue_cmd_def cq_room_def)
  moreover have "cq_length q \<le> CMD_QUEUE_SIZE" using assms by (simp add: cq_ok_def)
  ultimately show ?thesis using False by (cases c) (auto simp: cq_room_def)
qed

lemma take_take_append: "take n (take n xs @ ys) = take n (xs @ ys)"
  by (cases "length xs \<le> n") simp_all

lemma queue_cmds_lines:
  "cq_ok q \<Longrightarrow> fst (queue_cmds parse s n q) = n + length (lines_cmds parse (text_lines s)) \<and>
    cq_ok (snd (queue_cmds parse s n q)) \<and>
    cq_contents (snd (queue_cmds parse s n q)) = take CMD_QUEUE_SIZE (cq_contents q @ map Some (lines_cmds parse (text_lines s)))"
proof (induction parse s n q rule: queue_cmds.induct)
  case (1 parse s n q)
  let ?s = "dropWhile text_blank s"
  show ?case
  proof (cases "?s = []")
    case True
    moreover have "text_lines s = []" using text_lines_dropWhile [of s] True by (simp add: text_lines_def)
    moreover have "length (cq_contents q) \<le> CMD_QUEUE_SIZE" using 1(2) by (simp add: cq_ok_def)
    ultimately show ?thesis using 1(2) by (subst (1 2 3) queue_cmds.simps) (simp add: lines_cmds_def)
  next
    case False
    let ?l = "takeWhile (\<lambda>c. \<not> is_eol c) ?s" and ?d = "dropWhile (\<lambda>c. \<not> is_eol c) ?s"
    have lines: "text_lines s = ?l # text_lines ?d"
      using text_lines_line [OF False] hd_dropWhile [OF False] text_lines_dropWhile [of s] by simp
    have step: "queue_cmds parse s n q = queue_cmds parse ?d (if parse ?l = None then n else n + 1) (snd (mp_input_queue_cmd (parse ?l) q))"
      unfolding queue_cmds.simps [of parse s n q] Let_def by (simp only: False if_False)
    note IH = 1(1) [OF refl False refl queue_cmd_ok [OF 1(2)]]
    show ?thesis unfolding step lines using IH 1(2)
      by (cases "parse ?l") (simp_all add: queue_takes lines_cmds_def take_take_append del: take_append)
  qed
qed

text \<open>C37: \<open>mp_input_parse_and_queue_cmds\<close> puts the commands of the lines of a text into the queue, in order, as far as there is
  room, and returns how many there were, counting those for which there was no room.\<close>

theorem parse_and_queue_lines:
  assumes "cq_ok q"
  shows "fst (mp_input_parse_and_queue_cmds parse str q) = length (lines_cmds parse (text_lines str)) \<and>
    cq_ok (snd (mp_input_parse_and_queue_cmds parse str q)) \<and>
    cq_contents (snd (mp_input_parse_and_queue_cmds parse str q)) = take 100 (cq_contents q @ map Some (lines_cmds parse (text_lines str)))"
  using queue_cmds_lines [OF assms, of parse str 0] by (simp add: mp_input_parse_and_queue_cmds_def CMD_QUEUE_SIZE_def)

theorem parse_and_queue_lines_witness:
  "map (map_option cmd_name) (cq_contents (snd (mp_input_parse_and_queue_cmds (mp_input_parse_cmd {} 0)
     (''pause'' @ [CHR 0x0A, CHR 0x0A, CHR '' ''] @ ''no_such'' @ [CHR 0x0D] @ ''mute'') new_cmd_queue))) = [Some ''pause'', Some ''mute'']"
proof -
  let ?s = "''pause'' @ [CHR 0x0A, CHR 0x0A, CHR '' ''] @ ''no_such'' @ [CHR 0x0D] @ ''mute''"
  define cs where "cs = lines_cmds (mp_input_parse_cmd {} 0) (text_lines ?s)"
  have names: "map cmd_name cs = [''pause'', ''mute'']" unfolding cs_def by code_simp
  have "length (map cmd_name cs) = 2" unfolding names by simp
  then have "length (map Some cs) \<le> 100" by simp
  then have "cq_contents (snd (mp_input_parse_and_queue_cmds (mp_input_parse_cmd {} 0) ?s new_cmd_queue)) = map Some cs"
    using parse_and_queue_lines [OF new_queue(1), of "mp_input_parse_cmd {} 0" ?s, folded cs_def] unfolding new_queue(2) append_Nil
    by (elim conjE) (simp only: take_all)
  moreover have "map (map_option cmd_name) (map Some cs) = map Some (map cmd_name cs)" by simp
  ultimately show ?thesis unfolding names by simp
qed

end
