(* ===== verification/Options.thy ===== *)
theory Options
  imports CString "HOL-Library.Monad_Syntax" "HOL-Library.Word"
begin

text \<open>
  Options, m_option.c and m_option.h: the types whose values are flags, integers and strings, and the parser of suboptions.
  Other types take part with their parse function as a parameter. Limits are doubles in the code; those of the options are
  small integers, which doubles represent exactly.
\<close>

unbundle bit_operations_syntax

section \<open>Options and their types\<close>

definition M_OPT_MIN :: "32 word" where "M_OPT_MIN = push_bit 0 1"
definition M_OPT_MAX :: "32 word" where "M_OPT_MAX = push_bit 1 1"
definition M_OPT_NOCFG :: "32 word" where "M_OPT_NOCFG = push_bit 2 1"
definition M_OPT_NOCMD :: "32 word" where "M_OPT_NOCMD = push_bit 3 1"
definition M_OPT_GLOBAL :: "32 word" where "M_OPT_GLOBAL = push_bit 4 1"
definition M_OPT_NOSAVE :: "32 word" where "M_OPT_NOSAVE = push_bit 5 1"
definition M_OPT_OLD :: "32 word" where "M_OPT_OLD = push_bit 6 1"
definition M_OPT_PRE_PARSE :: "32 word" where "M_OPT_PRE_PARSE = push_bit 7 1"

definition M_OPT_UNKNOWN :: int where "M_OPT_UNKNOWN = - 1"
definition M_OPT_MISSING_PARAM :: int where "M_OPT_MISSING_PARAM = - 2"
definition M_OPT_INVALID :: int where "M_OPT_INVALID = - 3"
definition M_OPT_OUT_OF_RANGE :: int where "M_OPT_OUT_OF_RANGE = - 4"

datatype opt_mode = M_CONFIG_FILE | M_COMMAND_LINE | M_COMMAND_LINE_PRE_PARSE

datatype opt_value = V_INT int | V_STR "string option"

text \<open>\<open>p\<close> is the variable of the option, if it has one; for suboptions it is their list. The parse function of another type gives
  a code and the value to store, and knows whether it uses wildcards.\<close>

datatype m_option = M_OPTION (mo_name: string) (mo_p: "nat option") (mo_type: opt_type) (mo_flags: "32 word") (mo_min: int) (mo_max: int)
  and opt_type = TYPE_FLAG | TYPE_INT | TYPE_INT64 | TYPE_STRING | TYPE_SUBCONFIG "m_option list"
    | TYPE_OTHER bool "string option \<Rightarrow> opt_mode \<Rightarrow> int \<times> opt_value option"

definition has_flag :: "m_option \<Rightarrow> 32 word \<Rightarrow> bool" where
  "has_flag opt f \<longleftrightarrow> mo_flags opt AND f \<noteq> 0"

definition has_child :: "m_option \<Rightarrow> bool" where
  "has_child opt \<longleftrightarrow> (case mo_type opt of TYPE_SUBCONFIG _ \<Rightarrow> True | _ \<Rightarrow> False)"

definition allow_wildcard :: "m_option \<Rightarrow> bool" where
  "allow_wildcard opt \<longleftrightarrow> (case mo_type opt of TYPE_OTHER w _ \<Rightarrow> w | _ \<Rightarrow> False)"

text \<open>The zero bytes that \<open>calloc\<close> gives a save slot.\<close>

definition zero_value :: "m_option \<Rightarrow> opt_value" where
  "zero_value opt = (case mo_type opt of TYPE_STRING \<Rightarrow> V_STR None | _ \<Rightarrow> V_INT 0)"

section \<open>Flags\<close>

definition flag_yes :: "string list" where
  "flag_yes = [''yes'', ''on'', ''ja'', ''si'', ''igen'', ''y'', ''j'', ''i'', ''tak'', ''ja'', ''true'']"

definition flag_no :: "string list" where
  "flag_no = [''no'', ''off'', ''nein'', ''nicht'', ''nem'', ''n'', ''nie'', ''nej'', ''false'']"

text \<open>A code and the value to store, if any.\<close>

definition parse_flag :: "m_option \<Rightarrow> string option \<Rightarrow> opt_mode \<Rightarrow> int \<times> opt_value option" where
  "parse_flag opt param src =
     (if src = M_CONFIG_FILE then
        (case param of None \<Rightarrow> (M_OPT_MISSING_PARAM, None)
         | Some s \<Rightarrow>
             if list_ex (av_strcaseeq s) flag_yes \<or> s = ''1'' then (1, Some (V_INT (mo_max opt)))
             else if list_ex (av_strcaseeq s) flag_no \<or> s = ''0'' then (1, Some (V_INT (mo_min opt)))
             else (M_OPT_INVALID, None))
      else (0, Some (V_INT (mo_max opt))))"

definition print_flag :: "m_option \<Rightarrow> int \<Rightarrow> string" where
  "print_flag opt v = (if v = mo_min opt then ''no'' else ''yes'')"

section \<open>Integers\<close>

text \<open>\<open>strtoll\<close> with base 10, 8 or 16, or 0, which finds out the base: the value, kept within 64 bits, and the rest of the text;
  that is the whole text when there are no digits.\<close>

definition base_digit :: "int \<Rightarrow> char \<Rightarrow> int option" where
  "base_digit base c =
     (let d = (if is_digit c then digit_value c else if is_lower (tolower c) then int (char_code (tolower c)) - 87 else base)
      in if d < base then Some d else None)"

fun base_value :: "int \<Rightarrow> int \<Rightarrow> string \<Rightarrow> int" where
  "base_value base v [] = v"
| "base_value base v (c # cs) = (case base_digit base c of None \<Rightarrow> v | Some d \<Rightarrow> base_value base (base * v + d) cs)"

definition clamp64 :: "int \<Rightarrow> int" where
  "clamp64 v = max (- (2 ^ 63)) (min (2 ^ 63 - 1) v)"

definition strtoll :: "int \<Rightarrow> string \<Rightarrow> int \<times> string" where
  "strtoll base s =
     (let t = dropWhile is_space s;
          neg = (t \<noteq> [] \<and> hd t = CHR ''-'');
          t = (if t \<noteq> [] \<and> hd t \<in> {CHR ''-'', CHR ''+''} then tl t else t);
          hex = (base \<in> {0, 16} \<and> length t > 2 \<and> t ! 0 = CHR ''0'' \<and> tolower (t ! 1) = CHR ''x'' \<and> base_digit 16 (t ! 2) \<noteq> None);
          b = (if base \<noteq> 0 then base else if hex then 16 else if t \<noteq> [] \<and> hd t = CHR ''0'' then 8 else 10);
          t = (if hex then drop 2 t else t);
          rest = dropWhile (\<lambda>c. base_digit b c \<noteq> None) t
      in if rest = t then (0, s) else (clamp64 (if neg then - base_value b 0 t else base_value b 0 t), rest))"

text \<open>Storing a \<open>long long\<close> in an \<open>int\<close>.\<close>

definition to_int32 :: "int \<Rightarrow> int" where
  "to_int32 v = (v + 2 ^ 31) mod 2 ^ 32 - 2 ^ 31"

definition parse_int :: "m_option \<Rightarrow> string option \<Rightarrow> int \<times> opt_value option" where
  "parse_int opt param = (case param of
       None \<Rightarrow> (M_OPT_MISSING_PARAM, None)
     | Some s \<Rightarrow>
         (let (v, rest) = strtoll 10 s;
              (v, rest) = (if rest \<noteq> [] then strtoll 0 s else (v, rest))
          in if rest \<noteq> [] then (M_OPT_INVALID, None)
             else if has_flag opt M_OPT_MIN \<and> v < mo_min opt then (M_OPT_OUT_OF_RANGE, None)
             else if has_flag opt M_OPT_MAX \<and> mo_max opt < v then (M_OPT_OUT_OF_RANGE, None)
             else (1, Some (V_INT (case mo_type opt of TYPE_INT64 \<Rightarrow> v | _ \<Rightarrow> to_int32 v)))))"

definition print_int :: "int \<Rightarrow> string" where
  "print_int v = dec_string v"

section \<open>Strings\<close>

definition parse_str :: "m_option \<Rightarrow> string option \<Rightarrow> int \<times> opt_value option" where
  "parse_str opt param = (case param of
       None \<Rightarrow> (M_OPT_MISSING_PARAM, None)
     | Some s \<Rightarrow>
         if has_flag opt M_OPT_MIN \<and> int (length s) < mo_min opt then (M_OPT_OUT_OF_RANGE, None)
         else if has_flag opt M_OPT_MAX \<and> mo_max opt < int (length s) then (M_OPT_OUT_OF_RANGE, None)
         else (1, Some (V_STR (Some s))))"

definition print_str :: "string option \<Rightarrow> string option" where
  "print_str v = (case v of None \<Rightarrow> None | Some s \<Rightarrow> if s = [] then None else Some s)"

section \<open>Finding an option\<close>

text \<open>\<open>m_option_list_find\<close>\<close>

definition name_fits :: "bool \<Rightarrow> string \<Rightarrow> string \<Rightarrow> bool" where
  "name_fits wildcard n name \<longleftrightarrow>
     (if wildcard \<and> n \<noteq> [] \<and> last n = CHR ''*'' then av_strcaseeq (butlast n) (take (length n - 1) name)
      else av_strcaseeq n name)"

definition m_option_list_find :: "m_option list \<Rightarrow> string \<Rightarrow> m_option option" where
  "m_option_list_find opts name = find (\<lambda>o'. name_fits (allow_wildcard o' \<and> 1 < length (mo_name o')) (mo_name o') name) opts"

section \<open>Suboptions\<close>

text \<open>The parameter of a suboption after its equals sign: the parameter and what follows it, or no result for an error.\<close>

definition subconf_param :: "string \<Rightarrow> (string \<times> string) option" where
  "subconf_param p = (case p of
       [] \<Rightarrow> Some ([], [])
     | c # q \<Rightarrow>
         if c = CHR 0x22 then
           (let s = takeWhile (\<lambda>c. c \<noteq> CHR 0x22) q; r = dropWhile (\<lambda>c. c \<noteq> CHR 0x22) q
            in if r = [] then None else Some (s, tl r))
         else if c = CHR ''%'' then
           (let (n, r) = strtoll 0 q; n = to_int32 n
            in if r = [] \<or> hd r \<noteq> CHR ''%'' \<or> n < 0 \<or> int (length r) - 1 < n then None
               else Some (take (nat n) (tl r), drop (nat n) (tl r)))
         else Some (takeWhile (\<lambda>c. c \<noteq> CHR '':'') p, dropWhile (\<lambda>c. c \<noteq> CHR '':'') p))"

text \<open>One suboption: its name, its parameter and the rest of the text.\<close>

definition subconf_item :: "string \<Rightarrow> (string \<times> string \<times> string) option" where
  "subconf_item p =
     (let name = takeWhile (\<lambda>c. c \<noteq> CHR '':'' \<and> c \<noteq> CHR ''='') p; p = dropWhile (\<lambda>c. c \<noteq> CHR '':'' \<and> c \<noteq> CHR ''='') p
      in case (if p \<noteq> [] \<and> hd p = CHR ''='' then subconf_param (tl p) else Some ([], p)) of
           None \<Rightarrow> None
         | Some (param, p) \<Rightarrow> if p \<noteq> [] \<and> hd p = CHR '':'' then Some (name, param, tl p) else if p \<noteq> [] then None else Some (name, param, []))"

definition sub_param :: "string \<Rightarrow> string option" where
  "sub_param s = (if s = [] then None else Some s)"

lemma strtoll_rest: "length (snd (strtoll base s)) \<le> length s"
proof -
  let ?t = "dropWhile is_space s"
  let ?u = "if ?t \<noteq> [] \<and> hd ?t \<in> {CHR ''-'', CHR ''+''} then tl ?t else ?t"
  have "length ?t \<le> length s" by (rule length_dropWhile_le)
  moreover have "length ?u \<le> length ?t" by auto
  moreover have "length (if b then drop 2 ?u else ?u) \<le> length ?u" for b by auto
  moreover have "length (dropWhile P v) \<le> length v" for P and v :: string by (rule length_dropWhile_le)
  ultimately have "length (dropWhile P (if b then drop 2 ?u else ?u)) \<le> length s" for P b by (meson order_trans)
  then show ?thesis unfolding strtoll_def Let_def by (simp split del: if_split) (simp split: if_split)
qed

lemma subconf_param_rest: "subconf_param p = Some (s, r) \<Longrightarrow> length r \<le> length p"
proof (cases p)
  case (Cons c q)
  assume r: "subconf_param p = Some (s, r)"
  have "length (snd (strtoll 0 q)) \<le> length q" by (rule strtoll_rest)
  then show ?thesis using r length_dropWhile_le [of "\<lambda>c. c \<noteq> CHR 0x22" q] length_dropWhile_le [of "\<lambda>c. c \<noteq> CHR '':''" p] Cons
    by (auto simp: subconf_param_def Let_def split: if_splits prod.splits)
qed (simp add: subconf_param_def)

lemma subconf_item_rest: "subconf_item p = Some (n, s, r) \<Longrightarrow> p \<noteq> [] \<Longrightarrow> length r < length p"
proof -
  assume r: "subconf_item p = Some (n, s, r)" and p: "p \<noteq> []"
  let ?q = "dropWhile (\<lambda>c. c \<noteq> CHR '':'' \<and> c \<noteq> CHR ''='') p"
  have q: "length ?q \<le> length p" by (rule length_dropWhile_le)
  show ?thesis
  proof (cases "?q \<noteq> [] \<and> hd ?q = CHR ''=''")
    case True
    then obtain s' r' where "subconf_param (tl ?q) = Some (s', r')" "r = (if r' = [] then [] else tl r')"
      using r by (auto simp: subconf_item_def Let_def split: option.splits if_splits)
    then show ?thesis using subconf_param_rest [of "tl ?q"] q True p by (cases ?q) fastforce+
  next
    case False
    then show ?thesis using r q p by (cases ?q) (auto simp: subconf_item_def Let_def split: if_splits)
  qed
qed

text \<open>\<open>parse_sub\<close> checks a suboption. The list of names and parameters has been parsed so far.\<close>

function parse_subconf_loop :: "(m_option \<Rightarrow> string option \<Rightarrow> int) \<Rightarrow> m_option list \<Rightarrow> string \<Rightarrow> (string \<times> string option) list \<Rightarrow>
    int \<times> (string \<times> string option) list" where
  "parse_subconf_loop parse_sub subopts p lst =
     (if p = [] then (1, lst) else
      case subconf_item p of
        None \<Rightarrow> (M_OPT_INVALID, [])
      | Some (name, param, rest) \<Rightarrow>
          (case find (\<lambda>s. mo_name s = name) subopts of
             None \<Rightarrow> (M_OPT_UNKNOWN, [])
           | Some s \<Rightarrow>
               (let r = parse_sub s (sub_param param)
                in if r < 0 then (r, [])
                   else parse_subconf_loop parse_sub subopts rest (lst @ [(name, sub_param param)]))))"
  by pat_completeness auto
termination by (relation "measure (\<lambda>(f, s, p, l). length p)") (auto dest: subconf_item_rest)

declare parse_subconf_loop.simps [simp del]

lemma parse_subconf_loop_cong [fundef_cong]:
  assumes "subopts = subopts'" "p = p'" "lst = lst'" "\<And>s param. s \<in> set subopts' \<Longrightarrow> f s param = g s param"
  shows "parse_subconf_loop f subopts p lst = parse_subconf_loop g subopts' p' lst'"
proof -
  have "parse_subconf_loop f subopts' p lst = parse_subconf_loop g subopts' p lst"
    using assms(4)
  proof (induction f subopts' p lst rule: parse_subconf_loop.induct)
    case (1 f subopts p lst)
    then show ?case
    proof (cases "p = [] \<or> subconf_item p = None")
      case False
      then obtain name param rest where p: "p \<noteq> []" "subconf_item p = Some (name, param, rest)" by auto
      show ?thesis
      proof (cases "find (\<lambda>s. mo_name s = name) subopts")
        case None
        then show ?thesis using p by (simp add: parse_subconf_loop.simps [of _ _ p])
      next
        case (Some s)
        then have "f s (sub_param param) = g s (sub_param param)" using "1.prems" by (auto simp: find_Some_iff)
        then show ?thesis using p Some "1.IH" [OF p(1,2) refl refl Some refl] "1.prems"
          by (simp add: parse_subconf_loop.simps [of _ _ p] Let_def)
      qed
    qed (auto simp: parse_subconf_loop.simps [of _ _ p])
  qed
  then show ?thesis using assms(1,2,3) by simp
qed

definition parse_subconf :: "(m_option \<Rightarrow> string option \<Rightarrow> int) \<Rightarrow> m_option list \<Rightarrow> string option \<Rightarrow> int \<times> (string \<times> string option) list" where
  "parse_subconf parse_sub subopts param = (case param of
       None \<Rightarrow> (M_OPT_MISSING_PARAM, [])
     | Some p \<Rightarrow> if p = [] then (M_OPT_MISSING_PARAM, []) else parse_subconf_loop parse_sub subopts p [])"

lemma parse_subconf_cong [fundef_cong]:
  "subopts = subopts' \<Longrightarrow> param = param' \<Longrightarrow> (\<And>s p. s \<in> set subopts' \<Longrightarrow> f s p = g s p) \<Longrightarrow>
    parse_subconf f subopts param = parse_subconf g subopts' param'"
  unfolding parse_subconf_def by (auto split: option.splits intro!: parse_subconf_loop_cong)

section \<open>Parsing an option\<close>

lemma suboption_smaller: "s \<in> set subopts \<Longrightarrow> mo_type opt = TYPE_SUBCONFIG subopts \<Longrightarrow> size s < size opt"
  by (cases opt) (auto dest!: size_list_estimation' [where f = size, OF _ order_refl])

text \<open>\<open>m_option_parse\<close> with no place for the value: the code it returns.\<close>

function m_option_check :: "opt_mode \<Rightarrow> m_option \<Rightarrow> string option \<Rightarrow> int" where
  "m_option_check src opt param = (case mo_type opt of
       TYPE_FLAG \<Rightarrow> fst (parse_flag opt param src)
     | TYPE_INT \<Rightarrow> fst (parse_int opt param)
     | TYPE_INT64 \<Rightarrow> fst (parse_int opt param)
     | TYPE_STRING \<Rightarrow> fst (parse_str opt param)
     | TYPE_SUBCONFIG subopts \<Rightarrow> fst (parse_subconf (m_option_check src) subopts param)
     | TYPE_OTHER _ parse \<Rightarrow> fst (parse param src))"
  by pat_completeness auto
termination by (relation "measure (\<lambda>(src, opt, param). size opt)") (auto dest: suboption_smaller)

declare m_option_check.simps [simp del]

text \<open>\<open>m_option_parse\<close> for the types without suboptions: the code and the value that is stored.\<close>

definition m_option_parse :: "m_option \<Rightarrow> string option \<Rightarrow> opt_mode \<Rightarrow> int \<times> opt_value option" where
  "m_option_parse opt param src = (case mo_type opt of
       TYPE_FLAG \<Rightarrow> parse_flag opt param src
     | TYPE_INT \<Rightarrow> parse_int opt param
     | TYPE_INT64 \<Rightarrow> parse_int opt param
     | TYPE_STRING \<Rightarrow> parse_str opt param
     | TYPE_SUBCONFIG _ \<Rightarrow> (M_OPT_INVALID, None)
     | TYPE_OTHER _ parse \<Rightarrow> parse param src)"

lemma m_option_parse_check: "\<not> has_child opt \<Longrightarrow> fst (m_option_parse opt param src) = m_option_check src opt param"
  by (subst m_option_check.simps) (auto simp: m_option_parse_def has_child_def split: opt_type.splits)

section \<open>What is printed is parsed again\<close>

lemma base_digit_10: "base_digit 10 c = (if is_digit c then Some (digit_value c) else None)"
proof (cases "is_digit c")
  case True
  then have "digit_value c < 10" by (auto simp: is_digit_def digit_value_def char_le_code) (simp add: char_code_def)
  then show ?thesis using True by (simp add: base_digit_def)
next
  case False
  then show ?thesis
    by (auto simp: base_digit_def Let_def is_lower_def char_le_code) (simp add: char_code_def)
qed

lemma base_value_digits: "list_all is_digit s \<Longrightarrow> base_value 10 v s = foldl (\<lambda>a c. 10 * a + digit_value c) v s"
  by (induction s arbitrary: v) (auto simp: base_digit_10)

lemma digit_no_sign: "is_digit c \<Longrightarrow> \<not> is_space c \<and> c \<noteq> CHR ''-'' \<and> c \<noteq> CHR ''+''"
  by (auto simp: is_digit_def is_space_def char_le_code) (auto simp: char_code_def)

lemma strtoll_digits:
  assumes "list_all is_digit s" "s \<noteq> []"
  shows "strtoll 10 s = (clamp64 (dec_value s), [])" "strtoll 10 (CHR ''-'' # s) = (clamp64 (- dec_value s), [])"
proof -
  obtain c cs where s: "s = c # cs" using assms(2) by (cases s) auto
  have c: "\<not> is_space c" "c \<noteq> CHR ''-''" "c \<noteq> CHR ''+''" "\<not> is_space (CHR ''-'')"
    using digit_no_sign [of c] assms(1) s by (simp_all add: is_space_def char_le_code) (simp_all add: char_code_def)
  have rest: "dropWhile (\<lambda>c. base_digit 10 c \<noteq> None) s = []" using assms(1) by (auto simp: base_digit_10 list_all_iff)
  have v: "base_value 10 0 s = dec_value s" using base_value_digits [OF assms(1)] by (simp add: dec_value_def)
  show "strtoll 10 s = (clamp64 (dec_value s), [])" using c rest v by (simp add: strtoll_def s)
  show "strtoll 10 (CHR ''-'' # s) = (clamp64 (- dec_value s), [])" using c rest v by (simp add: strtoll_def s)
qed

lemma strtoll_dec_string: "strtoll 10 (dec_string i) = (clamp64 i, [])"
  using strtoll_digits [OF dec_digits_all dec_digits_ne, of "nat i"] strtoll_digits [OF dec_digits_all dec_digits_ne, of "nat (- i)"]
  by (simp add: dec_string_def dec_value_digits)

lemma clamp64_id: "- (2 ^ 63) \<le> v \<Longrightarrow> v < 2 ^ 63 \<Longrightarrow> clamp64 v = v"
  by (simp add: clamp64_def)

lemma to_int32_id: "- (2 ^ 31) \<le> v \<Longrightarrow> v < 2 ^ 31 \<Longrightarrow> to_int32 v = v"
  by (simp add: to_int32_def)

text \<open>An integer option that is printed and parsed again has its value again, when that is within the option's limits.\<close>

theorem parse_print_int:
  assumes "mo_type opt = TYPE_INT" "- (2 ^ 31) \<le> v" "v < 2 ^ 31" "has_flag opt M_OPT_MIN \<Longrightarrow> mo_min opt \<le> v" "has_flag opt M_OPT_MAX \<Longrightarrow> v \<le> mo_max opt"
  shows "parse_int opt (Some (print_int v)) = (1, Some (V_INT v))"
proof -
  have "strtoll 10 (print_int v) = (v, [])" using strtoll_dec_string clamp64_id assms(2,3) by (simp add: print_int_def)
  then show ?thesis using assms to_int32_id by (auto simp: parse_int_def)
qed

lemma parse_print_int_witness:
  "parse_int (M_OPTION ''volume'' (Some 0) TYPE_INT (M_OPT_MIN OR M_OPT_MAX) (- 1) 10000) (Some (print_int (- 1))) = (1, Some (V_INT (- 1)))"
  by (rule parse_print_int) (simp_all add: has_flag_def)

text \<open>Without limits, the value of an \<open>int\<close> option is cut to 32 bits.\<close>

theorem parse_int_cut:
  assumes "mo_type opt = TYPE_INT" "\<not> has_flag opt M_OPT_MIN" "\<not> has_flag opt M_OPT_MAX" "- (2 ^ 63) \<le> v" "v < 2 ^ 63"
  shows "parse_int opt (Some (dec_string v)) = (1, Some (V_INT (to_int32 v)))"
  using assms strtoll_dec_string clamp64_id by (simp add: parse_int_def)

text \<open>An empty parameter is the integer 0.\<close>

theorem parse_int_empty:
  "parse_int (M_OPTION name p TYPE_INT 0 lo hi) (Some []) = (1, Some (V_INT 0))"
  by (simp add: parse_int_def strtoll_def has_flag_def to_int32_def)

theorem parse_print_flag:
  assumes "v = mo_min opt \<or> v = mo_max opt"
  shows "parse_flag opt (Some (print_flag opt v)) M_CONFIG_FILE = (1, Some (V_INT v))"
  using assms by (auto simp: parse_flag_def print_flag_def flag_yes_def flag_no_def av_strcaseeq_def tolower_def is_upper_def char_le_code char_code_def)

end
