(* ===== verification/Config.thy ===== *)
theory Config
  imports Options
begin

text \<open>
  The configuration, m_config.c and m_config.h: options with the values that are saved when a level is pushed and restored when
  it is popped, setting options by name, and profiles. The slots with the saved values are on a heap: an option whose variable
  another option has already shares the slot that one had when it was registered. Values are copied; of the types in m_option.c
  those whose \<open>set\<close> calls a function are left out, as are the messages.
\<close>

section \<open>Data\<close>

record save_slot =
  sl_prev :: "nat option"
  sl_lvl :: int
  sl_data :: opt_value

record config_option =
  cn_name :: string
  cn_opt :: m_option
  cn_slots :: "nat option"
  cn_set :: bool
  cn_alias :: bool

record profile =
  pf_name :: string
  pf_desc :: "string option"
  pf_opts :: "(string \<times> string option) list"

text \<open>The options are in the order of the list in C, the one registered last first. \<open>cf_slots\<close> are the slots that exist, \<open>cf_next\<close> is
  the next unused address, and \<open>cf_vars\<close> are the variables of the options.\<close>

record m_config =
  cf_opts :: "config_option list"
  cf_lvl :: int
  cf_mode :: opt_mode
  cf_profiles :: "profile list"
  cf_profile_depth :: int
  cf_slots :: "nat \<Rightarrow> save_slot option"
  cf_next :: nat
  cf_vars :: "nat \<Rightarrow> opt_value"

definition MAX_PROFILE_DEPTH :: int where "MAX_PROFILE_DEPTH = 20"

text \<open>\<open>m_config_new\<close> before it registers its own options.\<close>

definition m_config_new :: "opt_mode \<Rightarrow> (nat \<Rightarrow> opt_value) \<Rightarrow> m_config" where
  "m_config_new mode vars = \<lparr>cf_opts = [], cf_lvl = 1, cf_mode = mode, cf_profiles = [], cf_profile_depth = 0, cf_slots = Map.empty,
     cf_next = 0, cf_vars = vars\<rparr>"

text \<open>\<open>m_option_save\<close> and \<open>m_option_set\<close> copy from and to the option's variable, if it has one.\<close>

definition m_option_save :: "m_option \<Rightarrow> opt_value \<Rightarrow> m_config \<Rightarrow> opt_value" where
  "m_option_save opt old c = (case mo_p opt of None \<Rightarrow> old | Some x \<Rightarrow> cf_vars c x)"

definition m_option_set :: "m_option \<Rightarrow> opt_value \<Rightarrow> m_config \<Rightarrow> m_config" where
  "m_option_set opt v c = (case mo_p opt of None \<Rightarrow> c | Some x \<Rightarrow> c\<lparr>cf_vars := (cf_vars c)(x := v)\<rparr>)"

section \<open>Registering options\<close>

text \<open>The slots of an option that is no alias: the default of level 0, and the one of the current level.\<close>

definition new_slots :: "m_option \<Rightarrow> m_config \<Rightarrow> nat \<times> m_config" where
  "new_slots arg c = (let v = m_option_save arg (zero_value arg) c; sl = cf_next c
     in (sl + 1, c\<lparr>cf_slots := (cf_slots c)(sl \<mapsto> \<lparr>sl_prev = None, sl_lvl = 0, sl_data = v\<rparr>,
            sl + 1 \<mapsto> \<lparr>sl_prev = Some sl, sl_lvl = cf_lvl c, sl_data = v\<rparr>), cf_next := sl + 2\<rparr>))"

definition same_variable :: "m_option \<Rightarrow> m_config \<Rightarrow> config_option option" where
  "same_variable arg c = (if mo_p arg = None then None else find (\<lambda>i. mo_p (cn_opt i) = mo_p arg) (cf_opts c))"

definition full_name :: "string option \<Rightarrow> m_option \<Rightarrow> string" where
  "full_name prefix arg = (case prefix of Some p \<Rightarrow> if p = [] then mo_name arg else p @ '':'' @ mo_name arg | None \<Rightarrow> mo_name arg)"

definition add_entry :: "config_option \<Rightarrow> m_config \<Rightarrow> m_config" where
  "add_entry co c = c\<lparr>cf_opts := co # cf_opts c\<rparr>"

function m_config_add_option :: "string option \<Rightarrow> m_option \<Rightarrow> m_config \<Rightarrow> m_config" where
  "m_config_add_option prefix arg c =
     (let co = \<lparr>cn_name = full_name prefix arg, cn_opt = arg, cn_slots = None, cn_set = False, cn_alias = False\<rparr>
      in case mo_type arg of
           TYPE_SUBCONFIG ol \<Rightarrow> add_entry co (fold (m_config_add_option (Some (cn_name co))) ol c)
         | _ \<Rightarrow>
             (case same_variable arg c of
                Some i \<Rightarrow> add_entry (co\<lparr>cn_slots := cn_slots i, cn_alias := True\<rparr>) c
              | None \<Rightarrow> (case new_slots arg c of (a, c) \<Rightarrow> add_entry (co\<lparr>cn_slots := Some a\<rparr>) c)))"
  by pat_completeness auto
termination by (relation "measure (\<lambda>(prefix, arg, c). size arg)") (auto dest: suboption_smaller)

declare m_config_add_option.simps [simp del]

definition m_config_register_options :: "m_option list \<Rightarrow> m_config \<Rightarrow> m_config" where
  "m_config_register_options args c = fold (m_config_add_option None) args c"

section \<open>Levels\<close>

text \<open>Options without children that are saved.\<close>

definition saved :: "config_option \<Rightarrow> bool" where
  "saved co \<longleftrightarrow> \<not> has_child (cn_opt co) \<and> \<not> has_flag (cn_opt co) (M_OPT_GLOBAL OR M_OPT_NOSAVE) \<and> \<not> cn_alias co"

definition push_option :: "config_option \<Rightarrow> m_config \<Rightarrow> (config_option \<times> m_config) option" where
  "push_option co c =
     (if \<not> saved co \<or> has_flag (cn_opt co) M_OPT_OLD \<and> \<not> cn_set co then Some (co, c) else do {
        a \<leftarrow> cn_slots co;
        s \<leftarrow> cf_slots c a;
        let v = m_option_save (cn_opt co) (sl_data s) c; new = cf_next c
        in Some (co\<lparr>cn_slots := Some new, cn_set := False\<rparr>,
             c\<lparr>cf_slots := (cf_slots c)(a \<mapsto> s\<lparr>sl_data := v\<rparr>, new \<mapsto> \<lparr>sl_prev = Some a, sl_lvl = cf_lvl c, sl_data = v\<rparr>), cf_next := new + 1\<rparr>)
      })"

fun each_option :: "(config_option \<Rightarrow> m_config \<Rightarrow> (config_option \<times> m_config) option) \<Rightarrow> config_option list \<Rightarrow> m_config \<Rightarrow>
    (config_option list \<times> m_config) option" where
  "each_option f [] c = Some ([], c)"
| "each_option f (co # os) c = do { (co, c) \<leftarrow> f co c; (os, c) \<leftarrow> each_option f os c; Some (co # os, c) }"

definition m_config_push :: "m_config \<Rightarrow> m_config option" where
  "m_config_push c = do {
     (os, c) \<leftarrow> each_option push_option (cf_opts c) (c\<lparr>cf_lvl := cf_lvl c + 1\<rparr>);
     Some (c\<lparr>cf_opts := os\<rparr>)
   }"

text \<open>Freeing the slots from a level on: the slot that is left, the other slots, and whether there were any.\<close>

partial_function (option) pop_slots :: "int \<Rightarrow> nat option \<Rightarrow> (nat \<Rightarrow> save_slot option) \<Rightarrow> bool \<Rightarrow> (nat \<times> (nat \<Rightarrow> save_slot option) \<times> bool) option" where
  "pop_slots lvl p H pop = do {
     a \<leftarrow> p;
     s \<leftarrow> H a;
     if lvl \<le> sl_lvl s then pop_slots lvl (sl_prev s) (H(a := None)) True else Some (a, H, pop)
   }"

definition pop_option :: "config_option \<Rightarrow> m_config \<Rightarrow> (config_option \<times> m_config) option" where
  "pop_option co c =
     (if \<not> saved co then Some (co, c) else do {
        (a, H, pop) \<leftarrow> pop_slots (cf_lvl c) (cn_slots co) (cf_slots c) False;
        s \<leftarrow> H a;
        let c = c\<lparr>cf_slots := H\<rparr>
        in Some (co\<lparr>cn_slots := Some a\<rparr>, if pop then m_option_set (cn_opt co) (sl_data s) c else c)
      })"

definition m_config_pop :: "m_config \<Rightarrow> m_config option" where
  "m_config_pop c = do {
     (os, c) \<leftarrow> each_option pop_option (cf_opts c) c;
     Some (c\<lparr>cf_opts := os, cf_lvl := cf_lvl c - 1\<rparr>)
   }"

section \<open>Setting an option\<close>

fun find_index :: "('a \<Rightarrow> bool) \<Rightarrow> 'a list \<Rightarrow> nat option" where
  "find_index P [] = None"
| "find_index P (x # xs) = (if P x then Some 0 else map_option Suc (find_index P xs))"

text \<open>\<open>m_config_get_co\<close>, as a position in the list.\<close>

definition m_config_get_co :: "m_config \<Rightarrow> string \<Rightarrow> nat option" where
  "m_config_get_co c arg = find_index (\<lambda>co. name_fits (allow_wildcard (cn_opt co)) (cn_name co) arg) (cf_opts c)"

definition m_config_get_option :: "m_config \<Rightarrow> string \<Rightarrow> m_option option" where
  "m_config_get_option c arg = map_option (\<lambda>i. cn_opt (cf_opts c ! i)) (m_config_get_co c arg)"

definition forbidden :: "opt_mode \<Rightarrow> m_option \<Rightarrow> bool" where
  "forbidden mode opt \<longleftrightarrow> mode = M_CONFIG_FILE \<and> has_flag opt M_OPT_NOCFG \<or> mode = M_COMMAND_LINE \<and> has_flag opt M_OPT_NOCMD"

definition not_now :: "opt_mode \<Rightarrow> config_option \<Rightarrow> bool" where
  "not_now mode co \<longleftrightarrow> mode = M_COMMAND_LINE_PRE_PARSE \<and> \<not> has_flag (cn_opt co) M_OPT_PRE_PARSE \<or>
     mode \<noteq> M_COMMAND_LINE_PRE_PARSE \<and> has_flag (cn_opt co) M_OPT_PRE_PARSE \<and> cn_set co"

text \<open>Setting the suboptions of an option with that name, until one has an error.\<close>

fun set_suboptions :: "(string \<Rightarrow> string option \<Rightarrow> m_config \<Rightarrow> (int \<times> m_config) option) \<Rightarrow> string \<Rightarrow> (string \<times> string option) list \<Rightarrow> int \<Rightarrow>
    m_config \<Rightarrow> (int \<times> m_config) option" where
  "set_suboptions parse name [] r c = Some (r, c)"
| "set_suboptions parse name ((sub, val) # lst) r c =
     (if r < 0 then set_suboptions parse name lst r c else do {
        (sr, c) \<leftarrow> parse (name @ '':'' @ sub) val c;
        set_suboptions parse name lst (if 0 \<le> sr then r else if sr = M_OPT_UNKNOWN \<or> sr = M_OPT_MISSING_PARAM then M_OPT_INVALID else sr) c
      })"

text \<open>Storing what was parsed in the newest slot.\<close>

definition store_parsed :: "config_option \<Rightarrow> opt_value option \<Rightarrow> m_config \<Rightarrow> m_config option" where
  "store_parsed co v c = do {
     a \<leftarrow> cn_slots co;
     s \<leftarrow> cf_slots c a;
     Some (case v of None \<Rightarrow> c | Some x \<Rightarrow> c\<lparr>cf_slots := (cf_slots c)(a \<mapsto> s\<lparr>sl_data := x\<rparr>)\<rparr>)
   }"

definition apply_slot :: "config_option \<Rightarrow> m_config \<Rightarrow> m_config option" where
  "apply_slot co c = (if has_child (cn_opt co) then Some c else do {
     a \<leftarrow> cn_slots co;
     s \<leftarrow> cf_slots c a;
     Some (m_option_set (cn_opt co) (sl_data s) c)
   })"

text \<open>\<open>m_config_parse_option\<close>; the recursion goes from an option to its suboptions, whose names are longer.\<close>

fun m_config_parse_option :: "nat \<Rightarrow> string \<Rightarrow> string option \<Rightarrow> bool \<Rightarrow> m_config \<Rightarrow> (int \<times> m_config) option" where
  "m_config_parse_option 0 arg param st c = None"
| "m_config_parse_option (Suc k) arg param st c = (case m_config_get_co c arg of
       None \<Rightarrow> Some (M_OPT_UNKNOWN, c)
     | Some i \<Rightarrow>
         (let co = cf_opts c ! i; opt = cn_opt co; st = (st \<and> \<not> not_now (cf_mode c) co)
          in if forbidden (cf_mode c) opt then Some (M_OPT_INVALID, c)
             else do {
               (r, c) \<leftarrow> (case mo_type opt of
                  TYPE_SUBCONFIG subopts \<Rightarrow>
                    (case parse_subconf (m_option_check M_COMMAND_LINE) subopts param of (r, lst) \<Rightarrow>
                       if r < 0 then Some (r, c) else set_suboptions (\<lambda>name val. m_config_parse_option k name val st) (cn_name co) lst r c)
                | _ \<Rightarrow>
                    (case m_option_parse opt param (cf_mode c) of (r, v) \<Rightarrow>
                       if st then do { c \<leftarrow> store_parsed co v c; Some (r, c) } else Some (r, c)));
               if r < 0 \<or> \<not> st then Some (r, c) else do {
                 c \<leftarrow> apply_slot co c;
                 Some (r, c\<lparr>cf_opts := (cf_opts c)[i := (cf_opts c ! i)\<lparr>cn_set := True\<rparr>]\<rparr>)
               }
             }))"

text \<open>Two more calls than the longest name has characters are enough.\<close>

definition option_fuel :: "m_config \<Rightarrow> nat" where
  "option_fuel c = foldr (\<lambda>co n. max (length (cn_name co)) n) (cf_opts c) 0 + 2"

definition m_config_set_option :: "string \<Rightarrow> string option \<Rightarrow> m_config \<Rightarrow> (int \<times> m_config) option" where
  "m_config_set_option arg param c = m_config_parse_option (option_fuel c) arg param True c"

definition m_config_check_option :: "string \<Rightarrow> string option \<Rightarrow> m_config \<Rightarrow> int option" where
  "m_config_check_option arg param c = do {
     (r, _) \<leftarrow> m_config_parse_option (option_fuel c) arg param False c;
     Some (if r = M_OPT_MISSING_PARAM then M_OPT_INVALID else r)
   }"

section \<open>Profiles\<close>

text \<open>Profiles are identified by their names, which are unique.\<close>

definition m_config_get_profile :: "m_config \<Rightarrow> string \<Rightarrow> profile option" where
  "m_config_get_profile c name = find (\<lambda>p. pf_name p = name) (cf_profiles c)"

definition m_config_add_profile :: "m_config \<Rightarrow> string \<Rightarrow> m_config" where
  "m_config_add_profile c name = (case m_config_get_profile c name of
       Some p \<Rightarrow> c
     | None \<Rightarrow> c\<lparr>cf_profiles := \<lparr>pf_name = name, pf_desc = None, pf_opts = []\<rparr> # cf_profiles c\<rparr>)"

definition on_profile :: "string \<Rightarrow> (profile \<Rightarrow> profile) \<Rightarrow> m_config \<Rightarrow> m_config" where
  "on_profile name f c = c\<lparr>cf_profiles := map (\<lambda>p. if pf_name p = name then f p else p) (cf_profiles c)\<rparr>"

definition m_profile_set_desc :: "string \<Rightarrow> string option \<Rightarrow> m_config \<Rightarrow> m_config" where
  "m_profile_set_desc name desc = on_profile name (\<lambda>p. p\<lparr>pf_desc := desc\<rparr>)"

definition m_config_set_profile_option :: "string \<Rightarrow> string \<Rightarrow> string option \<Rightarrow> m_config \<Rightarrow> (int \<times> m_config) option" where
  "m_config_set_profile_option profile name val c = do {
     i \<leftarrow> m_config_check_option name val c;
     Some (if i < 0 then (i, c) else (1, on_profile profile (\<lambda>p. p\<lparr>pf_opts := pf_opts p @ [(name, val)]\<rparr>) c))
   }"

fun set_profile_options :: "(string \<times> string option) list \<Rightarrow> m_config \<Rightarrow> m_config option" where
  "set_profile_options [] c = Some c"
| "set_profile_options ((name, val) # ps) c = do { (_, c) \<leftarrow> m_config_set_option name val c; set_profile_options ps c }"

definition m_config_set_profile :: "profile \<Rightarrow> m_config \<Rightarrow> m_config option" where
  "m_config_set_profile p c =
     (if MAX_PROFILE_DEPTH < cf_profile_depth c then Some c else do {
        c \<leftarrow> set_profile_options (pf_opts p) (c\<lparr>cf_profile_depth := cf_profile_depth c + 1\<rparr>);
        Some (c\<lparr>cf_profile_depth := cf_profile_depth c - 1\<rparr>)
      })"

end
