(* ===== verification/ConfigLevels.thy ===== *)
theory ConfigLevels
  imports Config
begin

text \<open>
  The levels of a configuration: pushing keeps the settings and saves them, setting an option changes the current ones, and
  popping brings those from before the push back, for the options that are saved.
\<close>

section \<open>Chains of slots\<close>

text \<open>The slots of an option, the newest first: address, level and data.\<close>

fun slot_chain :: "(nat \<Rightarrow> save_slot option) \<Rightarrow> nat option \<Rightarrow> (nat \<times> int \<times> opt_value) list \<Rightarrow> bool" where
  "slot_chain H p [] \<longleftrightarrow> p = None"
| "slot_chain H p ((a, l, d) # cs) \<longleftrightarrow> p = Some a \<and> (\<exists>q. H a = Some \<lparr>sl_prev = q, sl_lvl = l, sl_data = d\<rparr> \<and> slot_chain H q cs)"

definition slot_addrs :: "(nat \<times> int \<times> opt_value) list \<Rightarrow> nat list" where
  "slot_addrs cs = map fst cs"

definition levels :: "(nat \<times> int \<times> opt_value) list \<Rightarrow> int list" where
  "levels cs = map (\<lambda>(a, l, d). l) cs"

lemma slot_addrs_simps [simp]: "slot_addrs [] = []" "slot_addrs ((a, l, d) # cs) = a # slot_addrs cs"
  by (simp_all add: slot_addrs_def)

lemma levels_simps [simp]: "levels [] = []" "levels ((a, l, d) # cs) = l # levels cs"
  by (simp_all add: levels_def)

lemma slot_chain_frame: "slot_chain H p cs \<Longrightarrow> (\<And>a. a \<in> set (slot_addrs cs) \<Longrightarrow> H' a = H a) \<Longrightarrow> slot_chain H' p cs"
  by (induction H p cs rule: slot_chain.induct) auto

text \<open>The levels from one down to the default of level 0.\<close>

fun down_from :: "nat \<Rightarrow> int list" where
  "down_from 0 = [0]"
| "down_from (Suc n) = int (Suc n) # down_from n"

text \<open>The values of an option: that of its variable, then those of the levels below the current one, without the default.\<close>

definition history :: "(nat \<Rightarrow> opt_value) \<Rightarrow> config_option \<Rightarrow> (nat \<times> int \<times> opt_value) list \<Rightarrow> opt_value list" where
  "history vars co cs = (case mo_p (cn_opt co) of None \<Rightarrow> [] | Some x \<Rightarrow> vars x # map (\<lambda>(a, l, d). d) (butlast (tl cs)))"

text \<open>An option that is saved has a slot for each level, and a variable.\<close>

definition saved_ok :: "nat \<Rightarrow> (nat \<Rightarrow> save_slot option) \<Rightarrow> config_option \<Rightarrow> (nat \<times> int \<times> opt_value) list \<Rightarrow> bool" where
  "saved_ok L H co cs \<longleftrightarrow> (if saved co then slot_chain H (cn_slots co) cs \<and> levels cs = down_from L \<and> mo_p (cn_opt co) \<noteq> None \<and>
     \<not> has_flag (cn_opt co) M_OPT_OLD else cs = [])"

definition variables :: "config_option list \<Rightarrow> nat list" where
  "variables os = concat (map (\<lambda>co. if saved co then (case mo_p (cn_opt co) of None \<Rightarrow> [] | Some x \<Rightarrow> [x]) else []) os)"

definition all_slot_addrs :: "(nat \<times> int \<times> opt_value) list list \<Rightarrow> nat list" where
  "all_slot_addrs css = concat (map slot_addrs css)"

fun histories :: "(nat \<Rightarrow> opt_value) \<Rightarrow> config_option list \<Rightarrow> (nat \<times> int \<times> opt_value) list list \<Rightarrow> opt_value list list" where
  "histories vars (co # os) (cs # css) = (if saved co then [history vars co cs] else []) @ histories vars os css"
| "histories vars _ _ = []"

definition static :: "config_option \<Rightarrow> string \<times> m_option \<times> bool" where
  "static co = (cn_name co, cn_opt co, cn_alias co)"

lemma saved_static: "static co' = static co \<Longrightarrow> saved co' = saved co"
  by (simp add: static_def saved_def)

lemma push_option_ok:
  assumes "saved_ok L (cf_slots c) co cs" "set (slot_addrs cs) \<subseteq> {..<cf_next c}" "cf_lvl c = int (Suc L)" "1 \<le> L" "distinct (slot_addrs cs)"
  shows "\<exists>co' cs' H n. push_option co c = Some (co', c\<lparr>cf_slots := H, cf_next := n\<rparr>) \<and> saved_ok (Suc L) H co' cs' \<and> cf_next c \<le> n \<and>
    (\<forall>a. a < cf_next c \<longrightarrow> a \<notin> set (slot_addrs cs) \<longrightarrow> H a = cf_slots c a) \<and> set (slot_addrs cs') \<subseteq> set (slot_addrs cs) \<union> {cf_next c..<n} \<and>
    distinct (slot_addrs cs') \<and>
    static co' = static co \<and> (saved co \<longrightarrow> history (cf_vars c) co' cs' = hd (history (cf_vars c) co cs) # history (cf_vars c) co cs)"
proof (cases "saved co")
  case False
  then show ?thesis using assms(1)
    by (intro exI [of _ co] exI [of _ "[]"] exI [of _ "cf_slots c"] exI [of _ "cf_next c"]) (simp add: push_option_def saved_ok_def)
next
  case True
  then have c: "slot_chain (cf_slots c) (cn_slots co) cs" "levels cs = down_from L" and p: "mo_p (cn_opt co) \<noteq> None" "\<not> has_flag (cn_opt co) M_OPT_OLD"
    using assms(1) by (simp_all add: saved_ok_def)
  obtain x where x: "mo_p (cn_opt co) = Some x" using p(1) by auto
  obtain L' where L: "L = Suc L'" using assms(4) by (cases L) auto
  obtain a d cs1 where cs: "cs = (a, int L, d) # cs1" using c(2) L by (cases cs) (auto split: prod.splits)
  obtain q where q: "cn_slots co = Some a" "cf_slots c a = Some \<lparr>sl_prev = q, sl_lvl = int L, sl_data = d\<rparr>" "slot_chain (cf_slots c) q cs1"
    using c(1) by (auto simp: cs)
  let ?v = "cf_vars c x" and ?n = "cf_next c"
  let ?H = "(cf_slots c)(a \<mapsto> \<lparr>sl_prev = q, sl_lvl = int L, sl_data = ?v\<rparr>, ?n \<mapsto> \<lparr>sl_prev = Some a, sl_lvl = int (Suc L), sl_data = ?v\<rparr>)"
  let ?co = "co\<lparr>cn_slots := Some ?n, cn_set := False\<rparr>" and ?cs = "(?n, int (Suc L), ?v) # (a, int L, ?v) # cs1"
  have "slot_chain ?H q cs1" using assms(2,5) by (intro slot_chain_frame [OF q(3)]) (auto simp: cs)
  moreover have "a \<noteq> ?n" using assms(2) by (auto simp: cs)
  moreover have "saved ?co = True" using True by (subst saved_static [of _ co]) (simp_all add: static_def)
  moreover have "levels cs1 = down_from L'" using c(2) by (simp add: cs L)
  ultimately have "saved_ok (Suc L) ?H ?co ?cs" using x p(2) by (simp add: saved_ok_def L)
  moreover have "push_option co c = Some (?co, c\<lparr>cf_slots := ?H, cf_next := ?n + 1\<rparr>)"
    using True p(2) q(1,2) x assms(3) by (simp add: push_option_def m_option_save_def Let_def)
  moreover have "cs1 \<noteq> []" using c(2) by (cases L') (auto simp: cs L)
  then have "history (cf_vars c) ?co ?cs = hd (history (cf_vars c) co cs) # history (cf_vars c) co cs"
    using x by (simp add: history_def cs)
  ultimately show ?thesis using assms(2,5)
    by (intro exI [of _ ?co] exI [of _ ?cs] exI [of _ ?H] exI [of _ "?n + 1"]) (auto simp: static_def cs)
qed

lemma saved_ok_frame: "saved_ok L H co cs \<Longrightarrow> (\<And>a. a \<in> set (slot_addrs cs) \<Longrightarrow> H' a = H a) \<Longrightarrow> saved_ok L H' co cs"
  by (auto simp: saved_ok_def intro: slot_chain_frame split: if_splits)

lemma saved_all_frame:
  "list_all2 (saved_ok L H) os css \<Longrightarrow> (\<And>a. a \<in> set (all_slot_addrs css) \<Longrightarrow> H' a = H a) \<Longrightarrow> list_all2 (saved_ok L H') os css"
proof (induction rule: list_all2_induct)
  case (Cons co os cs css)
  have "saved_ok L H' co cs" using Cons.prems by (intro saved_ok_frame [OF Cons.hyps(1)]) (simp add: all_slot_addrs_def)
  moreover have "list_all2 (saved_ok L H') os css" using Cons.prems by (intro Cons.IH) (simp add: all_slot_addrs_def)
  ultimately show ?case by simp
qed simp

lemma history_cong: "saved co \<Longrightarrow> (\<forall>x \<in> set (variables [co]). vars' x = vars x) \<Longrightarrow> history vars' co cs = history vars co cs"
  by (cases "mo_p (cn_opt co)") (simp_all add: history_def variables_def)

lemma variables_Cons: "variables (co # os) = variables [co] @ variables os"
  by (simp add: variables_def)

lemma histories_cong: "\<forall>x \<in> set (variables os). vars' x = vars x \<Longrightarrow> histories vars' os css = histories vars os css"
proof (induction os arbitrary: css)
  case (Cons co os)
  then have "histories vars' os css' = histories vars os css'" "saved co \<Longrightarrow> history vars' co cs = history vars co cs" for css' cs
    by (auto simp: variables_Cons [of co os] intro!: history_cong)
  then show ?case by (cases css) auto
qed simp

lemma each_push_ok:
  assumes "list_all2 (saved_ok L (cf_slots c)) os css" "set (all_slot_addrs css) \<subseteq> {..<cf_next c}" "distinct (all_slot_addrs css)" "cf_lvl c = int (Suc L)" "1 \<le> L"
  shows "\<exists>os' css' H n. each_option push_option os c = Some (os', c\<lparr>cf_slots := H, cf_next := n\<rparr>) \<and>
    list_all2 (saved_ok (Suc L) H) os' css' \<and> cf_next c \<le> n \<and> (\<forall>a. a < cf_next c \<longrightarrow> a \<notin> set (all_slot_addrs css) \<longrightarrow> H a = cf_slots c a) \<and>
    set (all_slot_addrs css') \<subseteq> set (all_slot_addrs css) \<union> {cf_next c..<n} \<and> distinct (all_slot_addrs css') \<and> map static os' = map static os \<and>
    histories (cf_vars c) os' css' = map (\<lambda>h. hd h # h) (histories (cf_vars c) os css)"
  using assms
proof (induction os arbitrary: css c)
  case Nil
  then show ?case by (intro exI [of _ "[]"] exI [of _ "cf_slots c"] exI [of _ "cf_next c"]) (simp add: all_slot_addrs_def)
next
  case (Cons co os)
  then obtain cs css1 where css: "css = cs # css1" "saved_ok L (cf_slots c) co cs" "list_all2 (saved_ok L (cf_slots c)) os css1"
    by (auto simp: list_all2_Cons1)
  have a: "set (slot_addrs cs) \<subseteq> {..<cf_next c}" "distinct (slot_addrs cs)" "set (all_slot_addrs css1) \<subseteq> {..<cf_next c}" "distinct (all_slot_addrs css1)"
    "set (slot_addrs cs) \<inter> set (all_slot_addrs css1) = {}"
    using Cons.prems(2,3) by (auto simp: css(1) all_slot_addrs_def)
  from push_option_ok [OF css(2) a(1) Cons.prems(4,5) a(2)] obtain co' cs' H n where
    push: "push_option co c = Some (co', c\<lparr>cf_slots := H, cf_next := n\<rparr>)" "saved_ok (Suc L) H co' cs'" "cf_next c \<le> n"
      "\<And>a. a < cf_next c \<Longrightarrow> a \<notin> set (slot_addrs cs) \<Longrightarrow> H a = cf_slots c a" "set (slot_addrs cs') \<subseteq> set (slot_addrs cs) \<union> {cf_next c..<n}"
      "distinct (slot_addrs cs')" "static co' = static co" "saved co \<Longrightarrow> history (cf_vars c) co' cs' = hd (history (cf_vars c) co cs) # history (cf_vars c) co cs"
    by blast
  let ?c = "c\<lparr>cf_slots := H, cf_next := n\<rparr>"
  have "list_all2 (saved_ok L H) os css1" using a(3,5) by (intro saved_all_frame [OF css(3)] push(4)) auto
  then have "list_all2 (saved_ok L (cf_slots ?c)) os css1" by simp
  moreover have "set (all_slot_addrs css1) \<subseteq> {..<cf_next ?c}" "cf_lvl ?c = int (Suc L)" using a(3) push(3) Cons.prems(4) by auto
  ultimately obtain os' css' H' n' where
    rest: "each_option push_option os ?c = Some (os', c\<lparr>cf_slots := H', cf_next := n'\<rparr>)" "list_all2 (saved_ok (Suc L) H') os' css'" "n \<le> n'"
      "\<And>a. a < n \<Longrightarrow> a \<notin> set (all_slot_addrs css1) \<Longrightarrow> H' a = H a" "set (all_slot_addrs css') \<subseteq> set (all_slot_addrs css1) \<union> {n..<n'}"
      "distinct (all_slot_addrs css')" "map static os' = map static os" "histories (cf_vars c) os' css' = map (\<lambda>h. hd h # h) (histories (cf_vars c) os css1)"
    using Cons.IH [of ?c css1] a(4) Cons.prems(5) by auto
  have "set (slot_addrs cs') \<inter> set (all_slot_addrs css') = {}"
  proof (intro equals0I)
    fix x assume "x \<in> set (slot_addrs cs') \<inter> set (all_slot_addrs css')"
    then have "x \<in> set (slot_addrs cs) \<or> cf_next c \<le> x \<and> x < n" "x \<in> set (all_slot_addrs css1) \<or> n \<le> x" using push(5) rest(5) by auto
    then show False using a(1,3,5) push(3) by auto
  qed
  moreover have "saved_ok (Suc L) H' co' cs'"
    using push(3,5) a(1,3,5) by (intro saved_ok_frame [OF push(2)] rest(4)) (auto dest!: subsetD)
  moreover have "\<forall>a. a < cf_next c \<longrightarrow> a \<notin> set (all_slot_addrs css) \<longrightarrow> H' a = cf_slots c a" using push(3,4) rest(4) by (simp add: css(1) all_slot_addrs_def)
  moreover have "each_option push_option (co # os) c = Some (co' # os', c\<lparr>cf_slots := H', cf_next := n'\<rparr>)" using push(1) rest(1) by simp
  moreover have "set (all_slot_addrs (cs' # css')) \<subseteq> set (all_slot_addrs css) \<union> {cf_next c..<n'}" using push(3,5) rest(3,5) by (auto simp: css(1) all_slot_addrs_def)
  moreover have "histories (cf_vars c) (co' # os') (cs' # css') = map (\<lambda>h. hd h # h) (histories (cf_vars c) (co # os) css)"
    using push(8) rest(8) saved_static [OF push(7)] by (simp add: css(1))
  ultimately show ?case using push(3,6,7) rest(2,3,6,7)
    by (intro exI [of _ "co' # os'"] exI [of _ "cs' # css'"] exI [of _ H'] exI [of _ n']) (simp add: all_slot_addrs_def)
qed

lemma pop_option_ok:
  assumes "saved_ok (Suc L) (cf_slots c) co cs" "cf_lvl c = int (Suc L)" "1 \<le> L" "distinct (slot_addrs cs)"
  shows "\<exists>co' cs' H vars. pop_option co c = Some (co', c\<lparr>cf_slots := H, cf_vars := vars\<rparr>) \<and> saved_ok L H co' cs' \<and>
    (\<forall>a. a \<notin> set (slot_addrs cs) \<longrightarrow> H a = cf_slots c a) \<and> set (slot_addrs cs') \<subseteq> set (slot_addrs cs) \<and> distinct (slot_addrs cs') \<and>
    (\<forall>x. x \<notin> set (variables [co]) \<longrightarrow> vars x = cf_vars c x) \<and> static co' = static co \<and>
    (saved co \<longrightarrow> history vars co' cs' = tl (history (cf_vars c) co cs))"
proof (cases "saved co")
  case False
  then show ?thesis using assms(1)
    by (intro exI [of _ co] exI [of _ "[]"] exI [of _ "cf_slots c"] exI [of _ "cf_vars c"]) (simp add: pop_option_def saved_ok_def)
next
  case True
  then have c: "slot_chain (cf_slots c) (cn_slots co) cs" "levels cs = down_from (Suc L)" and p: "mo_p (cn_opt co) \<noteq> None" "\<not> has_flag (cn_opt co) M_OPT_OLD"
    using assms(1) by (simp_all add: saved_ok_def)
  obtain x where x: "mo_p (cn_opt co) = Some x" using p(1) by auto
  obtain L' where L: "L = Suc L'" using assms(3) by (cases L) auto
  obtain a d b e cs1 where cs: "cs = (a, int (Suc L), d) # (b, int L, e) # cs1" and lv: "levels cs1 = down_from L'"
    using c(2) L by (cases cs; cases "tl cs") (auto split: prod.splits)
  obtain q where q: "cn_slots co = Some a" "cf_slots c a = Some \<lparr>sl_prev = Some b, sl_lvl = int (Suc L), sl_data = d\<rparr>"
    "cf_slots c b = Some \<lparr>sl_prev = q, sl_lvl = int L, sl_data = e\<rparr>" "slot_chain (cf_slots c) q cs1"
    using c(1) by (auto simp: cs)
  let ?H = "(cf_slots c)(a := None)" and ?vars = "(cf_vars c)(x := e)"
  have ab: "a \<noteq> b" using assms(4) by (simp add: cs)
  have "slot_chain ?H q cs1" using assms(4) by (intro slot_chain_frame [OF q(4)]) (auto simp: cs)
  moreover have "saved (co\<lparr>cn_slots := Some b\<rparr>) = True" using True by (subst saved_static [of _ co]) (simp_all add: static_def)
  ultimately have "saved_ok L ?H (co\<lparr>cn_slots := Some b\<rparr>) ((b, int L, e) # cs1)" using x p(2) q(3) ab lv by (simp add: saved_ok_def L)
  moreover have "pop_slots (cf_lvl c) (cn_slots co) (cf_slots c) False = Some (b, ?H, True)"
    using q(1,2,3) ab assms(2) by (simp add: pop_slots.simps)
  then have "pop_option co c = Some (co\<lparr>cn_slots := Some b\<rparr>, c\<lparr>cf_slots := ?H, cf_vars := ?vars\<rparr>)"
    using True q(3) ab x by (simp add: pop_option_def Let_def m_option_set_def)
  moreover have "cs1 \<noteq> []" using lv by (cases L') auto
  then have "history ?vars (co\<lparr>cn_slots := Some b\<rparr>) ((b, int L, e) # cs1) = tl (history (cf_vars c) co cs)"
    using x by (simp add: history_def cs)
  ultimately show ?thesis using assms(4) x True
    by (intro exI [of _ "co\<lparr>cn_slots := Some b\<rparr>"] exI [of _ "(b, int L, e) # cs1"] exI [of _ ?H] exI [of _ ?vars])
      (auto simp: static_def cs variables_def)
qed

lemma each_pop_ok:
  assumes "list_all2 (saved_ok (Suc L) (cf_slots c)) os css" "distinct (all_slot_addrs css)" "distinct (variables os)" "cf_lvl c = int (Suc L)" "1 \<le> L"
  shows "\<exists>os' css' H vars. each_option pop_option os c = Some (os', c\<lparr>cf_slots := H, cf_vars := vars\<rparr>) \<and>
    list_all2 (saved_ok L H) os' css' \<and> (\<forall>a. a \<notin> set (all_slot_addrs css) \<longrightarrow> H a = cf_slots c a) \<and>
    set (all_slot_addrs css') \<subseteq> set (all_slot_addrs css) \<and> distinct (all_slot_addrs css') \<and> (\<forall>x. x \<notin> set (variables os) \<longrightarrow> vars x = cf_vars c x) \<and>
    map static os' = map static os \<and> histories vars os' css' = map tl (histories (cf_vars c) os css)"
  using assms
proof (induction os arbitrary: css c)
  case Nil
  then show ?case by (intro exI [of _ "[]"] exI [of _ "cf_slots c"] exI [of _ "cf_vars c"]) (simp add: all_slot_addrs_def)
next
  case (Cons co os)
  then obtain cs css1 where css: "css = cs # css1" "saved_ok (Suc L) (cf_slots c) co cs" "list_all2 (saved_ok (Suc L) (cf_slots c)) os css1"
    by (auto simp: list_all2_Cons1)
  have a: "distinct (slot_addrs cs)" "distinct (all_slot_addrs css1)" "set (slot_addrs cs) \<inter> set (all_slot_addrs css1) = {}"
    and v: "distinct (variables os)" "set (variables [co]) \<inter> set (variables os) = {}"
    using Cons.prems(2,3) variables_Cons [of co os] by (auto simp: css(1) all_slot_addrs_def)
  from pop_option_ok [OF css(2) Cons.prems(4,5) a(1)] obtain co' cs' H vars where
    pop: "pop_option co c = Some (co', c\<lparr>cf_slots := H, cf_vars := vars\<rparr>)" "saved_ok L H co' cs'"
      "\<And>a. a \<notin> set (slot_addrs cs) \<Longrightarrow> H a = cf_slots c a" "set (slot_addrs cs') \<subseteq> set (slot_addrs cs)" "distinct (slot_addrs cs')"
      "\<forall>x. x \<notin> set (variables [co]) \<longrightarrow> vars x = cf_vars c x" "static co' = static co"
      "saved co \<Longrightarrow> history vars co' cs' = tl (history (cf_vars c) co cs)"
    by blast
  let ?c = "c\<lparr>cf_slots := H, cf_vars := vars\<rparr>"
  have "list_all2 (saved_ok (Suc L) H) os css1" using a(3) by (intro saved_all_frame [OF css(3)] pop(3)) auto
  then have "list_all2 (saved_ok (Suc L) (cf_slots ?c)) os css1" by simp
  from Cons.IH [OF this a(2) v(1)] Cons.prems(4,5) obtain os' css' H' vars' where
    rest: "each_option pop_option os ?c = Some (os', c\<lparr>cf_slots := H', cf_vars := vars'\<rparr>)" "list_all2 (saved_ok L H') os' css'"
      "\<And>a. a \<notin> set (all_slot_addrs css1) \<Longrightarrow> H' a = H a" "set (all_slot_addrs css') \<subseteq> set (all_slot_addrs css1)" "distinct (all_slot_addrs css')"
      "\<forall>x. x \<notin> set (variables os) \<longrightarrow> vars' x = vars x" "map static os' = map static os"
      "histories vars' os' css' = map tl (histories vars os css1)"
    by auto
  have "saved_ok L H' co' cs'" using pop(4) a(3) by (intro saved_ok_frame [OF pop(2)] rest(3)) auto
  moreover have "each_option pop_option (co # os) c = Some (co' # os', c\<lparr>cf_slots := H', cf_vars := vars'\<rparr>)" using pop(1) rest(1) by simp
  moreover have "\<forall>a. a \<notin> set (all_slot_addrs css) \<longrightarrow> H' a = cf_slots c a" using pop(3) rest(3) by (simp add: css(1) all_slot_addrs_def)
  moreover have "set (slot_addrs cs') \<inter> set (all_slot_addrs css') = {}" using pop(4) rest(4) a(3) by auto
  moreover have "\<forall>x. x \<notin> set (variables (co # os)) \<longrightarrow> vars' x = cf_vars c x" using pop(6) rest(6) by (simp add: variables_Cons [of co os])
  moreover have "histories vars os css1 = histories (cf_vars c) os css1" using pop(6) v(2) by (intro histories_cong) auto
  moreover have "saved co \<Longrightarrow> history vars' co' cs' = history vars co' cs'"
    using rest(6) v(2) pop(7) saved_static [OF pop(7)] by (intro history_cong) (auto simp: variables_def static_def)
  ultimately have "histories vars' (co' # os') (cs' # css') = map tl (histories (cf_vars c) (co # os) css)"
    using pop(8) rest(8) saved_static [OF pop(7)] by (simp add: css(1))
  then show ?case using pop(4,5,7) rest(2,4,5,7) \<open>saved_ok L H' co' cs'\<close> \<open>each_option pop_option (co # os) c = _\<close>
      \<open>\<forall>a. a \<notin> set (all_slot_addrs css) \<longrightarrow> H' a = cf_slots c a\<close> \<open>set (slot_addrs cs') \<inter> set (all_slot_addrs css') = {}\<close>
      \<open>\<forall>x. x \<notin> set (variables (co # os)) \<longrightarrow> vars' x = cf_vars c x\<close>
    by (intro exI [of _ "co' # os'"] exI [of _ "cs' # css'"] exI [of _ H'] exI [of _ vars']) (auto simp: css(1) all_slot_addrs_def)
qed

section \<open>The settings of a configuration\<close>

fun slot_list :: "nat \<Rightarrow> (nat \<Rightarrow> save_slot option) \<Rightarrow> nat option \<Rightarrow> (nat \<times> int \<times> opt_value) list" where
  "slot_list (Suc k) H (Some a) = (case H a of None \<Rightarrow> [] | Some s \<Rightarrow> (a, sl_lvl s, sl_data s) # slot_list k H (sl_prev s))"
| "slot_list _ H _ = []"

definition config_slots :: "m_config \<Rightarrow> (nat \<times> int \<times> opt_value) list list" where
  "config_slots c = map (\<lambda>co. if saved co then slot_list (nat (cf_lvl c) + 1) (cf_slots c) (cn_slots co) else []) (cf_opts c)"

primrec columns :: "nat \<Rightarrow> 'a list list \<Rightarrow> 'a list list" where
  "columns 0 hs = []"
| "columns (Suc n) hs = map hd hs # columns n (map tl hs)"

text \<open>The values of the options that are saved, level by level, the current ones first.\<close>

definition config_vals :: "m_config \<Rightarrow> opt_value list list" where
  "config_vals c = columns (nat (cf_lvl c)) (histories (cf_vars c) (cf_opts c) (config_slots c))"

definition slots_ok :: "nat \<Rightarrow> m_config \<Rightarrow> (nat \<times> int \<times> opt_value) list list \<Rightarrow> bool" where
  "slots_ok L c css \<longleftrightarrow> cf_lvl c = int L \<and> 1 \<le> L \<and> list_all2 (saved_ok L (cf_slots c)) (cf_opts c) css \<and> set (all_slot_addrs css) \<subseteq> {..<cf_next c} \<and>
     distinct (all_slot_addrs css) \<and> distinct (variables (cf_opts c))"

definition config_ok :: "(string \<times> m_option \<times> bool) list \<Rightarrow> opt_mode \<Rightarrow> m_config \<Rightarrow> bool" where
  "config_ok os mode c \<longleftrightarrow> cf_mode c = mode \<and> map static (cf_opts c) = os \<and> slots_ok (nat (cf_lvl c)) c (config_slots c)"

lemma slot_list_slot_chain: "slot_chain H p cs \<Longrightarrow> slot_list (length cs) H p = cs"
  by (induction H p cs rule: slot_chain.induct) auto

lemma saved_ok_slot_list: "saved_ok L H co cs \<Longrightarrow> cs = (if saved co then slot_list (L + 1) H (cn_slots co) else [])"
proof -
  assume s: "saved_ok L H co cs"
  have "length (down_from L) = L + 1" by (induction L) auto
  moreover have "length (levels cs) = length cs" by (simp add: levels_def)
  ultimately show ?thesis using s slot_list_slot_chain by (fastforce simp: saved_ok_def)
qed

lemma saved_all_slot_list:
  "list_all2 (saved_ok L H) os css \<Longrightarrow> map (\<lambda>co. if saved co then slot_list (L + 1) H (cn_slots co) else []) os = css"
  by (induction rule: list_all2_induct) (simp_all add: saved_ok_slot_list [symmetric])

lemma slots_ok_unique:
  assumes "slots_ok L c css"
  shows "config_slots c = css" "nat (cf_lvl c) = L"
proof -
  show l: "nat (cf_lvl c) = L" using assms by (simp add: slots_ok_def)
  show "config_slots c = css" using saved_all_slot_list assms unfolding config_slots_def l slots_ok_def by blast
qed

lemma slots_ok_vals: "slots_ok L c css \<Longrightarrow> config_vals c = columns L (histories (cf_vars c) (cf_opts c) css)"
  using slots_ok_unique [of L c css] by (simp add: config_vals_def)

lemma variables_static: "map static os' = map static os \<Longrightarrow> variables os' = variables os"
proof (induction os' arbitrary: os)
  case (Cons co' os')
  then obtain co os1 where os: "os = co # os1" "static co' = static co" "map static os' = map static os1" by auto
  then have "cn_opt co' = cn_opt co" "saved co' = saved co" using os(2) saved_static [OF os(2)] by (simp_all add: static_def)
  then show ?case using Cons.IH [OF os(3)] by (simp add: os(1) variables_def)
qed (simp add: variables_def)

lemma push_config:
  assumes "config_ok os mode c" "config_vals c = v # vs"
  shows "\<exists>c'. m_config_push c = Some c' \<and> config_ok os mode c' \<and> config_vals c' = v # v # vs"
proof -
  let ?c = "c\<lparr>cf_lvl := cf_lvl c + 1\<rparr>"
  define L where "L = nat (cf_lvl c)"
  obtain css where s: "slots_ok L c css" using assms(1) by (auto simp: config_ok_def L_def)
  have "\<exists>os' css' H n. each_option push_option (cf_opts c) ?c = Some (os', ?c\<lparr>cf_slots := H, cf_next := n\<rparr>) \<and>
    list_all2 (saved_ok (Suc L) H) os' css' \<and> cf_next ?c \<le> n \<and> (\<forall>a. a < cf_next ?c \<longrightarrow> a \<notin> set (all_slot_addrs css) \<longrightarrow> H a = cf_slots ?c a) \<and>
    set (all_slot_addrs css') \<subseteq> set (all_slot_addrs css) \<union> {cf_next ?c..<n} \<and> distinct (all_slot_addrs css') \<and> map static os' = map static (cf_opts c) \<and>
    histories (cf_vars ?c) os' css' = map (\<lambda>h. hd h # h) (histories (cf_vars ?c) (cf_opts c) css)"
    using s by (intro each_push_ok) (auto simp: slots_ok_def)
  then obtain os' css' H n where p: "each_option push_option (cf_opts c) ?c = Some (os', ?c\<lparr>cf_slots := H, cf_next := n\<rparr>)"
    "list_all2 (saved_ok (Suc L) H) os' css'" "cf_next c \<le> n" "set (all_slot_addrs css') \<subseteq> set (all_slot_addrs css) \<union> {cf_next c..<n}"
    "distinct (all_slot_addrs css')" "map static os' = map static (cf_opts c)"
    "histories (cf_vars c) os' css' = map (\<lambda>h. hd h # h) (histories (cf_vars c) (cf_opts c) css)"
    by auto
  let ?c' = "?c\<lparr>cf_slots := H, cf_next := n, cf_opts := os'\<rparr>"
  have "set (all_slot_addrs css') \<subseteq> {..<n}" using p(3,4) s by (auto simp: slots_ok_def dest!: subsetD)
  then have s': "slots_ok (Suc L) ?c' css'" using p s variables_static [OF p(6)] by (simp add: slots_ok_def)
  have "config_ok os mode ?c'" using assms(1) p(6) slots_ok_unique [OF s'] s' by (simp add: config_ok_def)
  moreover obtain m where m: "L = Suc m" using s by (cases L) (auto simp: slots_ok_def)
  have "config_vals ?c' = v # v # vs" using slots_ok_vals [OF s'] slots_ok_vals [OF s] assms(2) p(7) by (simp add: m comp_def)
  ultimately show ?thesis using p(1) by (simp add: m_config_push_def)
qed

lemma pop_config:
  assumes "config_ok os mode c" "config_vals c = v # w # vs"
  shows "\<exists>c'. m_config_pop c = Some c' \<and> config_ok os mode c' \<and> config_vals c' = w # vs"
proof -
  define L where "L = nat (cf_lvl c)"
  obtain css where s: "slots_ok L c css" using assms(1) by (auto simp: config_ok_def L_def)
  have "length (columns k hs) = k" for k and hs :: "opt_value list list" by (induction k arbitrary: hs) auto
  from this [of L "histories (cf_vars c) (cf_opts c) css"] have "length (v # w # vs) = L" using slots_ok_vals [OF s] assms(2) by simp
  then have "2 \<le> L" by simp
  then obtain k where k: "L = Suc k" "1 \<le> k" by (cases L) auto
  obtain os' css' H vars where p: "each_option pop_option (cf_opts c) c = Some (os', c\<lparr>cf_slots := H, cf_vars := vars\<rparr>)"
    "list_all2 (saved_ok k H) os' css'" "set (all_slot_addrs css') \<subseteq> set (all_slot_addrs css)" "distinct (all_slot_addrs css')"
    "map static os' = map static (cf_opts c)" "histories vars os' css' = map tl (histories (cf_vars c) (cf_opts c) css)"
    using each_pop_ok [of k c "cf_opts c" css] s k by (auto simp: slots_ok_def)
  let ?c' = "c\<lparr>cf_slots := H, cf_vars := vars, cf_opts := os', cf_lvl := cf_lvl c - 1\<rparr>"
  have "set (all_slot_addrs css') \<subseteq> {..<cf_next c}" using p(3) s by (auto simp: slots_ok_def)
  then have s': "slots_ok k ?c' css'" using p(2,4) s k variables_static [OF p(5)] by (simp add: slots_ok_def)
  have "config_ok os mode ?c'" using assms(1) p(5) slots_ok_unique [OF s'] s' by (simp add: config_ok_def)
  moreover have "config_vals ?c' = w # vs" using slots_ok_vals [OF s'] slots_ok_vals [OF s] assms(2) p(6) by (simp add: k)
  ultimately show ?thesis using p(1) by (simp add: m_config_pop_def)
qed

section \<open>Setting an option\<close>

definition entry_saved :: "string \<times> m_option \<times> bool \<Rightarrow> bool" where
  "entry_saved e \<longleftrightarrow> (case e of (n, opt, al) \<Rightarrow> \<not> has_child opt \<and> \<not> has_flag opt (M_OPT_GLOBAL OR M_OPT_NOSAVE) \<and> \<not> al)"

definition entry_find :: "(string \<times> m_option \<times> bool) list \<Rightarrow> string \<Rightarrow> nat option" where
  "entry_find os name = find_index (\<lambda>(n, opt, al). name_fits (allow_wildcard opt) n name) os"

text \<open>The types of m_option.c that have been modelled.\<close>

definition simple_type :: "m_option \<Rightarrow> bool" where
  "simple_type opt \<longleftrightarrow> (case mo_type opt of TYPE_SUBCONFIG _ \<Rightarrow> False | TYPE_OTHER _ _ \<Rightarrow> False | _ \<Rightarrow> True)"

text \<open>The names of options that are saved; a name that no option has does no harm.\<close>

definition config_safe :: "(string \<times> m_option \<times> bool) list \<Rightarrow> string \<Rightarrow> bool" where
  "config_safe os name \<longleftrightarrow> (case entry_find os name of None \<Rightarrow> True
     | Some i \<Rightarrow> entry_saved (os ! i) \<and> (case os ! i of (n, opt, al) \<Rightarrow> simple_type opt \<and> \<not> has_flag opt M_OPT_PRE_PARSE))"

text \<open>What setting an option does to the values of the options that are saved.\<close>

definition config_setting :: "(string \<times> m_option \<times> bool) list \<Rightarrow> opt_mode \<Rightarrow> string \<Rightarrow> string option \<Rightarrow> opt_value list \<Rightarrow> opt_value list" where
  "config_setting os mode name val v = (case entry_find os name of None \<Rightarrow> v
     | Some i \<Rightarrow> (case os ! i of (n, opt, al) \<Rightarrow>
         if forbidden mode opt \<or> mode = M_COMMAND_LINE_PRE_PARSE then v
         else (case snd (m_option_parse opt val mode) of None \<Rightarrow> v | Some x \<Rightarrow> v[length (filter entry_saved (take i os)) := x])))"

lemma simple_parse: "simple_type opt \<Longrightarrow> fst (m_option_parse opt val mode) < 0 \<longleftrightarrow> snd (m_option_parse opt val mode) = None"
  by (cases "mo_type opt")
    (simp_all add: simple_type_def m_option_parse_def parse_flag_def parse_int_def parse_str_def Let_def M_OPT_MISSING_PARAM_def M_OPT_INVALID_def
      M_OPT_OUT_OF_RANGE_def split: option.splits prod.splits)

lemma saved_entry: "saved co = entry_saved (static co)"
  by (simp add: saved_def entry_saved_def static_def)

lemma get_co_entry: "m_config_get_co c name = entry_find (map static (cf_opts c)) name"
proof -
  have "find_index (\<lambda>co. name_fits (allow_wildcard (cn_opt co)) (cn_name co) name) os =
    find_index (\<lambda>(n, opt, al). name_fits (allow_wildcard opt) n name) (map static os)" for os
    by (induction os) (simp_all add: static_def)
  then show ?thesis by (simp add: m_config_get_co_def entry_find_def)
qed

lemma find_index_Some: "find_index P xs = Some i \<Longrightarrow> i < length xs \<and> P (xs ! i)"
  by (induction xs arbitrary: i) (auto split: if_splits)

lemma histories_append:
  "length os1 = length css1 \<Longrightarrow> histories vars (os1 @ os2) (css1 @ css2) = histories vars os1 css1 @ histories vars os2 css2"
  by (induction os1 css1 rule: list_induct2) auto

lemma length_histories: "length os = length css \<Longrightarrow> length (histories vars os css) = length (filter saved os)"
  by (induction os css rule: list_induct2) auto

lemma tl_update: "(map tl hs)[i := tl (hs ! i)] = map tl hs"
  by (metis list_update_id map_update)

lemma set_option_simple:
  assumes "m_config_get_co c name = Some i" "cf_opts c ! i = co" "simple_type (cn_opt co)" "\<not> has_flag (cn_opt co) M_OPT_PRE_PARSE"
    "cn_slots co = Some a" "cf_slots c a = Some s" "mo_p (cn_opt co) = Some x"
  shows "m_config_set_option name val c = (case m_option_parse (cn_opt co) val (cf_mode c) of (r, v) \<Rightarrow>
      Some (if forbidden (cf_mode c) (cn_opt co) then (M_OPT_INVALID, c) else (r, if cf_mode c = M_COMMAND_LINE_PRE_PARSE then c else
        (case v of None \<Rightarrow> c | Some d \<Rightarrow> c\<lparr>cf_slots := (cf_slots c)(a \<mapsto> s\<lparr>sl_data := d\<rparr>), cf_vars := (cf_vars c)(x := d),
           cf_opts := (cf_opts c)[i := co\<lparr>cn_set := True\<rparr>]\<rparr>))))"
proof -
  obtain r v where p: "m_option_parse (cn_opt co) val (cf_mode c) = (r, v)" by (cases "m_option_parse (cn_opt co) val (cf_mode c)") auto
  obtain k where k: "option_fuel c = Suc k" by (simp add: option_fuel_def)
  have "has_child (cn_opt co) = False" using assms(3) by (simp add: simple_type_def has_child_def split: opt_type.splits)
  moreover have "(case mo_type (cn_opt co) of TYPE_SUBCONFIG subopts \<Rightarrow> f subopts | _ \<Rightarrow> g) = g" for f and g :: "(int \<times> m_config) option"
    using assms(3) by (simp add: simple_type_def split: opt_type.splits)
  moreover have "r < 0 \<longleftrightarrow> v = None" using simple_parse [OF assms(3), of val "cf_mode c"] p by simp
  ultimately show ?thesis using assms p
    by (cases v) (auto simp: m_config_set_option_def k not_now_def store_parsed_def apply_slot_def m_option_set_def)
qed

text \<open>An option that is saved, with its slots, among the others.\<close>

lemma saved_option:
  assumes "slots_ok L c css" "i < length (cf_opts c)" "cf_opts c ! i = co" "saved co"
  shows "\<exists>a l d cs css1 css2 x. css = css1 @ ((a, l, d) # cs) # css2 \<and> length css1 = i \<and> cn_slots co = Some a \<and>
    (\<exists>q. cf_slots c a = Some \<lparr>sl_prev = q, sl_lvl = l, sl_data = d\<rparr>) \<and> mo_p (cn_opt co) = Some x"
proof -
  have l: "list_all2 (saved_ok L (cf_slots c)) (cf_opts c) css" using assms(1) by (simp add: slots_ok_def)
  have i: "i < length css" using list_all2_lengthD [OF l] assms(2) by simp
  have ok: "saved_ok L (cf_slots c) co (css ! i)" using list_all2_nthD [OF l assms(2)] assms(3) by simp
  then have "levels (css ! i) = down_from L" "slot_chain (cf_slots c) (cn_slots co) (css ! i)" "mo_p (cn_opt co) \<noteq> None" using assms(4) by (simp_all add: saved_ok_def)
  moreover have "down_from L \<noteq> []" by (cases L) auto
  moreover have "\<exists>css1 css2. css = css1 @ (css ! i) # css2 \<and> length css1 = i"
    using id_take_nth_drop [OF i] i by (intro exI [of _ "take i css"] exI [of _ "drop (Suc i) css"]) simp
  ultimately show ?thesis by (cases "css ! i") fastforce+
qed

lemma set_saved:
  assumes "slots_ok L c css" "cf_opts c = os1 @ co # os2" "css = css1 @ ((a, l, d) # cs) # css2" "length css1 = length os1" "saved co"
    "cf_slots c a = Some s" "mo_p (cn_opt co) = Some x"
    "c' = c\<lparr>cf_slots := (cf_slots c)(a \<mapsto> s\<lparr>sl_data := v\<rparr>), cf_vars := (cf_vars c)(x := v), cf_opts := os1 @ co\<lparr>cn_set := True\<rparr> # os2\<rparr>"
  shows "slots_ok L c' (css1 @ ((a, l, v) # cs) # css2)" (is ?ok)
    "histories (cf_vars c') (cf_opts c') (css1 @ ((a, l, v) # cs) # css2) =
      (let hs = histories (cf_vars c) (cf_opts c) css; i = length (filter saved os1) in hs[i := v # tl (hs ! i)])" (is ?hist)
proof -
  let ?H = "(cf_slots c)(a \<mapsto> s\<lparr>sl_data := v\<rparr>)" and ?co = "co\<lparr>cn_set := True\<rparr>" and ?vars = "(cf_vars c)(x := v)"
  have l: "list_all2 (saved_ok L (cf_slots c)) (os1 @ co # os2) (css1 @ ((a, l, d) # cs) # css2)"
    and dist: "distinct (all_slot_addrs (css1 @ ((a, l, d) # cs) # css2))" and dv: "distinct (variables (os1 @ co # os2))"
    using assms(1,2,3) by (simp_all add: slots_ok_def)
  have parts: "list_all2 (saved_ok L (cf_slots c)) os1 css1" "saved_ok L (cf_slots c) co ((a, l, d) # cs)" "list_all2 (saved_ok L (cf_slots c)) os2 css2"
    using l assms(4) by (simp_all add: list_all2_append)
  have saved: "saved ?co = True" using assms(5) by (simp add: saved_def)
  have out: "a \<notin> set (all_slot_addrs css1)" "a \<notin> set (all_slot_addrs css2)" "a \<notin> set (slot_addrs cs)" using dist by (auto simp: all_slot_addrs_def)
  have "list_all2 (saved_ok L ?H) os1 css1" "list_all2 (saved_ok L ?H) os2 css2"
    using out by (auto intro!: saved_all_frame [OF parts(1)] saved_all_frame [OF parts(3)])
  moreover have "saved_ok L ?H ?co ((a, l, v) # cs)"
  proof -
    have "slot_chain (cf_slots c) q cs \<Longrightarrow> slot_chain ?H q cs" for q by (erule slot_chain_frame) (use out(3) in auto)
    then show ?thesis using parts(2) saved assms(5,6) by (auto simp: saved_ok_def simp del: fun_upd_apply) simp_all
  qed
  ultimately have "list_all2 (saved_ok L ?H) (os1 @ ?co # os2) (css1 @ ((a, l, v) # cs) # css2)" using assms(4) by (simp add: list_all2_append)
  moreover have "all_slot_addrs (css1 @ ((a, l, v) # cs) # css2) = all_slot_addrs css" by (simp add: assms(3) all_slot_addrs_def)
  moreover have "variables (os1 @ ?co # os2) = variables (cf_opts c)" unfolding assms(2) by (rule variables_static) (simp add: static_def)
  ultimately show ?ok using assms(1,8) by (simp add: slots_ok_def)
  have "x \<notin> set (variables os1)" "x \<notin> set (variables os2)" using dv assms(5,7) by (auto simp: variables_def)
  then have "histories ?vars os1 css1 = histories (cf_vars c) os1 css1" "histories ?vars os2 css2 = histories (cf_vars c) os2 css2"
    by (auto intro!: histories_cong)
  moreover have "length (histories (cf_vars c) os1 css1) = length (filter saved os1)" using assms(4) by (intro length_histories) simp
  moreover have "history ?vars ?co ((a, l, v) # cs) = v # tl (history (cf_vars c) co ((a, l, d) # cs))" using assms(7) by (simp add: history_def)
  ultimately show ?hist using assms(2,3,4,5,8) saved
    by (simp add: histories_append Let_def) (simp add: list_update_append nth_append)
qed

lemma set_config:
  assumes "config_ok os mode c" "config_vals c = v # vs" "config_safe os name"
  shows "\<exists>r c'. m_config_set_option name val c = Some (r, c') \<and> config_ok os mode c' \<and> config_vals c' = config_setting os mode name val v # vs"
proof (cases "m_config_get_co c name")
  case None
  then have "m_config_set_option name val c = Some (M_OPT_UNKNOWN, c)" by (simp add: m_config_set_option_def option_fuel_def)
  then show ?thesis using assms None get_co_entry [of c name] by (simp add: config_setting_def config_ok_def)
next
  case (Some i)
  define L where "L = nat (cf_lvl c)"
  obtain css where s: "slots_ok L c css" using assms(1) by (auto simp: config_ok_def L_def)
  have os: "os = map static (cf_opts c)" "cf_mode c = mode" using assms(1) by (simp_all add: config_ok_def)
  have find: "entry_find os name = Some i" using Some get_co_entry [of c name] os(1) by simp
  have i: "i < length (cf_opts c)" using Some find_index_Some by (auto simp: m_config_get_co_def)
  define co where "co = cf_opts c ! i"
  have e: "os ! i = static co" using i by (simp add: os(1) co_def)
  have co: "saved co" "simple_type (cn_opt co)" "\<not> has_flag (cn_opt co) M_OPT_PRE_PARSE"
    using assms(3) find e by (simp_all add: config_safe_def saved_entry) (simp_all add: static_def)
  obtain a l d cs css1 css2 x where sv: "css = css1 @ ((a, l, d) # cs) # css2" "length css1 = i" "cn_slots co = Some a"
    "mo_p (cn_opt co) = Some x" and "\<exists>q. cf_slots c a = Some \<lparr>sl_prev = q, sl_lvl = l, sl_data = d\<rparr>"
    using saved_option [OF s i co_def [symmetric] co(1)] by blast
  then obtain sl where sl: "cf_slots c a = Some sl" by blast
  note set = set_option_simple [OF Some co_def [symmetric] co(2,3) sv(3) sl sv(4), of val]
  obtain r y where p: "m_option_parse (cn_opt co) val mode = (r, y)" by (cases "m_option_parse (cn_opt co) val mode") auto
  show ?thesis
  proof (cases "forbidden mode (cn_opt co) \<or> mode = M_COMMAND_LINE_PRE_PARSE \<or> y = None")
    case True
    then have "\<exists>r. m_config_set_option name val c = Some (r, c)" "config_setting os mode name val v = v"
      using set p os(2) find e by (auto simp: config_setting_def static_def)
    then show ?thesis using assms(1,2) by auto
  next
    case False
    then obtain w where w: "y = Some w" by auto
    let ?os1 = "take i (cf_opts c)" and ?os2 = "drop (Suc i) (cf_opts c)"
    let ?c' = "c\<lparr>cf_slots := (cf_slots c)(a \<mapsto> sl\<lparr>sl_data := w\<rparr>), cf_vars := (cf_vars c)(x := w), cf_opts := ?os1 @ co\<lparr>cn_set := True\<rparr> # ?os2\<rparr>"
    have opts: "cf_opts c = ?os1 @ co # ?os2" using id_take_nth_drop [OF i] by (simp add: co_def)
    have "m_config_set_option name val c = Some (r, ?c')" using set p os(2) w False i by (simp add: upd_conv_take_nth_drop)
    moreover note new = set_saved [OF s opts sv(1) _ co(1) sl sv(4) refl, of w]
    have len: "length css1 = length ?os1" using i sv(2) by simp
    have "map static (cf_opts c) = map static (?os1 @ co # ?os2)" using arg_cong [OF opts] .
    then have "map static (cf_opts ?c') = map static (cf_opts c)" by (simp add: static_def)
    then have "config_ok os mode ?c'" using new(1) [OF len] slots_ok_unique [OF new(1) [OF len]] os by (simp add: config_ok_def)
    moreover have "config_setting os mode name val v = v[length (filter saved ?os1) := w]"
    proof -
      have "length (filter entry_saved (take i os)) = length (filter saved ?os1)"
        by (simp add: os(1) take_map filter_map comp_def saved_entry [abs_def])
      then show ?thesis using False find e p w by (simp add: config_setting_def static_def)
    qed
    moreover obtain m where m: "L = Suc m" using s by (cases L) (auto simp: slots_ok_def)
    then have "config_vals ?c' = config_setting os mode name val v # vs"
      using slots_ok_vals [OF new(1) [OF len]] new(2) [OF len] slots_ok_vals [OF s] assms(2) calculation(3)
      by (simp add: Let_def tl_update map_update)
    ultimately show ?thesis by blast
  qed
qed

end
