(* ===== verification/ConfigReg.thy ===== *)
theory ConfigReg
  imports ConfigLevels
begin

text \<open>
  Configurations with registered options: after the registration every option that is saved has its slots, those with a
  variable that an earlier option has are aliases. Setting an option returns whatever its parameter is.
\<close>

section \<open>Registered options\<close>

text \<open>Options whose saved leaves have variables and are not pushed only when they are set.\<close>

function leaf_ok :: "m_option \<Rightarrow> bool" where
  "leaf_ok arg \<longleftrightarrow> (case mo_type arg of TYPE_SUBCONFIG ol \<Rightarrow> list_all leaf_ok ol
     | _ \<Rightarrow> has_flag arg (M_OPT_GLOBAL OR M_OPT_NOSAVE) \<or> mo_p arg \<noteq> None \<and> \<not> has_flag arg M_OPT_OLD)"
  by pat_completeness auto
termination by (relation "measure size") (auto dest: suboption_smaller)

declare leaf_ok.simps [simp del]

lemma add_unsaved:
  assumes "slots_ok 1 c css" "\<not> saved co"
  shows "slots_ok 1 (add_entry co c) ([] # css)"
  using assms by (simp add: slots_ok_def add_entry_def saved_ok_def all_slot_addrs_def variables_def)

lemma add_new_slots:
  assumes "slots_ok 1 c css" "\<not> has_child arg" "leaf_ok arg" "same_variable arg c = None"
    "co = \<lparr>cn_name = n, cn_opt = arg, cn_slots = Some (fst (new_slots arg c)), cn_set = False, cn_alias = False\<rparr>"
  shows "\<exists>css. slots_ok 1 (add_entry co (snd (new_slots arg c))) css"
proof -
  let ?c = "snd (new_slots arg c)" and ?n = "cf_next c" and ?v = "m_option_save arg (zero_value arg) c"
  have css: "list_all2 (saved_ok 1 (cf_slots c)) (cf_opts c) css" "set (all_slot_addrs css) \<subseteq> {..<?n}" using assms(1) by (simp_all add: slots_ok_def)
  have old: "list_all2 (saved_ok 1 (cf_slots ?c)) (cf_opts c) css" using css(2)
    by (intro saved_all_frame [OF css(1)]) (auto simp: new_slots_def Let_def)
  have lower: "set (all_slot_addrs css) \<subseteq> {..<?n + 2}" using css(2) by auto
  show ?thesis
  proof (cases "saved co")
    case False
    have "slots_ok 1 ?c css" using assms(1) old lower by (simp add: slots_ok_def new_slots_def Let_def)
    then show ?thesis using add_unsaved False by blast
  next
    case True
    then have p: "mo_p arg \<noteq> None" "\<not> has_flag arg M_OPT_OLD" using assms(2,3,5)
      by (auto simp: leaf_ok.simps [of arg] saved_def has_child_def split: opt_type.splits)
    then obtain x where x: "mo_p arg = Some x" by blast
    have "\<forall>co \<in> set (cf_opts c). mo_p (cn_opt co) \<noteq> Some x" using assms(4) x by (auto simp: same_variable_def find_None_iff)
    then have "x \<notin> set (variables (cf_opts c))" by (auto simp: variables_def split: if_splits option.splits)
    moreover have "saved_ok 1 (cf_slots ?c) co [(?n + 1, 1, ?v), (?n, 0, ?v)]"
      using True p assms(1,5) by (simp add: saved_ok_def new_slots_def Let_def slots_ok_def numeral_eq_Suc)
    ultimately have "slots_ok 1 (add_entry co ?c) ([(?n + 1, 1, ?v), (?n, 0, ?v)] # css)"
      using True assms(1,5) old lower css(2) x
      by (auto simp: slots_ok_def add_entry_def new_slots_def Let_def all_slot_addrs_def variables_def)
    then show ?thesis by blast
  qed
qed

lemma fold_invariant: "(\<And>x s. x \<in> set xs \<Longrightarrow> P s \<Longrightarrow> P (f x s)) \<Longrightarrow> P s \<Longrightarrow> P (fold f xs s)"
  by (induction xs arbitrary: s) auto

lemma add_option_plain:
  assumes "\<not> has_child arg"
  shows "m_config_add_option prefix arg c = (let co = (\<lambda>s al. \<lparr>cn_name = full_name prefix arg, cn_opt = arg, cn_slots = s, cn_set = False, cn_alias = al\<rparr>)
    in case same_variable arg c of Some i \<Rightarrow> add_entry (co (cn_slots i) True) c
      | None \<Rightarrow> add_entry (co (Some (fst (new_slots arg c))) False) (snd (new_slots arg c)))"
  using assms by (cases "mo_type arg") (simp_all add: m_config_add_option.simps [of _ arg] Let_def case_prod_unfold has_child_def split: option.splits)

lemma add_option_children:
  assumes "mo_type arg = TYPE_SUBCONFIG ol"
  shows "m_config_add_option prefix arg c = add_entry \<lparr>cn_name = full_name prefix arg, cn_opt = arg, cn_slots = None, cn_set = False, cn_alias = False\<rparr>
    (fold (m_config_add_option (Some (full_name prefix arg))) ol c)"
  using assms by (simp add: m_config_add_option.simps [of _ arg] Let_def)

lemma add_option_ok:
  "leaf_ok arg \<Longrightarrow> \<exists>css. slots_ok 1 c css \<Longrightarrow> \<exists>css. slots_ok 1 (m_config_add_option prefix arg c) css"
proof (induction arg arbitrary: prefix c rule: measure_induct_rule [of size])
  case (less arg)
  show ?case
  proof (cases "\<exists>ol. mo_type arg = TYPE_SUBCONFIG ol")
    case True
    then obtain ol where ol: "mo_type arg = TYPE_SUBCONFIG ol" by blast
    let ?co = "\<lparr>cn_name = full_name prefix arg, cn_opt = arg, cn_slots = None, cn_set = False, cn_alias = False\<rparr>"
    have leafs: "list_all leaf_ok ol" using less.prems(1) ol by (simp add: leaf_ok.simps [of arg])
    have "\<exists>css. slots_ok 1 (fold (m_config_add_option (Some (cn_name ?co))) ol c) css"
    proof (rule fold_invariant [where P = "\<lambda>c. \<exists>css. slots_ok 1 c css"])
      fix x s assume x: "x \<in> set ol" and s: "\<exists>css. slots_ok 1 s css"
      have "leaf_ok x" using leafs x by (simp add: list_all_iff)
      from less.IH [OF suboption_smaller [OF x ol] this s]
      show "\<exists>css. slots_ok 1 (m_config_add_option (Some (cn_name ?co)) x s) css" .
    qed (rule less.prems(2))
    then obtain css where "slots_ok 1 (fold (m_config_add_option (Some (cn_name ?co))) ol c) css" by blast
    moreover have "\<not> saved ?co" using ol by (simp add: saved_def has_child_def)
    ultimately show ?thesis using add_unsaved [of _ css ?co] add_option_children [OF ol, of prefix c] by auto
  next
    case False
    then have ch: "\<not> has_child arg" by (auto simp: has_child_def split: opt_type.splits)
    obtain css where css: "slots_ok 1 c css" using less.prems(2) by blast
    show ?thesis
    proof (cases "same_variable arg c")
      case None
      then show ?thesis using add_new_slots [OF css ch less.prems(1) None refl] add_option_plain [OF ch, of prefix c] by simp
    next
      case (Some i)
      have "\<not> saved \<lparr>cn_name = full_name prefix arg, cn_opt = arg, cn_slots = cn_slots i, cn_set = False, cn_alias = True\<rparr>" by (simp add: saved_def)
      from add_unsaved [OF css this] show ?thesis using add_option_plain [OF ch, of prefix c] Some by auto
    qed
  qed
qed

text \<open>The configuration after registering options, level 1.\<close>

definition registered :: "m_option list \<Rightarrow> opt_mode \<Rightarrow> (nat \<Rightarrow> opt_value) \<Rightarrow> m_config" where
  "registered args mode vars = m_config_register_options args (m_config_new mode vars)"

definition entries :: "m_config \<Rightarrow> (string \<times> m_option \<times> bool) list" where
  "entries c = map static (cf_opts c)"

lemma add_option_mode: "cf_mode (m_config_add_option prefix arg c) = cf_mode c"
proof (induction arg arbitrary: prefix c rule: measure_induct_rule [of size])
  case (less arg)
  show ?case
  proof (cases "has_child arg")
    case True
    then obtain ol where ol: "mo_type arg = TYPE_SUBCONFIG ol" by (auto simp: has_child_def split: opt_type.splits)
    have "cf_mode (fold (m_config_add_option p) ol c) = cf_mode c" for p
      by (rule fold_invariant [where P = "\<lambda>s. cf_mode s = cf_mode c"]) (simp_all add: less.IH suboption_smaller [OF _ ol])
    then show ?thesis by (simp add: add_option_children [OF ol] add_entry_def)
  next
    case False
    then show ?thesis by (simp add: add_option_plain Let_def add_entry_def new_slots_def split: option.splits)
  qed
qed

lemma registered_ok: "list_all leaf_ok args \<Longrightarrow> config_ok (entries (registered args mode vars)) mode (registered args mode vars)"
proof -
  assume "list_all leaf_ok args"
  moreover have "\<exists>css. slots_ok 1 (m_config_new mode vars) css"
    by (rule exI [of _ "[]"]) (simp add: slots_ok_def m_config_new_def all_slot_addrs_def variables_def)
  ultimately have "\<exists>css. slots_ok 1 (registered args mode vars) css"
    unfolding registered_def m_config_register_options_def
    by (intro fold_invariant [where P = "\<lambda>c. \<exists>css. slots_ok 1 c css"] add_option_ok) (simp_all add: list_all_iff)
  then obtain css where s: "slots_ok 1 (registered args mode vars) css" by blast
  moreover have "cf_mode (registered args mode vars) = mode"
    unfolding registered_def m_config_register_options_def
    by (rule fold_invariant [where P = "\<lambda>c. cf_mode c = mode"]) (simp_all add: add_option_mode m_config_new_def)
  ultimately show ?thesis using slots_ok_unique [OF s] by (simp add: config_ok_def entries_def)
qed

text \<open>The options of cfg-common.h for the audio track: \<open>nosound\<close> has the variable of \<open>aid\<close>, which is registered before it.\<close>

definition opt_aid :: m_option where
  "opt_aid = M_OPTION ''aid'' (Some 0) TYPE_INT (M_OPT_MIN OR M_OPT_MAX) (- 2) 8190"

definition opt_sound :: m_option where
  "opt_sound = M_OPTION ''sound'' (Some 0) TYPE_FLAG 0 (- 2) (- 1)"

definition opt_nosound :: m_option where
  "opt_nosound = M_OPTION ''nosound'' (Some 0) TYPE_FLAG 0 (- 1) (- 2)"

lemma audio_options_ok: "list_all leaf_ok [opt_aid, opt_sound, opt_nosound]"
  by (simp add: leaf_ok.simps opt_aid_def opt_sound_def opt_nosound_def has_flag_def M_OPT_OLD_def M_OPT_MIN_def M_OPT_MAX_def)

lemma audio_entries: "entries (registered [opt_aid, opt_sound, opt_nosound] mode vars) =
    [(''nosound'', opt_nosound, True), (''sound'', opt_sound, True), (''aid'', opt_aid, False)]"
  by (simp add: entries_def registered_def m_config_register_options_def m_config_new_def add_option_plain has_child_def opt_aid_def opt_sound_def
      opt_nosound_def same_variable_def new_slots_def Let_def add_entry_def static_def full_name_def)

lemmas audio_defs = opt_aid_def opt_sound_def opt_nosound_def has_child_def allow_wildcard_def simple_type_def has_flag_def M_OPT_OLD_def
  M_OPT_MIN_def M_OPT_MAX_def M_OPT_GLOBAL_def M_OPT_NOSAVE_def M_OPT_PRE_PARSE_def M_OPT_NOCMD_def M_OPT_NOCFG_def

lemmas name_defs = name_fits_def av_strcaseeq_def tolower_def is_upper_def char_le_code char_code_def

lemma audio_found:
  "entry_find [(''nosound'', opt_nosound, True), (''sound'', opt_sound, True), (''aid'', opt_aid, False)] ''aid'' = Some 2"
  by (simp add: entry_find_def audio_defs name_defs)

section \<open>Setting an option returns\<close>

text \<open>The options without children have their slots.\<close>

definition have_slots :: "m_config \<Rightarrow> bool" where
  "have_slots c \<longleftrightarrow> (\<forall>co \<in> set (cf_opts c). has_child (cn_opt co) \<or> (\<exists>a s. cn_slots co = Some a \<and> cf_slots c a = Some s))"

text \<open>What setting an option does not change.\<close>

definition shape :: "m_config \<Rightarrow> config_option list \<times> nat set" where
  "shape c = (map (\<lambda>co. co\<lparr>cn_set := False\<rparr>) (cf_opts c), dom (cf_slots c))"

definition longest_name :: "m_config \<Rightarrow> nat" where
  "longest_name c = foldr (\<lambda>co n. max (length (cn_name co)) n) (cf_opts c) 0"

lemma have_slots_shape: "shape c' = shape c \<Longrightarrow> have_slots c' = have_slots c"
proof -
  have "have_slots c \<longleftrightarrow> (\<forall>co \<in> set (fst (shape c)). has_child (cn_opt co) \<or> (\<exists>a. cn_slots co = Some a \<and> a \<in> snd (shape c)))" for c
    by (auto simp: have_slots_def shape_def dom_def)
  then show "shape c' = shape c \<Longrightarrow> have_slots c' = have_slots c" by simp
qed

lemma longest_name_shape: "shape c' = shape c \<Longrightarrow> longest_name c' = longest_name c"
proof -
  have "longest_name c = foldr (\<lambda>co n. max (length (cn_name co)) n) (fst (shape c)) 0" for c
    by (simp add: longest_name_def shape_def foldr_map comp_def)
  then show "shape c' = shape c \<Longrightarrow> longest_name c' = longest_name c" by simp
qed

lemma longest_name_ge: "co \<in> set (cf_opts c) \<Longrightarrow> length (cn_name co) \<le> longest_name c"
proof -
  have "co \<in> set os \<Longrightarrow> length (cn_name co) \<le> foldr (\<lambda>co n. max (length (cn_name co)) n) os 0" for os
    by (induction os) auto
  then show "co \<in> set (cf_opts c) \<Longrightarrow> length (cn_name co) \<le> longest_name c" by (simp add: longest_name_def)
qed

lemma store_parsed_shape:
  "cn_slots co = Some a \<Longrightarrow> cf_slots c a = Some s \<Longrightarrow> \<exists>c'. store_parsed co v c = Some c' \<and> shape c' = shape c \<and> (\<exists>s. cf_slots c' a = Some s)"
  by (cases v) (auto simp: store_parsed_def shape_def)

lemma apply_slot_shape:
  "has_child (cn_opt co) \<or> (\<exists>a s. cn_slots co = Some a \<and> cf_slots c a = Some s) \<Longrightarrow> \<exists>c'. apply_slot co c = Some c' \<and> shape c' = shape c"
  by (cases "mo_p (cn_opt co)") (auto simp: apply_slot_def m_option_set_def shape_def)

lemma set_flag_shape: "shape (c\<lparr>cf_opts := (cf_opts c)[i := (cf_opts c ! i)\<lparr>cn_set := True\<rparr>]\<rparr>) = shape c"
proof -
  have "map (\<lambda>co. co\<lparr>cn_set := False\<rparr>) ((cf_opts c)[i := (cf_opts c ! i)\<lparr>cn_set := True\<rparr>]) = map (\<lambda>co. co\<lparr>cn_set := False\<rparr>) (cf_opts c)"
    by (cases "i < length (cf_opts c)") (simp_all add: map_update list_update_same_conv list_update_beyond)
  then show ?thesis by (simp add: shape_def)
qed

lemma set_suboptions_shape:
  assumes "\<And>sub val c'. shape c' = shape c \<Longrightarrow> \<exists>r c''. parse (name @ '':'' @ sub) val c' = Some (r, c'') \<and> shape c'' = shape c'"
  shows "\<exists>r' c'. set_suboptions parse name lst r c = Some (r', c') \<and> shape c' = shape c"
proof -
  have "shape d = shape c \<Longrightarrow> \<exists>r' c'. set_suboptions parse name lst r d = Some (r', c') \<and> shape c' = shape c" for d
  proof (induction lst arbitrary: r d)
    case (Cons p lst)
    obtain sub val where p: "p = (sub, val)" by (cases p)
    show ?case
    proof (cases "r < 0")
      case True
      then show ?thesis using Cons by (simp add: p)
    next
      case False
      obtain sr c1 where "parse (name @ '':'' @ sub) val d = Some (sr, c1)" "shape c1 = shape d" using assms [OF Cons.prems] by blast
      then show ?thesis using False Cons.IH [of c1] Cons.prems by (simp add: p)
    qed
  qed simp
  then show ?thesis by simp
qed

lemma name_fits_length: "has_child opt \<Longrightarrow> name_fits (allow_wildcard opt) n name \<Longrightarrow> length n = length name"
  by (auto simp: name_fits_def allow_wildcard_def has_child_def av_strcaseeq_def dest: map_eq_imp_length_eq split: opt_type.splits)

lemma parse_option_returns:
  "have_slots c \<Longrightarrow> 1 \<le> k \<Longrightarrow> longest_name c + 2 \<le> k + length arg \<Longrightarrow>
    \<exists>r c'. m_config_parse_option k arg param st c = Some (r, c') \<and> shape c' = shape c"
proof (induction k arbitrary: arg param st c)
  case (Suc k)
  show ?case
  proof (cases "m_config_get_co c arg")
    case (Some i)
    define co where "co = cf_opts c ! i"
    have i: "i < length (cf_opts c)" "name_fits (allow_wildcard (cn_opt co)) (cn_name co) arg"
      using find_index_Some [OF Some [unfolded m_config_get_co_def]] by (simp_all add: co_def)
    have co: "co \<in> set (cf_opts c)" using i(1) by (simp add: co_def)
    define st' where "st' = (st \<and> \<not> not_now (cf_mode c) co)"
    let ?body = "case mo_type (cn_opt co) of
        TYPE_SUBCONFIG subopts \<Rightarrow>
          (case parse_subconf (m_option_check M_COMMAND_LINE) subopts param of (r, lst) \<Rightarrow>
             if r < 0 then Some (r, c) else set_suboptions (\<lambda>name val. m_config_parse_option k name val st') (cn_name co) lst r c)
      | _ \<Rightarrow> (case m_option_parse (cn_opt co) param (cf_mode c) of (r, v) \<Rightarrow>
             if st' then do { c \<leftarrow> store_parsed co v c; Some (r, c) } else Some (r, c))"
    have slots: "has_child (cn_opt co) \<or> (\<exists>a s. cn_slots co = Some a \<and> cf_slots c a = Some s)" using Suc.prems(1) co by (auto simp: have_slots_def)
    have "\<exists>r c'. ?body = Some (r, c') \<and> shape c' = shape c"
    proof (cases "has_child (cn_opt co)")
      case True
      then obtain subopts where ty: "mo_type (cn_opt co) = TYPE_SUBCONFIG subopts" by (auto simp: has_child_def split: opt_type.splits)
      have len: "length (cn_name co) = length arg" "length arg \<le> longest_name c"
        using name_fits_length [OF True i(2)] longest_name_ge [OF co] by simp_all
      have "\<exists>r c''. m_config_parse_option k (cn_name co @ '':'' @ sub) val st' c' = Some (r, c'') \<and> shape c'' = shape c'" if "shape c' = shape c" for sub val c'
      proof (rule Suc.IH)
        show "have_slots c'" using have_slots_shape [OF that] Suc.prems(1) by simp
        show "1 \<le> k" "longest_name c' + 2 \<le> k + length (cn_name co @ '':'' @ sub)" using longest_name_shape [OF that] Suc.prems(3) len by simp_all
      qed
      then have "\<exists>r' c'. set_suboptions (\<lambda>name val. m_config_parse_option k name val st') (cn_name co) lst r c = Some (r', c') \<and> shape c' = shape c" for lst r
        by (rule set_suboptions_shape)
      then show ?thesis by (simp add: ty split: prod.split)
    next
      case False
      obtain r v where p: "m_option_parse (cn_opt co) param (cf_mode c) = (r, v)" by (cases "m_option_parse (cn_opt co) param (cf_mode c)") auto
      have "(case mo_type (cn_opt co) of TYPE_SUBCONFIG subopts \<Rightarrow> f subopts | _ \<Rightarrow> g) = g" for f and g :: "(int \<times> m_config) option"
        using False by (simp add: has_child_def split: opt_type.splits)
      then show ?thesis using slots False store_parsed_shape [of co _ c _ v] p by fastforce
    qed
    then obtain r c1 where body: "?body = Some (r, c1)" "shape c1 = shape c" by blast
    have "has_child (cn_opt co) \<or> (\<exists>a s. cn_slots co = Some a \<and> cf_slots c1 a = Some s)"
      using slots body(2) by (auto simp: shape_def dom_def)
    then obtain c2 where c2: "apply_slot co c1 = Some c2" "shape c2 = shape c1" using apply_slot_shape by blast
    have "m_config_parse_option (Suc k) arg param st c = (if forbidden (cf_mode c) (cn_opt co) then Some (M_OPT_INVALID, c)
      else do { (r, c) \<leftarrow> ?body; if r < 0 \<or> \<not> st' then Some (r, c) else do {
        c \<leftarrow> apply_slot co c; Some (r, c\<lparr>cf_opts := (cf_opts c)[i := (cf_opts c ! i)\<lparr>cn_set := True\<rparr>]\<rparr>) } })"
      unfolding m_config_parse_option.simps Some by (simp only: option.case Let_def co_def st'_def)
    then show ?thesis using body(2) c2 set_flag_shape [of c2 i] unfolding body(1) by auto
  qed simp
qed simp



text \<open>Checking an option changes nothing.\<close>

lemma suboptions_unchanged:
  assumes "\<And>name val c r c'. parse name val c = Some (r, c') \<Longrightarrow> c' = c"
  shows "set_suboptions parse name lst r c = Some (r', c') \<Longrightarrow> c' = c"
proof (induction lst arbitrary: r c)
  case (Cons p lst)
  obtain sub val where p: "p = (sub, val)" by (cases p)
  show ?case
  proof (cases "r < 0")
    case False
    obtain sr c1 where "parse (name @ '':'' @ sub) val c = Some (sr, c1)" using Cons.prems False by (auto simp: p split: bind_splits)
    moreover from this have "c1 = c" by (rule assms)
    ultimately show ?thesis using Cons.prems Cons.IH False by (simp add: p)
  qed (use Cons in \<open>simp add: p\<close>)
qed simp

theorem check_unchanged: "m_config_parse_option k arg param False c = Some (r, c') \<Longrightarrow> c' = c"
proof (induction k arbitrary: arg param r c c')
  case (Suc k)
  then show ?case
    by (auto simp: Let_def split: option.splits if_splits opt_type.splits prod.splits bind_splits elim!: suboptions_unchanged [rotated] Suc.IH)
qed simp

end
