(* ===== verification/ParserCfg.thy ===== *)
theory ParserCfg
  imports ConfigReg
begin

text \<open>
  Configuration files, parser-cfg.c: lines with options, comments and sections that name profiles. The files are those of the
  system; characters are classified as in the C locale. An option that includes another file has a function as its type and is
  not modelled, so the depth of inclusion is a parameter.
\<close>

section \<open>Reading lines\<close>

definition MAX_RECURSION_DEPTH :: int where "MAX_RECURSION_DEPTH = 8"
definition MAX_LINE_LEN :: nat where "MAX_LINE_LEN = 10000"
definition MAX_OPT_LEN :: nat where "MAX_OPT_LEN = 1000"
definition MAX_PARAM_LEN :: nat where "MAX_PARAM_LEN = 1500"

definition newline :: char where "newline = CHR 0x0A"
definition nul :: char where "nul = CHR 0x00"
definition quote :: char where "quote = CHR 0x22"

definition is_print :: "char \<Rightarrow> bool" where
  "is_print c \<longleftrightarrow> CHR '' '' \<le> c \<and> c \<le> CHR ''~''"

text \<open>\<open>fgets\<close> with a size: the characters it stores, to the end of the line at most, and what is left of the file.\<close>

definition line_end :: "string \<Rightarrow> nat" where
  "line_end s = (case strchr newline s of None \<Rightarrow> length s | Some k \<Rightarrow> k + 1)"

definition fgets :: "nat \<Rightarrow> string \<Rightarrow> (string \<times> string) option" where
  "fgets len s = (if s = [] then None else let n = min (len - 1) (line_end s) in Some (take n s, drop n s))"

text \<open>The memory of \<open>line\<close> after \<open>fgets\<close>: behind the terminating zero byte is what was there before.\<close>

definition store_line :: "string \<Rightarrow> string \<Rightarrow> string" where
  "store_line l mem = l @ nul # drop (length l + 1) mem"

section \<open>The parts of a line\<close>

datatype config_line = LINE_BLANK | LINE_BAD | LINE_SECTION string | LINE_SET string string bool

text \<open>The result is \<open>None\<close> when characters behind the memory of \<open>line\<close> are read.\<close>

fun skip_space :: "string \<Rightarrow> string option" where
  "skip_space [] = None"
| "skip_space (c # s) = (if is_space c then skip_space s else Some (c # s))"

definition opt_char :: "char \<Rightarrow> bool" where
  "opt_char c \<longleftrightarrow> is_print c \<and> c \<noteq> CHR '' '' \<and> c \<noteq> CHR ''#'' \<and> c \<noteq> CHR ''=''"

definition param_char :: "char \<Rightarrow> bool" where
  "param_char c \<longleftrightarrow> is_print c \<and> \<not> is_space c \<and> c \<noteq> CHR ''#''"

text \<open>The characters up to the first one that does not belong, and the rest; no characters when there are too many.\<close>

definition read_word :: "nat \<Rightarrow> (char \<Rightarrow> bool) \<Rightarrow> string \<Rightarrow> (string \<times> string) option option" where
  "read_word limit P s = (let w = takeWhile P s; r = dropWhile P s
     in if limit \<le> length w then Some None else if r = [] then None else Some (Some (w, r)))"

definition read_param :: "string \<Rightarrow> (string \<times> string) option option" where
  "read_param s = (case s of [] \<Rightarrow> None
     | c # q \<Rightarrow> if c = quote \<or> c = CHR 0x27
         then map_option (map_option (\<lambda>(w, r). (w, tl r))) (read_word MAX_PARAM_LEN (\<lambda>d. d \<noteq> c) q)
         else read_word MAX_PARAM_LEN param_char s)"

definition parse_setting :: "string \<Rightarrow> string \<Rightarrow> config_line option" where
  "parse_setting opt s = do {
     s \<leftarrow> skip_space s;
     if hd s \<noteq> CHR ''='' then Some LINE_BAD else do {
       s \<leftarrow> skip_space (tl s);
       w \<leftarrow> read_param s;
       (case w of None \<Rightarrow> Some LINE_BAD
        | Some (param, s) \<Rightarrow>
            if param = [] then Some LINE_BAD else do {
              s \<leftarrow> skip_space s;
              Some (LINE_SET opt (c_str param) (hd s \<noteq> nul \<and> hd s \<noteq> CHR ''#''))
            })
     }
   }"

definition parse_line :: "string \<Rightarrow> config_line option" where
  "parse_line line = do {
     s \<leftarrow> skip_space line;
     if hd s = nul \<or> hd s = CHR ''#'' then Some LINE_BLANK else do {
       w \<leftarrow> read_word MAX_OPT_LEN opt_char s;
       (case w of None \<Rightarrow> Some LINE_BAD
        | Some (opt, s) \<Rightarrow>
            if opt = [] then Some LINE_BAD
            else if 2 < length opt \<and> hd opt = CHR ''['' \<and> last opt = CHR '']'' then Some (LINE_SECTION (butlast (tl opt)))
            else parse_setting opt s)
     }
   }"

section \<open>Reading a file\<close>

record cfg_state =
  cs_config :: m_config
  cs_profile :: "string option"
  cs_ret :: int
  cs_errors :: nat

definition cfg_error :: "cfg_state \<Rightarrow> cfg_state" where
  "cfg_error st = st\<lparr>cs_ret := - 1, cs_errors := cs_errors st + 1\<rparr>"

definition cfg_set :: "string \<Rightarrow> string \<Rightarrow> cfg_state \<Rightarrow> cfg_state option" where
  "cfg_set opt param st = do {
     (tmp, c) \<leftarrow> (case cs_profile st of
         Some p \<Rightarrow> if opt = ''profile-desc'' then Some (1, m_profile_set_desc p (Some param) (cs_config st))
           else m_config_set_profile_option p opt (Some param) (cs_config st)
       | None \<Rightarrow> m_config_set_option opt (Some param) (cs_config st));
     let st = st\<lparr>cs_config := c\<rparr>
     in Some (if tmp < 0 \<and> tmp \<noteq> M_OPT_UNKNOWN then cfg_error st else st)
   }"

definition cfg_line :: "config_line \<Rightarrow> cfg_state \<Rightarrow> cfg_state option" where
  "cfg_line l st = (case l of
       LINE_BLANK \<Rightarrow> Some st
     | LINE_BAD \<Rightarrow> Some (cfg_error st)
     | LINE_SECTION name \<Rightarrow>
         Some (if name = ''default'' then st\<lparr>cs_profile := None\<rparr>
               else st\<lparr>cs_config := m_config_add_profile (cs_config st) name, cs_profile := Some name\<rparr>)
     | LINE_SET opt param extra \<Rightarrow> cfg_set opt param (if extra then st\<lparr>cs_ret := - 1\<rparr> else st))"

lemma fgets_shorter: "fgets (Suc (Suc n)) s = Some (l, r) \<Longrightarrow> length r < length s"
  by (auto simp: fgets_def line_end_def Let_def split: if_splits option.splits)

function parse_lines :: "string \<Rightarrow> string \<Rightarrow> cfg_state \<Rightarrow> cfg_state option" where
  "parse_lines mem s st = (case fgets MAX_LINE_LEN s of
       None \<Rightarrow> Some st
     | Some (l, rest) \<Rightarrow>
         if 16 \<le> cs_errors st then Some st else do {
           let mem = store_line l mem;
           i \<leftarrow> parse_line mem;
           st \<leftarrow> cfg_line i st;
           parse_lines mem rest st
         })"
  by pat_completeness auto
termination
  by (relation "measure (\<lambda>(mem, s, st). length s)") (auto simp: MAX_LINE_LEN_def eval_nat_numeral dest: fgets_shorter)

declare parse_lines.simps [simp del]

text \<open>\<open>mem\<close> is what \<open>malloc\<close> returns for \<open>line\<close>.\<close>

definition m_config_parse_config_file :: "(string \<Rightarrow> string option) \<Rightarrow> string \<Rightarrow> int \<Rightarrow> string \<Rightarrow> bool \<Rightarrow> m_config \<Rightarrow> (int \<times> m_config) option" where
  "m_config_parse_config_file fopen mem recursion_depth conffile silent c =
     (if MAX_RECURSION_DEPTH < recursion_depth + 1 then Some (- 1, c)
      else case fopen conffile of
        None \<Rightarrow> Some (if silent then 0 else - 1, c)
      | Some text \<Rightarrow> do {
          st \<leftarrow> parse_lines mem text \<lparr>cs_config = c\<lparr>cf_mode := M_CONFIG_FILE\<rparr>, cs_profile = None, cs_ret = 1, cs_errors = 0\<rparr>;
          Some (cs_ret st, (cs_config st)\<lparr>cf_mode := cf_mode c\<rparr>)
        })"

section \<open>Options that are handled before the others\<close>

text \<open>The arguments behind the program's name.\<close>

function preparse_args :: "string list \<Rightarrow> int \<Rightarrow> m_config \<Rightarrow> (int \<times> m_config) option" where
  "preparse_args [] ret c = Some (ret, c)"
| "preparse_args (arg # args) ret c =
     (if arg = [] \<or> hd arg \<noteq> CHR ''-'' \<or> tl arg = [] then preparse_args args ret c
      else if tl arg = ''-'' then Some (ret, c)
      else case m_config_get_option c (tl arg) of
        None \<Rightarrow> preparse_args args ret c
      | Some opt \<Rightarrow> do {
          (r, c) \<leftarrow> m_config_set_option (tl arg) (case args of [] \<Rightarrow> None | a # _ \<Rightarrow> Some a) c;
          (if r < 0 then preparse_args args r c else preparse_args (drop (nat r) args) ret c)
        })"
  by pat_completeness auto
termination by (relation "measure (\<lambda>(args, ret, c). length args)") auto

definition m_config_preparse_command_line :: "string list \<Rightarrow> m_config \<Rightarrow> (int \<times> m_config) option" where
  "m_config_preparse_command_line args c = preparse_args args 0 (c\<lparr>cf_mode := M_COMMAND_LINE_PRE_PARSE\<rparr>)"

section \<open>Files that are written from settings\<close>

datatype cfg_item = COMMENT string | SECTION string | SETTING string string

definition item_text :: "cfg_item \<Rightarrow> string" where
  "item_text i = (case i of COMMENT t \<Rightarrow> CHR ''#'' # t | SECTION n \<Rightarrow> CHR ''['' # n @ [CHR '']'']
     | SETTING opt v \<Rightarrow> opt @ CHR ''='' # quote # v @ [quote]) @ [newline]"

definition opt_name :: "string \<Rightarrow> bool" where
  "opt_name n \<longleftrightarrow> n \<noteq> [] \<and> list_all opt_char n \<and> length n < MAX_OPT_LEN \<and> \<not> (2 < length n \<and> hd n = CHR ''['' \<and> last n = CHR '']'')"

definition quotable :: "string \<Rightarrow> bool" where
  "quotable v \<longleftrightarrow> v \<noteq> [] \<and> quote \<notin> set v \<and> newline \<notin> set v \<and> nul \<notin> set v \<and> length v < MAX_PARAM_LEN"

definition item_ok :: "cfg_item \<Rightarrow> bool" where
  "item_ok i \<longleftrightarrow> (case i of COMMENT t \<Rightarrow> newline \<notin> set t \<and> length t < MAX_LINE_LEN - 2
     | SECTION n \<Rightarrow> n \<noteq> [] \<and> list_all opt_char n \<and> length n < MAX_OPT_LEN - 2
     | SETTING opt v \<Rightarrow> opt_name opt \<and> quotable v)"

definition item_line :: "cfg_item \<Rightarrow> config_line" where
  "item_line i = (case i of COMMENT t \<Rightarrow> LINE_BLANK | SECTION n \<Rightarrow> LINE_SECTION n | SETTING opt v \<Rightarrow> LINE_SET opt v False)"

text \<open>What the items ask for, until there are too many errors.\<close>

fun exec_items :: "cfg_item list \<Rightarrow> cfg_state \<Rightarrow> cfg_state option" where
  "exec_items [] st = Some st"
| "exec_items (i # is) st = (if 16 \<le> cs_errors st then Some st else do { st \<leftarrow> cfg_line (item_line i) st; exec_items is st })"

lemma skip_space_start: "\<not> is_space c \<Longrightarrow> skip_space (c # s) = Some (c # s)"
  by simp

lemma char_facts: "\<not> is_space quote" "\<not> is_space nul" "\<not> is_space (CHR ''#'')" "\<not> is_space (CHR ''='')" "\<not> is_space (CHR ''['')" "is_space newline"
  "\<not> opt_char newline" "\<not> opt_char nul" "\<not> opt_char (CHR ''='')" "opt_char (CHR ''['')" "opt_char (CHR '']'')"
  by (simp_all add: is_space_def opt_char_def is_print_def quote_def nul_def newline_def char_le_code) (simp_all add: char_code_def)

lemma opt_char_start: "opt_char c \<Longrightarrow> \<not> is_space c \<and> c \<noteq> nul \<and> c \<noteq> CHR ''#'' \<and> c \<noteq> CHR ''=''"
  by (auto simp: opt_char_def is_space_def is_print_def nul_def char_le_code) (auto simp: char_code_def)

lemma read_word_end:
  "list_all P w \<Longrightarrow> length w < limit \<Longrightarrow> \<not> P c \<Longrightarrow> read_word limit P (w @ c # r) = Some (Some (w, c # r))"
  by (induction w) (auto simp: read_word_def takeWhile_append dropWhile_append list_all_iff Let_def)

lemma read_quoted:
  assumes "quote \<notin> set w"
  shows "read_param (quote # w @ quote # r) = Some (if length w < MAX_PARAM_LEN then Some (w, r) else None)"
proof -
  have "takeWhile (\<lambda>d. d \<noteq> quote) (w @ quote # r) = w" "dropWhile (\<lambda>d. d \<noteq> quote) (w @ quote # r) = quote # r"
    using assms by (auto simp: takeWhile_tail dropWhile_append3 takeWhile_append2 dropWhile_append2)
  then show ?thesis by (simp add: read_param_def read_word_def Let_def)
qed

lemma parse_line_setting:
  assumes "opt_name opt"
  shows "parse_line (opt @ CHR ''='' # quote # s) = do {
    w \<leftarrow> read_param (quote # s);
    (case w of None \<Rightarrow> Some LINE_BAD
     | Some (param, s) \<Rightarrow>
         if param = [] then Some LINE_BAD else do {
           s \<leftarrow> skip_space s;
           Some (LINE_SET opt (c_str param) (hd s \<noteq> nul \<and> hd s \<noteq> CHR ''#''))
         })
  }"
proof -
  obtain c cs where opt: "opt = c # cs" using assms by (cases opt) (auto simp: opt_name_def)
  have c: "\<not> is_space c" "c \<noteq> nul" "c \<noteq> CHR ''#''" using opt_char_start [of c] assms by (simp_all add: opt_name_def opt)
  have "read_word MAX_OPT_LEN opt_char (opt @ CHR ''='' # quote # s) = Some (Some (opt, CHR ''='' # quote # s))"
    using assms char_facts by (intro read_word_end) (simp_all add: opt_name_def)
  then have "parse_line (opt @ CHR ''='' # quote # s) = parse_setting opt (CHR ''='' # quote # s)"
    using assms c by (auto simp: parse_line_def opt opt_name_def)
  also have "\<dots> = do {
    w \<leftarrow> read_param (quote # s);
    (case w of None \<Rightarrow> Some LINE_BAD
     | Some (param, s) \<Rightarrow>
         if param = [] then Some LINE_BAD else do {
           s \<leftarrow> skip_space s;
           Some (LINE_SET opt (c_str param) (hd s \<noteq> nul \<and> hd s \<noteq> CHR ''#''))
         })
  }" by (simp add: parse_setting_def char_facts)
  finally show ?thesis .
qed

lemma parse_item:
  assumes "item_ok i"
  shows "parse_line (item_text i @ nul # junk) = Some (item_line i)"
proof (cases i)
  case (COMMENT t)
  then show ?thesis by (simp add: item_text_def item_line_def parse_line_def char_facts)
next
  case (SECTION n)
  have "list_all opt_char (CHR ''['' # n @ [CHR '']''])" "length (CHR ''['' # n @ [CHR '']'']) < MAX_OPT_LEN"
    using assms char_facts by (auto simp: SECTION item_ok_def)
  from read_word_end [OF this char_facts(7), of "nul # junk"] have
    "read_word MAX_OPT_LEN opt_char (CHR ''['' # n @ CHR '']'' # newline # nul # junk) = Some (Some (CHR ''['' # n @ [CHR '']''], newline # nul # junk))"
    by simp
  moreover have "n \<noteq> []" using assms by (simp add: SECTION item_ok_def)
  ultimately show ?thesis by (simp add: SECTION item_text_def item_line_def parse_line_def char_facts nul_def)
next
  case (SETTING opt v)
  have ok: "opt_name opt" "quotable v" using assms by (simp_all add: SETTING item_ok_def)
  then have "c_str v = v" by (intro c_str_id) (auto simp: quotable_def no_nul_def nul_def)
  then show ?thesis
    using parse_line_setting [OF ok(1), of "v @ quote # newline # nul # junk"] read_quoted [of v "newline # nul # junk"] ok(2)
    by (simp add: SETTING item_text_def item_line_def char_facts quotable_def)
qed

lemma fgets_item:
  assumes "item_ok i"
  shows "fgets MAX_LINE_LEN (item_text i @ rest) = Some (item_text i, rest)"
proof -
  obtain t where t: "item_text i = t @ [newline]" "newline \<notin> set t" "length t + 2 \<le> MAX_LINE_LEN"
  proof (cases i)
    case (COMMENT t)
    then show ?thesis using assms that [of "CHR ''#'' # t"] by (simp add: item_text_def item_ok_def newline_def MAX_LINE_LEN_def)
  next
    case (SECTION n)
    have "newline \<notin> set n" using assms char_facts by (auto simp: SECTION item_ok_def list_all_iff)
    then show ?thesis using assms that [of "CHR ''['' # n @ [CHR '']'']"]
      by (simp add: SECTION item_text_def item_ok_def newline_def MAX_OPT_LEN_def MAX_LINE_LEN_def)
  next
    case (SETTING opt v)
    have "newline \<notin> set opt" using assms char_facts by (auto simp: SETTING item_ok_def opt_name_def list_all_iff)
    then show ?thesis using assms that [of "opt @ CHR ''='' # quote # v @ [quote]"]
      by (auto simp: SETTING item_text_def item_ok_def opt_name_def quotable_def newline_def quote_def MAX_OPT_LEN_def MAX_LINE_LEN_def MAX_PARAM_LEN_def)
  qed
  then have "line_end (item_text i @ rest) = length (item_text i)" using strchr_first [of newline t rest] by (simp add: line_end_def)
  then show ?thesis using t by (simp add: fgets_def Let_def)
qed

lemma parse_lines_items:
  "list_all item_ok is \<Longrightarrow> parse_lines mem (concat (map item_text is)) st = exec_items is st"
proof (induction "is" arbitrary: mem st)
  case Nil
  then show ?case by (simp add: parse_lines.simps fgets_def)
next
  case (Cons i "is")
  have "parse_line (store_line (item_text i) mem) = Some (item_line i)" using parse_item Cons.prems by (simp add: store_line_def)
  moreover have "parse_lines mem' (concat (map item_text is)) = exec_items is" for mem' using Cons by auto
  ultimately show ?case using Cons.prems fgets_item [of i] by (simp add: parse_lines.simps [of mem] Let_def)
qed


lemma read_missing_quote:
  assumes "opt_name opt" "quotable v" "quote \<notin> set j"
  shows "length v + length j + 2 < MAX_PARAM_LEN \<longrightarrow>
      parse_line (opt @ CHR ''='' # quote # v @ newline # nul # j @ quote # nul # r) = Some (LINE_SET opt (v @ [newline]) False)"
    "MAX_PARAM_LEN \<le> length v + length j + 2 \<longrightarrow> parse_line (opt @ CHR ''='' # quote # v @ newline # nul # j) = Some LINE_BAD"
    "length v + length j + 2 < MAX_PARAM_LEN \<longrightarrow> parse_line (opt @ CHR ''='' # quote # v @ newline # nul # j) = None"
proof -
  let ?w = "v @ newline # nul # j"
  have w: "quote \<notin> set ?w" using assms(2,3) by (auto simp: quotable_def quote_def newline_def nul_def)
  have "c_str ?w = v @ [newline]" using assms(2)
    by (auto simp: c_str_def quotable_def nul_def newline_def takeWhile_append)
  then show "length v + length j + 2 < MAX_PARAM_LEN \<longrightarrow>
      parse_line (opt @ CHR ''='' # quote # v @ newline # nul # j @ quote # nul # r) = Some (LINE_SET opt (v @ [newline]) False)"
    using parse_line_setting [OF assms(1), of "?w @ quote # nul # r"] read_quoted [OF w, of "nul # r"] by (simp add: char_facts)
  have "takeWhile (\<lambda>d. d \<noteq> quote) ?w = ?w" "dropWhile (\<lambda>d. d \<noteq> quote) ?w = []" using w by (auto simp: takeWhile_eq_all_conv dropWhile_eq_Nil_conv)
  then have "read_word MAX_PARAM_LEN (\<lambda>d. d \<noteq> quote) ?w = (if MAX_PARAM_LEN \<le> length ?w then Some None else None)"
    unfolding read_word_def Let_def by (simp only: if_True if_False refl)
  then have r: "read_param (quote # ?w) = (if MAX_PARAM_LEN \<le> length v + length j + 2 then Some None else None)"
    by (simp add: read_param_def)
  show "MAX_PARAM_LEN \<le> length v + length j + 2 \<longrightarrow> parse_line (opt @ CHR ''='' # quote # v @ newline # nul # j) = Some LINE_BAD"
    "length v + length j + 2 < MAX_PARAM_LEN \<longrightarrow> parse_line (opt @ CHR ''='' # quote # v @ newline # nul # j) = None"
    using parse_line_setting [OF assms(1), of ?w] r by simp_all
qed




end
