(* ===== verification/PlayTree.thy ===== *)
theory PlayTree
  imports CString "HOL-Library.Monad_Syntax"
begin

text \<open>
  The tree of files to play, playtree.c: nodes linked by pointers to their parent, first child and siblings, with the
  operations that build, change and free it. The heap maps the addresses of the nodes that exist to their contents; using
  any other pointer gives \<open>None\<close>.
\<close>

unbundle bit_operations_syntax

section \<open>Nodes\<close>

datatype entry_type = PLAY_TREE_ENTRY_NODE | PLAY_TREE_ENTRY_DVD | PLAY_TREE_ENTRY_VCD | PLAY_TREE_ENTRY_TV | PLAY_TREE_ENTRY_FILE

definition PLAY_TREE_RND :: "32 word" where "PLAY_TREE_RND = 1"
definition PLAY_TREE_RND_PLAYED :: "32 word" where "PLAY_TREE_RND_PLAYED = push_bit 8 1"

text \<open>The null pointers of \<open>params\<close> and \<open>files\<close> are the empty lists: the operations never leave an array without elements.\<close>

record play_tree =
  pt_parent :: "nat option"
  pt_child :: "nat option"
  pt_next :: "nat option"
  pt_prev :: "nat option"
  pt_params :: "(string \<times> string option) list"
  pt_loop :: int
  pt_files :: "string list"
  pt_entry_type :: entry_type
  pt_flags :: "32 word"

type_synonym pt_heap = "nat \<Rightarrow> play_tree option"

definition pt_upd :: "nat \<Rightarrow> (play_tree \<Rightarrow> play_tree) \<Rightarrow> pt_heap \<Rightarrow> pt_heap option" where
  "pt_upd a f h = map_option (\<lambda>n. h(a \<mapsto> f n)) (h a)"

text \<open>\<open>a\<close> is the address that \<open>calloc\<close> returned.\<close>

definition play_tree_new :: "nat \<Rightarrow> pt_heap \<Rightarrow> pt_heap" where
  "play_tree_new a h = h(a \<mapsto> \<lparr>pt_parent = None, pt_child = None, pt_next = None, pt_prev = None, pt_params = [],
     pt_loop = 0, pt_files = [], pt_entry_type = PLAY_TREE_ENTRY_NODE, pt_flags = 0\<rparr>)"

section \<open>Linking\<close>

text \<open>The loops that go to the end and to the beginning of a list.\<close>

partial_function (option) last_entry :: "pt_heap \<Rightarrow> nat \<Rightarrow> nat option" where
  "last_entry h p = do { n \<leftarrow> h p; (case pt_next n of None \<Rightarrow> Some p | Some q \<Rightarrow> last_entry h q) }"

partial_function (option) first_entry :: "pt_heap \<Rightarrow> nat \<Rightarrow> nat option" where
  "first_entry h p = do { n \<leftarrow> h p; (case pt_prev n of None \<Rightarrow> Some p | Some q \<Rightarrow> first_entry h q) }"

definition play_tree_append_entry :: "nat \<Rightarrow> nat \<Rightarrow> pt_heap \<Rightarrow> pt_heap option" where
  "play_tree_append_entry pt entry h =
     (if pt = entry then Some h else do {
        iter \<leftarrow> last_entry h pt;
        n \<leftarrow> h iter;
        h \<leftarrow> pt_upd entry (\<lambda>e. e\<lparr>pt_parent := pt_parent n, pt_prev := Some iter, pt_next := None\<rparr>) h;
        pt_upd iter (\<lambda>n. n\<lparr>pt_next := Some entry\<rparr>) h
      })"

definition play_tree_prepend_entry :: "nat \<Rightarrow> nat \<Rightarrow> pt_heap \<Rightarrow> pt_heap option" where
  "play_tree_prepend_entry pt entry h = do {
     iter \<leftarrow> first_entry h pt;
     h \<leftarrow> pt_upd entry (\<lambda>e. e\<lparr>pt_prev := None, pt_next := Some iter\<rparr>) h;
     n \<leftarrow> h iter;
     h \<leftarrow> pt_upd entry (\<lambda>e. e\<lparr>pt_parent := pt_parent n\<rparr>) h;
     h \<leftarrow> pt_upd iter (\<lambda>n. n\<lparr>pt_prev := Some entry\<rparr>) h;
     e \<leftarrow> h entry;
     (case pt_parent e of None \<Rightarrow> Some h | Some p \<Rightarrow> pt_upd p (\<lambda>n. n\<lparr>pt_child := Some entry\<rparr>) h)
   }"

definition play_tree_insert_entry :: "nat \<Rightarrow> nat \<Rightarrow> pt_heap \<Rightarrow> pt_heap option" where
  "play_tree_insert_entry pt entry h = do {
     n \<leftarrow> h pt;
     h \<leftarrow> pt_upd entry (\<lambda>e. e\<lparr>pt_parent := pt_parent n, pt_prev := Some pt\<rparr>) h;
     n \<leftarrow> h pt;
     h \<leftarrow> (case pt_next n of
         None \<Rightarrow> pt_upd entry (\<lambda>e. e\<lparr>pt_next := None\<rparr>) h
       | Some q \<Rightarrow> do {
           h \<leftarrow> pt_upd entry (\<lambda>e. e\<lparr>pt_next := Some q\<rparr>) h;
           pt_upd q (\<lambda>m. m\<lparr>pt_prev := Some entry\<rparr>) h
         });
     pt_upd pt (\<lambda>n. n\<lparr>pt_next := Some entry\<rparr>) h
   }"

text \<open>\<open>play_tree_remove\<close> up to the call of \<open>play_tree_free\<close>.\<close>

definition play_tree_unlink :: "nat \<Rightarrow> pt_heap \<Rightarrow> pt_heap option" where
  "play_tree_unlink pt h = do {
     n \<leftarrow> h pt;
     h \<leftarrow> (case (pt_prev n, pt_next n) of
         (Some p, Some q) \<Rightarrow> do { h \<leftarrow> pt_upd p (\<lambda>m. m\<lparr>pt_next := Some q\<rparr>) h; pt_upd q (\<lambda>m. m\<lparr>pt_prev := Some p\<rparr>) h }
       | (Some p, None) \<Rightarrow> pt_upd p (\<lambda>m. m\<lparr>pt_next := None\<rparr>) h
       | (None, Some q) \<Rightarrow> do {
           h \<leftarrow> pt_upd q (\<lambda>m. m\<lparr>pt_prev := None\<rparr>) h;
           (case pt_parent n of None \<Rightarrow> Some h | Some r \<Rightarrow> pt_upd r (\<lambda>m. m\<lparr>pt_child := Some q\<rparr>) h)
         }
       | (None, None) \<Rightarrow> (case pt_parent n of None \<Rightarrow> Some h | Some r \<Rightarrow> pt_upd r (\<lambda>m. m\<lparr>pt_child := None\<rparr>) h));
     pt_upd pt (\<lambda>n. n\<lparr>pt_prev := None, pt_next := None, pt_parent := None\<rparr>) h
   }"

text \<open>\<open>for( ; iter != NULL ; iter = iter->next) iter->parent = par;\<close> and the same loop over \<open>prev\<close>.\<close>

partial_function (option) set_parents :: "nat option \<Rightarrow> nat option \<Rightarrow> pt_heap \<Rightarrow> pt_heap option" where
  "set_parents par iter h = (case iter of None \<Rightarrow> Some h
     | Some p \<Rightarrow> do { h \<leftarrow> pt_upd p (\<lambda>n. n\<lparr>pt_parent := par\<rparr>) h; n \<leftarrow> h p; set_parents par (pt_next n) h })"

partial_function (option) set_parents_back :: "nat option \<Rightarrow> nat \<Rightarrow> pt_heap \<Rightarrow> (nat \<times> pt_heap) option" where
  "set_parents_back par iter h = do {
     h \<leftarrow> pt_upd iter (\<lambda>n. n\<lparr>pt_parent := par\<rparr>) h;
     n \<leftarrow> h iter;
     (case pt_prev n of None \<Rightarrow> Some (iter, h) | Some p \<Rightarrow> set_parents_back par p h)
   }"

definition play_tree_set_child :: "nat option \<Rightarrow> nat option \<Rightarrow> pt_heap \<Rightarrow> pt_heap option" where
  "play_tree_set_child pt child h = (case (pt, child) of
       (Some pt, Some child) \<Rightarrow> do {
         n \<leftarrow> h pt;
         h \<leftarrow> set_parents None (pt_child n) h;
         iter \<leftarrow> first_entry h child;
         h \<leftarrow> pt_upd pt (\<lambda>n. n\<lparr>pt_child := Some iter\<rparr>) h;
         set_parents (Some pt) (Some iter) h
       }
     | _ \<Rightarrow> Some h)"

definition play_tree_set_parent :: "nat \<Rightarrow> nat \<Rightarrow> pt_heap \<Rightarrow> pt_heap option" where
  "play_tree_set_parent pt parent h = do {
     n \<leftarrow> h pt;
     h \<leftarrow> (case pt_parent n of None \<Rightarrow> Some h | Some r \<Rightarrow> pt_upd r (\<lambda>m. m\<lparr>pt_child := None\<rparr>) h);
     h \<leftarrow> set_parents (Some parent) (Some pt) h;
     n \<leftarrow> h pt;
     (first, h) \<leftarrow> (case pt_prev n of None \<Rightarrow> Some (pt, h) | Some p \<Rightarrow> set_parents_back (Some parent) p h);
     pt_upd parent (\<lambda>m. m\<lparr>pt_child := Some first\<rparr>) h
   }"

section \<open>Freeing\<close>

text \<open>What \<open>play_tree_free\<close> does after it has freed the children: \<open>play_tree_remove(pt,0,0)\<close>, the parents of the children
  that are left, and \<open>free\<close>.\<close>

definition free_node :: "nat \<Rightarrow> pt_heap \<Rightarrow> pt_heap option" where
  "free_node pt h = do {
     h \<leftarrow> play_tree_unlink pt h;
     n \<leftarrow> h pt;
     h \<leftarrow> set_parents None (pt_child n) h;
     Some (h(pt := None))
   }"

text \<open>The loop over children, with the recursive call \<open>play_tree_free(iter,1)\<close> written out.\<close>

partial_function (option) free_children :: "nat option \<Rightarrow> pt_heap \<Rightarrow> pt_heap option" where
  "free_children iter h = (case iter of None \<Rightarrow> Some h
     | Some p \<Rightarrow> do {
         n \<leftarrow> h p;
         h \<leftarrow> free_children (pt_child n) h;
         h \<leftarrow> pt_upd p (\<lambda>n. n\<lparr>pt_child := None\<rparr>) h;
         h \<leftarrow> free_node p h;
         free_children (pt_next n) h
       })"

definition play_tree_free :: "nat option \<Rightarrow> bool \<Rightarrow> pt_heap \<Rightarrow> pt_heap option" where
  "play_tree_free pt children h = (case pt of None \<Rightarrow> Some h
     | Some pt \<Rightarrow> do {
         h \<leftarrow> (if children then do {
             n \<leftarrow> h pt;
             h \<leftarrow> free_children (pt_child n) h;
             pt_upd pt (\<lambda>n. n\<lparr>pt_child := None\<rparr>) h
           } else Some h);
         free_node pt h
       })"

definition play_tree_remove :: "nat \<Rightarrow> bool \<Rightarrow> bool \<Rightarrow> pt_heap \<Rightarrow> pt_heap option" where
  "play_tree_remove pt free_it with_children h = do {
     h \<leftarrow> play_tree_unlink pt h;
     if free_it then play_tree_free (Some pt) with_children h else Some h
   }"

partial_function (option) free_list_from :: "bool \<Rightarrow> nat option \<Rightarrow> pt_heap \<Rightarrow> pt_heap option" where
  "free_list_from children iter h = (case iter of None \<Rightarrow> Some h
     | Some p \<Rightarrow> do { n \<leftarrow> h p; h \<leftarrow> play_tree_free (Some p) children h; free_list_from children (pt_next n) h })"

definition play_tree_free_list :: "nat \<Rightarrow> bool \<Rightarrow> pt_heap \<Rightarrow> pt_heap option" where
  "play_tree_free_list pt children h = do { iter \<leftarrow> first_entry h pt; free_list_from children (Some iter) h }"

section \<open>Files and parameters\<close>

definition play_tree_add_file :: "nat \<Rightarrow> string \<Rightarrow> pt_heap \<Rightarrow> pt_heap option" where
  "play_tree_add_file pt file h = do {
     n \<leftarrow> h pt;
     if pt_entry_type n \<noteq> PLAY_TREE_ENTRY_NODE \<and> pt_entry_type n \<noteq> PLAY_TREE_ENTRY_FILE then Some h
     else Some (h(pt \<mapsto> n\<lparr>pt_files := pt_files n @ [file], pt_entry_type := PLAY_TREE_ENTRY_FILE\<rparr>))
   }"

text \<open>The index of the last element with a property.\<close>

definition last_index :: "('a \<Rightarrow> bool) \<Rightarrow> 'a list \<Rightarrow> nat option" where
  "last_index P xs = (case filter (\<lambda>i. P (xs ! i)) [0..<length xs] of [] \<Rightarrow> None | is \<Rightarrow> Some (last is))"

definition remove_nth :: "nat \<Rightarrow> 'a list \<Rightarrow> 'a list" where
  "remove_nth i xs = take i xs @ drop (i + 1) xs"

text \<open>The array of files must exist.\<close>

definition play_tree_remove_file :: "nat \<Rightarrow> string \<Rightarrow> pt_heap \<Rightarrow> (bool \<times> pt_heap) option" where
  "play_tree_remove_file pt file h = do {
     n \<leftarrow> h pt;
     if pt_files n = [] then None else
     (case last_index (\<lambda>f. f = file) (pt_files n) of
        None \<Rightarrow> Some (False, h)
      | Some f \<Rightarrow> Some (True, h(pt \<mapsto> n\<lparr>pt_files := remove_nth f (pt_files n)\<rparr>)))
   }"

definition play_tree_set_param :: "nat \<Rightarrow> string \<Rightarrow> string option \<Rightarrow> pt_heap \<Rightarrow> pt_heap option" where
  "play_tree_set_param pt name val h = pt_upd pt (\<lambda>n. n\<lparr>pt_params := pt_params n @ [(name, val)]\<rparr>) h"

definition play_tree_unset_param :: "nat \<Rightarrow> string \<Rightarrow> pt_heap \<Rightarrow> (bool \<times> pt_heap) option" where
  "play_tree_unset_param pt name h = do {
     n \<leftarrow> h pt;
     if pt_params n = [] then None else
     (case last_index (\<lambda>(k, v). av_strcaseeq k name) (pt_params n) of
        None \<Rightarrow> Some (False, h)
      | Some i \<Rightarrow> Some (True, h(pt \<mapsto> n\<lparr>pt_params := remove_nth i (pt_params n)\<rparr>)))
   }"

partial_function (option) set_params_loop :: "nat \<Rightarrow> nat \<Rightarrow> nat \<Rightarrow> pt_heap \<Rightarrow> pt_heap option" where
  "set_params_loop i dest src h = do {
     n \<leftarrow> h src;
     (if i < length (pt_params n)
      then do { h \<leftarrow> play_tree_set_param dest (fst (pt_params n ! i)) (snd (pt_params n ! i)) h; set_params_loop (i + 1) dest src h }
      else Some h)
   }"

definition play_tree_set_params_from :: "nat \<Rightarrow> nat \<Rightarrow> pt_heap \<Rightarrow> pt_heap option" where
  "play_tree_set_params_from dest src h = do {
     n \<leftarrow> h src;
     if pt_params n = [] then Some h else do {
       h \<leftarrow> set_params_loop 0 dest src h;
       n \<leftarrow> h src;
       if pt_flags n AND PLAY_TREE_RND \<noteq> 0 then pt_upd dest (\<lambda>n. n\<lparr>pt_flags := pt_flags n OR PLAY_TREE_RND\<rparr>) h else Some h
     }
   }"

text \<open>\<open>play_tree_unset_flag\<close> for the entries of a list; a negative \<open>deep\<close> reaches all levels.\<close>

partial_function (option) unset_flag_list :: "32 word \<Rightarrow> int \<Rightarrow> nat option \<Rightarrow> pt_heap \<Rightarrow> pt_heap option" where
  "unset_flag_list flags deep iter h = (case iter of None \<Rightarrow> Some h
     | Some p \<Rightarrow> do {
         h \<leftarrow> pt_upd p (\<lambda>n. n\<lparr>pt_flags := pt_flags n AND NOT flags\<rparr>) h;
         n \<leftarrow> h p;
         h \<leftarrow> (if deep \<noteq> 0 then unset_flag_list flags (if deep > 0 then deep - 1 else deep) (pt_child n) h else Some h);
         n \<leftarrow> h p;
         unset_flag_list flags deep (pt_next n) h
       })"

definition play_tree_unset_flag :: "nat \<Rightarrow> 32 word \<Rightarrow> int \<Rightarrow> pt_heap \<Rightarrow> pt_heap option" where
  "play_tree_unset_flag pt flags deep h = do {
     h \<leftarrow> pt_upd pt (\<lambda>n. n\<lparr>pt_flags := pt_flags n AND NOT flags\<rparr>) h;
     n \<leftarrow> h pt;
     if deep \<noteq> 0 then unset_flag_list flags (if deep > 0 then deep - 1 else deep) (pt_child n) h else Some h
   }"

section \<open>Validity\<close>

text \<open>The loop over children with the recursive call: is one of the entries of the list valid?\<close>

partial_function (option) any_valid :: "pt_heap \<Rightarrow> nat option \<Rightarrow> bool option" where
  "any_valid h iter = (case iter of None \<Rightarrow> Some False
     | Some p \<Rightarrow> do {
         n \<leftarrow> h p;
         v \<leftarrow> (if pt_entry_type n \<noteq> PLAY_TREE_ENTRY_NODE then Some True else any_valid h (pt_child n));
         (if v then Some True else any_valid h (pt_next n))
       })"

definition play_tree_is_valid :: "pt_heap \<Rightarrow> nat \<Rightarrow> bool option" where
  "play_tree_is_valid h pt = do {
     n \<leftarrow> h pt;
     if pt_entry_type n \<noteq> PLAY_TREE_ENTRY_NODE then Some True else any_valid h (pt_child n)
   }"

text \<open>The first loop of \<open>play_tree_cleanup\<close> removes the invalid children, the second one cleans up those that are left.\<close>

partial_function (option) drop_invalid :: "nat option \<Rightarrow> nat option \<Rightarrow> pt_heap \<Rightarrow> (nat option \<times> pt_heap) option" where
  "drop_invalid iter first h = (case iter of None \<Rightarrow> Some (first, h)
     | Some tmp \<Rightarrow> do {
         n \<leftarrow> h tmp;
         v \<leftarrow> play_tree_is_valid h tmp;
         if v then drop_invalid (pt_next n) first h
         else do {
           h \<leftarrow> play_tree_remove tmp True True h;
           drop_invalid (pt_next n) (if Some tmp = first then pt_next n else first) h
         }
       })"

partial_function (option) cleanup_list :: "nat option \<Rightarrow> pt_heap \<Rightarrow> pt_heap option" where
  "cleanup_list iter h = (case iter of None \<Rightarrow> Some h
     | Some tmp \<Rightarrow> do {
         n \<leftarrow> h tmp;
         v \<leftarrow> play_tree_is_valid h tmp;
         h \<leftarrow> (if \<not> v then play_tree_remove tmp True True h
           else do { (first, h) \<leftarrow> drop_invalid (pt_child n) (pt_child n) h; cleanup_list first h });
         cleanup_list (pt_next n) h
       })"

definition play_tree_cleanup :: "nat \<Rightarrow> pt_heap \<Rightarrow> (nat option \<times> pt_heap) option" where
  "play_tree_cleanup pt h = do {
     v \<leftarrow> play_tree_is_valid h pt;
     if \<not> v then do { h \<leftarrow> play_tree_remove pt True True h; Some (None, h) }
     else do {
       n \<leftarrow> h pt;
       (first, h) \<leftarrow> drop_invalid (pt_child n) (pt_child n) h;
       h \<leftarrow> cleanup_list first h;
       Some (Some pt, h)
     }
   }"

text \<open>\<open>a\<close> is the address of the new entry.\<close>

definition pt_add_file :: "nat \<Rightarrow> nat option \<Rightarrow> string \<Rightarrow> pt_heap \<Rightarrow> (nat option \<times> pt_heap) option" where
  "pt_add_file a ppt filename h = (let h = play_tree_new a h in do {
     h \<leftarrow> play_tree_add_file a filename h;
     (case ppt of
        Some pt \<Rightarrow> do { h \<leftarrow> play_tree_append_entry pt a h; h \<leftarrow> play_tree_set_params_from a pt h; Some (Some pt, h) }
      | None \<Rightarrow> do { h \<leftarrow> play_tree_set_params_from a a h; Some (Some a, h) })
   })"

end
