(* ===== verification/ParserCmd.thy ===== *)
theory ParserCmd
  imports ConfigReg PlayTree
begin

text \<open>
  The command line, parser-mpcmd.c: options, files and groups in braces become a play tree and settings of the configuration.
  Reading a play list file is a parameter. New nodes get the next unused address. The arguments are those behind the program's
  name, and the part for the Finder of Mac OS X is left out.
\<close>

section \<open>State\<close>

definition M_OPT_EXIT :: int where "M_OPT_EXIT = - 6"

datatype cmd_mode = GLOBAL | LOCAL | DROP_LOCAL

text \<open>\<open>pc_parent\<close> and \<open>pc_entry\<close> are \<open>last_parent\<close> and \<open>last_entry\<close>.\<close>

record cmd_state =
  pc_config :: m_config
  pc_heap :: pt_heap
  pc_next :: nat
  pc_parent :: nat
  pc_entry :: "nat option"
  pc_mode :: cmd_mode
  pc_no_more :: bool
  pc_exit :: bool

type_synonym playlist_reader = "string \<Rightarrow> pt_heap \<Rightarrow> nat \<Rightarrow> (nat option \<times> pt_heap \<times> nat) option"

definition on_heap :: "(pt_heap \<Rightarrow> pt_heap option) \<Rightarrow> cmd_state \<Rightarrow> cmd_state option" where
  "on_heap f st = map_option (\<lambda>h. st\<lparr>pc_heap := h\<rparr>) (f (pc_heap st))"

definition new_node :: "cmd_state \<Rightarrow> nat \<times> cmd_state" where
  "new_node st = (pc_next st, st\<lparr>pc_heap := play_tree_new (pc_next st) (pc_heap st), pc_next := pc_next st + 1\<rparr>)"

definition flag_node :: "nat \<Rightarrow> (play_tree \<Rightarrow> play_tree) \<Rightarrow> cmd_state \<Rightarrow> cmd_state option" where
  "flag_node a f = on_heap (pt_upd a f)"

definition set_rnd :: "play_tree \<Rightarrow> play_tree" where
  "set_rnd n = n\<lparr>pt_flags := pt_flags n OR PLAY_TREE_RND\<rparr>"

definition clear_rnd :: "play_tree \<Rightarrow> play_tree" where
  "clear_rnd n = n\<lparr>pt_flags := pt_flags n AND NOT PLAY_TREE_RND\<rparr>"

definition is_rnd :: "play_tree \<Rightarrow> bool" where
  "is_rnd n \<longleftrightarrow> pt_flags n AND PLAY_TREE_RND \<noteq> 0"

section \<open>Entries\<close>

definition add_cmd_entry :: "nat \<Rightarrow> cmd_state \<Rightarrow> cmd_state option" where
  "add_cmd_entry entry st = do {
     st \<leftarrow> on_heap (case pc_entry st of
         None \<Rightarrow> play_tree_set_child (Some (pc_parent st)) (Some entry)
       | Some e \<Rightarrow> play_tree_append_entry e entry) st;
     Some (st\<lparr>pc_entry := Some entry\<rparr>)
   }"

text \<open>The code, and the entries of a play list.\<close>

definition is_entry_option :: "playlist_reader \<Rightarrow> string \<Rightarrow> string option \<Rightarrow> cmd_state \<Rightarrow> (int \<times> nat option \<times> cmd_state) option" where
  "is_entry_option read opt param st =
     (if \<not> av_strcaseeq opt ''playlist'' then Some (0, None, st)
      else case param of
        None \<Rightarrow> Some (M_OPT_MISSING_PARAM, None, st)
      | Some f \<Rightarrow> do {
          (entry, h, next) \<leftarrow> read f (pc_heap st) (pc_next st);
          Some (if entry = None then - 1 else 1, entry, st\<lparr>pc_heap := h, pc_next := next\<rparr>)
        })"

definition open_group :: "cmd_state \<Rightarrow> cmd_state option" where
  "open_group st = (case new_node st of (entry, st) \<Rightarrow> do {
     let st = st\<lparr>pc_mode := LOCAL\<rparr>;
     p \<leftarrow> pc_heap st (pc_parent st);
     st \<leftarrow> (if is_rnd p then flag_node entry set_rnd st else Some st);
     st \<leftarrow> on_heap (case pc_entry st of
         None \<Rightarrow> play_tree_set_child (Some (pc_parent st)) (Some entry)
       | Some e \<Rightarrow> play_tree_append_entry e entry) st;
     Some (st\<lparr>pc_entry := None, pc_parent := entry\<rparr>)
   })"

text \<open>Closing a group; no result state for a brace too much.\<close>

definition close_group :: "cmd_state \<Rightarrow> cmd_state option option" where
  "close_group st = do {
     p \<leftarrow> pc_heap st (pc_parent st);
     Some (case pt_parent p of None \<Rightarrow> None | Some q \<Rightarrow> Some (st\<lparr>pc_entry := Some (pc_parent st), pc_parent := q\<rparr>))
   }"

section \<open>Options\<close>

text \<open>Whether the last entry is a group.\<close>

definition last_group :: "cmd_state \<Rightarrow> nat option option" where
  "last_group st = (case pc_entry st of None \<Rightarrow> Some None | Some e \<Rightarrow> do { n \<leftarrow> pc_heap st e; Some (if pt_child n = None then None else Some e) })"

definition last_node :: "cmd_state \<Rightarrow> nat" where
  "last_node st = (case pc_entry st of None \<Rightarrow> pc_parent st | Some e \<Rightarrow> e)"

definition loop_option :: "string option \<Rightarrow> cmd_state \<Rightarrow> (int \<times> cmd_state) option" where
  "loop_option param st = (case param of
       None \<Rightarrow> Some (M_OPT_OUT_OF_RANGE, st)
     | Some s \<Rightarrow>
         (case strtoll 0 s of (l, rest) \<Rightarrow>
            if rest \<noteq> [] then Some (M_OPT_OUT_OF_RANGE, st)
            else do { st \<leftarrow> flag_node (last_node st) (\<lambda>n. n\<lparr>pt_loop := (if to_int32 l \<le> 0 then - 1 else to_int32 l)\<rparr>) st; Some (1, st) }))"

definition normal_option :: "string \<Rightarrow> string option \<Rightarrow> cmd_state \<Rightarrow> (int \<times> cmd_state) option" where
  "normal_option opt param st = (case m_config_get_option (pc_config st) opt of
       None \<Rightarrow> Some (M_OPT_UNKNOWN, st)
     | Some mp_opt \<Rightarrow>
         if pc_mode st = GLOBAL \<or> has_flag mp_opt M_OPT_GLOBAL then do {
           (tmp, c) \<leftarrow> m_config_set_option opt param (pc_config st);
           Some (tmp, st\<lparr>pc_config := c\<rparr>)
         } else do {
           tmp \<leftarrow> m_config_check_option opt param (pc_config st);
           st \<leftarrow> (if 0 \<le> tmp \<and> pc_mode st \<noteq> DROP_LOCAL then on_heap (play_tree_set_param (last_node st) opt param) st else Some st);
           Some (tmp, st)
         })"

definition entry_option :: "nat option \<Rightarrow> cmd_state \<Rightarrow> cmd_state option" where
  "entry_option entry st = (case entry of
       None \<Rightarrow> Some (if pc_mode st = LOCAL then st\<lparr>pc_mode := DROP_LOCAL\<rparr> else st)
     | Some e \<Rightarrow> do {
         st \<leftarrow> add_cmd_entry e st;
         p \<leftarrow> pc_heap st (pc_parent st);
         n \<leftarrow> pc_heap st e;
         st \<leftarrow> (if is_rnd p \<and> pt_child n \<noteq> None then flag_node e set_rnd st else Some st);
         Some (st\<lparr>pc_mode := LOCAL\<rparr>)
       })"

text \<open>An option with the next argument, if there is one: a code, and the state.\<close>

definition cmd_option :: "playlist_reader \<Rightarrow> string \<Rightarrow> string option \<Rightarrow> cmd_state \<Rightarrow> (int \<times> cmd_state) option" where
  "cmd_option read opt param st = do {
     g \<leftarrow> last_group st;
     if av_strcaseeq opt ''loop'' \<and> (pc_entry st = None \<or> g \<noteq> None) then loop_option param st
     else if av_strcaseeq opt ''shuffle'' \<or> av_strcaseeq opt ''noshuffle'' then do {
       st \<leftarrow> flag_node (case g of Some e \<Rightarrow> e | None \<Rightarrow> pc_parent st) (if av_strcaseeq opt ''shuffle'' then set_rnd else clear_rnd) st;
       Some (0, st)
     } else do {
       (tmp, entry, st) \<leftarrow> is_entry_option read opt param st;
       if 0 < tmp then do { st \<leftarrow> entry_option entry st; Some (tmp, st) }
       else if tmp = 0 then normal_option opt param st
       else Some (tmp, st)
     }
   }"

section \<open>Files\<close>

definition dvd_range :: "int \<Rightarrow> bool" where
  "dvd_range a \<longleftrightarrow> 0 < a \<and> a < 256"

text \<open>The first and last title of an argument like \<open>dvd://1-3\<close>; \<open>s\<close> is what follows the slashes.\<close>

definition title_range :: "string \<Rightarrow> string \<Rightarrow> int \<times> int" where
  "title_range s sp =
     (let start = to_int32 (fst (strtoll 10 s))
      in if start < 0 then (1, \<bar>start\<bar>) else (start, to_int32 (fst (strtoll 10 (tl sp)))))"

fun add_titles :: "string \<Rightarrow> int list \<Rightarrow> nat \<Rightarrow> cmd_state \<Rightarrow> (nat \<times> cmd_state) option" where
  "add_titles prefix [] entry st = Some (entry, st)"
| "add_titles prefix (j # js) entry st = do {
     st \<leftarrow> on_heap (play_tree_add_file entry (prefix @ dec_string j)) st;
     st \<leftarrow> add_cmd_entry entry st;
     (case js of [] \<Rightarrow> Some (entry, st) | _ \<Rightarrow> (case new_node st of (e, st) \<Rightarrow> add_titles prefix js e st))
   }"

definition cmd_file :: "string \<Rightarrow> cmd_state \<Rightarrow> cmd_state option" where
  "cmd_file arg st =
     (let is_dvdnav = (strstr ''dvdnav://'' arg \<noteq> None)
      in case new_node st of (entry, st) \<Rightarrow> do {
           (entry, st) \<leftarrow>
             (if strstr ''dvd://'' arg \<noteq> None \<or> is_dvdnav then
                (let s = drop (if is_dvdnav then 9 else 6) arg
                 in case strchr CHR ''-'' s of
                      Some k \<Rightarrow>
                        (case title_range s (drop k s) of (start, stop) \<Rightarrow>
                           if dvd_range start \<and> dvd_range stop \<and> start < stop
                           then add_titles (if is_dvdnav then ''dvdnav://'' else ''dvd://'') [start..stop] entry st
                           else Some (entry, st))
                    | None \<Rightarrow> map_option (Pair entry) (on_heap (play_tree_add_file entry arg) st))
              else map_option (Pair entry) (on_heap (play_tree_add_file entry arg) st));
           c \<leftarrow> (if av_strcaseeq arg ''-'' then map_option snd (m_config_set_option ''noconsolecontrols'' None (pc_config st)) else Some (pc_config st));
           st \<leftarrow> add_cmd_entry entry (st\<lparr>pc_config := c\<rparr>);
           Some (st\<lparr>pc_mode := LOCAL\<rparr>)
         })"

section \<open>The command line\<close>

text \<open>The loop over the arguments: whether there was an error, and the state.\<close>

function cmd_args :: "playlist_reader \<Rightarrow> string list \<Rightarrow> cmd_state \<Rightarrow> (bool \<times> cmd_state) option" where
  "cmd_args read [] st = Some (True, st)"
| "cmd_args read (opt # args) st =
     (if opt = ''--'' then (if args = [] then Some (False, st) else cmd_args read args (st\<lparr>pc_no_more := True\<rparr>))
      else if opt = ''{'' then do { st \<leftarrow> open_group st; cmd_args read args st }
      else if opt = ''}'' then do { r \<leftarrow> close_group st; (case r of None \<Rightarrow> Some (False, st) | Some st \<Rightarrow> cmd_args read args st) }
      else if \<not> pc_no_more st \<and> opt \<noteq> [] \<and> hd opt = CHR ''-'' \<and> tl opt \<noteq> [] then do {
        (tmp, st) \<leftarrow> cmd_option read (tl opt) (case args of [] \<Rightarrow> None | a # _ \<Rightarrow> Some a) st;
        (if tmp \<le> M_OPT_EXIT then cmd_args read (drop (nat (M_OPT_EXIT - tmp)) args) (st\<lparr>pc_exit := True\<rparr>)
         else if tmp < 0 then Some (False, st)
         else cmd_args read (drop (nat tmp) args) st)
      } else do { st \<leftarrow> cmd_file opt st; cmd_args read args st })"
  by pat_completeness auto
termination by (relation "measure (\<lambda>(read, args, st). length args)") auto

declare cmd_args.simps(2) [simp del]

text \<open>The root of the play tree, or none for an error or when nothing is to be played.\<close>

definition m_config_parse_mp_command_line :: "playlist_reader \<Rightarrow> string list \<Rightarrow> m_config \<Rightarrow> (nat option \<times> cmd_state) option" where
  "m_config_parse_mp_command_line read args c = do {
     let (root, st) = new_node \<lparr>pc_config = c\<lparr>cf_mode := M_COMMAND_LINE\<rparr>, pc_heap = Map.empty, pc_next = 0, pc_parent = 0, pc_entry = None,
       pc_mode = GLOBAL, pc_no_more = False, pc_exit = False\<rparr>;
     (ok, st) \<leftarrow> cmd_args read args (st\<lparr>pc_parent := root\<rparr>);
     if ok \<and> \<not> pc_exit st then Some (Some root, st)
     else do { st \<leftarrow> on_heap (play_tree_free (Some root) True) st; Some (None, st) }
   }"

end
