(* ===== verification/PlayHeap.thy ===== *)
theory PlayHeap
  imports PlayTree "HOL-Library.Multiset"
begin

text \<open>
  Lists of trees in the heap of play tree nodes, and what the operations of playtree.c do to them. A place in a tree is a
  list of frames, one for each level above it.
\<close>

section \<open>Trees in the heap\<close>

text \<open>A node with its address, its contents and its children; the links in the contents do not count.\<close>

datatype ptree = PT (pt_addr: nat) (pt_node: play_tree) (pt_kids: "ptree list")

definition links :: "nat option \<Rightarrow> nat option \<Rightarrow> nat option \<Rightarrow> nat option \<Rightarrow> play_tree \<Rightarrow> play_tree" where
  "links par chd nxt prv n = n\<lparr>pt_parent := par, pt_child := chd, pt_next := nxt, pt_prev := prv\<rparr>"

lemma links_simps [simp]:
  "pt_parent (links par chd nxt prv n) = par" "pt_child (links par chd nxt prv n) = chd"
  "pt_next (links par chd nxt prv n) = nxt" "pt_prev (links par chd nxt prv n) = prv"
  "pt_params (links par chd nxt prv n) = pt_params n" "pt_loop (links par chd nxt prv n) = pt_loop n"
  "pt_files (links par chd nxt prv n) = pt_files n" "pt_entry_type (links par chd nxt prv n) = pt_entry_type n"
  "pt_flags (links par chd nxt prv n) = pt_flags n"
  "(links par chd nxt prv n)\<lparr>pt_parent := par'\<rparr> = links par' chd nxt prv n"
  "(links par chd nxt prv n)\<lparr>pt_child := chd'\<rparr> = links par chd' nxt prv n"
  "(links par chd nxt prv n)\<lparr>pt_next := nxt'\<rparr> = links par chd nxt' prv n"
  "(links par chd nxt prv n)\<lparr>pt_prev := prv'\<rparr> = links par chd nxt prv' n"
  by (simp_all add: links_def)

text \<open>The first address of a list, or what follows it; the last one, or what precedes it.\<close>

definition first_of :: "nat option \<Rightarrow> ptree list \<Rightarrow> nat option" where
  "first_of nxt ts = (case ts of [] \<Rightarrow> nxt | t # _ \<Rightarrow> Some (pt_addr t))"

definition last_of :: "nat option \<Rightarrow> ptree list \<Rightarrow> nat option" where
  "last_of prv ts = (if ts = [] then prv else Some (pt_addr (last ts)))"

lemma first_of_simps [simp]: "first_of nxt [] = nxt" "first_of nxt (t # ts) = Some (pt_addr t)"
  "first_of nxt (xs @ ys) = first_of (first_of nxt ys) xs"
  by (simp_all add: first_of_def split: list.splits)

lemma last_of_simps [simp]: "last_of prv [] = prv" "last_of prv (t # ts) = last_of (Some (pt_addr t)) ts"
  "last_of prv (xs @ ys) = last_of (last_of prv xs) ys"
  by (simp_all add: last_of_def)

text \<open>The siblings \<open>ts\<close> are in the heap, with their children, below \<open>par\<close>, after \<open>prv\<close> and before \<open>nxt\<close>.\<close>

fun seg :: "pt_heap \<Rightarrow> nat option \<Rightarrow> nat option \<Rightarrow> ptree list \<Rightarrow> nat option \<Rightarrow> bool" where
  "seg h par prv [] nxt \<longleftrightarrow> True"
| "seg h par prv (PT a n cs # ts) nxt \<longleftrightarrow> h a = Some (links par (first_of None cs) (first_of nxt ts) prv n) \<and>
     seg h (Some a) None cs None \<and> seg h par (Some a) ts nxt"

fun addrs :: "ptree list \<Rightarrow> nat list" where
  "addrs [] = []"
| "addrs (PT a n cs # ts) = a # addrs cs @ addrs ts"

abbreviation forest :: "pt_heap \<Rightarrow> ptree list \<Rightarrow> bool" where
  "forest h ts \<equiv> seg h None None ts None \<and> distinct (addrs ts)"

lemma addrs_append [simp]: "addrs (xs @ ys) = addrs xs @ addrs ys"
  by (induction xs rule: addrs.induct) simp_all

lemma seg_append [simp]: "seg h par prv (xs @ ys) nxt \<longleftrightarrow> seg h par prv xs (first_of nxt ys) \<and> seg h par (last_of prv xs) ys nxt"
proof (induction xs arbitrary: prv)
  case (Cons t xs)
  then show ?case by (cases t) auto
qed simp

lemma seg_Cons: "seg h par prv (t # ts) nxt \<longleftrightarrow>
    h (pt_addr t) = Some (links par (first_of None (pt_kids t)) (first_of nxt ts) prv (pt_node t)) \<and>
    seg h (Some (pt_addr t)) None (pt_kids t) None \<and> seg h par (Some (pt_addr t)) ts nxt"
  by (cases t) simp

lemma addrs_Cons: "addrs (t # ts) = pt_addr t # addrs (pt_kids t) @ addrs ts"
  by (cases t) simp

text \<open>What is outside does not matter.\<close>

lemma seg_cong: "(\<And>a. a \<in> set (addrs ts) \<Longrightarrow> h a = h' a) \<Longrightarrow> seg h par prv ts nxt = seg h' par prv ts nxt"
  by (induction h par prv ts nxt rule: seg.induct) simp_all

lemma seg_other [simp]: "a \<notin> set (addrs ts) \<Longrightarrow> seg (h(a := x)) par prv ts nxt = seg h par prv ts nxt"
  by (rule seg_cong) auto

lemma seg_defined: "seg h par prv ts nxt \<Longrightarrow> a \<in> set (addrs ts) \<Longrightarrow> h a \<noteq> None"
  by (induction h par prv ts nxt rule: seg.induct) auto

lemma first_in: "first_of None ts = Some a \<Longrightarrow> a \<in> set (addrs ts)"
  by (cases ts; cases "hd ts") auto

text \<open>Changing the links at the borders of a list.\<close>

lemma seg_set_prev:
  assumes "seg h par prv (t # ts) nxt" "distinct (addrs (t # ts))"
  shows "\<exists>n. h (pt_addr t) = Some n \<and> seg (h(pt_addr t \<mapsto> n\<lparr>pt_prev := prv'\<rparr>)) par prv' (t # ts) nxt"
  using assms by (cases t) auto

lemma seg_set_next:
  assumes "seg h par prv (ts @ [t]) nxt" "distinct (addrs (ts @ [t]))"
  shows "\<exists>n. h (pt_addr t) = Some n \<and> seg (h(pt_addr t \<mapsto> n\<lparr>pt_next := nxt'\<rparr>)) par prv (ts @ [t]) nxt'"
proof -
  obtain a n cs where t: "t = PT a n cs" by (cases t)
  have "a \<notin> set (addrs ts)" using assms(2) t by auto
  then show ?thesis using assms by (auto simp: t)
qed

section \<open>The loops over lists\<close>

lemma last_entry_seg:
  "seg h par prv (t # ts) None \<Longrightarrow> last_entry h (pt_addr t) = last_of None (t # ts)"
proof (induction ts arbitrary: t prv)
  case Nil
  then show ?case by (subst last_entry.simps) (simp add: seg_Cons)
next
  case (Cons u us)
  then have "last_entry h (pt_addr u) = last_of None (u # us)" by (simp add: seg_Cons)
  then show ?case using Cons.prems by (subst last_entry.simps) (simp add: seg_Cons)
qed

lemma first_entry_seg:
  "seg h par None (ts @ [t]) nxt \<Longrightarrow> first_entry h (pt_addr t) = first_of None (ts @ [t])"
proof (induction ts arbitrary: t nxt rule: rev_induct)
  case Nil
  then show ?case by (subst first_entry.simps) (simp add: seg_Cons)
next
  case (snoc u us)
  then have "first_entry h (pt_addr u) = first_of None (us @ [u])" by (simp add: seg_Cons)
  then show ?case using snoc.prems by (subst first_entry.simps) (simp add: seg_Cons)
qed

section \<open>A place in a tree\<close>

text \<open>Where a list of siblings stands: for each level above it, from the inside, the siblings before the parent, the parent
  and the siblings after it.\<close>

type_synonym frame = "ptree list \<times> nat \<times> play_tree \<times> ptree list"

fun plug :: "frame list \<Rightarrow> ptree list \<Rightarrow> ptree list" where
  "plug [] ts = ts"
| "plug ((ls, a, n, rs) # fs) ts = plug fs (ls @ PT a n ts # rs)"

fun hole_par :: "frame list \<Rightarrow> nat option" where
  "hole_par [] = None"
| "hole_par ((ls, a, n, rs) # fs) = Some a"

fun frames_addrs :: "frame list \<Rightarrow> nat list" where
  "frames_addrs [] = []"
| "frames_addrs ((ls, a, n, rs) # fs) = a # addrs ls @ addrs rs @ frames_addrs fs"

text \<open>The levels above are in the heap; the first entry of the list in the hole is \<open>chd\<close>.\<close>

fun frames :: "pt_heap \<Rightarrow> frame list \<Rightarrow> nat option \<Rightarrow> bool" where
  "frames h [] chd \<longleftrightarrow> True"
| "frames h ((ls, a, n, rs) # fs) chd \<longleftrightarrow>
     h a = Some (links (hole_par fs) chd (first_of None rs) (last_of None ls) n) \<and>
     seg h (hole_par fs) None ls (Some a) \<and> seg h (hole_par fs) (Some a) rs None \<and> frames h fs (first_of (Some a) ls)"

lemma seg_plug: "seg h None None (plug fs ts) None \<longleftrightarrow> seg h (hole_par fs) None ts None \<and> frames h fs (first_of None ts)"
  by (induction fs ts rule: plug.induct) auto

lemma mset_addrs_plug: "mset (addrs (plug fs ts)) = mset (frames_addrs fs) + mset (addrs ts)"
  by (induction fs ts rule: plug.induct) simp_all

lemma set_addrs_plug [simp]: "set (addrs (plug fs ts)) = set (frames_addrs fs) \<union> set (addrs ts)"
  using arg_cong [OF mset_addrs_plug, of set_mset] by simp

lemma distinct_addrs_plug:
  "distinct (addrs (plug fs ts)) \<longleftrightarrow> distinct (frames_addrs fs) \<and> distinct (addrs ts) \<and> set (frames_addrs fs) \<inter> set (addrs ts) = {}"
proof -
  have "distinct (addrs (plug fs ts)) \<longleftrightarrow> distinct (frames_addrs fs @ addrs ts)"
    using mset_addrs_plug [of fs ts] by (intro mset_eq_imp_distinct_iff) simp
  then show ?thesis by auto
qed

lemma frames_cong: "(\<And>a. a \<in> set (frames_addrs fs) \<Longrightarrow> h a = h' a) \<Longrightarrow> frames h fs chd = frames h' fs chd"
proof (induction h fs chd rule: frames.induct)
  case (2 h ls a n rs fs chd)
  then have "seg h (hole_par fs) None ls (Some a) = seg h' (hole_par fs) None ls (Some a)"
    "seg h (hole_par fs) (Some a) rs None = seg h' (hole_par fs) (Some a) rs None" by (auto intro!: seg_cong)
  then show ?case using 2 by simp
qed simp

lemma frames_other [simp]: "a \<notin> set (frames_addrs fs) \<Longrightarrow> frames (h(a := x)) fs chd = frames h fs chd"
  by (rule frames_cong) auto

lemma frames_set_child:
  assumes "frames h fs chd" "distinct (frames_addrs fs)" "hole_par fs = Some p"
  shows "\<exists>n. h p = Some n \<and> frames (h(p \<mapsto> n\<lparr>pt_child := chd'\<rparr>)) fs chd'"
  using assms by (cases fs) auto

lemma hole_par_in: "hole_par fs = Some p \<Longrightarrow> p \<in> set (frames_addrs fs)"
  by (cases fs) auto

section \<open>Linking entries\<close>

definition changes_in :: "nat set \<Rightarrow> pt_heap \<Rightarrow> pt_heap \<Rightarrow> bool" where
  "changes_in A h h' \<longleftrightarrow> (\<forall>a. a \<notin> A \<longrightarrow> h' a = h a)"

lemma pt_upd_Some: "h a = Some n \<Longrightarrow> pt_upd a f h = Some (h(a \<mapsto> f n))"
  by (simp add: pt_upd_def)

lemma append_entry_tree:
  assumes "seg h None None (plug fs (ts @ [l])) None" "t \<in> set (ts @ [l])" "seg h None None [e] None"
    and "distinct (addrs (plug fs (ts @ [l])) @ addrs [e])"
  shows "\<exists>h'. play_tree_append_entry (pt_addr t) (pt_addr e) h = Some h' \<and> seg h' None None (plug fs (ts @ [l, e])) None \<and>
    changes_in (set (addrs (plug fs (ts @ [l]))) \<union> set (addrs [e])) h h'"
proof -
  obtain xs ys where t: "ts @ [l] = xs @ t # ys" using assms(2) by (metis split_list)
  have s: "seg h (hole_par fs) None (ts @ [l]) None" "frames h fs (first_of None (ts @ [l]))" using assms(1) by (simp_all add: seg_plug)
  from s(1) have "seg h (hole_par fs) (last_of None xs) (t # ys) None" unfolding t by simp
  from last_entry_seg [OF this] have "last_entry h (pt_addr t) = last_of None (t # ys)" .
  also have "\<dots> = last_of None (ts @ [l])" unfolding t by simp
  finally have le: "last_entry h (pt_addr t) = Some (pt_addr l)" by simp
  have d: "distinct (frames_addrs fs)" "distinct (addrs (ts @ [l]))" "distinct (addrs [e])"
    "set (frames_addrs fs) \<inter> set (addrs (ts @ [l])) = {}" "set (addrs [e]) \<inter> (set (frames_addrs fs) \<union> set (addrs (ts @ [l]))) = {}"
    using assms(4) distinct_addrs_plug [of fs "ts @ [l]"] by auto
  obtain a n cs where l: "l = PT a n cs" by (cases l)
  obtain b m ds where e: "e = PT b m ds" by (cases e)
  have "pt_addr t \<in> set (addrs (ts @ [l]))" unfolding t by (simp add: addrs_Cons)
  then have ne: "pt_addr t \<noteq> b" using d(5) e by auto
  let ?h = "h(b \<mapsto> links (hole_par fs) (first_of None ds) None (Some a) m, a \<mapsto> links (hole_par fs) (first_of None cs) (Some b) (last_of None ts) n)"
  have "play_tree_append_entry (pt_addr t) (pt_addr e) h = Some ?h"
    using s(1) assms(3) d le ne by (auto simp: play_tree_append_entry_def l e pt_upd_def)
  moreover have "seg ?h (hole_par fs) None (ts @ [l, e]) None" using s(1) assms(3) d by (auto simp: l e)
  moreover have "frames ?h fs (first_of None (ts @ [l, e]))" using s(2) d by (auto simp: l e)
  moreover have "changes_in (set (addrs (plug fs (ts @ [l]))) \<union> set (addrs [e])) h ?h" by (simp add: changes_in_def l e)
  ultimately show ?thesis by (auto simp: seg_plug)
qed

lemma insert_entry_tree:
  assumes "seg h None None (plug fs (xs @ t # ys)) None" "seg h None None [e] None"
    and "distinct (addrs (plug fs (xs @ t # ys)) @ addrs [e])"
  shows "\<exists>h'. play_tree_insert_entry (pt_addr t) (pt_addr e) h = Some h' \<and> seg h' None None (plug fs (xs @ t # e # ys)) None \<and>
    changes_in (set (addrs (plug fs (xs @ t # ys))) \<union> set (addrs [e])) h h'"
proof -
  have s: "seg h (hole_par fs) None (xs @ t # ys) None" "frames h fs (first_of None (xs @ t # ys))" using assms(1) by (simp_all add: seg_plug)
  have d: "distinct (frames_addrs fs)" "distinct (addrs (xs @ t # ys))" "distinct (addrs [e])"
    "set (frames_addrs fs) \<inter> set (addrs (xs @ t # ys)) = {}" "set (addrs [e]) \<inter> (set (frames_addrs fs) \<union> set (addrs (xs @ t # ys))) = {}"
    using assms(3) distinct_addrs_plug [of fs "xs @ t # ys"] by auto
  obtain a n cs where t: "t = PT a n cs" by (cases t)
  obtain b m ds where e: "e = PT b m ds" by (cases e)
  show ?thesis
  proof (cases ys)
    case Nil
    let ?h = "h(b \<mapsto> links (hole_par fs) (first_of None ds) None (Some a) m, a \<mapsto> links (hole_par fs) (first_of None cs) (Some b) (last_of None xs) n)"
    have "play_tree_insert_entry (pt_addr t) (pt_addr e) h = Some ?h"
      using s(1) assms(2) d by (auto simp: play_tree_insert_entry_def t e pt_upd_def Nil)
    moreover have "seg ?h (hole_par fs) None (xs @ t # e # ys) None" using s(1) assms(2) d by (auto simp: t e Nil)
    moreover have "frames ?h fs (first_of None (xs @ t # e # ys))" using s(2) d by (auto simp: t e)
    moreover have "changes_in (set (addrs (plug fs (xs @ t # ys))) \<union> set (addrs [e])) h ?h" by (simp add: changes_in_def t e)
    ultimately show ?thesis by (auto simp: seg_plug)
  next
    case (Cons u us)
    obtain c k vs where u: "u = PT c k vs" by (cases u)
    let ?h = "h(b \<mapsto> links (hole_par fs) (first_of None ds) (Some c) (Some a) m, c \<mapsto> links (hole_par fs) (first_of None vs) (first_of None us) (Some b) k,
      a \<mapsto> links (hole_par fs) (first_of None cs) (Some b) (last_of None xs) n)"
    have "play_tree_insert_entry (pt_addr t) (pt_addr e) h = Some ?h"
      using s(1) assms(2) d by (auto simp: play_tree_insert_entry_def t e u pt_upd_def Cons)
    moreover have "seg ?h (hole_par fs) None (xs @ t # e # ys) None" using s(1) assms(2) d by (auto simp: t e u Cons)
    moreover have "frames ?h fs (first_of None (xs @ t # e # ys))" using s(2) d by (auto simp: t e u Cons)
    moreover have "changes_in (set (addrs (plug fs (xs @ t # ys))) \<union> set (addrs [e])) h ?h" by (simp add: changes_in_def t e u Cons)
    ultimately show ?thesis by (auto simp: seg_plug)
  qed
qed

text \<open>The parent's pointer to its first child, where there is a parent.\<close>

definition set_child_of :: "nat option \<Rightarrow> nat option \<Rightarrow> pt_heap \<Rightarrow> pt_heap option" where
  "set_child_of par chd h = (case par of None \<Rightarrow> Some h | Some p \<Rightarrow> pt_upd p (\<lambda>n. n\<lparr>pt_child := chd\<rparr>) h)"

lemma set_child_frames:
  assumes "frames h fs chd" "distinct (frames_addrs fs)"
  shows "\<exists>h'. set_child_of (hole_par fs) chd' h = Some h' \<and> frames h' fs chd' \<and> changes_in (set (frames_addrs fs)) h h'"
proof (cases "hole_par fs")
  case None
  then show ?thesis using assms(1) by (cases fs) (auto simp: set_child_of_def changes_in_def)
next
  case (Some p)
  then show ?thesis using frames_set_child [OF assms Some, of chd'] hole_par_in [OF Some]
    by (auto simp: set_child_of_def pt_upd_def changes_in_def)
qed

lemma seg_changes: "changes_in A h h' \<Longrightarrow> A \<inter> set (addrs ts) = {} \<Longrightarrow> seg h' par prv ts nxt = seg h par prv ts nxt"
  by (rule seg_cong) (auto simp: changes_in_def)

lemma changes_in_trans: "changes_in A h h1 \<Longrightarrow> changes_in B h1 h2 \<Longrightarrow> A \<subseteq> C \<Longrightarrow> B \<subseteq> C \<Longrightarrow> changes_in C h h2"
  unfolding changes_in_def by (metis subsetD)

lemma prepend_entry_tree:
  assumes "seg h None None (plug fs (f # ts)) None" "t \<in> set (f # ts)" "seg h None None [e] None"
    and "distinct (addrs (plug fs (f # ts)) @ addrs [e])"
  shows "\<exists>h'. play_tree_prepend_entry (pt_addr t) (pt_addr e) h = Some h' \<and> seg h' None None (plug fs (e # f # ts)) None \<and>
    changes_in (set (addrs (plug fs (f # ts))) \<union> set (addrs [e])) h h'"
proof -
  from split_list [OF assms(2)] obtain xs ys where "f # ts = xs @ t # ys" by blast
  then have t: "f # ts = (xs @ [t]) @ ys" by simp
  have s: "seg h (hole_par fs) None (f # ts) None" "frames h fs (Some (pt_addr f))" using assms(1) by (simp_all add: seg_plug)
  from s(1) have "seg h (hole_par fs) None (xs @ [t]) (first_of None ys)" unfolding t seg_append by simp
  from first_entry_seg [OF this] have "first_entry h (pt_addr t) = first_of None (xs @ [t])" .
  also have "\<dots> = first_of None (f # ts)" unfolding t by (cases xs) simp_all
  finally have fe: "first_entry h (pt_addr t) = Some (pt_addr f)" by simp
  have d: "distinct (frames_addrs fs)" "distinct (addrs (f # ts))" "distinct (addrs [e])"
    "set (frames_addrs fs) \<inter> set (addrs (f # ts)) = {}" "set (addrs [e]) \<inter> (set (frames_addrs fs) \<union> set (addrs (f # ts))) = {}"
    using assms(4) distinct_addrs_plug [of fs "f # ts"] by auto
  obtain a n cs where f: "f = PT a n cs" by (cases f)
  obtain b m ds where e: "e = PT b m ds" by (cases e)
  let ?h = "h(b \<mapsto> links (hole_par fs) (first_of None ds) (Some a) None m, a \<mapsto> links (hole_par fs) (first_of None cs) (first_of None ts) (Some b) n)"
  have "frames ?h fs (Some a)" using s(2) d by (auto simp: f e)
  from set_child_frames [OF this d(1), of "Some b"] obtain h' where
    h': "set_child_of (hole_par fs) (Some b) ?h = Some h'" "frames h' fs (Some b)" "changes_in (set (frames_addrs fs)) ?h h'" by blast
  have "play_tree_prepend_entry (pt_addr t) (pt_addr e) h = set_child_of (hole_par fs) (Some b) ?h"
  proof -
    have ab: "h a = Some (links (hole_par fs) (first_of None cs) (first_of None ts) None n)" "h b = Some (links None (first_of None ds) None None m)"
      using s(1) assms(3) by (simp_all add: f e)
    have ne: "a \<noteq> b" using d(5) by (simp add: f e)
    have 1: "pt_upd b (\<lambda>e. e\<lparr>pt_prev := None, pt_next := Some a\<rparr>) h = Some (h(b \<mapsto> links None (first_of None ds) (Some a) None m))"
      by (simp add: pt_upd_def ab)
    have 2: "(h(b \<mapsto> links None (first_of None ds) (Some a) None m)) a = Some (links (hole_par fs) (first_of None cs) (first_of None ts) None n)"
      using ab ne by simp
    have 3: "pt_upd b (\<lambda>e. e\<lparr>pt_parent := hole_par fs\<rparr>) (h(b \<mapsto> links None (first_of None ds) (Some a) None m)) =
      Some (h(b \<mapsto> links (hole_par fs) (first_of None ds) (Some a) None m))" by (simp add: pt_upd_def)
    have 4: "pt_upd a (\<lambda>n. n\<lparr>pt_prev := Some b\<rparr>) (h(b \<mapsto> links (hole_par fs) (first_of None ds) (Some a) None m)) = Some ?h"
      using ab ne by (simp add: pt_upd_def)
    have 5: "?h b = Some (links (hole_par fs) (first_of None ds) (Some a) None m)" using ne by simp
    show ?thesis unfolding play_tree_prepend_entry_def set_child_of_def f e ptree.sel
      by (simp only: fe [unfolded f ptree.sel] bind.bind_lunit links_simps 1 2 3 4 5)
  qed
  moreover have "seg ?h (hole_par fs) None (e # f # ts) None" using s(1) assms(3) d by (auto simp: f e)
  then have "seg h' (hole_par fs) None (e # f # ts) None" using d by (subst seg_changes [OF h'(3)]) (auto simp: f e)
  moreover have "changes_in (set (addrs (plug fs (f # ts))) \<union> set (addrs [e])) h ?h" by (simp add: changes_in_def f e)
  then have "changes_in (set (addrs (plug fs (f # ts))) \<union> set (addrs [e])) h h'" by (rule changes_in_trans [OF _ h'(3)]) auto
  ultimately show ?thesis using h'(1,2) by (auto simp: seg_plug e)
qed

section \<open>Unlinking and freeing\<close>

lemma unlink_middle:
  assumes "seg h par None (xs @ PT u k vs # PT a n cs # ys) None" "distinct (addrs (xs @ PT u k vs # PT a n cs # ys))"
  shows "\<exists>h'. play_tree_unlink a h = Some h' \<and> seg h' par None (xs @ PT u k vs # ys) None \<and> seg h' None None [PT a n cs] None \<and>
    changes_in (set (addrs (xs @ PT u k vs # PT a n cs # ys))) h h'"
proof (cases ys)
  case Nil
  let ?h = "h(u \<mapsto> links par (first_of None vs) None (last_of None xs) k, a \<mapsto> links None (first_of None cs) None None n)"
  have "play_tree_unlink a h = Some ?h" using assms by (auto simp: play_tree_unlink_def pt_upd_def Nil)
  moreover have "seg ?h par None (xs @ PT u k vs # ys) None" "seg ?h None None [PT a n cs] None" using assms by (auto simp: Nil)
  ultimately show ?thesis by (auto simp: changes_in_def)
next
  case (Cons w ws)
  obtain c j us where w: "w = PT c j us" by (cases w)
  let ?h = "h(u \<mapsto> links par (first_of None vs) (Some c) (last_of None xs) k, c \<mapsto> links par (first_of None us) (first_of None ws) (Some u) j,
    a \<mapsto> links None (first_of None cs) None None n)"
  have "play_tree_unlink a h = Some ?h" using assms by (auto simp: play_tree_unlink_def pt_upd_def Cons w)
  moreover have "seg ?h par None (xs @ PT u k vs # ys) None" "seg ?h None None [PT a n cs] None" using assms by (auto simp: Cons w)
  ultimately show ?thesis by (auto simp: changes_in_def Cons w)
qed

lemma unlink_first:
  assumes "seg h (hole_par fs) None (PT a n cs # ys) None" "distinct (addrs (PT a n cs # ys))" "frames h fs (Some a)"
    "distinct (frames_addrs fs)" "set (frames_addrs fs) \<inter> set (addrs (PT a n cs # ys)) = {}"
  shows "\<exists>h'. play_tree_unlink a h = Some h' \<and> seg h' (hole_par fs) None ys None \<and> frames h' fs (first_of None ys) \<and>
    seg h' None None [PT a n cs] None \<and> changes_in (set (frames_addrs fs) \<union> set (addrs (PT a n cs # ys))) h h'"
proof -
  define h1 where "h1 = (case ys of [] \<Rightarrow> h | PT c j us # ws \<Rightarrow> h(c \<mapsto> links (hole_par fs) (first_of None us) (first_of None ws) None j))"
  have ys: "seg h1 (hole_par fs) None ys None" "frames h1 fs (Some a)" "h1 a = h a" "seg h1 (Some a) None cs None"
    "changes_in (set (addrs (PT a n cs # ys))) h h1"
    using assms by (auto simp: h1_def changes_in_def split: list.splits ptree.splits)
  from set_child_frames [OF ys(2) assms(4), of "first_of None ys"] obtain h2 where
    h2: "set_child_of (hole_par fs) (first_of None ys) h1 = Some h2" "frames h2 fs (first_of None ys)" "changes_in (set (frames_addrs fs)) h1 h2" by blast
  let ?h = "h2(a \<mapsto> links None (first_of None cs) None None n)"
  have h2a: "h2 a = Some (links (hole_par fs) (first_of None cs) (first_of None ys) None n)"
    using h2(3) ys(3) assms(1,5) by (auto simp: changes_in_def)
  have unlink: "play_tree_unlink a h = do { h \<leftarrow> set_child_of (hole_par fs) (first_of None ys) h1; pt_upd a (\<lambda>n. n\<lparr>pt_prev := None, pt_next := None, pt_parent := None\<rparr>) h }"
  proof (cases ys)
    case Nil
    then show ?thesis using assms(1) by (cases "hole_par fs") (simp_all add: play_tree_unlink_def h1_def set_child_of_def)
  next
    case (Cons w ws)
    obtain c j us where "w = PT c j us" by (cases w)
    then show ?thesis using assms(1) Cons
      by (cases "hole_par fs") (simp_all add: play_tree_unlink_def h1_def set_child_of_def pt_upd_Some)
  qed
  have "play_tree_unlink a h = Some ?h" unfolding unlink h2(1) using h2a by (simp add: pt_upd_def)
  moreover have "seg h2 (hole_par fs) None ys None" "seg h2 (Some a) None cs None" using ys assms(5) by (subst seg_changes [OF h2(3)]; auto)+
  then have "seg ?h (hole_par fs) None ys None" "seg ?h None None [PT a n cs] None" using assms(2) by simp_all
  moreover have "frames ?h fs (first_of None ys)" using h2(2) assms(5) by simp
  moreover have "changes_in (set (frames_addrs fs) \<union> set (addrs (PT a n cs # ys))) h ?h"
    using ys(5) h2(3) unfolding changes_in_def by auto
  ultimately show ?thesis by blast
qed

lemma unlink_tree:
  assumes "seg h None None (plug fs (xs @ t # ys)) None" "distinct (addrs (plug fs (xs @ t # ys)))"
  shows "\<exists>h'. play_tree_unlink (pt_addr t) h = Some h' \<and> seg h' None None (plug fs (xs @ ys)) None \<and> seg h' None None [t] None \<and>
    changes_in (set (addrs (plug fs (xs @ t # ys)))) h h'"
proof -
  obtain a n cs where t: "t = PT a n cs" by (cases t)
  have s: "seg h (hole_par fs) None (xs @ t # ys) None" "frames h fs (first_of None (xs @ t # ys))" using assms(1) by (simp_all add: seg_plug)
  have d: "distinct (frames_addrs fs)" "distinct (addrs (xs @ t # ys))" "set (frames_addrs fs) \<inter> set (addrs (xs @ t # ys)) = {}"
    using assms(2) by (simp_all add: distinct_addrs_plug)
  show ?thesis
  proof (cases xs rule: rev_cases)
    case Nil
    from unlink_first [of h fs a n cs ys] s d obtain h' where "play_tree_unlink a h = Some h'" "seg h' (hole_par fs) None ys None"
      "frames h' fs (first_of None ys)" "seg h' None None [PT a n cs] None" "changes_in (set (frames_addrs fs) \<union> set (addrs (PT a n cs # ys))) h h'"
      by (auto simp: Nil t)
    then show ?thesis by (auto simp: Nil t seg_plug)
  next
    case (snoc us w)
    obtain u k vs where w: "w = PT u k vs" by (cases w)
    from unlink_middle [of h "hole_par fs" us u k vs a n cs ys] s(1) d(2) obtain h' where
      h': "play_tree_unlink a h = Some h'" "seg h' (hole_par fs) None (us @ PT u k vs # ys) None" "seg h' None None [PT a n cs] None"
      "changes_in (set (addrs (us @ PT u k vs # PT a n cs # ys))) h h'" by (auto simp: snoc t w)
    have "frames h' fs (first_of None (xs @ t # ys))"
      using s(2) h'(4) d(3) by (subst frames_cong [of fs h' h]) (auto simp: changes_in_def snoc t w)
    moreover have "changes_in (set (addrs (plug fs (xs @ t # ys)))) h h'" using h'(4) by (auto simp: changes_in_def snoc t w)
    ultimately show ?thesis using h'(1-3) by (auto simp: snoc t w seg_plug)
  qed
qed

text \<open>Freeing the children of \<open>p\<close> leaves it without children and erases their nodes.\<close>

definition erase :: "ptree list \<Rightarrow> pt_heap \<Rightarrow> pt_heap" where
  "erase ts h = (\<lambda>a. if a \<in> set (addrs ts) then None else h a)"

lemma seg_relink_prev:
  assumes "seg h par prv ts nxt" "distinct (addrs ts)"
  shows "\<exists>g. (\<forall>r. (case ts of [] \<Rightarrow> Some h | t # _ \<Rightarrow> pt_upd (pt_addr t) (\<lambda>n. n\<lparr>pt_prev := prv'\<rparr>) h) = Some g) \<and> seg g par prv' ts nxt \<and>
    changes_in (set (addrs ts)) h g"
proof (cases ts)
  case (Cons t us)
  then show ?thesis using assms by (cases t) (auto simp: pt_upd_def changes_in_def)
qed (simp add: changes_in_def)

lemma free_node_first:
  assumes "h p = Some (links q (Some c) x v n)" "h c = Some (links (Some p) None (first_of None ts) None m)"
    "seg h (Some p) (Some c) ts None" "distinct (p # c # addrs ts)"
  shows "\<exists>g. free_node c h = Some (g(p \<mapsto> links q (first_of None ts) x v n, c := None)) \<and> seg g (Some p) None ts None \<and>
    changes_in (set (addrs ts)) h g"
proof -
  obtain g where g: "(case ts of [] \<Rightarrow> Some h | t # _ \<Rightarrow> pt_upd (pt_addr t) (\<lambda>n. n\<lparr>pt_prev := None\<rparr>) h) = Some g"
    "seg g (Some p) None ts None" "changes_in (set (addrs ts)) h g"
    using seg_relink_prev [OF assms(3), of None] assms(4) by auto
  have gp: "g p = Some (links q (Some c) x v n)" "g c = Some (links (Some p) None (first_of None ts) None m)"
    using g(3) assms by (simp_all add: changes_in_def)
  have "play_tree_unlink c h = Some (g(p \<mapsto> links q (first_of None ts) x v n, c \<mapsto> links None None None None m))"
  proof (cases ts)
    case Nil
    then show ?thesis using g(1) gp assms(2,4) by (simp add: play_tree_unlink_def pt_upd_def)
  next
    case (Cons t us)
    then show ?thesis using g(1) gp assms(2,4) by (simp add: play_tree_unlink_def pt_upd_Some)
  qed
  then have "free_node c h = Some (g(p \<mapsto> links q (first_of None ts) x v n, c := None))"
    by (simp add: free_node_def set_parents.simps)
  then show ?thesis using g(2,3) by blast
qed

lemma free_children_seg:
  assumes "seg h (Some p) None cs None" "h p = Some (links q (first_of None cs) x v n)" "distinct (p # addrs cs)"
  shows "free_children (first_of None cs) h = Some ((erase cs h)(p \<mapsto> links q None x v n))"
  using assms
proof (induction cs arbitrary: p h q x v n rule: addrs.induct)
  case 1
  then show ?case by (subst free_children.simps) (auto simp: erase_def fun_eq_iff)
next
  case (2 c m ds ts)
  have c: "h c = Some (links (Some p) (first_of None ds) (first_of None ts) None m)" "seg h (Some c) None ds None" "seg h (Some p) (Some c) ts None"
    using "2.prems"(1) by simp_all
  define h1 where "h1 = (erase ds h)(c \<mapsto> links (Some p) None (first_of None ts) None m)"
  have kids: "free_children (first_of None ds) h = Some h1"
    unfolding h1_def by (rule "2.IH"(1)) (use c "2.prems"(3) in simp_all)
  have upd: "pt_upd c (\<lambda>n. n\<lparr>pt_child := None\<rparr>) h1 = Some h1" by (simp add: h1_def pt_upd_def)
  have "seg h1 (Some p) (Some c) ts None"
    using c(3) "2.prems"(3) by (subst seg_cong [of ts h1 h]) (auto simp: h1_def erase_def)
  moreover have "h1 p = Some (links q (Some c) x v n)" "h1 c = Some (links (Some p) None (first_of None ts) None m)"
    using "2.prems"(2,3) by (simp_all add: h1_def erase_def)
  ultimately obtain g where g: "free_node c h1 = Some (g(p \<mapsto> links q (first_of None ts) x v n, c := None))"
    "seg g (Some p) None ts None" "changes_in (set (addrs ts)) h1 g"
    using free_node_first [of h1 p q c x v n ts m] "2.prems"(3) by auto
  let ?g = "g(p \<mapsto> links q (first_of None ts) x v n, c := None)"
  have "free_children (first_of None ts) ?g = Some ((erase ts ?g)(p \<mapsto> links q None x v n))"
  proof (rule "2.IH"(2))
    show "seg ?g (Some p) None ts None" using g(2) "2.prems"(3) by (simp del: fun_upd_apply)
  qed (use "2.prems"(3) in simp_all)
  also have "(erase ts ?g)(p \<mapsto> links q None x v n) = (erase (PT c m ds # ts) h)(p \<mapsto> links q None x v n)"
    using g(3) "2.prems"(3) by (auto simp: erase_def h1_def changes_in_def fun_eq_iff)
  finally show ?case
    using c(1) kids upd g(1) by (subst free_children.simps) (simp del: fun_upd_apply)
qed

lemma set_parents_seg:
  assumes "seg h par prv ts None" "distinct (addrs ts)"
  shows "\<exists>h'. set_parents par' (first_of None ts) h = Some h' \<and> seg h' par' prv ts None \<and> changes_in (set (addrs ts)) h h'"
  using assms
proof (induction ts arbitrary: h prv)
  case Nil
  then show ?case by (auto simp: set_parents.simps changes_in_def)
next
  case (Cons t ts)
  obtain a n cs where t: "t = PT a n cs" by (cases t)
  let ?h = "h(a \<mapsto> links par' (first_of None cs) (first_of None ts) prv n)"
  have "seg ?h par (Some a) ts None" "distinct (addrs ts)" using Cons.prems by (simp_all add: t del: fun_upd_apply)
  from Cons.IH [OF this] obtain h' where
    h': "set_parents par' (first_of None ts) ?h = Some h'" "seg h' par' (Some a) ts None" "changes_in (set (addrs ts)) ?h h'" by blast
  have "seg ?h (Some a) None cs None" using Cons.prems by (simp add: t del: fun_upd_apply)
  then have "seg h' (Some a) None cs None" using Cons.prems(2) by (subst seg_changes [OF h'(3)]) (auto simp: t)
  moreover have "h' a = Some (links par' (first_of None cs) (first_of None ts) prv n)" using h'(3) Cons.prems(2) by (simp add: changes_in_def t)
  moreover have "set_parents par' (first_of None (t # ts)) h = Some h'"
    using h'(1) Cons.prems(1) by (subst set_parents.simps) (simp add: t pt_upd_def)
  moreover have "changes_in (set (addrs (t # ts))) h h'" using h'(3) by (auto simp: changes_in_def t)
  ultimately show ?case using h'(2) by (auto simp: t)
qed

lemma seg_erase: "set (addrs cs) \<inter> set (addrs ts) = {} \<Longrightarrow> seg (erase cs h) par prv ts nxt = seg h par prv ts nxt"
  by (rule seg_cong) (auto simp: erase_def)

lemma frames_erase: "set (addrs cs) \<inter> set (frames_addrs fs) = {} \<Longrightarrow> frames (erase cs h) fs chd = frames h fs chd"
  by (rule frames_cong) (auto simp: erase_def)

text \<open>Freeing an entry with all that is below it, wherever it stands.\<close>

lemma free_tree:
  assumes "seg h None None (plug fs (xs @ t # ys)) None" "distinct (addrs (plug fs (xs @ t # ys)))"
  shows "\<exists>h'. play_tree_free (Some (pt_addr t)) True h = Some h' \<and> seg h' None None (plug fs (xs @ ys)) None \<and>
    (\<forall>a \<in> set (addrs [t]). h' a = None) \<and> changes_in (set (addrs (plug fs (xs @ t # ys)))) h h'"
proof -
  obtain a n cs where t: "t = PT a n cs" by (cases t)
  have s: "seg h (hole_par fs) None (xs @ t # ys) None" "frames h fs (first_of None (xs @ t # ys))" using assms(1) by (simp_all add: seg_plug)
  have d: "distinct (frames_addrs fs)" "distinct (addrs (xs @ t # ys))" "set (frames_addrs fs) \<inter> set (addrs (xs @ t # ys)) = {}"
    using assms(2) by (simp_all add: distinct_addrs_plug)
  have ha: "h a = Some (links (hole_par fs) (first_of None cs) (first_of None ys) (last_of None xs) n)" "seg h (Some a) None cs None"
    using s(1) by (simp_all add: t)
  let ?h1 = "(erase cs h)(a \<mapsto> links (hole_par fs) None (first_of None ys) (last_of None xs) n)"
  have kids: "free_children (first_of None cs) h = Some ?h1" using free_children_seg [OF ha(2,1)] d(2) by (simp add: t)
  have dis: "set (addrs cs) \<inter> set (addrs xs) = {}" "set (addrs cs) \<inter> set (addrs ys) = {}" using d(2) by (auto simp: t)
  have "seg ?h1 (hole_par fs) None (xs @ PT a n [] # ys) None" using s(1) d(2) by (simp add: t seg_erase dis del: fun_upd_apply) simp
  moreover have "frames ?h1 fs (first_of None (xs @ PT a n [] # ys))"
  proof -
    have "frames (erase cs h) fs (first_of None (xs @ t # ys))" using s(2) d(3) by (subst frames_erase) (auto simp: t)
    then show ?thesis using d(3) by (simp add: t del: fun_upd_apply)
  qed
  ultimately have "seg ?h1 None None (plug fs (xs @ PT a n [] # ys)) None" by (simp add: seg_plug)
  moreover have "distinct (addrs (plug fs (xs @ PT a n [] # ys)))" using d by (auto simp: distinct_addrs_plug t)
  ultimately obtain h2 where h2: "play_tree_unlink a ?h1 = Some h2" "seg h2 None None (plug fs (xs @ ys)) None" "seg h2 None None [PT a n []] None"
    "changes_in (set (addrs (plug fs (xs @ PT a n [] # ys)))) ?h1 h2" using unlink_tree [of ?h1 fs xs "PT a n []" ys] by auto
  have "play_tree_free (Some (pt_addr t)) True h = Some (h2(a := None))"
  proof -
    have "free_node a ?h1 = Some (h2(a := None))" using h2(1,3) by (simp add: free_node_def set_parents.simps del: fun_upd_apply)
    then show ?thesis using ha(1) kids by (simp add: play_tree_free_def t pt_upd_def)
  qed
  moreover have "seg (h2(a := None)) None None (plug fs (xs @ ys)) None" using h2(2) d by (simp add: t del: fun_upd_apply)
  moreover have "\<forall>b \<in> set (addrs [t]). (h2(a := None)) b = None"
    using h2(4) d(2,3) by (auto simp: changes_in_def erase_def t)
  moreover have "changes_in (set (addrs (plug fs (xs @ t # ys)))) h (h2(a := None))" using h2(4) by (auto simp: changes_in_def erase_def t)
  ultimately show ?thesis by blast
qed

section \<open>Steps on forests\<close>

text \<open>Several separate lists of entries in the heap, each with all that is below its entries.\<close>

definition all_addrs :: "ptree list list \<Rightarrow> nat list" where
  "all_addrs Fs = concat (map addrs Fs)"

definition forests :: "pt_heap \<Rightarrow> ptree list list \<Rightarrow> bool" where
  "forests h Fs \<longleftrightarrow> (\<forall>F \<in> set Fs. seg h None None F None) \<and> distinct (all_addrs Fs)"

text \<open>The lists \<open>Fs\<close> turn into \<open>Gs\<close>: nodes that are gone are erased, and nothing else changes.\<close>

definition turns :: "pt_heap \<Rightarrow> ptree list list \<Rightarrow> pt_heap \<Rightarrow> ptree list list \<Rightarrow> bool" where
  "turns h Fs h' Gs \<longleftrightarrow> forests h' Gs \<and> set (all_addrs Gs) \<subseteq> set (all_addrs Fs) \<and>
     (\<forall>a \<in> set (all_addrs Fs) - set (all_addrs Gs). h' a = None) \<and> changes_in (set (all_addrs Fs)) h h'"

lemma all_addrs_simps [simp]: "all_addrs [] = []" "all_addrs (F # Fs) = addrs F @ all_addrs Fs"
  "all_addrs (Fs @ Gs) = all_addrs Fs @ all_addrs Gs"
  by (simp_all add: all_addrs_def)

lemma turns_trans: "turns h Fs h1 Gs \<Longrightarrow> turns h1 Gs h2 Hs \<Longrightarrow> turns h Fs h2 Hs"
proof -
  assume a: "turns h Fs h1 Gs" "turns h1 Gs h2 Hs"
  then have sub: "set (all_addrs Gs) \<subseteq> set (all_addrs Fs)" "set (all_addrs Hs) \<subseteq> set (all_addrs Gs)" by (simp_all add: turns_def)
  have "h2 x = None" if "x \<in> set (all_addrs Fs) - set (all_addrs Hs)" for x
    using a that by (cases "x \<in> set (all_addrs Gs)") (auto simp: turns_def changes_in_def)
  moreover have "changes_in (set (all_addrs Fs)) h h2"
    using a sub by (intro changes_in_trans [of "set (all_addrs Fs)" h h1 "set (all_addrs Gs)" h2]) (simp_all add: turns_def)
  ultimately show ?thesis using a sub by (auto simp: turns_def)
qed

lemma forests_changes: "changes_in A h h' \<Longrightarrow> A \<inter> set (all_addrs Fs) = {} \<Longrightarrow> forests h' Fs = forests h Fs"
proof -
  assume a: "changes_in A h h'" "A \<inter> set (all_addrs Fs) = {}"
  have "seg h' None None F None = seg h None None F None" if "F \<in> set Fs" for F
  proof -
    have "A \<inter> set (addrs F) = {}" using a(2) that unfolding all_addrs_def set_concat set_map by blast
    then show ?thesis by (rule seg_changes [OF a(1)])
  qed
  then show ?thesis by (simp add: forests_def)
qed

text \<open>The other lists stay.\<close>

lemma turns_frame:
  assumes "forests h (Fs @ Ms)" "turns h Fs h' Gs"
  shows "turns h (Fs @ Ms) h' (Gs @ Ms)"
proof -
  have "forests h Ms" "set (all_addrs Fs) \<inter> set (all_addrs Ms) = {}" using assms(1) by (auto simp: forests_def)
  moreover from this have "forests h' Ms" using assms(2) forests_changes unfolding turns_def by blast
  ultimately show ?thesis using assms(2) by (auto simp: turns_def forests_def changes_in_def)
qed

text \<open>The order of the lists and empty lists do not matter.\<close>

lemma mset_all_addrs: "mset (all_addrs Fs) = sum_mset (image_mset (\<lambda>F. mset (addrs F)) (mset Fs))"
  by (induction Fs) simp_all

lemma forests_mset:
  assumes "mset Fs = mset Gs"
  shows "forests h Fs = forests h Gs"
proof -
  have "mset (all_addrs Fs) = mset (all_addrs Gs)" unfolding mset_all_addrs assms by (rule refl)
  from mset_eq_imp_distinct_iff [OF this] mset_eq_setD [OF assms] show ?thesis by (simp add: forests_def)
qed

lemma set_all_addrs_mset: "mset Fs = mset Gs \<Longrightarrow> set (all_addrs Fs) = set (all_addrs Gs)"
  using mset_eq_setD [of Fs Gs] by (simp add: all_addrs_def)

lemma turns_mset:
  assumes "mset Fs = mset Fs'" "mset Gs = mset Gs'"
  shows "turns h Fs h' Gs = turns h Fs' h' Gs'"
  unfolding turns_def forests_mset [OF assms(2)] set_all_addrs_mset [OF assms(1)] set_all_addrs_mset [OF assms(2)] by (rule refl)

lemma forests_empty [simp]: "forests h ([] # Fs) = forests h Fs" "turns h Fs h' ([] # Gs) = turns h Fs h' Gs"
  by (simp_all add: forests_def turns_def)

lemma append_turns:
  assumes "forests h [plug fs (ts @ [l]), [e]]" "t \<in> set (ts @ [l])"
  shows "\<exists>h'. play_tree_append_entry (pt_addr t) (pt_addr e) h = Some h' \<and>
    turns h [plug fs (ts @ [l]), [e]] h' [plug fs (ts @ [l, e])]"
  using append_entry_tree [of h fs ts l t e] assms by (auto simp: turns_def forests_def distinct_addrs_plug addrs_Cons)

lemma insert_turns:
  assumes "forests h [plug fs (xs @ t # ys), [e]]"
  shows "\<exists>h'. play_tree_insert_entry (pt_addr t) (pt_addr e) h = Some h' \<and>
    turns h [plug fs (xs @ t # ys), [e]] h' [plug fs (xs @ t # e # ys)]"
  using insert_entry_tree [of h fs xs t ys e] assms by (auto simp: turns_def forests_def distinct_addrs_plug addrs_Cons)

lemma prepend_turns:
  assumes "forests h [plug fs (f # ts), [e]]" "t \<in> set (f # ts)"
  shows "\<exists>h'. play_tree_prepend_entry (pt_addr t) (pt_addr e) h = Some h' \<and>
    turns h [plug fs (f # ts), [e]] h' [plug fs (e # f # ts)]"
  using prepend_entry_tree [of h fs f ts t e] assms by (auto simp: turns_def forests_def distinct_addrs_plug addrs_Cons)

lemma unlink_turns:
  assumes "forests h [plug fs (xs @ t # ys)]"
  shows "\<exists>h'. play_tree_unlink (pt_addr t) h = Some h' \<and> turns h [plug fs (xs @ t # ys)] h' [plug fs (xs @ ys), [t]]"
  using unlink_tree [of h fs xs t ys] assms by (auto simp: turns_def forests_def distinct_addrs_plug addrs_Cons)

lemma free_turns:
  assumes "forests h [plug fs (xs @ t # ys)]"
  shows "\<exists>h'. play_tree_free (Some (pt_addr t)) True h = Some h' \<and> turns h [plug fs (xs @ t # ys)] h' [plug fs (xs @ ys)]"
  using free_tree [of h fs xs t ys] assms by (auto simp: turns_def forests_def distinct_addrs_plug addrs_Cons)

lemma forestsD: "forests h [F] \<Longrightarrow> seg h None None F None" "forests h [F] \<Longrightarrow> distinct (addrs F)"
  by (simp_all add: forests_def)

lemma remove_turns:
  assumes "forests h [plug fs (xs @ t # ys)]"
  shows "\<exists>h'. play_tree_remove (pt_addr t) True True h = Some h' \<and> turns h [plug fs (xs @ t # ys)] h' [plug fs (xs @ ys)]"
proof -
  obtain h1 where h1: "play_tree_unlink (pt_addr t) h = Some h1" "turns h [plug fs (xs @ t # ys)] h1 [plug fs (xs @ ys), [t]]"
    using unlink_turns [OF assms] by blast
  then have "forests h1 ([[t]] @ [plug fs (xs @ ys)])" by (auto simp: turns_def forests_def)
  moreover from this have "forests h1 [plug [] ([] @ t # [])]" by (simp add: forests_def)
  from free_turns [OF this] obtain h2 where h2: "play_tree_free (Some (pt_addr t)) True h1 = Some h2" "turns h1 [[t]] h2 [[]]" by auto
  ultimately have "turns h1 ([[t]] @ [plug fs (xs @ ys)]) h2 ([[]] @ [plug fs (xs @ ys)])" by (intro turns_frame)
  then have "turns h1 [plug fs (xs @ ys), [t]] h2 [plug fs (xs @ ys)]"
    using turns_mset [of "[[t]] @ [plug fs (xs @ ys)]" "[plug fs (xs @ ys), [t]]"] by (simp add: add_mset_commute)
  then show ?thesis using h1 h2(1) turns_trans by (auto simp: play_tree_remove_def)
qed

lemma free_list_from_turns:
  "forests h [ts] \<Longrightarrow> \<exists>h'. free_list_from True (first_of None ts) h = Some h' \<and> turns h [ts] h' [[]]"
proof (induction ts arbitrary: h)
  case Nil
  then show ?case by (auto simp: free_list_from.simps turns_def forests_def changes_in_def)
next
  case (Cons t ts)
  obtain h1 where h1: "play_tree_free (Some (pt_addr t)) True h = Some h1" "turns h [t # ts] h1 [ts]"
    using free_turns [of h "[]" "[]" t ts] Cons.prems by auto
  then obtain h2 where h2: "free_list_from True (first_of None ts) h1 = Some h2" "turns h1 [ts] h2 [[]]"
    using Cons.IH [of h1] by (auto simp: turns_def)
  have "free_list_from True (first_of None (t # ts)) h = Some h2"
    using h1(1) h2(1) forestsD(1) [OF Cons.prems] by (subst free_list_from.simps) (simp add: seg_Cons)
  then show ?case using turns_trans [OF h1(2) h2(2)] by blast
qed

lemma first_entry_root:
  assumes "seg h par None (xs @ t # ys) None"
  shows "first_entry h (pt_addr t) = first_of None (xs @ t # ys)"
proof -
  have "seg h par None (xs @ [t]) (first_of None ys)" using assms by (simp add: seg_Cons)
  from first_entry_seg [OF this] show ?thesis by simp
qed

lemma free_list_turns:
  assumes "forests h [xs @ t # ys]"
  shows "\<exists>h'. play_tree_free_list (pt_addr t) True h = Some h' \<and> turns h [xs @ t # ys] h' [[]]"
proof -
  have "first_of None (xs @ t # ys) = Some (pt_addr (hd (xs @ t # ys)))" by (cases xs) simp_all
  then show ?thesis using free_list_from_turns [OF assms] first_entry_root [OF forestsD(1) [OF assms]]
    by (auto simp: play_tree_free_list_def)
qed

text \<open>Setting the children of \<open>a\<close>: those it had become a list of their own.\<close>

lemma set_child_turns:
  assumes "forests h [plug fs (xs @ PT a n cs # ys), us @ t # vs]"
  shows "\<exists>h'. play_tree_set_child (Some a) (Some (pt_addr t)) h = Some h' \<and>
    turns h [plug fs (xs @ PT a n cs # ys), us @ t # vs] h' [plug fs (xs @ PT a n (us @ t # vs) # ys), cs]"
proof -
  let ?fs = "(xs, a, n, ys) # fs" and ?K = "us @ t # vs"
  have s: "seg h (Some a) None cs None" "frames h ?fs (first_of None cs)" "seg h None None ?K None"
    using assms by (auto simp: forests_def seg_plug)
  have "distinct (addrs (plug ?fs cs))" using assms by (simp add: forests_def)
  then have d: "distinct (frames_addrs ?fs)" "distinct (addrs cs)" "set (frames_addrs ?fs) \<inter> set (addrs cs) = {}"
    unfolding distinct_addrs_plug by blast+
  have k: "distinct (addrs ?K)" "set (addrs ?K) \<inter> set (frames_addrs ?fs) = {}" "set (addrs ?K) \<inter> set (addrs cs) = {}"
    using assms by (auto simp: forests_def)
  obtain h1 where h1: "set_parents None (first_of None cs) h = Some h1" "seg h1 None None cs None" "changes_in (set (addrs cs)) h h1"
    using set_parents_seg [OF s(1) d(2)] by blast
  have K1: "seg h1 None None ?K None" using s(3) k(3) by (subst seg_changes [OF h1(3)]) auto
  have "frames h1 ?fs (first_of None cs)" using s(2) d(3) h1(3) by (subst frames_cong [of ?fs h1 h]) (auto simp: changes_in_def)
  from frames_set_child [OF this d(1), of a] obtain m where m: "h1 a = Some m" "frames (h1(a \<mapsto> m\<lparr>pt_child := first_of None ?K\<rparr>)) ?fs (first_of None ?K)"
    by auto
  let ?h2 = "h1(a \<mapsto> m\<lparr>pt_child := first_of None ?K\<rparr>)"
  have a: "a \<notin> set (addrs ?K)" "a \<notin> set (addrs cs)" using k(2) d(3) by auto
  then have "seg ?h2 None None ?K None" using K1 by simp
  from set_parents_seg [OF this k(1), of "Some a"] obtain h3 where
    h3: "set_parents (Some a) (first_of None ?K) ?h2 = Some h3" "seg h3 (Some a) None ?K None" "changes_in (set (addrs ?K)) ?h2 h3" by blast
  have "frames h3 ?fs (first_of None ?K)" using m(2) k(2) h3(3) by (subst frames_cong [of ?fs h3 ?h2]) (auto simp: changes_in_def)
  then have new: "seg h3 None None (plug ?fs ?K) None" using h3(2) unfolding seg_plug by simp
  have cs3: "seg h3 None None cs None" using h1(2) a(2) k(3) by (subst seg_changes [OF h3(3)]) auto
  have first: "first_of None ?K = Some (pt_addr (hd ?K))" by (cases us) simp_all
  have "play_tree_set_child (Some a) (Some (pt_addr t)) h = Some h3"
    using s(2) h1(1) first_entry_root [OF K1] m(1) h3(1) first by (simp add: play_tree_set_child_def pt_upd_def)
  moreover have "changes_in (set (all_addrs [plug ?fs cs, ?K])) h h3" using h1(3) h3(3) by (auto simp: changes_in_def)
  ultimately show ?thesis using new cs3 assms by (auto simp: turns_def forests_def distinct_addrs_plug)
qed

text \<open>Changing the data of a node.\<close>

lemma data_turns:
  assumes "forests h [plug fs (xs @ PT a n cs # ys)]" "\<And>par chd nxt prv m. f (links par chd nxt prv m) = links par chd nxt prv (f m)"
  shows "\<exists>par chd nxt prv. h a = Some (links par chd nxt prv n) \<and>
    turns h [plug fs (xs @ PT a n cs # ys)] (h(a \<mapsto> f (links par chd nxt prv n))) [plug fs (xs @ PT a (f n) cs # ys)]"
proof -
  have s: "seg h (hole_par fs) None (xs @ PT a n cs # ys) None" "frames h fs (first_of None (xs @ PT a n cs # ys))"
    using forestsD(1) [OF assms(1)] by (simp_all add: seg_plug)
  have d: "distinct (frames_addrs fs)" "distinct (addrs (xs @ PT a n cs # ys))" "set (frames_addrs fs) \<inter> set (addrs (xs @ PT a n cs # ys)) = {}"
    using forestsD(2) [OF assms(1)] by (simp_all add: distinct_addrs_plug)
  let ?m = "links (hole_par fs) (first_of None cs) (first_of None ys) (last_of None xs) n"
  have "h a = Some ?m" using s(1) by simp
  moreover have "seg (h(a \<mapsto> f ?m)) None None (plug fs (xs @ PT a (f n) cs # ys)) None" using s d by (simp add: seg_plug assms(2))
  moreover from this have "turns h [plug fs (xs @ PT a n cs # ys)] (h(a \<mapsto> f ?m)) [plug fs (xs @ PT a (f n) cs # ys)]"
    using d by (auto simp: turns_def forests_def changes_in_def distinct_addrs_plug)
  ultimately show ?thesis by blast
qed

section \<open>Files, parameters and validity\<close>

text \<open>What \<open>play_tree_set_params_from\<close> makes of the destination's data.\<close>

definition inherit_params :: "play_tree \<Rightarrow> play_tree \<Rightarrow> play_tree" where
  "inherit_params s d = (if pt_params s = [] then d else d\<lparr>pt_params := pt_params d @ pt_params s,
     pt_flags := (if pt_flags s AND PLAY_TREE_RND \<noteq> 0 then pt_flags d OR PLAY_TREE_RND else pt_flags d)\<rparr>)"

lemma set_params_loop_copies:
  assumes "h src = Some s" "dest \<noteq> src"
  shows "h dest = Some d \<Longrightarrow> set_params_loop i dest src h = Some (h(dest \<mapsto> d\<lparr>pt_params := pt_params d @ drop i (pt_params s)\<rparr>))"
  using assms(1)
proof (induction "length (pt_params s) - i" arbitrary: i d h)
  case 0
  then show ?case by (subst set_params_loop.simps) (simp add: fun_upd_idem)
next
  case (Suc k)
  let ?p = "pt_params s ! i" and ?h = "h(dest \<mapsto> d\<lparr>pt_params := pt_params d @ [pt_params s ! i]\<rparr>)"
  have i: "i < length (pt_params s)" using Suc.hyps(2) by simp
  then have dr: "drop i (pt_params s) = ?p # drop (i + 1) (pt_params s)" by (simp add: Cons_nth_drop_Suc)
  have "set_params_loop (i + 1) dest src ?h =
    Some (?h(dest \<mapsto> (d\<lparr>pt_params := pt_params d @ [?p]\<rparr>)\<lparr>pt_params := pt_params (d\<lparr>pt_params := pt_params d @ [?p]\<rparr>) @ drop (i + 1) (pt_params s)\<rparr>))"
    by (rule Suc.hyps(1)) (use Suc assms(2) in simp_all)
  moreover have "set_params_loop i dest src h = set_params_loop (i + 1) dest src ?h"
    using i Suc.prems by (subst set_params_loop.simps) (simp add: play_tree_set_param_def pt_upd_def)
  ultimately show ?case by (simp add: dr)
qed

lemma set_params_from_heap:
  assumes "h src = Some s" "dest \<noteq> src" "h dest = Some d"
  shows "play_tree_set_params_from dest src h = Some (h(dest \<mapsto> inherit_params s d))"
  using assms set_params_loop_copies [OF assms, of 0]
  by (simp add: play_tree_set_params_from_def inherit_params_def pt_upd_def fun_upd_idem)

text \<open>An entry is valid when something can be played in it.\<close>

fun tree_valid :: "ptree \<Rightarrow> bool" where
  "tree_valid (PT a n cs) \<longleftrightarrow> pt_entry_type n \<noteq> PLAY_TREE_ENTRY_NODE \<or> list_ex tree_valid cs"

lemma any_valid_seg: "seg h par prv ts None \<Longrightarrow> any_valid h (first_of None ts) = Some (list_ex tree_valid ts)"
proof (induction ts arbitrary: par prv rule: addrs.induct)
  case 1
  then show ?case by (subst any_valid.simps) simp
next
  case (2 a n cs ts)
  then have "any_valid h (first_of None cs) = Some (list_ex tree_valid cs)" "any_valid h (first_of None ts) = Some (list_ex tree_valid ts)"
    using "2.IH"(1) [of "Some a" None] "2.IH"(2) [of par "Some a"] by simp_all
  then show ?case using "2.prems" by (subst any_valid.simps) simp
qed

lemma is_valid_seg:
  assumes "seg h par prv (xs @ t # ys) None"
  shows "play_tree_is_valid h (pt_addr t) = Some (tree_valid t)"
proof (cases t)
  case (PT a n cs)
  then have "any_valid h (first_of None cs) = Some (list_ex tree_valid cs)" using assms any_valid_seg [of h "Some a" None cs] by simp
  then show ?thesis using assms PT by (simp add: play_tree_is_valid_def)
qed

text \<open>The tree without its invalid entries.\<close>

fun clean :: "ptree \<Rightarrow> ptree" where
  "clean (PT a n cs) = PT a n (map clean (filter tree_valid cs))"

lemma drop_invalid_turns:
  "forests h [plug fs (xs @ ys)] \<Longrightarrow> \<exists>h'. drop_invalid (first_of None ys) (first_of None (xs @ ys)) h =
     Some (first_of None (xs @ filter tree_valid ys), h') \<and> turns h [plug fs (xs @ ys)] h' [plug fs (xs @ filter tree_valid ys)]"
proof (induction ys arbitrary: h xs)
  case Nil
  then show ?case by (auto simp: drop_invalid.simps turns_def changes_in_def)
next
  case (Cons t ts)
  have s: "seg h (hole_par fs) None (xs @ t # ts) None" using forestsD(1) [OF Cons.prems] by (simp add: seg_plug)
  then have n: "\<exists>n. h (pt_addr t) = Some n \<and> pt_next n = first_of None ts" by (simp add: seg_Cons)
  show ?case
  proof (cases "tree_valid t")
    case True
    have "drop_invalid (first_of None (t # ts)) (first_of None (xs @ t # ts)) h = drop_invalid (first_of None ts) (first_of None ((xs @ [t]) @ ts)) h"
      using n is_valid_seg [OF s] True by (subst drop_invalid.simps) auto
    then show ?thesis using Cons.IH [of h "xs @ [t]"] Cons.prems True by simp
  next
    case False
    from remove_turns [OF Cons.prems] obtain h1 where
      h1: "play_tree_remove (pt_addr t) True True h = Some h1" "turns h [plug fs (xs @ t # ts)] h1 [plug fs (xs @ ts)]" by blast
    then obtain h2 where h2: "drop_invalid (first_of None ts) (first_of None (xs @ ts)) h1 = Some (first_of None (xs @ filter tree_valid ts), h2)"
      "turns h1 [plug fs (xs @ ts)] h2 [plug fs (xs @ filter tree_valid ts)]"
      using Cons.IH [of h1 xs] by (auto simp: turns_def)
    have "(if Some (pt_addr t) = first_of None (xs @ t # ts) then first_of None ts else first_of None (xs @ t # ts)) = first_of None (xs @ ts)"
    proof (cases xs)
      case (Cons x us)
      have "pt_addr x \<noteq> pt_addr t" using forestsD(2) [OF Cons.prems] by (auto simp: distinct_addrs_plug Cons addrs_Cons)
      then show ?thesis by (simp add: Cons)
    qed simp
    then have "drop_invalid (first_of None (t # ts)) (first_of None (xs @ t # ts)) h = drop_invalid (first_of None ts) (first_of None (xs @ ts)) h1"
      using n is_valid_seg [OF s] False h1(1) by (subst drop_invalid.simps) auto
    then show ?thesis using h2 turns_trans [OF h1(2) h2(2)] False by auto
  qed
qed

lemma length_addrs_filter: "length (addrs (filter P ts)) \<le> length (addrs ts)"
  by (induction ts rule: addrs.induct) auto

lemma cleanup_list_turns:
  "forests h [plug fs (xs @ ys)] \<Longrightarrow> list_all tree_valid ys \<Longrightarrow>
    \<exists>h'. cleanup_list (first_of None ys) h = Some h' \<and> turns h [plug fs (xs @ ys)] h' [plug fs (xs @ map clean ys)]"
proof (induction "length (addrs ys)" arbitrary: h fs xs ys rule: less_induct)
  case less
  show ?case
  proof (cases ys)
    case Nil
    then show ?thesis using less.prems(1) by (auto simp: cleanup_list.simps turns_def changes_in_def)
  next
    case (Cons t ts)
    obtain a n cs where t: "t = PT a n cs" by (cases t)
    have s: "seg h (hole_par fs) None (xs @ t # ts) None" using forestsD(1) [OF less.prems(1)] by (simp add: seg_plug Cons)
    then have ha: "h a = Some (links (hole_par fs) (first_of None cs) (first_of None ts) (last_of None xs) n)" by (simp add: t)
    have valid: "play_tree_is_valid h a = Some True" using is_valid_seg [OF s] less.prems(2) by (simp add: Cons t)
    let ?fs = "(xs, a, n, ts) # fs" and ?cs = "filter tree_valid cs"
    have place: "plug fs (xs @ ys) = plug ?fs ([] @ cs)" by (simp add: Cons t)
    obtain h1 where h1: "drop_invalid (first_of None cs) (first_of None cs) h = Some (first_of None ?cs, h1)"
      "turns h [plug fs (xs @ ys)] h1 [plug ?fs ?cs]"
      using drop_invalid_turns [of h ?fs "[]" cs] less.prems(1) by (auto simp: place)
    then have f1: "forests h1 [plug ?fs ([] @ ?cs)]" by (simp add: turns_def)
    have "length (addrs ?cs) < length (addrs ys)" using length_addrs_filter [of tree_valid cs] by (simp add: Cons t)
    from less.hyps [OF this f1] obtain h2 where h2: "cleanup_list (first_of None ?cs) h1 = Some h2"
      "turns h1 [plug ?fs ?cs] h2 [plug ?fs (map clean ?cs)]" by (auto simp: list_all_iff)
    have place2: "plug ?fs (map clean ?cs) = plug fs ((xs @ [clean t]) @ ts)" by (simp add: t)
    have f2: "forests h2 [plug fs ((xs @ [clean t]) @ ts)]" using h2(2) by (simp only: turns_def place2)
    have "length (addrs ts) < length (addrs ys)" by (simp add: Cons t)
    from less.hyps [OF this f2] less.prems(2) obtain h3 where h3: "cleanup_list (first_of None ts) h2 = Some h3"
      "turns h2 [plug fs ((xs @ [clean t]) @ ts)] h3 [plug fs ((xs @ [clean t]) @ map clean ts)]" by (auto simp: Cons)
    have "cleanup_list (first_of None ys) h = Some h3"
      using ha valid h1(1) h2(1) h3(1) by (subst cleanup_list.simps) (simp add: Cons t)
    moreover have "turns h [plug fs (xs @ ys)] h3 [plug fs (xs @ map clean ys)]"
      using turns_trans [OF turns_trans [OF h1(2) h2(2) [unfolded place2]] h3(2)] by (simp add: Cons)
    ultimately show ?thesis by blast
  qed
qed

lemma cleanup_turns:
  assumes "forests h [plug fs (xs @ t # ys)]"
  shows "\<exists>h'. play_tree_cleanup (pt_addr t) h = Some (if tree_valid t then Some (pt_addr t) else None, h') \<and>
    turns h [plug fs (xs @ t # ys)] h' [plug fs (xs @ (if tree_valid t then [clean t] else []) @ ys)]"
proof -
  obtain a n cs where t: "t = PT a n cs" by (cases t)
  have s: "seg h (hole_par fs) None (xs @ t # ys) None" using forestsD(1) [OF assms] by (simp add: seg_plug)
  show ?thesis
  proof (cases "tree_valid t")
    case False
    then show ?thesis using is_valid_seg [OF s] remove_turns [OF assms] by (auto simp: play_tree_cleanup_def)
  next
    case True
    let ?fs = "(xs, a, n, ys) # fs" and ?cs = "filter tree_valid cs"
    obtain h1 where h1: "drop_invalid (first_of None cs) (first_of None cs) h = Some (first_of None ?cs, h1)"
      "turns h [plug fs (xs @ t # ys)] h1 [plug ?fs ?cs]"
      using drop_invalid_turns [of h ?fs "[]" cs] assms by (auto simp: t)
    then obtain h2 where h2: "cleanup_list (first_of None ?cs) h1 = Some h2" "turns h1 [plug ?fs ?cs] h2 [plug ?fs (map clean ?cs)]"
      using cleanup_list_turns [of h1 ?fs "[]" ?cs] by (auto simp: turns_def list_all_iff)
    have "play_tree_cleanup (pt_addr t) h = Some (Some (pt_addr t), h2)"
      using is_valid_seg [OF s] True s h1(1) h2(1) by (simp add: play_tree_cleanup_def t)
    then show ?thesis using turns_trans [OF h1(2) h2(2)] True by (auto simp: t)
  qed
qed

section \<open>Every sequence of calls\<close>

text \<open>The heap holds exactly these lists, and nothing is lost.\<close>

definition heap_is :: "pt_heap \<Rightarrow> ptree list list \<Rightarrow> bool" where
  "heap_is h Fs \<longleftrightarrow> forests h Fs \<and> dom h = set (all_addrs Fs)"

lemma forests_defined: "forests h Fs \<Longrightarrow> a \<in> set (all_addrs Fs) \<Longrightarrow> h a \<noteq> None"
  unfolding forests_def all_addrs_def using seg_defined by fastforce

lemma heap_is_turns:
  assumes "heap_is h Hs" "mset Hs = mset (Fs @ Ms)" "turns h Fs h' Gs"
  shows "heap_is h' (Gs @ Ms)"
proof -
  have f: "forests h (Fs @ Ms)" "dom h = set (all_addrs (Fs @ Ms))"
    using assms(1,2) forests_mset [OF assms(2)] set_all_addrs_mset [OF assms(2)] by (simp_all add: heap_is_def)
  from turns_frame [OF f(1) assms(3)] have t: "turns h (Fs @ Ms) h' (Gs @ Ms)" .
  have "h' a \<noteq> None \<longleftrightarrow> a \<in> set (all_addrs (Gs @ Ms))" for a
  proof (cases "a \<in> set (all_addrs (Gs @ Ms))")
    case True
    then show ?thesis using t forests_defined [of h' "Gs @ Ms" a] by (simp add: turns_def)
  next
    case False
    then show ?thesis using t f(2) by (cases "a \<in> set (all_addrs (Fs @ Ms))") (auto simp: turns_def changes_in_def)
  qed
  then show ?thesis using t by (auto simp: heap_is_def turns_def)
qed

text \<open>The calls, and what each does to the lists. An entry that is linked must be alone; the source and the destination of
  parameters must differ.\<close>

datatype pt_op = OP_NEW nat | OP_APPEND nat nat | OP_PREPEND nat nat | OP_INSERT nat nat | OP_REMOVE nat bool | OP_FREE nat
  | OP_FREE_LIST nat | OP_SET_CHILD nat nat | OP_ADD_FILE nat string | OP_SET_PARAM nat string "string option"
  | OP_SET_PARAMS_FROM nat nat | OP_CLEANUP nat

fun run_op :: "pt_op \<Rightarrow> pt_heap \<Rightarrow> pt_heap option" where
  "run_op (OP_NEW a) h = Some (play_tree_new a h)"
| "run_op (OP_APPEND pt e) h = play_tree_append_entry pt e h"
| "run_op (OP_PREPEND pt e) h = play_tree_prepend_entry pt e h"
| "run_op (OP_INSERT pt e) h = play_tree_insert_entry pt e h"
| "run_op (OP_REMOVE pt free_it) h = play_tree_remove pt free_it True h"
| "run_op (OP_FREE pt) h = play_tree_free (Some pt) True h"
| "run_op (OP_FREE_LIST pt) h = play_tree_free_list pt True h"
| "run_op (OP_SET_CHILD pt c) h = play_tree_set_child (Some pt) (Some c) h"
| "run_op (OP_ADD_FILE pt f) h = play_tree_add_file pt f h"
| "run_op (OP_SET_PARAM pt k v) h = play_tree_set_param pt k v h"
| "run_op (OP_SET_PARAMS_FROM d s) h = play_tree_set_params_from d s h"
| "run_op (OP_CLEANUP pt) h = map_option snd (play_tree_cleanup pt h)"

fun run_ops :: "pt_op list \<Rightarrow> pt_heap \<Rightarrow> pt_heap option" where
  "run_ops [] h = Some h"
| "run_ops (op # ops) h = do { h \<leftarrow> run_op op h; run_ops ops h }"

definition add_file :: "string \<Rightarrow> play_tree \<Rightarrow> play_tree" where
  "add_file f n = (if pt_entry_type n \<in> {PLAY_TREE_ENTRY_NODE, PLAY_TREE_ENTRY_FILE}
     then n\<lparr>pt_files := pt_files n @ [f], pt_entry_type := PLAY_TREE_ENTRY_FILE\<rparr> else n)"

definition occurs :: "ptree list list \<Rightarrow> nat \<Rightarrow> play_tree \<Rightarrow> bool" where
  "occurs Fs a n \<longleftrightarrow> (\<exists>fs xs cs ys Ms. mset Fs = mset (plug fs (xs @ PT a n cs # ys) # Ms))"

definition empty_node :: play_tree where
  "empty_node = \<lparr>pt_parent = None, pt_child = None, pt_next = None, pt_prev = None, pt_params = [],
     pt_loop = 0, pt_files = [], pt_entry_type = PLAY_TREE_ENTRY_NODE, pt_flags = 0\<rparr>"

inductive tree_step :: "ptree list list \<Rightarrow> pt_op \<Rightarrow> ptree list list \<Rightarrow> bool" where
  step_new: "a \<notin> set (all_addrs Fs) \<Longrightarrow> tree_step Fs (OP_NEW a) ([PT a empty_node []] # Fs)"
| step_append: "mset Fs = mset ([plug fs (ts @ [l]), [e]] @ Ms) \<Longrightarrow> t \<in> set (ts @ [l]) \<Longrightarrow>
    tree_step Fs (OP_APPEND (pt_addr t) (pt_addr e)) ([plug fs (ts @ [l, e])] @ Ms)"
| step_prepend: "mset Fs = mset ([plug fs (f # ts), [e]] @ Ms) \<Longrightarrow> t \<in> set (f # ts) \<Longrightarrow>
    tree_step Fs (OP_PREPEND (pt_addr t) (pt_addr e)) ([plug fs (e # f # ts)] @ Ms)"
| step_insert: "mset Fs = mset ([plug fs (xs @ t # ys), [e]] @ Ms) \<Longrightarrow>
    tree_step Fs (OP_INSERT (pt_addr t) (pt_addr e)) ([plug fs (xs @ t # e # ys)] @ Ms)"
| step_remove: "mset Fs = mset ([plug fs (xs @ t # ys)] @ Ms) \<Longrightarrow>
    tree_step Fs (OP_REMOVE (pt_addr t) free_it) ((if free_it then [plug fs (xs @ ys)] else [plug fs (xs @ ys), [t]]) @ Ms)"
| step_free: "mset Fs = mset ([plug fs (xs @ t # ys)] @ Ms) \<Longrightarrow> tree_step Fs (OP_FREE (pt_addr t)) ([plug fs (xs @ ys)] @ Ms)"
| step_free_list: "mset Fs = mset ([xs @ t # ys] @ Ms) \<Longrightarrow> tree_step Fs (OP_FREE_LIST (pt_addr t)) Ms"
| step_set_child: "mset Fs = mset ([plug fs (xs @ PT a n cs # ys), us @ t # vs] @ Ms) \<Longrightarrow>
    tree_step Fs (OP_SET_CHILD a (pt_addr t)) ([plug fs (xs @ PT a n (us @ t # vs) # ys), cs] @ Ms)"
| step_add_file: "mset Fs = mset ([plug fs (xs @ PT a n cs # ys)] @ Ms) \<Longrightarrow>
    tree_step Fs (OP_ADD_FILE a file) ([plug fs (xs @ PT a (add_file file n) cs # ys)] @ Ms)"
| step_set_param: "mset Fs = mset ([plug fs (xs @ PT a n cs # ys)] @ Ms) \<Longrightarrow>
    tree_step Fs (OP_SET_PARAM a k v) ([plug fs (xs @ PT a (n\<lparr>pt_params := pt_params n @ [(k, v)]\<rparr>) cs # ys)] @ Ms)"
| step_set_params_from: "mset Fs = mset ([plug fs (xs @ PT a n cs # ys)] @ Ms) \<Longrightarrow> occurs Fs b m \<Longrightarrow> a \<noteq> b \<Longrightarrow>
    tree_step Fs (OP_SET_PARAMS_FROM a b) ([plug fs (xs @ PT a (inherit_params m n) cs # ys)] @ Ms)"
| step_cleanup: "mset Fs = mset ([plug fs (xs @ t # ys)] @ Ms) \<Longrightarrow>
    tree_step Fs (OP_CLEANUP (pt_addr t)) ([plug fs (xs @ (if tree_valid t then [clean t] else []) @ ys)] @ Ms)"

inductive tree_run :: "ptree list list \<Rightarrow> pt_op list \<Rightarrow> ptree list list \<Rightarrow> bool" where
  run_done: "tree_run Fs [] Fs"
| run_next: "tree_step Fs op Gs \<Longrightarrow> tree_run Gs ops Hs \<Longrightarrow> tree_run Fs (op # ops) Hs"

lemma heap_is_part:
  assumes "heap_is h Fs" "mset Fs = mset (Gs @ Ms)"
  shows "forests h Gs"
proof -
  have "forests h (Gs @ Ms)" using assms forests_mset [OF assms(2)] by (simp add: heap_is_def)
  then show ?thesis by (simp add: forests_def)
qed

lemma occurs_heap:
  assumes "heap_is h Fs" "occurs Fs a n"
  shows "\<exists>par chd nxt prv. h a = Some (links par chd nxt prv n)"
proof -
  obtain fs xs cs ys Ms where "mset Fs = mset ([plug fs (xs @ PT a n cs # ys)] @ Ms)" using assms(2) by (auto simp: occurs_def)
  from heap_is_part [OF assms(1) this] show ?thesis by (auto simp: forests_def seg_plug)
qed

lemma new_heap: "heap_is h Fs \<Longrightarrow> a \<notin> set (all_addrs Fs) \<Longrightarrow> heap_is (play_tree_new a h) ([PT a empty_node []] # Fs)"
proof -
  assume a: "heap_is h Fs" "a \<notin> set (all_addrs Fs)"
  then have "forests (play_tree_new a h) Fs"
    using forests_changes [of "{a}" h "play_tree_new a h" Fs] by (auto simp: heap_is_def changes_in_def play_tree_new_def)
  moreover have "play_tree_new a h a = Some (links None None None None empty_node)" by (simp add: play_tree_new_def links_def empty_node_def)
  moreover have "dom (play_tree_new a h) = insert a (dom h)" by (auto simp: play_tree_new_def)
  ultimately show ?thesis using a by (auto simp: heap_is_def forests_def)
qed

lemma tree_step_heap:
  assumes "tree_step Fs op Gs" "heap_is h Fs"
  shows "\<exists>h'. run_op op h = Some h' \<and> heap_is h' Gs"
  using assms
proof (induction rule: tree_step.induct)
  case (step_new a Fs)
  then show ?case using new_heap by auto
next
  case (step_append Fs fs ts l e Ms t)
  from append_turns [OF heap_is_part [OF step_append(3,1)] step_append(2)] heap_is_turns [OF step_append(3,1)] show ?case by fastforce
next
  case (step_prepend Fs fs f ts e Ms t)
  from prepend_turns [OF heap_is_part [OF step_prepend(3,1)] step_prepend(2)] heap_is_turns [OF step_prepend(3,1)] show ?case by fastforce
next
  case (step_insert Fs fs xs t ys e Ms)
  from insert_turns [OF heap_is_part [OF step_insert(2,1)]] heap_is_turns [OF step_insert(2,1)] show ?case by fastforce
next
  case (step_remove Fs fs xs t ys Ms free_it)
  show ?case
  proof (cases free_it)
    case True
    from remove_turns [OF heap_is_part [OF step_remove(2,1)]] heap_is_turns [OF step_remove(2,1)] True show ?thesis by fastforce
  next
    case False
    from unlink_turns [OF heap_is_part [OF step_remove(2,1)]] heap_is_turns [OF step_remove(2,1)] False show ?thesis
      by (fastforce simp: play_tree_remove_def)
  qed
next
  case (step_free Fs fs xs t ys Ms)
  from free_turns [OF heap_is_part [OF step_free(2,1)]] heap_is_turns [OF step_free(2,1)] show ?case by fastforce
next
  case (step_free_list Fs xs t ys Ms)
  from free_list_turns [OF heap_is_part [OF step_free_list(2,1)]] obtain h' where
    h': "play_tree_free_list (pt_addr t) True h = Some h'" "turns h [xs @ t # ys] h' [[]]" by blast
  from heap_is_turns [OF step_free_list(2,1) h'(2)] show ?case using h'(1) by (auto simp: heap_is_def)
next
  case (step_set_child Fs fs xs a n cs ys us t vs Ms)
  from set_child_turns [OF heap_is_part [OF step_set_child(2,1)]] heap_is_turns [OF step_set_child(2,1)] show ?case by fastforce
next
  case (step_add_file Fs fs xs a n cs ys Ms name)
  from data_turns [OF heap_is_part [OF step_add_file(2,1)], of "add_file name"] obtain par chd nxt prv where
    d: "h a = Some (links par chd nxt prv n)"
    "turns h [plug fs (xs @ PT a n cs # ys)] (h(a \<mapsto> add_file name (links par chd nxt prv n))) [plug fs (xs @ PT a (add_file name n) cs # ys)]"
    by (auto simp: add_file_def links_def)
  have "run_op (OP_ADD_FILE a name) h = Some (h(a \<mapsto> add_file name (links par chd nxt prv n)))"
    using d(1) by (auto simp: play_tree_add_file_def add_file_def fun_upd_idem)
  then show ?case using heap_is_turns [OF step_add_file(2,1) d(2)] by auto
next
  case (step_set_param Fs fs xs a n cs ys Ms k v)
  from data_turns [OF heap_is_part [OF step_set_param(2,1)], of "\<lambda>n. n\<lparr>pt_params := pt_params n @ [(k, v)]\<rparr>"] obtain par chd nxt prv where
    d: "h a = Some (links par chd nxt prv n)"
    "turns h [plug fs (xs @ PT a n cs # ys)] (h(a \<mapsto> (links par chd nxt prv n)\<lparr>pt_params := pt_params (links par chd nxt prv n) @ [(k, v)]\<rparr>))
      [plug fs (xs @ PT a (n\<lparr>pt_params := pt_params n @ [(k, v)]\<rparr>) cs # ys)]"
    by (auto simp: links_def)
  have "run_op (OP_SET_PARAM a k v) h = Some (h(a \<mapsto> (links par chd nxt prv n)\<lparr>pt_params := pt_params (links par chd nxt prv n) @ [(k, v)]\<rparr>))"
    using d(1) by (simp add: play_tree_set_param_def pt_upd_def)
  then show ?case using heap_is_turns [OF step_set_param(2,1) d(2)] by auto
next
  case (step_set_params_from Fs fs xs a n cs ys Ms b m)
  obtain par' chd' nxt' prv' where b: "h b = Some (links par' chd' nxt' prv' m)" using occurs_heap [OF step_set_params_from(4,2)] by blast
  from data_turns [OF heap_is_part [OF step_set_params_from(4,1)], of "inherit_params m"] obtain par chd nxt prv where
    d: "h a = Some (links par chd nxt prv n)"
    "turns h [plug fs (xs @ PT a n cs # ys)] (h(a \<mapsto> inherit_params m (links par chd nxt prv n))) [plug fs (xs @ PT a (inherit_params m n) cs # ys)]"
    by (auto simp: inherit_params_def links_def)
  have "inherit_params (links par' chd' nxt' prv' m) d = inherit_params m d" for d by (simp add: inherit_params_def)
  then have "run_op (OP_SET_PARAMS_FROM a b) h = Some (h(a \<mapsto> inherit_params m (links par chd nxt prv n)))"
    using set_params_from_heap [OF b step_set_params_from(3) d(1)] by simp
  then show ?case using heap_is_turns [OF step_set_params_from(4,1) d(2)] by auto
next
  case (step_cleanup Fs fs xs t ys Ms)
  from cleanup_turns [OF heap_is_part [OF step_cleanup(2,1)]] heap_is_turns [OF step_cleanup(2,1)] show ?case by fastforce
qed

lemma tree_run_heap:
  "tree_run Fs ops Gs \<Longrightarrow> heap_is h Fs \<Longrightarrow> \<exists>h'. run_ops ops h = Some h' \<and> heap_is h' Gs"
proof (induction arbitrary: h rule: tree_run.induct)
  case (run_next Fs op Gs ops Hs)
  from tree_step_heap [OF run_next.hyps(1) run_next.prems] obtain h1 where "run_op op h = Some h1" "heap_is h1 Gs" by blast
  then show ?case using run_next.IH [of h1] by auto
qed simp

section \<open>Properties\<close>

text \<open>C15: Calls of the functions that build, link, unlink, clean up and free play trees, in any order and with any entries
  that exist, do to the linked nodes in the heap what they are meant to do to lists of trees: every call returns, never uses a
  node that was freed and never frees one twice, all pointers to parents, children and siblings agree with the lists, and the
  nodes in the heap are exactly those of the lists, so that none is lost.\<close>

theorem play_tree_simulation:
  assumes "tree_run [] ops Fs"
  shows "\<exists>h. run_ops ops Map.empty = Some h \<and> heap_is h Fs"
  by (rule tree_run_heap [OF assms]) (simp add: heap_is_def forests_def)

text \<open>A directory 0 with a file 1 and an empty entry 2, which is cleaned up.\<close>

theorem play_tree_simulation_witness:
  "\<exists>h. run_ops [OP_NEW 2, OP_NEW 0, OP_NEW 1, OP_ADD_FILE 1 ''a.mp3'', OP_SET_CHILD 0 1, OP_REMOVE 1 False, OP_FREE 1, OP_NEW 1,
      OP_ADD_FILE 1 ''a.mp3'', OP_APPEND 1 2, OP_SET_CHILD 0 2, OP_CLEANUP 0] Map.empty = Some h \<and>
    heap_is h [[PT 0 empty_node [PT 1 (add_file ''a.mp3'' empty_node) []]]]"
proof -
  let ?e = empty_node and ?f = "add_file ''a.mp3'' empty_node"
  have v: "tree_valid (PT 1 ?f [])" "\<not> tree_valid (PT 2 ?e [])" by (simp_all add: add_file_def empty_node_def)
  have 1: "tree_step [] (OP_NEW 2) [[PT 2 ?e []]]" by (rule step_new) simp
  have 2: "tree_step [[PT 2 ?e []]] (OP_NEW 0) [[PT 0 ?e []], [PT 2 ?e []]]" by (rule step_new) simp
  have 3: "tree_step [[PT 0 ?e []], [PT 2 ?e []]] (OP_NEW 1) [[PT 1 ?e []], [PT 0 ?e []], [PT 2 ?e []]]" by (rule step_new) simp
  have 4: "tree_step [[PT 1 ?e []], [PT 0 ?e []], [PT 2 ?e []]] (OP_ADD_FILE 1 ''a.mp3'') [[PT 1 ?f []], [PT 0 ?e []], [PT 2 ?e []]]"
    using step_add_file [where fs = "[]" and xs = "[]" and ys = "[]" and a = 1 and Ms = "[[PT 0 ?e []], [PT 2 ?e []]]"] by simp
  have 5: "tree_step [[PT 1 ?f []], [PT 0 ?e []], [PT 2 ?e []]] (OP_SET_CHILD 0 1) [[PT 0 ?e [PT 1 ?f []]], [], [PT 2 ?e []]]"
    using step_set_child [where fs = "[]" and xs = "[]" and ys = "[]" and us = "[]" and vs = "[]" and a = 0 and t = "PT 1 ?f []" and Ms = "[[PT 2 ?e []]]"]
    by (simp add: add_mset_commute)
  have 6: "tree_step [[PT 0 ?e [PT 1 ?f []]], [], [PT 2 ?e []]] (OP_REMOVE 1 False) [[PT 0 ?e []], [PT 1 ?f []], [], [PT 2 ?e []]]"
    using step_remove [where fs = "[([], 0, ?e, [])]" and xs = "[]" and ys = "[]" and t = "PT 1 ?f []" and Ms = "[[], [PT 2 ?e []]]" and free_it = False] by simp
  have 7: "tree_step [[PT 0 ?e []], [PT 1 ?f []], [], [PT 2 ?e []]] (OP_FREE 1) [[], [PT 0 ?e []], [], [PT 2 ?e []]]"
    using step_free [where fs = "[]" and xs = "[]" and ys = "[]" and t = "PT 1 ?f []" and Ms = "[[PT 0 ?e []], [], [PT 2 ?e []]]"] by (simp add: add_mset_commute)
  have 8: "tree_step [[], [PT 0 ?e []], [], [PT 2 ?e []]] (OP_NEW 1) [[PT 1 ?e []], [], [PT 0 ?e []], [], [PT 2 ?e []]]" by (rule step_new) simp
  have 9: "tree_step [[PT 1 ?e []], [], [PT 0 ?e []], [], [PT 2 ?e []]] (OP_ADD_FILE 1 ''a.mp3'') [[PT 1 ?f []], [], [PT 0 ?e []], [], [PT 2 ?e []]]"
    using step_add_file [where fs = "[]" and xs = "[]" and ys = "[]" and a = 1 and Ms = "[[], [PT 0 ?e []], [], [PT 2 ?e []]]"] by simp
  have 10: "tree_step [[PT 1 ?f []], [], [PT 0 ?e []], [], [PT 2 ?e []]] (OP_APPEND 1 2) [[PT 1 ?f [], PT 2 ?e []], [], [PT 0 ?e []], []]"
    using step_append [where fs = "[]" and ts = "[]" and l = "PT 1 ?f []" and e = "PT 2 ?e []" and t = "PT 1 ?f []" and Ms = "[[], [PT 0 ?e []], []]"]
    by (simp add: add_mset_commute)
  have 11: "tree_step [[PT 1 ?f [], PT 2 ?e []], [], [PT 0 ?e []], []] (OP_SET_CHILD 0 2) [[PT 0 ?e [PT 1 ?f [], PT 2 ?e []]], [], [], []]"
    using step_set_child [where fs = "[]" and xs = "[]" and ys = "[]" and us = "[PT 1 ?f []]" and vs = "[]" and a = 0 and t = "PT 2 ?e []" and Ms = "[[], []]"]
    by (simp add: add_mset_commute)
  have 12: "tree_step [[PT 0 ?e [PT 1 ?f [], PT 2 ?e []]], [], [], []] (OP_CLEANUP 0) [[PT 0 ?e [PT 1 ?f []]], [], [], []]"
    using step_cleanup [where fs = "[]" and xs = "[]" and ys = "[]" and t = "PT 0 ?e [PT 1 ?f [], PT 2 ?e []]" and Ms = "[[], [], []]"] v by simp
  have "tree_run [] [OP_NEW 2, OP_NEW 0, OP_NEW 1, OP_ADD_FILE 1 ''a.mp3'', OP_SET_CHILD 0 1, OP_REMOVE 1 False, OP_FREE 1, OP_NEW 1,
      OP_ADD_FILE 1 ''a.mp3'', OP_APPEND 1 2, OP_SET_CHILD 0 2, OP_CLEANUP 0] [[PT 0 ?e [PT 1 ?f []]], [], [], []]"
    by (intro run_next [OF 1] run_next [OF 2] run_next [OF 3] run_next [OF 4] run_next [OF 5] run_next [OF 6] run_next [OF 7] run_next [OF 8]
        run_next [OF 9] run_next [OF 10] run_next [OF 11] run_next [OF 12] run_done)
  from play_tree_simulation [OF this] show ?thesis by (auto simp: heap_is_def forests_def)
qed

text \<open>\<open>pt_add_file\<close> appends a new entry with the file at the end of the list the given entry stands in, with this entry's
  parameters and its mark for random play.\<close>

theorem pt_add_file_appends:
  assumes "heap_is h Fs" "mset Fs = mset (plug fs (xs @ PT b m cs # ys) # Ms)" "a \<notin> set (all_addrs Fs)"
  shows "\<exists>h'. pt_add_file a (Some b) file h = Some (Some b, h') \<and>
    heap_is h' (plug fs (xs @ PT b m cs # ys @ [PT a (inherit_params m (add_file file empty_node)) []]) # Ms)"
proof -
  let ?L = "xs @ PT b m cs # ys" and ?e = "PT a (add_file file empty_node) []"
  obtain ts l where tl: "?L = ts @ [l]" by (cases ?L rule: rev_cases) auto
  have b: "a \<noteq> b" using assms(2,3) set_all_addrs_mset [OF assms(2)] by auto
  have m1: "mset ([PT a empty_node []] # Fs) = mset ([plug [] ([] @ PT a empty_node [] # [])] @ Fs)" by simp
  have m2: "mset ([?e] # Fs) = mset ([plug fs (ts @ [l]), [?e]] @ Ms)" using assms(2) by (simp add: tl)
  have m3: "mset (plug fs (ts @ [l, ?e]) # Ms) = mset ([plug fs ((ts @ [l]) @ ?e # [])] @ Ms)" by simp
  have "occurs (plug fs (ts @ [l, ?e]) # Ms) b m"
  proof -
    have "ts @ [l, ?e] = xs @ PT b m cs # (ys @ [?e])" using arg_cong [OF tl, of "\<lambda>L. L @ [?e]"] by simp
    then show ?thesis unfolding occurs_def by metis
  qed
  note steps = step_new [OF assms(3)] step_add_file [OF m1, of "file"] step_append [OF m2, of "PT b m cs"]
    step_set_params_from [OF m3 this b]
  have "tree_run Fs [OP_NEW a, OP_ADD_FILE a file, OP_APPEND b a, OP_SET_PARAMS_FROM a b]
      (plug fs (?L @ [PT a (inherit_params m (add_file file empty_node)) []]) # Ms)"
  proof (intro run_next [OF steps(1)] run_next [OF steps(2) [simplified]])
    have "PT b m cs \<in> set (ts @ [l])" unfolding tl [symmetric] by simp
    from run_next [OF steps(3) [OF this, unfolded ptree.sel append_Cons append_Nil] run_next [OF steps(4) [unfolded append_Cons append_Nil] run_done]]
    show "tree_run ([?e] # Fs) [OP_APPEND b a, OP_SET_PARAMS_FROM a b] (plug fs (?L @ [PT a (inherit_params m (add_file file empty_node)) []]) # Ms)"
      unfolding tl by simp
  qed
  from tree_run_heap [OF this assms(1)] show ?thesis
    by (auto simp: pt_add_file_def bind_eq_Some_conv)
qed

theorem pt_add_file_appends_witness:
  "\<exists>h'. pt_add_file 1 (Some 0) ''a'' (play_tree_new 0 Map.empty) = Some (Some 0, h') \<and>
    heap_is h' [[PT 0 empty_node [], PT 1 (inherit_params empty_node (add_file ''a'' empty_node)) []]]"
proof -
  have "heap_is (play_tree_new 0 Map.empty) [[PT 0 empty_node []]]" using new_heap [of Map.empty "[]" 0] by (simp add: heap_is_def forests_def)
  from pt_add_file_appends [OF this, of "[]" "[]" 0 empty_node "[]" "[]" "[]" 1 "''a''"] show ?thesis by simp
qed

end
