(* ===== verification/PlayIter.thy ===== *)
theory PlayIter
  imports PlayHeap
begin

text \<open>
  The iterator over a play tree, playtree.c: which entry is played next, with the options of the entries pushed to the
  configuration and popped from it, loops and random order. The configuration and the C library's \<open>rand\<close> are parameters.
\<close>

section \<open>The iterator and its surroundings\<close>

text \<open>\<open>status_stack\<close> and its size are the list \<open>it_stack\<close>, whose first element is the one that was pushed last.\<close>

record play_tree_iter =
  it_root :: "nat option"
  it_tree :: "nat option"
  it_config :: bool
  it_loop :: int
  it_file :: int
  it_num_files :: int
  it_entry_pushed :: bool
  it_rnd :: bool
  it_stack :: "int list"

text \<open>The functions of the configuration: push, pop, and setting an option, whose errors are only reported.\<close>

record 'c config_ops =
  co_push :: "'c \<Rightarrow> 'c option"
  co_pop :: "'c \<Rightarrow> 'c option"
  co_set :: "string \<Rightarrow> string option \<Rightarrow> 'c \<Rightarrow> 'c option"

record ('c, 'r) pt_world =
  w_heap :: pt_heap
  w_config :: 'c
  w_rand :: 'r

datatype iter_code = PLAY_TREE_ITER_ERROR | PLAY_TREE_ITER_ENTRY | PLAY_TREE_ITER_NODE | PLAY_TREE_ITER_END

text \<open>\<open>play_tree_iter_new\<close>; the record for the new iterator, or none for a tree with nothing to play.\<close>

definition play_tree_iter_new :: "nat \<Rightarrow> bool \<Rightarrow> pt_heap \<Rightarrow> play_tree_iter option option" where
  "play_tree_iter_new pt config h = do {
     v \<leftarrow> play_tree_is_valid h pt;
     if \<not> v then Some None else do {
       n \<leftarrow> h pt;
       loop \<leftarrow> (case pt_parent n of None \<Rightarrow> Some 0 | Some p \<Rightarrow> map_option pt_loop (h p));
       Some (Some \<lparr>it_root = Some pt, it_tree = None, it_config = config, it_loop = loop, it_file = 0, it_num_files = 0,
         it_entry_pushed = False, it_rnd = False, it_stack = []\<rparr>)
     }
   }"

text \<open>A copy is not connected to the configuration.\<close>

definition play_tree_iter_new_copy :: "play_tree_iter \<Rightarrow> play_tree_iter" where
  "play_tree_iter_new_copy old = old\<lparr>it_config := False\<rparr>"

fun set_options :: "'c config_ops \<Rightarrow> (string \<times> string option) list \<Rightarrow> 'c \<Rightarrow> 'c option" where
  "set_options co [] c = Some c"
| "set_options co ((name, val) # ps) c = do { c \<leftarrow> co_set co name val c; set_options co ps c }"

definition play_tree_iter_push_params :: "'c config_ops \<Rightarrow> play_tree_iter \<Rightarrow> ('c, 'r) pt_world \<Rightarrow> (play_tree_iter \<times> ('c, 'r) pt_world) option" where
  "play_tree_iter_push_params co it w = do {
     tree \<leftarrow> it_tree it;
     n \<leftarrow> w_heap w tree;
     c \<leftarrow> co_push co (w_config w);
     if pt_params n = [] then Some (it, w\<lparr>w_config := c\<rparr>) else do {
       c \<leftarrow> set_options co (pt_params n) c;
       Some (if pt_child n = None then it\<lparr>it_entry_pushed := True\<rparr> else it, w\<lparr>w_config := c\<rparr>)
     }
   }"

section \<open>Random stepping\<close>

text \<open>Rounding a natural number to the 24 bits of a \<open>float\<close>, ties to even.\<close>

function float_shift :: "int \<Rightarrow> nat" where
  "float_shift n = (if n < 2 ^ 24 then 0 else Suc (float_shift (n div 2)))"
  by pat_completeness auto
termination by (relation "measure nat") auto

declare float_shift.simps [simp del]

definition float_round :: "int \<Rightarrow> int" where
  "float_round n = (let e = float_shift n in if e = 0 then n else
     let q = n div 2 ^ e; r = n mod 2 ^ e; half = 2 ^ (e - 1)
     in (if half < r \<or> r = half \<and> odd q then q + 1 else q) * 2 ^ e)"

text \<open>\<open>(int)((float)(num) * rand() / (RAND_MAX + 1.0))\<close> with \<open>RAND_MAX = 2147483647\<close>: the product is a \<open>float\<close>, the
  division by a power of two is exact.\<close>

definition rnd_index :: "int \<Rightarrow> int \<Rightarrow> int" where
  "rnd_index num r = float_round (float_round num * float_round r) div 2 ^ 31"

definition unplayed :: "play_tree \<Rightarrow> bool" where
  "unplayed n \<longleftrightarrow> pt_flags n AND PLAY_TREE_RND_PLAYED = 0"

text \<open>Counting backwards to the head of the list, which is counted too.\<close>

partial_function (option) count_back :: "pt_heap \<Rightarrow> int \<Rightarrow> nat \<Rightarrow> (int \<times> nat) option" where
  "count_back h num i = do {
     n \<leftarrow> h i;
     let num = (if unplayed n then num + 1 else num);
     (case pt_prev n of None \<Rightarrow> Some (num, i) | Some p \<Rightarrow> count_back h num p)
   }"

partial_function (option) count_forward :: "pt_heap \<Rightarrow> int \<Rightarrow> nat option \<Rightarrow> int option" where
  "count_forward h num i = (case i of None \<Rightarrow> Some num
     | Some i \<Rightarrow> do { n \<leftarrow> h i; count_forward h (if unplayed n then num + 1 else num) (pt_next n) })"

partial_function (option) pick_entry :: "pt_heap \<Rightarrow> int \<Rightarrow> nat option \<Rightarrow> nat option option" where
  "pick_entry h r i = (case i of None \<Rightarrow> Some None
     | Some i \<Rightarrow> do {
         n \<leftarrow> h i;
         let r = (if unplayed n then r - 1 else r);
         (if r < 0 then Some (Some i) else pick_entry h r (pt_next n))
       })"

definition play_tree_rnd_step :: "('r \<Rightarrow> int \<times> 'r) \<Rightarrow> nat \<Rightarrow> pt_heap \<Rightarrow> 'r \<Rightarrow> (nat option \<times> 'r) option" where
  "play_tree_rnd_step rand pt h s = do {
     (num, head) \<leftarrow> count_back h 0 pt;
     n \<leftarrow> h pt;
     num \<leftarrow> count_forward h num (pt_next n);
     if num = 0 then Some (None, s)
     else (let (r, s) = rand s in do { i \<leftarrow> pick_entry h (rnd_index num r) (Some head); Some (i, s) })
   }"

section \<open>Stepping\<close>

text \<open>The loops over \<open>next\<close> and \<open>prev\<close>, with the number of steps that were not made.\<close>

fun steps_next :: "pt_heap \<Rightarrow> nat \<Rightarrow> nat option \<Rightarrow> (nat option \<times> nat) option" where
  "steps_next h (Suc i) (Some p) = do { n \<leftarrow> h p; steps_next h i (pt_next n) }"
| "steps_next h i p = Some (p, i)"

fun steps_prev :: "pt_heap \<Rightarrow> nat \<Rightarrow> nat option \<Rightarrow> (nat option \<times> nat) option" where
  "steps_prev h (Suc i) (Some p) = do { n \<leftarrow> h p; steps_prev h i (pt_prev n) }"
| "steps_prev h i p = Some (p, i)"

text \<open>\<open>play_tree_iter_step\<close>, \<open>play_tree_iter_up_step\<close> and \<open>play_tree_iter_down_step\<close> end by returning a code or by calling
  \<open>play_tree_iter_step\<close> with a direction.\<close>

datatype outcome = RETURN iter_code | STEP int

definition up_once :: "'c config_ops \<Rightarrow> int \<Rightarrow> play_tree_iter \<Rightarrow> ('c, 'r) pt_world \<Rightarrow> (outcome \<times> play_tree_iter \<times> ('c, 'r) pt_world) option" where
  "up_once co d it w = (let it = it\<lparr>it_file := - 1\<rparr> in do {
     tree \<leftarrow> it_tree it;
     root \<leftarrow> it_root it;
     n \<leftarrow> w_heap w tree;
     r \<leftarrow> w_heap w root;
     if pt_parent n = pt_parent r then Some (RETURN PLAY_TREE_ITER_END, it, w) else
     (case it_stack it of [] \<Rightarrow> None
      | l # st \<Rightarrow> do {
          let it = it\<lparr>it_loop := l, it_stack := st, it_tree := pt_parent n\<rparr>;
          if \<not> it_config it then Some (STEP d, it, w) else do {
            c \<leftarrow> co_pop co (w_config w);
            h \<leftarrow> (if it_rnd it then do { p \<leftarrow> pt_parent n; pt_upd p (\<lambda>m. m\<lparr>pt_flags := pt_flags m OR PLAY_TREE_RND_PLAYED\<rparr>) (w_heap w) }
              else Some (w_heap w));
            Some (STEP d, it, w\<lparr>w_config := c, w_heap := h\<rparr>)
          }
        })
   })"

definition down_once :: "'c config_ops \<Rightarrow> int \<Rightarrow> play_tree_iter \<Rightarrow> ('c, 'r) pt_world \<Rightarrow> (outcome \<times> play_tree_iter \<times> ('c, 'r) pt_world) option" where
  "down_once co d it w = (let it = it\<lparr>it_file := - 1\<rparr> in do {
     (it, w) \<leftarrow> (if it_config it then play_tree_iter_push_params co it w else Some (it, w));
     tree \<leftarrow> it_tree it;
     n \<leftarrow> w_heap w tree;
     first \<leftarrow> pt_child n;
     child \<leftarrow> (if d \<ge> 0 then Some first else last_entry (w_heap w) first);
     Some (STEP 0, it\<lparr>it_stack := it_loop it # it_stack it, it_loop := pt_loop n - 1, it_tree := Some child\<rparr>, w)
   })"

text \<open>What happens when there is no entry to go to: looping or going up.\<close>

definition no_next :: "'c config_ops \<Rightarrow> int \<Rightarrow> play_tree_iter \<Rightarrow> ('c, 'r) pt_world \<Rightarrow> (outcome \<times> play_tree_iter \<times> ('c, 'r) pt_world) option" where
  "no_next co d it w = do {
     tree \<leftarrow> it_tree it;
     n \<leftarrow> w_heap w tree;
     if it_rnd it then do {
       root \<leftarrow> it_root it;
       r \<leftarrow> w_heap w root;
       if pt_loop r = 0 then Some (RETURN PLAY_TREE_ITER_END, it, w) else do {
         h \<leftarrow> play_tree_unset_flag root PLAY_TREE_RND_PLAYED (- 1) (w_heap w);
         h \<leftarrow> (if pt_loop r > 0 then pt_upd root (\<lambda>m. m\<lparr>pt_loop := pt_loop m - 1\<rparr>) h else Some h);
         Some (STEP 0, it, w\<lparr>w_heap := h\<rparr>)
       }
     } else do {
       loop \<leftarrow> (case pt_parent n of None \<Rightarrow> Some 0 | Some p \<Rightarrow> map_option pt_loop (w_heap w p));
       if loop \<noteq> 0 \<and> (d > 0 \<and> it_loop it \<noteq> 0 \<or> d < 0 \<and> (it_loop it < 0 \<or> it_loop it < loop)) then
         (if d > 0 then do {
            pt \<leftarrow> first_entry (w_heap w) tree;
            Some (STEP 0, it\<lparr>it_loop := (if it_loop it > 0 then it_loop it - 1 else it_loop it), it_tree := Some pt\<rparr>, w)
          } else do {
            pt \<leftarrow> last_entry (w_heap w) tree;
            Some (STEP 0, it\<lparr>it_loop := (if it_loop it \<ge> 0 \<and> it_loop it < loop then it_loop it + 1 else it_loop it), it_tree := Some pt\<rparr>, w)
          })
       else up_once co d it w
     }
   }"

text \<open>What happens at the entry \<open>pt\<close>.\<close>

definition at_entry :: "'c config_ops \<Rightarrow> bool \<Rightarrow> int \<Rightarrow> nat \<Rightarrow> play_tree_iter \<Rightarrow> ('c, 'r) pt_world \<Rightarrow> (outcome \<times> play_tree_iter \<times> ('c, 'r) pt_world) option" where
  "at_entry co with_nodes d pt it w = do {
     n \<leftarrow> w_heap w pt;
     c \<leftarrow> (case pt_child n of None \<Rightarrow> Some False | Some c \<Rightarrow> play_tree_is_valid (w_heap w) c);
     if c then
       (let it = it\<lparr>it_tree := Some pt\<rparr>
        in if with_nodes then Some (RETURN PLAY_TREE_ITER_NODE, it, w) else down_once co d it w)
     else do {
       v \<leftarrow> play_tree_is_valid (w_heap w) pt;
       if \<not> v then Some (if d = 0 then RETURN PLAY_TREE_ITER_ERROR else STEP d, it, w)
       else if pt_files n = [] then None
       else do {
         let it = it\<lparr>it_tree := Some pt, it_num_files := int (length (pt_files n))\<rparr>;
         if \<not> it_config it then Some (RETURN PLAY_TREE_ITER_ENTRY, it, w) else do {
           (it, w) \<leftarrow> play_tree_iter_push_params co it w;
           h \<leftarrow> (if it_rnd it then pt_upd pt (\<lambda>m. m\<lparr>pt_flags := pt_flags m OR PLAY_TREE_RND_PLAYED\<rparr>) (w_heap w) else Some (w_heap w));
           Some (RETURN PLAY_TREE_ITER_ENTRY, it\<lparr>it_entry_pushed := True\<rparr>, w\<lparr>w_heap := h\<rparr>)
         }
       }
     }
   }"

text \<open>One round of \<open>play_tree_iter_step\<close>.\<close>

definition step_once :: "'c config_ops \<Rightarrow> ('r \<Rightarrow> int \<times> 'r) \<Rightarrow> bool \<Rightarrow> int \<Rightarrow> play_tree_iter \<Rightarrow> ('c, 'r) pt_world \<Rightarrow>
    (outcome \<times> play_tree_iter \<times> ('c, 'r) pt_world) option" where
  "step_once co rand with_nodes d it w =
     (if it_root it = None then Some (RETURN PLAY_TREE_ITER_ENTRY, it, w) else
      case it_tree it of
        None \<Rightarrow> Some (STEP 0, it\<lparr>it_tree := it_root it\<rparr>, w)
      | Some tree \<Rightarrow> do {
          (it, w) \<leftarrow> (if it_config it \<and> it_entry_pushed it
            then do { c \<leftarrow> co_pop co (w_config w); Some (it\<lparr>it_entry_pushed := False\<rparr>, w\<lparr>w_config := c\<rparr>) } else Some (it, w));
          n \<leftarrow> w_heap w tree;
          rnd \<leftarrow> (case pt_parent n of None \<Rightarrow> Some False | Some p \<Rightarrow> do { q \<leftarrow> w_heap w p; Some (pt_flags q AND PLAY_TREE_RND \<noteq> 0) });
          let it = it\<lparr>it_rnd := rnd, it_file := - 1\<rparr>;
          (pt, d, w) \<leftarrow>
            (if rnd then do { (pt, s) \<leftarrow> play_tree_rnd_step rand tree (w_heap w) (w_rand w); Some (pt, d, w\<lparr>w_rand := s\<rparr>) }
             else if d > 0 then do { (pt, i) \<leftarrow> steps_next (w_heap w) (nat d) (Some tree); Some (pt, if i \<noteq> 0 then int i else 1, w) }
             else if d < 0 then do { (pt, i) \<leftarrow> steps_prev (w_heap w) (nat (- d)) (Some tree); Some (pt, if i \<noteq> 0 then - int i else - 1, w) }
             else Some (Some tree, d, w));
          (case pt of None \<Rightarrow> no_next co d it w | Some pt \<Rightarrow> at_entry co with_nodes d pt it w)
        })"

partial_function (option) play_tree_iter_step :: "'c config_ops \<Rightarrow> ('r \<Rightarrow> int \<times> 'r) \<Rightarrow> bool \<Rightarrow> int \<Rightarrow> play_tree_iter \<Rightarrow> ('c, 'r) pt_world \<Rightarrow>
    (iter_code \<times> play_tree_iter \<times> ('c, 'r) pt_world) option" where
  "play_tree_iter_step co rand with_nodes d it w = do {
     (out, it, w) \<leftarrow> step_once co rand with_nodes d it w;
     (case out of RETURN code \<Rightarrow> Some (code, it, w) | STEP d \<Rightarrow> play_tree_iter_step co rand with_nodes d it w)
   }"

definition play_tree_iter_up_step :: "'c config_ops \<Rightarrow> ('r \<Rightarrow> int \<times> 'r) \<Rightarrow> bool \<Rightarrow> int \<Rightarrow> play_tree_iter \<Rightarrow> ('c, 'r) pt_world \<Rightarrow>
    (iter_code \<times> play_tree_iter \<times> ('c, 'r) pt_world) option" where
  "play_tree_iter_up_step co rand with_nodes d it w = do {
     (out, it, w) \<leftarrow> up_once co d it w;
     (case out of RETURN code \<Rightarrow> Some (code, it, w) | STEP d \<Rightarrow> play_tree_iter_step co rand with_nodes d it w)
   }"

definition play_tree_iter_down_step :: "'c config_ops \<Rightarrow> ('r \<Rightarrow> int \<times> 'r) \<Rightarrow> bool \<Rightarrow> int \<Rightarrow> play_tree_iter \<Rightarrow> ('c, 'r) pt_world \<Rightarrow>
    (iter_code \<times> play_tree_iter \<times> ('c, 'r) pt_world) option" where
  "play_tree_iter_down_step co rand with_nodes d it w = do {
     (out, it, w) \<leftarrow> down_once co d it w;
     (case out of RETURN code \<Rightarrow> Some (code, it, w) | STEP d \<Rightarrow> play_tree_iter_step co rand with_nodes d it w)
   }"

section \<open>Files\<close>

text \<open>The array is read at the new index, which must be in it; its end mark is the null pointer.\<close>

definition play_tree_iter_get_file :: "int \<Rightarrow> play_tree_iter \<Rightarrow> pt_heap \<Rightarrow> (string option \<times> play_tree_iter) option" where
  "play_tree_iter_get_file d it h = do {
     tree \<leftarrow> it_tree it;
     n \<leftarrow> h tree;
     if pt_files n = [] \<or> it_file it \<ge> it_num_files it - 1 \<or> it_file it < - 1 then Some (None, it) else
     (let f = (if d > 0 then (if it_file it \<ge> it_num_files it - 1 then 0 else it_file it + 1)
            else if d < 0 then (if it_file it \<le> 0 then it_num_files it - 1 else it_file it - 1) else it_file it);
          it = it\<lparr>it_file := f\<rparr>
      in if f < 0 \<or> f > int (length (pt_files n)) then None
         else Some (if nat f < length (pt_files n) then Some (pt_files n ! nat f) else None, it))
   }"

partial_function (option) get_file_loop :: "'c config_ops \<Rightarrow> ('r \<Rightarrow> int \<times> 'r) \<Rightarrow> int \<Rightarrow> string option \<Rightarrow> play_tree_iter \<Rightarrow> ('c, 'r) pt_world \<Rightarrow>
    (string option \<times> play_tree_iter \<times> ('c, 'r) pt_world) option" where
  "get_file_loop co rand d r it w =
     (if r = None \<and> d \<noteq> 0 then do {
        (code, it, w) \<leftarrow> play_tree_iter_step co rand False d it w;
        (if code \<noteq> PLAY_TREE_ITER_ENTRY then Some (r, it, w) else do {
           (r, it) \<leftarrow> play_tree_iter_get_file d it (w_heap w);
           get_file_loop co rand d r it w
         })
      } else Some (r, it, w))"

definition pt_iter_get_file :: "'c config_ops \<Rightarrow> ('r \<Rightarrow> int \<times> 'r) \<Rightarrow> int \<Rightarrow> play_tree_iter \<Rightarrow> ('c, 'r) pt_world \<Rightarrow>
    (string option \<times> play_tree_iter \<times> ('c, 'r) pt_world) option" where
  "pt_iter_get_file co rand d it w = do {
     (r, it) \<leftarrow> play_tree_iter_get_file d it (w_heap w);
     get_file_loop co rand d r it w
   }"

text \<open>The iterator that \<open>pt_iter_create\<close> returns stands at the first entry; the root is replaced by the result of the clean-up.\<close>

definition pt_iter_create :: "'c config_ops \<Rightarrow> ('r \<Rightarrow> int \<times> 'r) \<Rightarrow> nat \<Rightarrow> bool \<Rightarrow> ('c, 'r) pt_world \<Rightarrow>
    (nat option \<times> play_tree_iter option \<times> ('c, 'r) pt_world) option" where
  "pt_iter_create co rand ppt config w = do {
     (ppt, h) \<leftarrow> play_tree_cleanup ppt (w_heap w);
     let w = w\<lparr>w_heap := h\<rparr>;
     (case ppt of None \<Rightarrow> Some (None, None, w)
      | Some pt \<Rightarrow> do {
          it \<leftarrow> play_tree_iter_new pt config h;
          (case it of None \<Rightarrow> Some (Some pt, None, w)
           | Some it \<Rightarrow> do {
               (code, it, w) \<leftarrow> play_tree_iter_step co rand False 0 it w;
               Some (Some pt, if code = PLAY_TREE_ITER_ENTRY then Some it else None, w)
             })
        })
   }"

definition pt_iter_insert_entry :: "play_tree_iter \<Rightarrow> nat \<Rightarrow> pt_heap \<Rightarrow> pt_heap option" where
  "pt_iter_insert_entry it entry h = do {
     pt \<leftarrow> it_tree it;
     h \<leftarrow> play_tree_insert_entry pt entry h;
     play_tree_set_params_from entry pt h
   }"

definition pt_iter_replace_entry :: "play_tree_iter \<Rightarrow> nat \<Rightarrow> pt_heap \<Rightarrow> (play_tree_iter \<times> pt_heap) option" where
  "pt_iter_replace_entry it entry h = do {
     pt \<leftarrow> it_tree it;
     h \<leftarrow> pt_iter_insert_entry it entry h;
     h \<leftarrow> play_tree_remove pt True True h;
     Some (it\<lparr>it_tree := Some entry\<rparr>, h)
   }"

definition pt_iter_goto_head :: "'c config_ops \<Rightarrow> ('r \<Rightarrow> int \<times> 'r) \<Rightarrow> play_tree_iter \<Rightarrow> ('c, 'r) pt_world \<Rightarrow> (play_tree_iter \<times> ('c, 'r) pt_world) option" where
  "pt_iter_goto_head co rand it w = do {
     (code, it, w) \<leftarrow> play_tree_iter_step co rand False 0 (it\<lparr>it_tree := it_root it\<rparr>) w;
     Some (it, w)
   }"

end
