(* ===== verification/PlayOrder.thy ===== *)
theory PlayOrder
  imports PlayIter
begin

text \<open>
  Which entries of a play tree the iterator plays, in which order and with which settings: the entries of the tree from left
  to right, loops repeated, and around each entry the parameters of the entries above it.
\<close>

section \<open>What the configuration promises\<close>

text \<open>\<open>vals\<close> are the settings of the options, the current ones first, then those saved by each push. \<open>safe\<close> are the names
  of options that may be set in between, \<open>setting\<close> what setting one does to the settings.\<close>

locale config_stack =
  fixes co :: "'c config_ops" and ok :: "'c \<Rightarrow> bool" and vals :: "'c \<Rightarrow> 'v list"
    and safe :: "string \<Rightarrow> bool" and setting :: "string \<Rightarrow> string option \<Rightarrow> 'v \<Rightarrow> 'v"
  assumes push_vals: "ok c \<Longrightarrow> vals c = v # vs \<Longrightarrow> \<exists>c'. co_push co c = Some c' \<and> ok c' \<and> vals c' = v # v # vs"
    and set_vals: "ok c \<Longrightarrow> vals c = v # vs \<Longrightarrow> safe name \<Longrightarrow> \<exists>c'. co_set co name val c = Some c' \<and> ok c' \<and> vals c' = setting name val v # vs"
    and pop_vals: "ok c \<Longrightarrow> vals c = v # w # vs \<Longrightarrow> \<exists>c'. co_pop co c = Some c' \<and> ok c' \<and> vals c' = w # vs"

section \<open>The order of play\<close>

text \<open>Trees that can be played: every entry without children has files, no list is played in random order, loops are
  counted, and the parameters are \<open>safe\<close>.\<close>

fun playable :: "(string \<Rightarrow> bool) \<Rightarrow> ptree \<Rightarrow> bool" where
  "playable safe (PT a n cs) \<longleftrightarrow> list_all (\<lambda>p. safe (fst p)) (pt_params n) \<and>
     (if cs = [] then pt_entry_type n \<noteq> PLAY_TREE_ENTRY_NODE \<and> pt_files n \<noteq> []
      else list_all (playable safe) cs \<and> 0 \<le> pt_loop n \<and> pt_flags n AND PLAY_TREE_RND = 0)"

definition apply_params :: "(string \<Rightarrow> string option \<Rightarrow> 'v \<Rightarrow> 'v) \<Rightarrow> (string \<times> string option) list \<Rightarrow> 'v \<Rightarrow> 'v" where
  "apply_params setting ps v = fold (\<lambda>p. setting (fst p) (snd p)) ps v"

text \<open>The entries that are played, with the settings while they are, when the settings around the tree are \<open>v\<close>: the children
  one after the other, as often as the loop says.\<close>

fun plays :: "(string \<Rightarrow> string option \<Rightarrow> 'v \<Rightarrow> 'v) \<Rightarrow> 'v \<Rightarrow> ptree \<Rightarrow> (nat \<times> 'v) list" where
  "plays setting v (PT a n cs) = (let v = apply_params setting (pt_params n) v in
     if cs = [] then [(a, v)] else concat (replicate (nat (max 1 (pt_loop n))) (concat (map (plays setting v) cs))))"

text \<open>The settings at a place, the current ones first.\<close>

fun ctx_vals :: "(string \<Rightarrow> string option \<Rightarrow> 'v \<Rightarrow> 'v) \<Rightarrow> 'v list \<Rightarrow> frame list \<Rightarrow> 'v list" where
  "ctx_vals setting S [] = S"
| "ctx_vals setting S ((ls, a, n, rs) # fs) = apply_params setting (pt_params n) (hd (ctx_vals setting S fs)) # ctx_vals setting S fs"

text \<open>How often a list is still repeated, with the loop count \<open>pl\<close> of its parent and the iterator's counter \<open>l\<close>.\<close>

definition rounds :: "int \<Rightarrow> int \<Rightarrow> nat" where
  "rounds pl l = (if pl = 0 then 0 else nat l)"

text \<open>What is played after the entry \<open>t\<close> at a place, with the counters of all levels.\<close>

fun rest_plays :: "(string \<Rightarrow> string option \<Rightarrow> 'v \<Rightarrow> 'v) \<Rightarrow> 'v list \<Rightarrow> ptree list \<Rightarrow> ptree \<Rightarrow> ptree list \<Rightarrow> frame list \<Rightarrow> int \<Rightarrow> int list \<Rightarrow> (nat \<times> 'v) list" where
  "rest_plays setting S xs t ys [] l st = concat (map (plays setting (hd S)) ys)"
| "rest_plays setting S xs t ys ((ls, a, n, rs) # fs) l st =
     (let v = hd (ctx_vals setting S ((ls, a, n, rs) # fs))
      in concat (map (plays setting v) ys) @ concat (replicate (rounds (pt_loop n) l) (concat (map (plays setting v) (xs @ t # ys)))) @
         rest_plays setting S ls (PT a n (xs @ t # ys)) rs fs (hd st) (tl st))"

fun counters_ok :: "frame list \<Rightarrow> int \<Rightarrow> int list \<Rightarrow> bool" where
  "counters_ok [] l st \<longleftrightarrow> st = []"
| "counters_ok ((ls, a, n, rs) # fs) l st \<longleftrightarrow> (pt_loop n = 0 \<or> 0 \<le> l) \<and> st \<noteq> [] \<and> counters_ok fs (hd st) (tl st)"

fun frames_playable :: "(string \<Rightarrow> bool) \<Rightarrow> frame list \<Rightarrow> bool" where
  "frames_playable safe [] \<longleftrightarrow> True"
| "frames_playable safe ((ls, a, n, rs) # fs) \<longleftrightarrow> list_all (\<lambda>p. safe (fst p)) (pt_params n) \<and> 0 \<le> pt_loop n \<and>
     pt_flags n AND PLAY_TREE_RND = 0 \<and> list_all (playable safe) ls \<and> list_all (playable safe) rs \<and> frames_playable safe fs"

lemma playable_valid: "playable safe t \<Longrightarrow> tree_valid t"
proof (induction t)
  case (PT a n cs)
  then show ?case by (cases cs) auto
qed

lemma hole_par_heap:
  assumes "frames h fs chd" "frames_playable safe fs" "hole_par fs = Some p"
  shows "\<exists>q. h p = Some q \<and> pt_flags q AND PLAY_TREE_RND = 0"
  using assms by (cases fs) auto

definition cont :: "'c config_ops \<Rightarrow> ('r \<Rightarrow> int \<times> 'r) \<Rightarrow> outcome \<times> play_tree_iter \<times> ('c, 'r) pt_world \<Rightarrow>
    (iter_code \<times> play_tree_iter \<times> ('c, 'r) pt_world) option" where
  "cont co rand r = (case r of (out, it, w) \<Rightarrow>
     (case out of RETURN code \<Rightarrow> Some (code, it, w) | STEP d \<Rightarrow> play_tree_iter_step co rand False d it w))"

lemma step_cont: "play_tree_iter_step co rand False d it w = Option.bind (step_once co rand False d it w) (cont co rand)"
  by (subst play_tree_iter_step.simps) (simp add: cont_def [abs_def] case_prod_unfold)

context config_stack
begin

lemma set_options_vals:
  "ok c \<Longrightarrow> vals c = v # vs \<Longrightarrow> list_all (\<lambda>p. safe (fst p)) ps \<Longrightarrow>
    \<exists>c'. set_options co ps c = Some c' \<and> ok c' \<and> vals c' = apply_params setting ps v # vs"
proof (induction ps arbitrary: c v)
  case (Cons p ps)
  obtain name val where p: "p = (name, val)" by (cases p)
  obtain c1 where c1: "co_set co name val c = Some c1" "ok c1" "vals c1 = setting name val v # vs"
    using set_vals [OF Cons.prems(1,2)] Cons.prems(3) by (auto simp: p)
  from Cons.IH [OF c1(2,3)] Cons.prems(3) c1(1) show ?case by (auto simp: p apply_params_def)
qed (simp add: apply_params_def)

lemma push_params_vals:
  assumes "it_tree it = Some a" "w_heap w a = Some n" "ok (w_config w)" "vals (w_config w) = v # vs" "list_all (\<lambda>p. safe (fst p)) (pt_params n)"
  shows "\<exists>p c. play_tree_iter_push_params co it w = Some (it\<lparr>it_entry_pushed := p\<rparr>, w\<lparr>w_config := c\<rparr>) \<and>
    (pt_child n \<noteq> None \<longrightarrow> p = it_entry_pushed it) \<and> ok c \<and> vals c = apply_params setting (pt_params n) v # v # vs"
proof -
  obtain c1 where c1: "co_push co (w_config w) = Some c1" "ok c1" "vals c1 = v # v # vs" using push_vals [OF assms(3,4)] by blast
  show ?thesis
  proof (cases "pt_params n = []")
    case True
    then show ?thesis using assms(1,2) c1
      by (intro exI [of _ "it_entry_pushed it"] exI [of _ c1]) (simp add: play_tree_iter_push_params_def apply_params_def)
  next
    case False
    obtain c2 where c2: "set_options co (pt_params n) c1 = Some c2" "ok c2" "vals c2 = apply_params setting (pt_params n) v # v # vs"
      using set_options_vals [OF c1(2,3) assms(5)] by blast
    then have "play_tree_iter_push_params co it w = Some (if pt_child n = None then it\<lparr>it_entry_pushed := True\<rparr> else it, w\<lparr>w_config := c2\<rparr>)"
      using assms(1,2) c1(1) False by (simp add: play_tree_iter_push_params_def)
    then show ?thesis using c2(2,3)
      by (intro exI [of _ "if pt_child n = None then True else it_entry_pushed it"] exI [of _ c2]) simp
  qed
qed

end

lemma ctx_vals_Cons: "S \<noteq> [] \<Longrightarrow> ctx_vals setting S fs = hd (ctx_vals setting S fs) # tl (ctx_vals setting S fs)"
  by (cases fs) auto

lemma rest_plays_next:
  "rest_plays setting S xs t (y # ys) fs l st = plays setting (hd (ctx_vals setting S fs)) y @ rest_plays setting S (xs @ [t]) y ys fs l st"
  by (cases fs) (auto simp: Let_def)

definition place :: "(string \<Rightarrow> bool) \<Rightarrow> pt_heap \<Rightarrow> ptree list \<Rightarrow> ptree \<Rightarrow> ptree list \<Rightarrow> frame list \<Rightarrow> bool" where
  "place safe h xs t ys fs \<longleftrightarrow> seg h None None (plug fs (xs @ t # ys)) None \<and> list_all (playable safe) (xs @ t # ys) \<and> frames_playable safe fs"

lemma place_node:
  assumes "place safe h xs t ys fs"
  shows "h (pt_addr t) = Some (links (hole_par fs) (first_of None (pt_kids t)) (first_of None ys) (last_of None xs) (pt_node t))"
    "play_tree_is_valid h (pt_addr t) = Some True" "seg h (hole_par fs) None (xs @ t # ys) None" "frames h fs (first_of None (xs @ t # ys))"
    "seg h (Some (pt_addr t)) None (pt_kids t) None" "playable safe t"
proof -
  have s: "seg h (hole_par fs) None (xs @ t # ys) None" and p: "playable safe t" using assms by (simp_all add: place_def seg_plug)
  then show "h (pt_addr t) = Some (links (hole_par fs) (first_of None (pt_kids t)) (first_of None ys) (last_of None xs) (pt_node t))"
    "seg h (Some (pt_addr t)) None (pt_kids t) None"
    by (simp_all add: seg_Cons)
  show "play_tree_is_valid h (pt_addr t) = Some True" using is_valid_seg [OF s] playable_valid [OF p] by simp
  show "seg h (hole_par fs) None (xs @ t # ys) None" "frames h fs (first_of None (xs @ t # ys))" "playable safe t"
    using s p assms by (simp_all add: place_def seg_plug)
qed

lemma place_child:
  assumes "place safe h xs (PT a n cs) ys fs" "cs = xs' @ c # ys'"
  shows "place safe h xs' c ys' ((xs, a, n, ys) # fs)"
  using assms by (auto simp: place_def)

lemma place_parent: "place safe h xs t ys ((ls, a, n, rs) # fs) \<Longrightarrow> place safe h ls (PT a n (xs @ t # ys)) rs fs"
  by (auto simp: place_def)

lemma place_sibling: "place safe h xs t ys fs \<Longrightarrow> xs @ t # ys = us @ u # vs \<Longrightarrow> place safe h us u vs fs"
  by (simp add: place_def)

lemma place_rnd:
  assumes "place safe h xs t ys fs"
  shows "(case hole_par fs of None \<Rightarrow> Some False | Some p \<Rightarrow> do { q \<leftarrow> h p; Some (pt_flags q AND PLAY_TREE_RND \<noteq> 0) }) = Some False"
proof (cases "hole_par fs")
  case (Some p)
  have "frames_playable safe fs" using assms by (simp add: place_def)
  from hole_par_heap [OF place_node(4) [OF assms] this Some] Some show ?thesis by auto
qed simp

text \<open>One round at a place, when nothing is pushed for an entry.\<close>

lemma step_once_0:
  assumes "place safe h xs t ys fs" "w_heap w = h" "it_tree it = Some (pt_addr t)" "it_root it \<noteq> None" "\<not> it_entry_pushed it"
  shows "step_once co rand wn 0 it w = at_entry co wn 0 (pt_addr t) (it\<lparr>it_rnd := False, it_file := - 1\<rparr>) w"
  using assms place_rnd [OF assms(1)] place_node(1) [OF assms(1)] by (auto simp: step_once_def)

lemma step_once_1:
  assumes "place safe h xs t ys fs" "w_heap w = h" "it_tree it = Some (pt_addr t)" "it_root it \<noteq> None" "\<not> it_entry_pushed it"
  shows "step_once co rand wn 1 it w = (case ys of [] \<Rightarrow> no_next co 1 (it\<lparr>it_rnd := False, it_file := - 1\<rparr>) w
    | y # _ \<Rightarrow> at_entry co wn 1 (pt_addr y) (it\<lparr>it_rnd := False, it_file := - 1\<rparr>) w)"
  using assms place_rnd [OF assms(1)] place_node(1) [OF assms(1)] by (cases ys) (auto simp: step_once_def)

lemma step_once_pop:
  assumes "it_tree it = Some tree" "it_root it \<noteq> None" "it_config it" "it_entry_pushed it" "co_pop co (w_config w) = Some c"
  shows "step_once co rand wn d it w = step_once co rand wn d (it\<lparr>it_entry_pushed := False\<rparr>) (w\<lparr>w_config := c\<rparr>)"
  using assms by (auto simp: step_once_def)

context config_stack
begin

definition iter_ok :: "pt_heap \<Rightarrow> nat \<Rightarrow> play_tree_iter \<Rightarrow> ('c, 'r) pt_world \<Rightarrow> frame list \<Rightarrow> bool" where
  "iter_ok h r it w fs \<longleftrightarrow> it_config it \<and> it_root it = Some r \<and> (\<exists>n. h r = Some n \<and> pt_parent n = None) \<and> w_heap w = h \<and>
     ok (w_config w) \<and> counters_ok fs (it_loop it) (it_stack it)"

definition at_leaf :: "pt_heap \<Rightarrow> nat \<Rightarrow> 'v list \<Rightarrow> play_tree_iter \<Rightarrow> ('c, 'r) pt_world \<Rightarrow> ptree list \<Rightarrow> ptree \<Rightarrow> ptree list \<Rightarrow> frame list \<Rightarrow> bool" where
  "at_leaf h r S it w xs t ys fs \<longleftrightarrow> iter_ok h r it w fs \<and> place safe h xs t ys fs \<and> it_tree it = Some (pt_addr t) \<and> it_entry_pushed it \<and>
     vals (w_config w) = apply_params setting (pt_params (pt_node t)) (hd (ctx_vals setting S fs)) # ctx_vals setting S fs"

text \<open>The iterator has found the first entry of \<open>out\<close>, the plays that are still to come.\<close>

definition found :: "pt_heap \<Rightarrow> nat \<Rightarrow> 'v list \<Rightarrow> (nat \<times> 'v) list \<Rightarrow> iter_code \<times> play_tree_iter \<times> ('c, 'r) pt_world \<Rightarrow> bool" where
  "found h r S out res \<longleftrightarrow> (case res of (code, it, w) \<Rightarrow> code = PLAY_TREE_ITER_ENTRY \<and> (\<exists>xs t ys fs. at_leaf h r S it w xs t ys fs \<and>
     out = (pt_addr t, hd (vals (w_config w))) # rest_plays setting S xs t ys fs (it_loop it) (it_stack it)))"

lemma enter_leaf:
  assumes "place safe h xs (PT a n []) ys fs" "iter_ok h r it w fs" "\<not> it_entry_pushed it" "\<not> it_rnd it" "S \<noteq> []" "vals (w_config w) = ctx_vals setting S fs"
  shows "\<exists>res. Option.bind (at_entry co False d a it w) (cont co rand) = Some res \<and>
    found h r S (plays setting (hd (ctx_vals setting S fs)) (PT a n []) @ rest_plays setting S xs (PT a n []) ys fs (it_loop it) (it_stack it)) res"
proof -
  note node = place_node [OF assms(1), simplified]
  let ?n = "links (hole_par fs) None (first_of None ys) (last_of None xs) n"
  let ?it = "it\<lparr>it_tree := Some a, it_num_files := int (length (pt_files n))\<rparr>"
  let ?v = "hd (ctx_vals setting S fs)"
  have v: "vals (w_config w) = ?v # tl (ctx_vals setting S fs)" using assms(6) ctx_vals_Cons [OF assms(5)] by simp
  have "\<exists>p c. play_tree_iter_push_params co ?it w = Some (?it\<lparr>it_entry_pushed := p\<rparr>, w\<lparr>w_config := c\<rparr>) \<and>
    (pt_child ?n \<noteq> None \<longrightarrow> p = it_entry_pushed ?it) \<and> ok c \<and> vals c = apply_params setting (pt_params ?n) ?v # ?v # tl (ctx_vals setting S fs)"
  proof (rule push_params_vals)
    show "w_heap w a = Some ?n" using assms(2) node(1) by (simp add: iter_ok_def)
  qed (use assms(2) node(6) v in \<open>simp_all add: iter_ok_def\<close>)
  then obtain p c where c: "play_tree_iter_push_params co ?it w = Some (?it\<lparr>it_entry_pushed := p\<rparr>, w\<lparr>w_config := c\<rparr>)" "ok c"
    "vals c = apply_params setting (pt_params n) ?v # ctx_vals setting S fs" using ctx_vals_Cons [OF assms(5), of setting fs] by auto
  let ?it' = "?it\<lparr>it_entry_pushed := True\<rparr>" and ?w' = "w\<lparr>w_config := c\<rparr>"
  have "at_entry co False d a it w = Some (RETURN PLAY_TREE_ITER_ENTRY, ?it', ?w')"
    using assms(2,4) node c(1) by (simp add: at_entry_def iter_ok_def)
  moreover have "at_leaf h r S ?it' ?w' xs (PT a n []) ys fs"
    using assms(1,2) c(2,3) by (simp add: at_leaf_def iter_ok_def)
  then have "found h r S ((a, hd (vals c)) # rest_plays setting S xs (PT a n []) ys fs (it_loop it) (it_stack it)) (PLAY_TREE_ITER_ENTRY, ?it', ?w')"
    unfolding found_def by (simp, intro exI [of _ xs] exI [of _ "PT a n []"] exI [of _ ys] exI [of _ fs]) simp
  ultimately show ?thesis using c(3) by (simp add: cont_def)
qed


end

lemma rest_plays_first:
  assumes "cs = c # cs'" "0 \<le> pt_loop n" "S \<noteq> []"
  shows "plays setting (hd (ctx_vals setting S ((xs, a, n, ys) # fs))) c @ rest_plays setting S [] c cs' ((xs, a, n, ys) # fs) (pt_loop n - 1) (l # st) =
    plays setting (hd (ctx_vals setting S fs)) (PT a n cs) @ rest_plays setting S xs (PT a n cs) ys fs l st"
proof -
  have "nat (max 1 (pt_loop n)) = Suc (rounds (pt_loop n) (pt_loop n - 1))" using assms(2) by (auto simp: rounds_def)
  then show ?thesis by (simp add: Let_def assms(1))
qed

context config_stack
begin

lemma enter:
  assumes "place safe h xs t ys fs" "iter_ok h r it w fs" "\<not> it_entry_pushed it" "\<not> it_rnd it" "S \<noteq> []" "vals (w_config w) = ctx_vals setting S fs" "0 \<le> d"
  shows "\<exists>res. Option.bind (at_entry co False d (pt_addr t) it w) (cont co rand) = Some res \<and>
    found h r S (plays setting (hd (ctx_vals setting S fs)) t @ rest_plays setting S xs t ys fs (it_loop it) (it_stack it)) res"
  using assms
proof (induction t arbitrary: xs ys fs it w d)
  case (PT a n cs)
  show ?case
  proof (cases cs)
    case Nil
    then show ?thesis using enter_leaf [of h xs a n ys fs r it w S d rand] PT.prems by simp
  next
    case (Cons c cs')
    note node = place_node [OF PT.prems(1), simplified]
    let ?n = "links (hole_par fs) (first_of None cs) (first_of None ys) (last_of None xs) n" and ?fs = "(xs, a, n, ys) # fs"
    have pc: "place safe h [] c cs' ?fs" using place_child [OF PT.prems(1), of "[]" c cs'] Cons by simp
    let ?it = "it\<lparr>it_tree := Some a, it_file := - 1\<rparr>" and ?v = "hd (ctx_vals setting S fs)"
    have v: "vals (w_config w) = ?v # tl (ctx_vals setting S fs)" using PT.prems(6) ctx_vals_Cons [OF PT.prems(5)] by simp
    have "\<exists>p c. play_tree_iter_push_params co ?it w = Some (?it\<lparr>it_entry_pushed := p\<rparr>, w\<lparr>w_config := c\<rparr>) \<and>
      (pt_child ?n \<noteq> None \<longrightarrow> p = it_entry_pushed ?it) \<and> ok c \<and> vals c = apply_params setting (pt_params ?n) ?v # ?v # tl (ctx_vals setting S fs)"
    proof (rule push_params_vals)
      show "w_heap w a = Some ?n" using PT.prems(2) node(1) by (simp add: iter_ok_def)
    qed (use PT.prems(2) node(6) v in \<open>simp_all add: iter_ok_def\<close>)
    then obtain k where k: "play_tree_iter_push_params co ?it w = Some (?it\<lparr>it_entry_pushed := False\<rparr>, w\<lparr>w_config := k\<rparr>)" "ok k"
      "vals k = ctx_vals setting S ?fs" using ctx_vals_Cons [OF PT.prems(5), of setting fs] PT.prems(3) Cons by auto
    let ?it1 = "?it\<lparr>it_entry_pushed := False, it_stack := it_loop it # it_stack it, it_loop := pt_loop n - 1, it_tree := Some (pt_addr c)\<rparr>"
    let ?w1 = "w\<lparr>w_config := k\<rparr>" and ?it2 = "?it1\<lparr>it_rnd := False, it_file := - 1\<rparr>"
    have "at_entry co False d a it w = down_once co d (it\<lparr>it_tree := Some a\<rparr>) w"
      using PT.prems(2) node(1) place_node(2) [OF pc] Cons by (simp add: at_entry_def iter_ok_def)
    also have "\<dots> = Some (STEP 0, ?it1, ?w1)"
      using PT.prems(2,7) node(1) k(1) Cons by (simp add: down_once_def iter_ok_def)
    finally have "Option.bind (at_entry co False d (pt_addr (PT a n cs)) it w) (cont co rand) = play_tree_iter_step co rand False 0 ?it1 ?w1"
      by (simp add: cont_def)
    also have "\<dots> = Option.bind (at_entry co False 0 (pt_addr c) ?it2 ?w1) (cont co rand)"
      unfolding step_cont by (subst step_once_0 [OF pc]) (use PT.prems(2) in \<open>simp_all add: iter_ok_def\<close>)
    finally have step: "Option.bind (at_entry co False d (pt_addr (PT a n cs)) it w) (cont co rand) = \<dots>" .
    have loop: "0 \<le> pt_loop n" using node(6) Cons by simp
    have "iter_ok h r ?it2 ?w1 ?fs" using PT.prems(2) k(2) loop by (auto simp: iter_ok_def)
    with PT.IH [of c "[]" cs' ?fs ?it2 ?w1 0] pc Cons PT.prems(5) k(3)
    obtain res where res: "Option.bind (at_entry co False 0 (pt_addr c) ?it2 ?w1) (cont co rand) = Some res"
      "found h r S (plays setting (hd (ctx_vals setting S ?fs)) c @ rest_plays setting S [] c cs' ?fs (pt_loop n - 1) (it_loop it # it_stack it)) res"
      by auto
    then show ?thesis unfolding step rest_plays_first [OF Cons loop PT.prems(5)] by blast
  qed
qed

text \<open>The end of the tree, with the settings as they were at the beginning.\<close>

definition ended :: "pt_heap \<Rightarrow> 'v list \<Rightarrow> (nat \<times> 'v) list \<Rightarrow> iter_code \<times> play_tree_iter \<times> ('c, 'r) pt_world \<Rightarrow> bool" where
  "ended h S out res \<longleftrightarrow> (case res of (code, it, w) \<Rightarrow> code = PLAY_TREE_ITER_END \<and> out = [] \<and> w_heap w = h \<and> ok (w_config w) \<and> vals (w_config w) = S)"

lemma advance_unpushed:
  assumes "place safe h xs t ys fs" "iter_ok h r it w fs" "\<not> it_entry_pushed it" "it_tree it = Some (pt_addr t)" "S \<noteq> []" "vals (w_config w) = ctx_vals setting S fs"
  shows "\<exists>res. play_tree_iter_step co rand False 1 it w = Some res \<and>
    (found h r S (rest_plays setting S xs t ys fs (it_loop it) (it_stack it)) res \<or> ended h S (rest_plays setting S xs t ys fs (it_loop it) (it_stack it)) res)"
  using assms
proof (induction fs arbitrary: xs t ys it w)
  case Nil
  let ?it = "it\<lparr>it_rnd := False, it_file := - 1\<rparr>"
  have once: "step_once co rand False 1 it w = (case ys of [] \<Rightarrow> no_next co 1 ?it w | y # _ \<Rightarrow> at_entry co False 1 (pt_addr y) ?it w)"
    using Nil by (intro step_once_1) (simp_all add: iter_ok_def)
  show ?case
  proof (cases ys)
    case Nil': Nil
    obtain m where m: "h r = Some m" "pt_parent m = None" using Nil.prems(2) by (auto simp: iter_ok_def)
    have "step_once co rand False 1 it w = Some (RETURN PLAY_TREE_ITER_END, ?it, w)"
      unfolding once using Nil.prems(2,4) place_node(1) [OF Nil.prems(1)] m by (simp add: Nil' no_next_def up_once_def iter_ok_def)
    then have "play_tree_iter_step co rand False 1 it w = Some (PLAY_TREE_ITER_END, ?it, w)" by (simp add: step_cont cont_def)
    moreover have "ended h S (rest_plays setting S xs t ys [] (it_loop it) (it_stack it)) (PLAY_TREE_ITER_END, ?it, w)"
      using Nil.prems by (simp add: ended_def Nil' iter_ok_def)
    ultimately show ?thesis by blast
  next
    case (Cons y ys')
    have py: "place safe h (xs @ [t]) y ys' []" using Nil.prems(1) by (rule place_sibling) (simp add: Cons)
    have "iter_ok h r ?it w []" using Nil.prems(2) by (simp add: iter_ok_def)
    from enter [OF py this _ _ Nil.prems(5,6), where d = 1 and rand = rand] Nil.prems(3) obtain res where
      "Option.bind (at_entry co False 1 (pt_addr y) ?it w) (cont co rand) = Some res"
      "found h r S (plays setting (hd (ctx_vals setting S [])) y @ rest_plays setting S (xs @ [t]) y ys' [] (it_loop it) (it_stack it)) res"
      by auto
    then show ?thesis unfolding step_cont once Cons rest_plays_next by auto
  qed
next
  case (Cons f fs)
  obtain ls a n rs where f: "f = (ls, a, n, rs)" by (cases f)
  let ?it = "it\<lparr>it_rnd := False, it_file := - 1\<rparr>" and ?l = "it_loop it" and ?st = "it_stack it"
  have once: "step_once co rand False 1 it w = (case ys of [] \<Rightarrow> no_next co 1 ?it w | y # _ \<Rightarrow> at_entry co False 1 (pt_addr y) ?it w)"
    using Cons.prems by (intro step_once_1) (simp_all add: iter_ok_def)
  have iok: "iter_ok h r ?it w (f # fs)" using Cons.prems(2) by (simp add: iter_ok_def)
  show ?case
  proof (cases ys)
    case (Cons y ys')
    have py: "place safe h (xs @ [t]) y ys' (f # fs)" using Cons.prems(1) by (rule place_sibling) (simp add: Cons)
    from enter [OF py iok _ _ Cons.prems(5,6), where d = 1 and rand = rand] Cons.prems(3) obtain res where
      "Option.bind (at_entry co False 1 (pt_addr y) ?it w) (cont co rand) = Some res"
      "found h r S (plays setting (hd (ctx_vals setting S (f # fs))) y @ rest_plays setting S (xs @ [t]) y ys' (f # fs) ?l ?st) res"
      by auto
    then show ?thesis unfolding step_cont once Cons rest_plays_next by auto
  next
    case Nil
    note node = place_node(1) [OF Cons.prems(1)] and par = place_node [OF place_parent [OF Cons.prems(1) [unfolded f]]]
    show ?thesis
    proof (cases "rounds (pt_loop n) ?l")
      case (Suc k)
      then have l: "pt_loop n \<noteq> 0" "0 < ?l" "rounds (pt_loop n) (?l - 1) = k" by (auto simp: rounds_def split: if_splits)
      obtain c cs where all: "xs @ t # ys = c # cs" by (cases xs) auto
      have pc: "place safe h [] c cs (f # fs)" using Cons.prems(1) by (rule place_sibling) (simp add: all)
      have "first_entry h (pt_addr t) = Some (pt_addr c)" using first_entry_root [OF place_node(3) [OF Cons.prems(1)]] unfolding all by simp
      then have "step_once co rand False 1 it w = Some (STEP 0, ?it\<lparr>it_loop := ?l - 1, it_tree := Some (pt_addr c)\<rparr>, w)"
        unfolding once using Cons.prems(2,4) node par(1) l(1,2) by (simp add: Nil no_next_def f iter_ok_def)
      moreover have same: "(?it\<lparr>it_loop := ?l - 1, it_tree := Some (pt_addr c)\<rparr>)\<lparr>it_rnd := False, it_file := - 1\<rparr> =
        ?it\<lparr>it_loop := ?l - 1, it_tree := Some (pt_addr c)\<rparr>" by simp
      ultimately have step: "play_tree_iter_step co rand False 1 it w =
          Option.bind (at_entry co False 0 (pt_addr c) (?it\<lparr>it_loop := ?l - 1, it_tree := Some (pt_addr c)\<rparr>) w) (cont co rand)"
        using step_once_0 [OF pc, of w "?it\<lparr>it_loop := ?l - 1, it_tree := Some (pt_addr c)\<rparr>" co rand False, unfolded same] Cons.prems(2,3)
        by (simp add: step_cont cont_def iter_ok_def)
      have "iter_ok h r (?it\<lparr>it_loop := ?l - 1, it_tree := Some (pt_addr c)\<rparr>) w (f # fs)" using Cons.prems(2) l by (simp add: iter_ok_def f)
      from enter [OF pc this _ _ Cons.prems(5,6), where d = 0 and rand = rand] Cons.prems(3) obtain res where
        res: "play_tree_iter_step co rand False 1 it w = Some res"
        "found h r S (plays setting (hd (ctx_vals setting S (f # fs))) c @ rest_plays setting S [] c cs (f # fs) (?l - 1) ?st) res"
        unfolding step by auto
      have "plays setting (hd (ctx_vals setting S (f # fs))) c @ rest_plays setting S [] c cs (f # fs) (?l - 1) ?st =
        rest_plays setting S xs t ys (f # fs) ?l ?st" 
      proof -
        have all': "xs @ [t] = c # cs" using all Nil by simp
        show ?thesis by (simp add: f Let_def Nil Suc l(3) all')
      qed
      then show ?thesis using res by auto
    next
      case 0
      obtain l' st' where st: "?st = l' # st'" using Cons.prems(2) by (cases ?st) (auto simp: iter_ok_def f)
      have v: "vals (w_config w) = hd (ctx_vals setting S (f # fs)) # hd (ctx_vals setting S fs) # tl (ctx_vals setting S fs)"
        using Cons.prems(6) ctx_vals_Cons [OF Cons.prems(5), of setting fs] by (simp add: f)
      have "ok (w_config w)" using Cons.prems(2) by (simp add: iter_ok_def)
      from pop_vals [OF this v] obtain c where c: "co_pop co (w_config w) = Some c" "ok c" "vals c = ctx_vals setting S fs"
        using ctx_vals_Cons [OF Cons.prems(5), of setting fs] by auto
      let ?it1 = "?it\<lparr>it_loop := l', it_stack := st', it_tree := Some a\<rparr>" and ?w1 = "w\<lparr>w_config := c\<rparr>"
      have "pt_loop n = 0 \<or> ?l = 0" using 0 Cons.prems(2) by (auto simp: rounds_def iter_ok_def f split: if_splits)
      moreover obtain m where "h r = Some m" "pt_parent m = None" using Cons.prems(2) by (auto simp: iter_ok_def)
      ultimately have "step_once co rand False 1 it w = Some (STEP 1, ?it1, ?w1)"
        unfolding once using Cons.prems(2,4) node par(1) c(1) st by (auto simp: Nil no_next_def up_once_def f iter_ok_def)
      then have step: "play_tree_iter_step co rand False 1 it w = play_tree_iter_step co rand False 1 ?it1 ?w1"
        by (simp add: step_cont [of co rand 1 it] cont_def)
      have rest: "rest_plays setting S xs t ys (f # fs) ?l ?st = rest_plays setting S ls (PT a n (xs @ t # ys)) rs fs l' st'"
        using 0 st by (simp add: f Nil)
      have "iter_ok h r ?it1 ?w1 fs" using Cons.prems(2) c(2) st by (simp add: iter_ok_def f)
      from Cons.IH [OF place_parent [OF Cons.prems(1) [unfolded f]] this _ _ Cons.prems(5)] c(3) Cons.prems(3)
      show ?thesis unfolding step rest by simp
    qed
  qed
qed

end

section \<open>Playing the whole tree\<close>

text \<open>The calls of \<open>play_tree_iter_step\<close> with direction 1 as long as they find entries: the entries with the configuration
  while they are played, the last code and what is left.\<close>

partial_function (option) play_all :: "'c config_ops \<Rightarrow> ('r \<Rightarrow> int \<times> 'r) \<Rightarrow> play_tree_iter \<Rightarrow> ('c, 'r) pt_world \<Rightarrow>
    ((nat \<times> 'c) list \<times> iter_code \<times> ('c, 'r) pt_world) option" where
  "play_all co rand it w = do {
     (code, it, w) \<leftarrow> play_tree_iter_step co rand False 1 it w;
     (if code = PLAY_TREE_ITER_ENTRY then do {
        a \<leftarrow> it_tree it;
        (out, code, w') \<leftarrow> play_all co rand it w;
        Some ((a, w_config w) # out, code, w')
      } else Some ([], code, w))
   }"

context config_stack
begin

lemma advance:
  assumes "at_leaf h r S it w xs t ys fs" "S \<noteq> []"
  shows "\<exists>res. play_tree_iter_step co rand False 1 it w = Some res \<and>
    (found h r S (rest_plays setting S xs t ys fs (it_loop it) (it_stack it)) res \<or> ended h S (rest_plays setting S xs t ys fs (it_loop it) (it_stack it)) res)"
proof -
  let ?C = "ctx_vals setting S fs"
  have l: "iter_ok h r it w fs" "place safe h xs t ys fs" "it_tree it = Some (pt_addr t)" "it_entry_pushed it"
    "vals (w_config w) = apply_params setting (pt_params (pt_node t)) (hd ?C) # hd ?C # tl ?C" "ok (w_config w)"
    using assms(1) ctx_vals_Cons [OF assms(2), of setting fs] by (simp_all add: at_leaf_def iter_ok_def)
  from pop_vals [OF l(6,5)] obtain c where c: "co_pop co (w_config w) = Some c" "ok c" "vals c = ?C"
    using ctx_vals_Cons [OF assms(2), of setting fs] by auto
  let ?it = "it\<lparr>it_entry_pushed := False\<rparr>" and ?w = "w\<lparr>w_config := c\<rparr>"
  have "step_once co rand False 1 it w = step_once co rand False 1 ?it ?w"
    using l(1,3,4) c(1) by (intro step_once_pop) (simp_all add: iter_ok_def)
  then have "play_tree_iter_step co rand False 1 it w = play_tree_iter_step co rand False 1 ?it ?w" by (simp add: step_cont)
  moreover have "iter_ok h r ?it ?w fs" using l(1) c(2) by (simp add: iter_ok_def)
  from advance_unpushed [OF l(2) this _ _ assms(2), where rand = rand] l(3) c(3) have "\<exists>res. play_tree_iter_step co rand False 1 ?it ?w = Some res \<and>
    (found h r S (rest_plays setting S xs t ys fs (it_loop it) (it_stack it)) res \<or> ended h S (rest_plays setting S xs t ys fs (it_loop it) (it_stack it)) res)"
    by simp
  ultimately show ?thesis by simp
qed

text \<open>What a result of a step leads to.\<close>

lemma play_all_from:
  assumes "S \<noteq> []" "play_tree_iter_step co rand False 1 it w = Some res" "found h r S out res \<or> ended h S out res"
  shows "\<exists>xs w'. play_all co rand it w = Some (xs, PLAY_TREE_ITER_END, w') \<and> map (\<lambda>(a, c). (a, hd (vals c))) xs = out \<and>
    list_all (\<lambda>(a, c). ok c) xs \<and> w_heap w' = h \<and> ok (w_config w') \<and> vals (w_config w') = S"
  using assms
proof (induction out arbitrary: it w res)
  case Nil
  then have "ended h S [] res" by (auto simp: found_def)
  then show ?case using Nil.prems(2) by (subst play_all.simps) (auto simp: ended_def)
next
  case (Cons x out)
  then have "found h r S (x # out) res" by (auto simp: ended_def)
  then obtain it1 w1 xs t ys fs where res: "res = (PLAY_TREE_ITER_ENTRY, it1, w1)" "at_leaf h r S it1 w1 xs t ys fs"
    "x = (pt_addr t, hd (vals (w_config w1)))" "out = rest_plays setting S xs t ys fs (it_loop it1) (it_stack it1)"
    by (auto simp: found_def)
  from advance [OF res(2) Cons.prems(1), where rand = rand] obtain res1 where
    "play_tree_iter_step co rand False 1 it1 w1 = Some res1" "found h r S out res1 \<or> ended h S out res1" using res(4) by blast
  from Cons.IH [OF Cons.prems(1) this] obtain ys' w' where
    rest: "play_all co rand it1 w1 = Some (ys', PLAY_TREE_ITER_END, w')" "map (\<lambda>(a, c). (a, hd (vals c))) ys' = out"
    "list_all (\<lambda>(a, c). ok c) ys'" "w_heap w' = h" "ok (w_config w')" "vals (w_config w') = S" by blast
  have "ok (w_config w1)" using res(2) by (simp add: at_leaf_def iter_ok_def)
  moreover have "play_all co rand it w = Some ((pt_addr t, w_config w1) # ys', PLAY_TREE_ITER_END, w')"
    using Cons.prems(2) rest(1) res(1,2) by (subst play_all.simps) (simp add: at_leaf_def)
  ultimately show ?case using rest res(3) by auto
qed

text \<open>From a new iterator on, the list from its root on is played, and then the settings are those from before.\<close>

lemma play_tree_all:
  assumes "place safe h xs t ys []" "w_heap w = h" "ok (w_config w)" "vals (w_config w) = S" "S \<noteq> []"
    "play_tree_iter_new (pt_addr t) True h = Some (Some it)"
  shows "\<exists>out w'. play_all co rand it w = Some (out, PLAY_TREE_ITER_END, w') \<and>
    map (\<lambda>(a, c). (a, hd (vals c))) out = concat (map (plays setting (hd S)) (t # ys)) \<and>
    list_all (\<lambda>(a, c). ok c) out \<and> w_heap w' = h \<and> ok (w_config w') \<and> vals (w_config w') = S"
proof -
  let ?t = "pt_addr t" and ?it1 = "it\<lparr>it_tree := Some (pt_addr t)\<rparr>" and ?it2 = "it\<lparr>it_tree := Some (pt_addr t), it_rnd := False, it_file := - 1\<rparr>"
  note node = place_node [OF assms(1)]
  have it: "it_root it = Some ?t" "it_tree it = None" "it_config it" "\<not> it_entry_pushed it" "it_stack it = []"
    using assms(6) node(1,2) by (auto simp: play_tree_iter_new_def)
  have "step_once co rand False 1 it w = Some (STEP 0, ?it1, w)" using it by (simp add: step_once_def)
  then have step: "play_tree_iter_step co rand False 1 it w = Option.bind (at_entry co False 0 ?t ?it2 w) (cont co rand)"
    using step_once_0 [OF assms(1,2), of ?it1 co rand False] it by (simp add: step_cont cont_def)
  have "iter_ok h ?t ?it2 w []" using it assms(2,3) node(1) by (simp add: iter_ok_def)
  from enter [OF assms(1) this _ _ assms(5), where d = 0 and rand = rand] it(4) assms(4) obtain res where
    "play_tree_iter_step co rand False 1 it w = Some res" "found h ?t S (concat (map (plays setting (hd S)) (t # ys))) res"
    unfolding step by auto
  from play_all_from [OF assms(5) this(1) disjI1 [OF this(2)]] show ?thesis .
qed

end

end
