(* ===== verification/PlayConfig.thy ===== *)
theory PlayConfig
  imports ConfigReg PlayOrder
begin

text \<open>
  The play tree's iterator with the configuration of m_config.c: what is promised of the settings while the entries of a tree are
  played, and where the promise ends.
\<close>

section \<open>The configuration as the iterator uses it\<close>

definition config_functions :: "m_config config_ops" where
  "config_functions = \<lparr>co_push = m_config_push, co_pop = m_config_pop, co_set = (\<lambda>name val c. map_option snd (m_config_set_option name val c))\<rparr>"

interpretation cfg: config_stack config_functions "config_ok os mode" config_vals "config_safe os" "config_setting os mode" for os mode
proof
  fix c v vs assume "config_ok os mode c" "config_vals c = v # vs"
  from push_config [OF this] show "\<exists>c'. co_push config_functions c = Some c' \<and> config_ok os mode c' \<and> config_vals c' = v # v # vs"
    by (simp add: config_functions_def)
next
  fix c v vs name val assume "config_ok os mode c" "config_vals c = v # vs" "config_safe os name"
  from set_config [OF this, of val] show "\<exists>c'. co_set config_functions name val c = Some c' \<and> config_ok os mode c' \<and>
    config_vals c' = config_setting os mode name val v # vs"
    by (auto simp: config_functions_def)
next
  fix c v w vs assume "config_ok os mode c" "config_vals c = v # w # vs"
  from pop_config [OF this] show "\<exists>c'. co_pop config_functions c = Some c' \<and> config_ok os mode c' \<and> config_vals c' = w # vs"
    by (simp add: config_functions_def)
qed

section \<open>What is restored\<close>

text \<open>The values of the variables of the options that are saved.\<close>

definition saved_values :: "m_config \<Rightarrow> opt_value list" where
  "saved_values c = map (cf_vars c) (variables (cf_opts c))"

lemma history_hds: "list_all2 (saved_ok L H) os css \<Longrightarrow> map hd (histories vars os css) = map vars (variables os)"
  by (induction rule: list_all2_induct) (auto simp: saved_ok_def history_def variables_def split: if_splits option.splits)

lemma config_vals_head: "config_ok os mode c \<Longrightarrow> \<exists>vs. config_vals c = saved_values c # vs"
proof -
  assume "config_ok os mode c"
  then have s: "slots_ok (nat (cf_lvl c)) c (config_slots c)" by (simp add: config_ok_def)
  then obtain L where L: "nat (cf_lvl c) = Suc L" by (cases "nat (cf_lvl c)") (auto simp: slots_ok_def)
  have "list_all2 (saved_ok (Suc L) (cf_slots c)) (cf_opts c) (config_slots c)" using s by (simp add: L slots_ok_def)
  from history_hds [OF this] show ?thesis using slots_ok_vals [OF s] by (simp add: saved_values_def L)
qed

text \<open>C16: whatever a configuration's state, the options that are saved have their values from before a push again after the
  matching pop, when between the two options are set by their own names; in between they have the values that were set.\<close>

theorem settings_restored:
  assumes "config_ok os mode c" "list_all (\<lambda>p. config_safe os (fst p)) ps"
  shows "\<exists>c1 c2 c3. m_config_push c = Some c1 \<and> saved_values c1 = saved_values c \<and> set_options config_functions ps c1 = Some c2 \<and>
    saved_values c2 = apply_params (config_setting os mode) ps (saved_values c) \<and> m_config_pop c2 = Some c3 \<and>
    saved_values c3 = saved_values c \<and> config_ok os mode c3"
proof -
  obtain vs where v: "config_vals c = saved_values c # vs" using config_vals_head [OF assms(1)] by blast
  obtain c1 where 1: "m_config_push c = Some c1" "config_ok os mode c1" "config_vals c1 = saved_values c # saved_values c # vs"
    using push_config [OF assms(1) v] by blast
  obtain c2 where 2: "set_options config_functions ps c1 = Some c2" "config_ok os mode c2"
    "config_vals c2 = apply_params (config_setting os mode) ps (saved_values c) # saved_values c # vs"
    using cfg.set_options_vals [OF 1(2,3) assms(2)] by blast
  obtain c3 where 3: "m_config_pop c2 = Some c3" "config_ok os mode c3" "config_vals c3 = saved_values c # vs"
    using pop_config [OF 2(2,3)] by blast
  show ?thesis using 1 2 3 config_vals_head [OF 1(2)] config_vals_head [OF 2(2)] config_vals_head [OF 3(2)] by auto
qed

lemma aid_5: "config_safe (entries (registered [opt_aid, opt_sound, opt_nosound] M_COMMAND_LINE vars)) ''aid''"
  "saved_values (registered [opt_aid, opt_sound, opt_nosound] M_COMMAND_LINE vars) = [vars 0]"
  "config_setting (entries (registered [opt_aid, opt_sound, opt_nosound] M_COMMAND_LINE vars)) M_COMMAND_LINE ''aid'' (Some ''5'') [v] = [V_INT 5]"
proof -
  let ?c = "registered [opt_aid, opt_sound, opt_nosound] M_COMMAND_LINE vars"
  show "config_safe (entries ?c) ''aid''"
    by (simp add: audio_entries config_safe_def audio_found entry_saved_def) (simp add: audio_defs)
  show "saved_values ?c = [vars 0]"
    by (simp add: saved_values_def variables_def saved_def registered_def m_config_register_options_def m_config_new_def add_option_plain audio_defs
        same_variable_def new_slots_def Let_def add_entry_def)
  have "strtoll 10 ''5'' = (5, [])" using strtoll_digits [of "''5''"]
    by (simp add: is_digit_def char_le_code char_code_def dec_value_def digit_value_def clamp64_def)
  then have "m_option_parse opt_aid (Some ''5'') M_COMMAND_LINE = (1, Some (V_INT 5))"
    by (simp add: m_option_parse_def parse_int_def opt_aid_def to_int32_def)
  moreover have "\<not> forbidden M_COMMAND_LINE opt_aid" by (simp add: forbidden_def audio_defs)
  ultimately show "config_setting (entries ?c) M_COMMAND_LINE ''aid'' (Some ''5'') [v] = [V_INT 5]"
    by (simp add: audio_entries config_setting_def audio_found entry_saved_def take_Cons')
qed

lemma settings_restored_witness:
  "\<exists>c1 c2 c3. m_config_push (registered [opt_aid, opt_sound, opt_nosound] M_COMMAND_LINE (\<lambda>x. V_INT (- 1))) = Some c1 \<and>
    set_options config_functions [(''aid'', Some ''5'')] c1 = Some c2 \<and> saved_values c2 = [V_INT 5] \<and>
    m_config_pop c2 = Some c3 \<and> saved_values c3 = [V_INT (- 1)]"
proof -
  have safe: "list_all (\<lambda>p. config_safe (entries (registered [opt_aid, opt_sound, opt_nosound] M_COMMAND_LINE (\<lambda>x. V_INT (- 1)))) (fst p)) [(''aid'', Some ''5'')]"
    using aid_5(1) by simp
  from settings_restored [OF registered_ok [OF audio_options_ok] this] show ?thesis using aid_5(2,3) by (simp add: apply_params_def) blast
qed


section \<open>The order of play\<close>

text \<open>The statement is also used for the command line.\<close>

lemma plays_in_order:
  assumes "seg h None None (t # ys) None" "list_all (playable (config_safe os)) (t # ys)" "config_ok os mode c"
  shows "\<exists>it out w'. play_tree_iter_new (pt_addr t) True h = Some (Some it) \<and>
    play_all config_functions rand it \<lparr>w_heap = h, w_config = c, w_rand = s\<rparr> = Some (out, PLAY_TREE_ITER_END, w') \<and>
    map (\<lambda>(a, c). (a, saved_values c)) out = concat (map (plays (config_setting os mode) (saved_values c)) (t # ys)) \<and>
    w_heap w' = h \<and> saved_values (w_config w') = saved_values c \<and> config_ok os mode (w_config w')"
proof -
  have place: "place (config_safe os) h [] t ys []" using assms(1,2) by (simp add: place_def)
  obtain it where it: "play_tree_iter_new (pt_addr t) True h = Some (Some it)"
    using place_node(1,2) [OF place] by (simp add: play_tree_iter_new_def)
  obtain vs where v: "config_vals c = saved_values c # vs" using config_vals_head [OF assms(3)] by blast
  let ?w = "\<lparr>w_heap = h, w_config = c, w_rand = s\<rparr>"
  have "\<exists>out w'. play_all config_functions rand it ?w = Some (out, PLAY_TREE_ITER_END, w') \<and>
    map (\<lambda>(a, c). (a, hd (config_vals c))) out = concat (map (plays (config_setting os mode) (hd (saved_values c # vs))) (t # ys)) \<and>
    list_all (\<lambda>(a, c). config_ok os mode c) out \<and> w_heap w' = h \<and> config_ok os mode (w_config w') \<and> config_vals (w_config w') = saved_values c # vs"
    using assms(3) v by (intro cfg.play_tree_all [OF place _ _ _ _ it]) simp_all
  then obtain out w' where r: "play_all config_functions rand it ?w = Some (out, PLAY_TREE_ITER_END, w')"
    "map (\<lambda>(a, c). (a, hd (config_vals c))) out = concat (map (plays (config_setting os mode) (saved_values c)) (t # ys))"
    "list_all (\<lambda>(a, c). config_ok os mode c) out" "w_heap w' = h" "config_ok os mode (w_config w')" "config_vals (w_config w') = saved_values c # vs"
    by auto
  have "saved_values (w_config w') = saved_values c" using config_vals_head [OF r(5)] r(6) by auto
  moreover have "map (\<lambda>(a, c). (a, saved_values c)) out = map (\<lambda>(a, c). (a, hd (config_vals c))) out"
    using r(3) config_vals_head by (fastforce simp: list_all_iff)
  ultimately show ?thesis using it r by auto
qed

text \<open>C13: the iterator plays a list of entries completely and in order. Every entry of the trees is played, as often as the loops
  around it say and with the values its parameters and those of the entries above it give to the options that are saved; then it
  ends, the trees are as before, and so are the values. Here no list is in random order, every entry without children has a file,
  and the parameters are options that are restored.\<close>

theorem play_order:
  assumes "seg h None None (t # ys) None" "list_all (playable (config_safe os)) (t # ys)" "config_ok os mode c"
  shows "\<exists>it out w'. play_tree_iter_new (pt_addr t) True h = Some (Some it) \<and>
    play_all config_functions rand it \<lparr>w_heap = h, w_config = c, w_rand = s\<rparr> = Some (out, PLAY_TREE_ITER_END, w') \<and>
    map (\<lambda>(a, c). (a, saved_values c)) out = concat (map (plays (config_setting os mode) (saved_values c)) (t # ys)) \<and>
    w_heap w' = h \<and> saved_values (w_config w') = saved_values c \<and> config_ok os mode (w_config w')"
  by (rule plays_in_order [OF assms])

lemma play_order_witness:
  "\<exists>it out w'. play_tree_iter_new 0 True
      [0 \<mapsto> links None (Some 1) (Some 3) None (empty_node\<lparr>pt_loop := 2\<rparr>),
       1 \<mapsto> links (Some 0) None (Some 2) None (add_file ''a.mp3'' empty_node\<lparr>pt_params := [(''aid'', Some ''5'')]\<rparr>),
       2 \<mapsto> links (Some 0) None None (Some 1) (add_file ''b.mp3'' empty_node),
       3 \<mapsto> links None None None (Some 0) (add_file ''c.mp3'' empty_node)] = Some (Some it) \<and>
    play_all config_functions (\<lambda>r. (0, r)) it
      \<lparr>w_heap = [0 \<mapsto> links None (Some 1) (Some 3) None (empty_node\<lparr>pt_loop := 2\<rparr>),
         1 \<mapsto> links (Some 0) None (Some 2) None (add_file ''a.mp3'' empty_node\<lparr>pt_params := [(''aid'', Some ''5'')]\<rparr>),
         2 \<mapsto> links (Some 0) None None (Some 1) (add_file ''b.mp3'' empty_node),
         3 \<mapsto> links None None None (Some 0) (add_file ''c.mp3'' empty_node)],
       w_config = registered [opt_aid, opt_sound, opt_nosound] M_COMMAND_LINE (\<lambda>x. V_INT (- 1)), w_rand = ()\<rparr> = Some (out, PLAY_TREE_ITER_END, w') \<and>
    map (\<lambda>(a, c). (a, saved_values c)) out = [(1, [V_INT 5]), (2, [V_INT (- 1)]), (1, [V_INT 5]), (2, [V_INT (- 1)]), (3, [V_INT (- 1)])] \<and>
    saved_values (w_config w') = [V_INT (- 1)]"
proof -
  let ?c = "registered [opt_aid, opt_sound, opt_nosound] M_COMMAND_LINE (\<lambda>x. V_INT (- 1))"
  let ?a = "add_file ''a.mp3'' empty_node\<lparr>pt_params := [(''aid'', Some ''5'')]\<rparr>"
  let ?t = "PT 0 (empty_node\<lparr>pt_loop := 2\<rparr>) [PT 1 ?a [], PT 2 (add_file ''b.mp3'' empty_node) []]" and ?u = "PT 3 (add_file ''c.mp3'' empty_node) []"
  let ?h = "[0 \<mapsto> links None (Some 1) (Some 3) None (empty_node\<lparr>pt_loop := 2\<rparr>), 1 \<mapsto> links (Some 0) None (Some 2) None ?a,
    2 \<mapsto> links (Some 0) None None (Some 1) (add_file ''b.mp3'' empty_node), 3 \<mapsto> links None None None (Some 0) (add_file ''c.mp3'' empty_node)]"
  have seg: "seg ?h None None [?t, ?u] None" by simp
  have play: "list_all (playable (config_safe (entries ?c))) [?t, ?u]"
    using aid_5(1) by (simp add: add_file_def empty_node_def)
  have out: "concat (map (plays (config_setting (entries ?c) M_COMMAND_LINE) (saved_values ?c)) [?t, ?u]) =
    [(1, [V_INT 5]), (2, [V_INT (- 1)]), (1, [V_INT 5]), (2, [V_INT (- 1)]), (3, [V_INT (- 1)])]"
    using aid_5(2,3) by (simp add: add_file_def empty_node_def apply_params_def numeral_2_eq_2 Let_def)
  obtain it out w' where "play_tree_iter_new (pt_addr ?t) True ?h = Some (Some it)"
    "play_all config_functions (\<lambda>r. (0, r)) it \<lparr>w_heap = ?h, w_config = ?c, w_rand = ()\<rparr> = Some (out, PLAY_TREE_ITER_END, w')"
    "map (\<lambda>(a, c). (a, saved_values c)) out = concat (map (plays (config_setting (entries ?c) M_COMMAND_LINE) (saved_values ?c)) [?t, ?u])"
    "saved_values (w_config w') = saved_values ?c"
    using play_order [OF seg play registered_ok [OF audio_options_ok], of "\<lambda>r. (0, r)" "()"] by blast
  then show ?thesis unfolding out using aid_5(2) by (intro exI [of _ it] exI [of _ out] exI [of _ w']) simp
qed

end
