(* ===== verification/CmdPlay.thy ===== *)
theory CmdPlay
  imports ParserCmd PlayConfig
begin

text \<open>
  From the command line to what is played: files with their options, in groups with theirs, are played in order, and each with
  its own options and those of the groups around it.
\<close>

section \<open>Command lines that are written from entries\<close>

datatype cmd_item = ENTRY string "(string \<times> string) list" | GROUP "cmd_item list" "int option" "(string \<times> string) list"

definition option_args :: "(string \<times> string) list \<Rightarrow> string list" where
  "option_args ps = concat (map (\<lambda>(name, val). [CHR ''-'' # name, val]) ps)"

definition loop_args :: "int option \<Rightarrow> string list" where
  "loop_args l = (case l of None \<Rightarrow> [] | Some l \<Rightarrow> [''-loop'', dec_string l])"

fun item_args :: "cmd_item \<Rightarrow> string list" where
  "item_args (ENTRY f ps) = f # option_args ps"
| "item_args (GROUP items l ps) = ''{'' # concat (map item_args items) @ ''}'' # loop_args l @ option_args ps"

definition with_params :: "(string \<times> string) list \<Rightarrow> play_tree \<Rightarrow> play_tree" where
  "with_params ps n = n\<lparr>pt_params := pt_params n @ map (\<lambda>(name, val). (name, Some val)) ps\<rparr>"

definition with_loop :: "int option \<Rightarrow> play_tree \<Rightarrow> play_tree" where
  "with_loop l n = (case l of None \<Rightarrow> n | Some l \<Rightarrow> n\<lparr>pt_loop := l\<rparr>)"

text \<open>The trees of the entries, whose nodes have the addresses from \<open>n\<close> on.\<close>

fun item_size :: "cmd_item \<Rightarrow> nat" where
  "item_size (ENTRY f ps) = 1"
| "item_size (GROUP items l ps) = Suc (sum_list (map item_size items))"

fun item_tree :: "nat \<Rightarrow> cmd_item \<Rightarrow> ptree" and item_trees :: "nat \<Rightarrow> cmd_item list \<Rightarrow> ptree list" where
  "item_tree n (ENTRY f ps) = PT n (with_params ps (add_file f empty_node)) []"
| "item_tree n (GROUP items l ps) = PT n (with_params ps (with_loop l empty_node)) (item_trees (n + 1) items)"
| "item_trees n [] = []"
| "item_trees n (i # items) = item_tree n i # item_trees (n + item_size i) items"

text \<open>Names of files that are nothing else on a command line, and options with a parameter that belong to entries.\<close>

definition plain_file :: "string \<Rightarrow> bool" where
  "plain_file f \<longleftrightarrow> f \<notin> {''--'', ''{'', ''}'', ''-''} \<and> \<not> (f \<noteq> [] \<and> hd f = CHR ''-'' \<and> tl f \<noteq> []) \<and> strstr ''dvd://'' f = None \<and> strstr ''dvdnav://'' f = None"

definition entry_param :: "m_config \<Rightarrow> string \<times> string \<Rightarrow> bool" where
  "entry_param c p \<longleftrightarrow> (case p of (name, val) \<Rightarrow> name \<noteq> [] \<and> name \<noteq> ''-'' \<and>
     \<not> list_ex (av_strcaseeq name) [''loop'', ''shuffle'', ''noshuffle'', ''playlist''] \<and>
     (\<exists>opt. m_config_get_option c name = Some opt \<and> \<not> has_flag opt M_OPT_GLOBAL) \<and> m_config_check_option name (Some val) c = Some 1)"

fun cmd_item_ok :: "m_config \<Rightarrow> cmd_item \<Rightarrow> bool" where
  "cmd_item_ok c (ENTRY f ps) \<longleftrightarrow> plain_file f \<and> list_all (entry_param c) ps"
| "cmd_item_ok c (GROUP items l ps) \<longleftrightarrow> items \<noteq> [] \<and> list_all (cmd_item_ok c) items \<and> (\<forall>k. l = Some k \<longrightarrow> 0 < k \<and> k < 2 ^ 31) \<and> list_all (entry_param c) ps"

lemma hd_dec_digits: "0 < n \<Longrightarrow> hd (dec_digits n) \<noteq> CHR ''0''"
proof (induction n rule: dec_digits.induct)
  case (1 n)
  show ?case
  proof (cases "n < 10")
    case True
    then have "char_code (char_of (n + 48)) \<noteq> char_code (CHR ''0'')" using 1(2) by (simp add: char_code_of) (simp add: char_code_def)
    then show ?thesis using True by (subst dec_digits.simps) auto
  next
    case False
    then show ?thesis using 1(1) dec_digits_ne [of "n div 10"] by (subst dec_digits.simps) simp
  qed
qed

lemma strtoll_0_dec_string:
  assumes "0 < k" "k < 2 ^ 63"
  shows "strtoll 0 (dec_string k) = (k, [])"
proof -
  let ?s = "dec_digits (nat k)"
  obtain c cs where s: "?s = c # cs" using dec_digits_ne [of "nat k"] by (cases ?s) auto
  have d: "list_all is_digit ?s" by (rule dec_digits_all)
  have c: "\<not> is_space c" "c \<noteq> CHR ''-''" "c \<noteq> CHR ''+''" "c \<noteq> CHR ''0''"
    using digit_no_sign [of c] d s hd_dec_digits [of "nat k"] assms(1) by simp_all
  have rest: "dropWhile (\<lambda>c. base_digit 10 c \<noteq> None) ?s = []" using d by (auto simp: base_digit_10 list_all_iff)
  have v: "base_value 10 0 ?s = k" using base_value_digits [OF d] dec_value_digits [of "nat k"] assms(1) by (simp add: dec_value_def)
  show ?thesis using c rest v assms by (simp add: strtoll_def dec_string_def s clamp64_id)
qed

section \<open>The state between arguments\<close>

lemma heap_is_mset: "heap_is h Fs \<Longrightarrow> mset Gs = mset Fs \<Longrightarrow> heap_is h Gs"
  using forests_mset [of Gs Fs] set_all_addrs_mset [of Gs Fs] by (auto simp: heap_is_def)

lemma heap_is_empty_list: "heap_is h [F, []] = heap_is h [F]"
  by (simp add: heap_is_def forests_def all_addrs_def)

text \<open>The groups that are open are frames whose entries before the open group are complete; their nodes have no data yet.\<close>

definition open_frames :: "frame list \<Rightarrow> bool" where
  "open_frames fs \<longleftrightarrow> fs \<noteq> [] \<and> list_all (\<lambda>(ls, a, n, rs). n = empty_node \<and> rs = []) fs"

definition cmd_at :: "m_config \<Rightarrow> cmd_state \<Rightarrow> frame list \<Rightarrow> ptree list \<Rightarrow> nat \<Rightarrow> bool" where
  "cmd_at c st fs ts n \<longleftrightarrow> heap_is (pc_heap st) [plug fs ts] \<and> open_frames fs \<and> hole_par fs = Some (pc_parent st) \<and>
     pc_entry st = (if ts = [] then None else Some (pt_addr (last ts))) \<and> pc_next st = n \<and> set (addrs (plug fs ts)) \<subseteq> {..<n} \<and>
     pc_config st = c \<and> \<not> pc_no_more st \<and> \<not> pc_exit st"

lemma cmd_at_heap: "cmd_at c st fs ts n \<Longrightarrow> heap_is (pc_heap st) [plug fs ts]"
  by (simp add: cmd_at_def)

lemma cmd_at_place:
  assumes "cmd_at c st fs (us @ t # vs) n"
  shows "pc_heap st (pt_addr t) = Some (links (hole_par fs) (first_of None (pt_kids t)) (first_of None vs) (last_of None us) (pt_node t))"
proof -
  have "forests (pc_heap st) [plug fs (us @ t # vs)]" using cmd_at_heap [OF assms] by (simp add: heap_is_def)
  then have "seg (pc_heap st) (hole_par fs) None (us @ t # vs) None" by (simp add: forests_def seg_plug)
  then show ?thesis by (simp add: seg_Cons)
qed

lemma cmd_at_parent:
  assumes "cmd_at c st ((ls, a, m, rs) # fs) ts n"
  shows "\<exists>chd nxt prv. pc_heap st a = Some (links (hole_par fs) chd nxt prv m)"
proof -
  have "forests (pc_heap st) [plug fs (ls @ PT a m ts # rs)]" using cmd_at_heap [OF assms] by (simp add: heap_is_def)
  then have "seg (pc_heap st) (hole_par fs) None (ls @ PT a m ts # rs) None" by (simp add: forests_def seg_plug)
  then show ?thesis by (auto simp: seg_Cons)
qed

text \<open>Linking a lone entry at the end.\<close>

lemma link_entry:
  assumes "heap_is h [plug fs ts, [e]]" "open_frames fs" "hole_par fs = Some p"
  shows "\<exists>h'. (if ts = [] then play_tree_set_child (Some p) (Some (pt_addr e)) h else play_tree_append_entry (pt_addr (last ts)) (pt_addr e) h) = Some h' \<and>
    heap_is h' [plug fs (ts @ [e])]"
proof (cases ts rule: rev_cases)
  case Nil
  obtain ls a fs' where fs: "fs = (ls, a, empty_node, []) # fs'" using assms(2) by (cases fs) (auto simp: open_frames_def)
  have "mset [plug fs ts, [e]] = mset ([plug fs' (ls @ PT a empty_node [] # []), [] @ e # []] @ [])" by (simp add: fs Nil)
  from tree_step_heap [OF step_set_child [OF this] assms(1)] show ?thesis
    using assms(3) heap_is_empty_list by (auto simp: fs Nil)
next
  case (snoc ts0 l)
  have "mset [plug fs ts, [e]] = mset ([plug fs (ts0 @ [l]), [e]] @ [])" by (simp add: snoc)
  from tree_step_heap [OF step_append [OF this, of l] assms(1)] show ?thesis by (simp add: snoc)
qed

lemma addrs_plug_snoc: "set (addrs (plug fs (ts @ us))) = set (addrs (plug fs ts)) \<union> set (addrs us)"
  by (auto simp: set_addrs_plug)

lemma linked:
  assumes "cmd_at c st fs ts n" "heap_is h [plug fs (ts @ [e])]" "set (addrs [e]) \<subseteq> {..<k}" "n \<le> k"
  shows "cmd_at c (st\<lparr>pc_heap := h, pc_next := k, pc_entry := Some (pt_addr e), pc_mode := m\<rparr>) fs (ts @ [e]) k"
  using assms addrs_plug_snoc [of fs ts "[e]"] by (auto simp: cmd_at_def)

section \<open>Files\<close>

lemma new_node_at:
  assumes "cmd_at c st fs ts n"
  shows "heap_is (play_tree_new n (pc_heap st)) [plug fs ts, [PT n empty_node []]]"
proof -
  have "n \<notin> set (all_addrs [plug fs ts])" using assms by (auto simp: cmd_at_def)
  from new_heap [OF cmd_at_heap [OF assms] this] show ?thesis by (rule heap_is_mset) simp
qed

lemma tolower_dash: "tolower c = tolower (CHR ''-'') \<Longrightarrow> c = CHR ''-''"
proof -
  assume t: "tolower c = tolower (CHR ''-'')"
  have d: "tolower (CHR ''-'') = CHR ''-''" by (simp add: tolower_def is_upper_def char_le_code char_code_def)
  have "\<not> is_upper c"
  proof
    assume u: "is_upper c"
    then have "65 \<le> char_code c" "char_code c \<le> 90" by (simp_all add: is_upper_def char_le_code) (simp_all add: char_code_def)
    moreover from this have "char_code (tolower c) = char_code c + 32" using u by (simp add: tolower_def char_code_of)
    ultimately show False using t d by (simp add: char_code_def)
  qed
  then show ?thesis using t d by (simp add: tolower_def)
qed

lemma cmd_file_at:
  assumes "cmd_at c st fs ts n" "plain_file f"
  shows "\<exists>st'. cmd_file f st = Some st' \<and> cmd_at c st' fs (ts @ [PT n (add_file f empty_node) []]) (n + 1) \<and> pc_mode st' = LOCAL"
proof -
  let ?e = "PT n (add_file f empty_node) []"
  have st: "pc_next st = n" "pc_config st = c" "open_frames fs" "hole_par fs = Some (pc_parent st)"
    "pc_entry st = (if ts = [] then None else Some (pt_addr (last ts)))" using assms(1) by (simp_all add: cmd_at_def)
  have "mset [plug fs ts, [PT n empty_node []]] = mset ([plug [] ([] @ PT n empty_node [] # [])] @ [plug fs ts])" by simp
  from tree_step_heap [OF step_add_file [OF this, of f] new_node_at [OF assms(1)]] obtain h1 where
    h1: "play_tree_add_file n f (play_tree_new n (pc_heap st)) = Some h1" "heap_is h1 [[?e], plug fs ts]" by auto
  have "heap_is h1 [plug fs ts, [?e]]" by (rule heap_is_mset [OF h1(2)]) simp
  from link_entry [OF this st(3,4), unfolded ptree.sel] obtain h2 where
    h2: "(if ts = [] then play_tree_set_child (Some (pc_parent st)) (Some n) h1 else play_tree_append_entry (pt_addr (last ts)) n h1) = Some h2"
      "heap_is h2 [plug fs (ts @ [?e])]" by blast
  have dash: "\<not> av_strcaseeq f ''-''"
    using assms(2) tolower_dash by (cases f) (auto simp: plain_file_def av_strcaseeq_def)
  have "cmd_file f st = Some (st\<lparr>pc_heap := h2, pc_next := n + 1, pc_entry := Some n, pc_mode := LOCAL\<rparr>)"
    using assms(2) dash h1(1) h2(1) st by (simp add: cmd_file_def plain_file_def new_node_def on_heap_def add_cmd_entry_def split: if_splits)
  then show ?thesis using linked [OF assms(1) h2(2), of "n + 1" LOCAL] by simp
qed

section \<open>Options of entries\<close>

lemma cmd_at_data:
  assumes "cmd_at c st fs (ts @ [PT a m cs]) n" "pc_heap st a = Some q" "heap_is (h) [plug fs (ts @ [PT a m' cs])]"
  shows "cmd_at c (st\<lparr>pc_heap := h\<rparr>) fs (ts @ [PT a m' cs]) n"
  using assms by (simp add: cmd_at_def)

lemma last_group_at:
  assumes "cmd_at c st fs (ts @ [PT a m cs]) n"
  shows "last_group st = Some (if cs = [] then None else Some a)" "last_node st = a" "\<exists>q. pc_heap st a = Some q"
proof -
  have "pc_entry st = Some a" using assms by (simp add: cmd_at_def)
  moreover have "pc_heap st a = Some (links (hole_par fs) (first_of None cs) None (last_of None ts) m)"
    using cmd_at_place [of c st fs ts "PT a m cs" "[]"] assms by simp
  moreover have "first_of None cs = None \<longleftrightarrow> cs = []" by (cases cs) simp_all
  ultimately show "last_group st = Some (if cs = [] then None else Some a)" "last_node st = a" "\<exists>q. pc_heap st a = Some q"
    by (auto simp: last_group_def last_node_def)
qed

lemma cmd_param_at:
  assumes "cmd_at c st fs (ts @ [PT a m cs]) n" "entry_param c (name, val)" "pc_mode st = LOCAL"
  shows "\<exists>st'. cmd_args read ((CHR ''-'' # name) # val # args) st = cmd_args read args st' \<and>
    cmd_at c st' fs (ts @ [PT a (with_params [(name, val)] m) cs]) n \<and> pc_mode st' = LOCAL"
proof -
  note last = last_group_at [OF assms(1)]
  have st: "pc_config st = c" "\<not> pc_no_more st" using assms(1) by (simp_all add: cmd_at_def)
  have "mset [plug fs (ts @ [PT a m cs])] = mset ([plug fs (ts @ PT a m cs # [])] @ [])" by simp
  from tree_step_heap [OF step_set_param [OF this, of name "Some val"] cmd_at_heap [OF assms(1)]] obtain h1 where
    h1: "play_tree_set_param a name (Some val) (pc_heap st) = Some h1" "heap_is h1 [plug fs (ts @ [PT a (with_params [(name, val)] m) cs])]"
    by (auto simp: with_params_def)
  obtain opt where opt: "m_config_get_option c name = Some opt" "\<not> has_flag opt M_OPT_GLOBAL" "m_config_check_option name (Some val) c = Some 1"
    and n: "name \<noteq> []" "name \<noteq> ''-''" "\<not> av_strcaseeq name ''loop''" "\<not> av_strcaseeq name ''shuffle''" "\<not> av_strcaseeq name ''noshuffle''"
      "\<not> av_strcaseeq name ''playlist''"
    using assms(2) by (auto simp: entry_param_def)
  have "cmd_option read name (Some val) st = Some (1, st\<lparr>pc_heap := h1\<rparr>)"
    using last opt n st assms(3) h1(1) by (simp add: cmd_option_def is_entry_option_def normal_option_def on_heap_def)
  then have "cmd_args read ((CHR ''-'' # name) # val # args) st = cmd_args read args (st\<lparr>pc_heap := h1\<rparr>)"
    using n st by (simp add: cmd_args.simps(2) [of read "CHR ''-'' # name"] M_OPT_EXIT_def)
  moreover have "cmd_at c (st\<lparr>pc_heap := h1\<rparr>) fs (ts @ [PT a (with_params [(name, val)] m) cs]) n" using assms(1) h1(2) by (simp add: cmd_at_def)
  ultimately show ?thesis using assms(3) by fastforce
qed

lemma cmd_params_at:
  "cmd_at c st fs (ts @ [PT a m cs]) n \<Longrightarrow> list_all (entry_param c) ps \<Longrightarrow> pc_mode st = LOCAL \<Longrightarrow>
    \<exists>st'. cmd_args read (option_args ps @ args) st = cmd_args read args st' \<and> cmd_at c st' fs (ts @ [PT a (with_params ps m) cs]) n \<and> pc_mode st' = LOCAL"
proof (induction ps arbitrary: st m)
  case Nil
  then show ?case by (auto simp: option_args_def with_params_def)
next
  case (Cons p ps)
  obtain name val where p: "p = (name, val)" by (cases p)
  obtain st1 where 1: "cmd_args read ((CHR ''-'' # name) # val # option_args ps @ args) st = cmd_args read (option_args ps @ args) st1"
    "cmd_at c st1 fs (ts @ [PT a (with_params [(name, val)] m) cs]) n" "pc_mode st1 = LOCAL"
    using cmd_param_at [OF Cons.prems(1) _ Cons.prems(3), of name val read "option_args ps @ args"] Cons.prems(2) by (auto simp: p)
  have "with_params ps (with_params [(name, val)] m) = with_params (p # ps) m" by (simp add: with_params_def p)
  then show ?case using Cons.IH [OF 1(2) _ 1(3)] Cons.prems(2) 1(1) by (simp add: option_args_def p)
qed

lemma cmd_loop_at:
  assumes "cmd_at c st fs (ts @ [PT a m cs]) n" "cs \<noteq> []" "\<forall>k. l = Some k \<longrightarrow> 0 < k \<and> k < 2 ^ 31"
  shows "\<exists>st'. cmd_args read (loop_args l @ args) st = cmd_args read args st' \<and> cmd_at c st' fs (ts @ [PT a (with_loop l m) cs]) n \<and> pc_mode st' = pc_mode st"
proof (cases l)
  case None
  then show ?thesis using assms(1) by (auto simp: loop_args_def with_loop_def)
next
  case (Some k)
  note last = last_group_at [OF assms(1)]
  have st: "\<not> pc_no_more st" using assms(1) by (simp add: cmd_at_def)
  have k: "0 < k" "k < 2 ^ 31" using assms(3) Some by simp_all
  have "strtoll 0 (dec_string k) = (k, [])" "to_int32 k = k" using strtoll_0_dec_string [of k] k by (simp_all add: to_int32_id)
  then have loop: "loop_option (Some (dec_string k)) st = map_option (Pair 1) (flag_node a (with_loop l) st)"
    using last(2) k Some by (cases "pc_heap st a") (simp_all add: loop_option_def with_loop_def [abs_def] flag_node_def on_heap_def pt_upd_def)
  have "forests (pc_heap st) [plug fs (ts @ PT a m cs # [])]" using cmd_at_heap [OF assms(1)] by (simp add: heap_is_def)
  from data_turns [OF this, of "with_loop l"] obtain par chd nxt prv where
    d: "pc_heap st a = Some (links par chd nxt prv m)" "turns (pc_heap st) [plug fs (ts @ PT a m cs # [])]
      ((pc_heap st)(a \<mapsto> with_loop l (links par chd nxt prv m))) [plug fs (ts @ PT a (with_loop l m) cs # [])]"
    by (auto simp: with_loop_def links_def split: option.splits)
  let ?st = "st\<lparr>pc_heap := (pc_heap st)(a \<mapsto> with_loop l (links par chd nxt prv m))\<rparr>"
  have "heap_is (pc_heap ?st) [plug fs (ts @ [PT a (with_loop l m) cs])]"
    using heap_is_turns [OF cmd_at_heap [OF assms(1)] _ d(2), of "[]"] by simp
  then have "cmd_at c ?st fs (ts @ [PT a (with_loop l m) cs]) n" using assms(1) by (simp add: cmd_at_def)
  moreover have "cmd_option read ''loop'' (Some (dec_string k)) st = Some (1, ?st)"
    using last assms(2) loop d(1) by (simp add: cmd_option_def av_strcaseeq_def flag_node_def on_heap_def pt_upd_def)
  then have "cmd_args read (''-loop'' # dec_string k # args) st = cmd_args read args ?st"
    using st by (simp add: cmd_args.simps(2) [of read "''-loop''"] M_OPT_EXIT_def)
  ultimately show ?thesis using Some by (intro exI [of _ ?st]) (simp add: loop_args_def)
qed

section \<open>Groups\<close>

lemma open_group_at:
  assumes "cmd_at c st fs ts n"
  shows "\<exists>st'. open_group st = Some st' \<and> cmd_at c st' ((ts, n, empty_node, []) # fs) [] (n + 1) \<and> pc_mode st' = LOCAL"
proof -
  have st: "pc_next st = n" "open_frames fs" "hole_par fs = Some (pc_parent st)" "pc_entry st = (if ts = [] then None else Some (pt_addr (last ts)))"
    "set (addrs (plug fs ts)) \<subseteq> {..<n}" using assms by (simp_all add: cmd_at_def)
  obtain ls a fs' where fs: "fs = (ls, a, empty_node, []) # fs'" using st(2) by (cases fs) (auto simp: open_frames_def)
  obtain chd nxt prv where p: "pc_heap st a = Some (links (hole_par fs') chd nxt prv empty_node)" using cmd_at_parent assms fs by blast
  have a: "pc_parent st = a" "a \<noteq> n" using st(3,5) by (auto simp: fs)
  let ?h = "play_tree_new n (pc_heap st)"
  obtain h1 where h1: "(if ts = [] then play_tree_set_child (Some (pc_parent st)) (Some n) ?h else play_tree_append_entry (pt_addr (last ts)) n ?h) = Some h1"
    "heap_is h1 [plug fs (ts @ [PT n empty_node []])]"
    using link_entry [OF new_node_at [OF assms] st(2,3), unfolded ptree.sel] by blast
  let ?st = "st\<lparr>pc_heap := h1, pc_next := n + 1, pc_mode := LOCAL, pc_entry := None, pc_parent := n\<rparr>"
  have "?h a = Some (links (hole_par fs') chd nxt prv empty_node)" using p a by (simp add: play_tree_new_def)
  then have "open_group st = Some ?st"
    using h1(1) st(1,4) a by (simp add: open_group_def new_node_def is_rnd_def empty_node_def on_heap_def split: if_splits)
  moreover have "cmd_at c ?st ((ts, n, empty_node, []) # fs) [] (n + 1)"
    using assms h1(2) by (auto simp: cmd_at_def open_frames_def)
  ultimately show ?thesis by simp
qed

lemma close_group_at:
  assumes "cmd_at c st ((ls, a, empty_node, []) # fs) ts n" "fs \<noteq> []"
  shows "\<exists>st'. close_group st = Some (Some st') \<and> cmd_at c st' fs (ls @ [PT a empty_node ts]) n \<and> pc_mode st' = pc_mode st"
proof -
  have a: "pc_parent st = a" "open_frames fs" using assms by (simp_all add: cmd_at_def open_frames_def)
  obtain q where q: "hole_par fs = Some q" using assms(2) by (cases fs) auto
  obtain chd nxt prv where p: "pc_heap st a = Some (links (hole_par fs) chd nxt prv empty_node)" using cmd_at_parent [OF assms(1)] by blast
  let ?st = "st\<lparr>pc_entry := Some a, pc_parent := q\<rparr>"
  have "close_group st = Some (Some ?st)" using p q a by (simp add: close_group_def)
  moreover have "cmd_at c ?st fs (ls @ [PT a empty_node ts]) n" using assms(1) a q by (auto simp: cmd_at_def)
  ultimately show ?thesis by simp
qed

section \<open>The command line as a tree\<close>

lemma cmd_items_at:
  assumes "\<And>i st fs ts n args. i \<in> set items \<Longrightarrow> cmd_at c st fs ts n \<Longrightarrow>
    \<exists>st'. cmd_args read (item_args i @ args) st = cmd_args read args st' \<and> cmd_at c st' fs (ts @ [item_tree n i]) (n + item_size i) \<and> pc_mode st' = LOCAL"
    "cmd_at c st fs ts n"
  shows "\<exists>st'. cmd_args read (concat (map item_args items) @ args) st = cmd_args read args st' \<and>
    cmd_at c st' fs (ts @ item_trees n items) (n + sum_list (map item_size items)) \<and> (items \<noteq> [] \<longrightarrow> pc_mode st' = LOCAL)"
  using assms
proof (induction items arbitrary: st ts n)
  case Nil
  then show ?case by auto
next
  case (Cons i items)
  obtain st1 where 1: "cmd_args read (item_args i @ concat (map item_args items) @ args) st = cmd_args read (concat (map item_args items) @ args) st1"
    "cmd_at c st1 fs (ts @ [item_tree n i]) (n + item_size i)" "pc_mode st1 = LOCAL"
    using Cons.prems(1) [of i, OF _ Cons.prems(2)] by auto
  obtain st2 where 2: "cmd_args read (concat (map item_args items) @ args) st1 = cmd_args read args st2"
    "cmd_at c st2 fs ((ts @ [item_tree n i]) @ item_trees (n + item_size i) items) (n + item_size i + sum_list (map item_size items))"
    "items \<noteq> [] \<longrightarrow> pc_mode st2 = LOCAL"
    using Cons.IH [OF Cons.prems(1) 1(2)] by auto
  show ?case
  proof (cases "items = []")
    case True
    then show ?thesis using 1 by auto
  next
    case False
    then show ?thesis using 1 2 by (auto simp: add.assoc)
  qed
qed

lemma cmd_item_at:
  "cmd_item_ok c i \<Longrightarrow> cmd_at c st fs ts n \<Longrightarrow>
    \<exists>st'. cmd_args read (item_args i @ args) st = cmd_args read args st' \<and> cmd_at c st' fs (ts @ [item_tree n i]) (n + item_size i) \<and> pc_mode st' = LOCAL"
proof (induction i arbitrary: st fs ts n args)
  case (ENTRY f ps)
  obtain st1 where 1: "cmd_file f st = Some st1" "cmd_at c st1 fs (ts @ [PT n (add_file f empty_node) []]) (n + 1)" "pc_mode st1 = LOCAL"
    using cmd_file_at [OF ENTRY.prems(2)] ENTRY.prems(1) by auto
  have "plain_file f" "pc_no_more st = False" using ENTRY.prems by (simp_all add: cmd_at_def)
  then have "cmd_args read (f # option_args ps @ args) st = cmd_args read (option_args ps @ args) st1"
    using 1(1) by (auto simp: cmd_args.simps(2) [of read f] plain_file_def)
  then show ?case using cmd_params_at [OF 1(2) _ 1(3), of ps read args] ENTRY.prems(1) by auto
next
  case (GROUP items l ps)
  have fs: "fs \<noteq> []" using GROUP.prems(2) by (simp add: cmd_at_def open_frames_def)
  obtain st1 where 1: "open_group st = Some st1" "cmd_at c st1 ((ts, n, empty_node, []) # fs) [] (n + 1)" "pc_mode st1 = LOCAL"
    using open_group_at [OF GROUP.prems(2)] by blast
  let ?args = "''}'' # loop_args l @ option_args ps @ args"
  obtain st2 where 2: "cmd_args read (concat (map item_args items) @ ?args) st1 = cmd_args read ?args st2"
    "cmd_at c st2 ((ts, n, empty_node, []) # fs) (item_trees (n + 1) items) (n + 1 + sum_list (map item_size items))" "pc_mode st2 = LOCAL"
  proof -
    have "\<exists>st'. cmd_args read (item_args i @ args) st = cmd_args read args st' \<and> cmd_at c st' fs (ts @ [item_tree n i]) (n + item_size i) \<and> pc_mode st' = LOCAL"
      if "i \<in> set items" "cmd_at c st fs ts n" for i st fs ts n args
      using GROUP.IH [OF that(1) _ that(2)] GROUP.prems(1) that(1) by (simp add: list_all_iff)
    from cmd_items_at [OF this 1(2)] show ?thesis using that GROUP.prems(1) by fastforce
  qed
  obtain st3 where 3: "close_group st2 = Some (Some st3)"
    "cmd_at c st3 fs (ts @ [PT n empty_node (item_trees (n + 1) items)]) (n + 1 + sum_list (map item_size items))" "pc_mode st3 = LOCAL"
    using close_group_at [OF 2(2) fs] 2(3) by auto
  have ne: "item_trees (n + 1) items \<noteq> []" using GROUP.prems(1) by (cases items) auto
  obtain st4 where 4: "cmd_args read (loop_args l @ option_args ps @ args) st3 = cmd_args read (option_args ps @ args) st4"
    "cmd_at c st4 fs (ts @ [PT n (with_loop l empty_node) (item_trees (n + 1) items)]) (n + 1 + sum_list (map item_size items))" "pc_mode st4 = LOCAL"
    using cmd_loop_at [OF 3(2) ne, of l read "option_args ps @ args"] GROUP.prems(1) 3(3) by auto
  obtain st5 where 5: "cmd_args read (option_args ps @ args) st4 = cmd_args read args st5"
    "cmd_at c st5 fs (ts @ [PT n (with_params ps (with_loop l empty_node)) (item_trees (n + 1) items)]) (n + 1 + sum_list (map item_size items))"
    "pc_mode st5 = LOCAL"
    using cmd_params_at [OF 4(2) _ 4(3), of ps read args] GROUP.prems(1) by auto
  have "cmd_args read (''{'' # concat (map item_args items) @ ?args) st = cmd_args read args st5"
    using 1(1) 2(1) 3(1) 4(1) 5(1) by (simp add: cmd_args.simps(2) [of read "''{''"] cmd_args.simps(2) [of read "''}''"])
  then show ?case using 5(2,3) by (auto simp: add.assoc)
qed

lemma command_line_tree:
  assumes "items \<noteq> []" "list_all (cmd_item_ok c) items" "cf_mode c = M_COMMAND_LINE"
  shows "\<exists>st. m_config_parse_mp_command_line read (concat (map item_args items)) c = Some (Some 0, st) \<and>
    heap_is (pc_heap st) [[PT 0 empty_node (item_trees 1 items)]] \<and> pc_config st = c"
proof -
  let ?st = "\<lparr>pc_config = c, pc_heap = play_tree_new 0 Map.empty, pc_next = 1, pc_parent = 0, pc_entry = None, pc_mode = GLOBAL, pc_no_more = False, pc_exit = False\<rparr>"
  have "heap_is (play_tree_new 0 Map.empty) [[PT 0 empty_node []]]" using new_heap [of Map.empty "[]" 0] by (simp add: heap_is_def forests_def)
  then have "cmd_at c ?st [([], 0, empty_node, [])] [] 1" by (simp add: cmd_at_def open_frames_def)
  from cmd_items_at [OF cmd_item_at this, of items read "[]"] assms(2) obtain st where
    st: "cmd_args read (concat (map item_args items)) ?st = Some (True, st)" "cmd_at c st [([], 0, empty_node, [])] (item_trees 1 items) (1 + sum_list (map item_size items))"
    by (auto simp: list_all_iff)
  have "c\<lparr>cf_mode := M_COMMAND_LINE\<rparr> = c" using assms(3) by simp
  then have "m_config_parse_mp_command_line read (concat (map item_args items)) c = Some (Some 0, st)"
    using st by (simp add: m_config_parse_mp_command_line_def new_node_def cmd_at_def)
  then show ?thesis using st(2) by (simp add: cmd_at_def)
qed

section \<open>What a command line plays\<close>

text \<open>The files with the values of the saved options while they are played.\<close>

fun item_plays :: "(string \<Rightarrow> string option \<Rightarrow> 'v \<Rightarrow> 'v) \<Rightarrow> 'v \<Rightarrow> cmd_item \<Rightarrow> (string \<times> 'v) list" where
  "item_plays setting v (ENTRY f ps) = [(f, fold (\<lambda>(name, val). setting name (Some val)) ps v)]"
| "item_plays setting v (GROUP items l ps) =
     concat (replicate (nat (case l of None \<Rightarrow> 1 | Some l \<Rightarrow> l)) (concat (map (item_plays setting (fold (\<lambda>(name, val). setting name (Some val)) ps v)) items)))"

text \<open>Options that are restored after the entry.\<close>

fun item_safe :: "(string \<Rightarrow> bool) \<Rightarrow> cmd_item \<Rightarrow> bool" where
  "item_safe safe (ENTRY f ps) \<longleftrightarrow> list_all (\<lambda>p. safe (fst p)) ps"
| "item_safe safe (GROUP items l ps) \<longleftrightarrow> list_all (item_safe safe) items \<and> list_all (\<lambda>p. safe (fst p)) ps"

lemma with_params_params: "apply_params setting (pt_params (with_params ps n)) v =
    fold (\<lambda>(name, val). setting name (Some val)) ps (apply_params setting (pt_params n) v)"
  by (simp add: apply_params_def with_params_def fold_map comp_def case_prod_unfold)

lemma with_params_data [simp]: "pt_loop (with_params ps n) = pt_loop n" "pt_flags (with_params ps n) = pt_flags n"
  "pt_files (with_params ps n) = pt_files n" "pt_entry_type (with_params ps n) = pt_entry_type n"
  by (simp_all add: with_params_def)

lemma with_params_safe: "list_all (\<lambda>p. safe (fst p)) (pt_params (with_params ps n)) \<longleftrightarrow>
    list_all (\<lambda>p. safe (fst p)) (pt_params n) \<and> list_all (\<lambda>p. safe (fst p)) ps"
  by (simp add: with_params_def list_all_iff case_prod_unfold ball_Un)

lemma with_loop_data [simp]: "pt_params (with_loop l n) = pt_params n" "pt_flags (with_loop l n) = pt_flags n"
  "pt_loop (with_loop l n) = (case l of None \<Rightarrow> pt_loop n | Some l \<Rightarrow> l)"
  by (simp_all add: with_loop_def split: option.splits)

lemma new_file_data [simp]: "pt_params (add_file f empty_node) = []" "pt_files (add_file f empty_node) = [f]"
  "pt_entry_type (add_file f empty_node) = PLAY_TREE_ENTRY_FILE"
  "pt_params empty_node = []" "pt_loop empty_node = 0" "pt_flags empty_node = 0"
  by (simp_all add: add_file_def empty_node_def)

lemma item_trees_all:
  assumes "\<And>i n. i \<in> set items \<Longrightarrow> P (item_tree n i)"
  shows "list_all P (item_trees n items)"
  using assms by (induction items arbitrary: n) auto

lemma item_playable: "cmd_item_ok c i \<Longrightarrow> item_safe safe i \<Longrightarrow> playable safe (item_tree n i)"
proof (induction i arbitrary: n)
  case (ENTRY f ps)
  then show ?case by (simp add: with_params_safe)
next
  case (GROUP items l ps)
  have "list_all (playable safe) (item_trees (n + 1) items)" using GROUP by (intro item_trees_all) (auto simp: list_all_iff)
  moreover have "item_trees (n + 1) items \<noteq> []" using GROUP.prems(1) by (cases items) auto
  ultimately show ?case using GROUP.prems by (auto simp: with_params_safe split: option.splits)
qed

text \<open>The addresses that are played belong to nodes with these files.\<close>

definition files_of :: "pt_heap \<Rightarrow> nat \<times> 'v \<Rightarrow> string list option \<times> 'v" where
  "files_of h p = (map_option pt_files (h (fst p)), snd p)"

lemma item_trees_plays:
  assumes "\<And>i n par prv nxt v. i \<in> set items \<Longrightarrow> seg h par prv [item_tree n i] nxt \<Longrightarrow>
      map (files_of h) (plays setting v (item_tree n i)) = map (\<lambda>(f, v). (Some [f], v)) (item_plays setting v i)"
    "seg h par prv (item_trees n items) nxt"
  shows "map (files_of h) (concat (map (plays setting v) (item_trees n items))) = map (\<lambda>(f, v). (Some [f], v)) (concat (map (item_plays setting v) items))"
  using assms
proof (induction items arbitrary: n prv)
  case (Cons i items)
  have s: "seg h par prv ([item_tree n i] @ item_trees (n + item_size i) items) nxt" using Cons.prems(2) by simp
  have "map (files_of h) (plays setting v (item_tree n i)) = map (\<lambda>(f, v). (Some [f], v)) (item_plays setting v i)"
    using s unfolding seg_append by (intro Cons.prems(1)) auto
  moreover have "map (files_of h) (concat (map (plays setting v) (item_trees (n + item_size i) items))) =
    map (\<lambda>(f, v). (Some [f], v)) (concat (map (item_plays setting v) items))"
  proof (rule Cons.IH)
    show "seg h par (last_of prv [item_tree n i]) (item_trees (n + item_size i) items) nxt" using s unfolding seg_append by blast
  qed (rule Cons.prems(1), auto)
  ultimately show ?case by simp
qed simp

lemma item_plays_files:
  "cmd_item_ok c i \<Longrightarrow> seg h par prv [item_tree n i] nxt \<Longrightarrow>
    map (files_of h) (plays setting v (item_tree n i)) = map (\<lambda>(f, v). (Some [f], v)) (item_plays setting v i)"
proof (induction i arbitrary: n par prv nxt v)
  case (ENTRY f ps)
  then show ?case by (simp add: files_of_def with_params_params) (simp add: apply_params_def)
next
  case (GROUP items l ps)
  let ?v = "fold (\<lambda>(name, val). setting name (Some val)) ps v"
  have s: "seg h (Some n) None (item_trees (n + 1) items) None" using GROUP.prems(2) by simp
  have "map (files_of h) (concat (map (plays setting ?v) (item_trees (n + 1) items))) =
    map (\<lambda>(f, v). (Some [f], v)) (concat (map (item_plays setting ?v) items))"
    using GROUP.IH GROUP.prems(1) by (intro item_trees_plays [OF _ s]) (auto simp: list_all_iff)
  moreover have "item_trees (n + 1) items \<noteq> []" using GROUP.prems(1) by (cases items) auto
  moreover have "nat (max 1 (case l of None \<Rightarrow> 0 | Some l \<Rightarrow> l)) = nat (case l of None \<Rightarrow> 1 | Some l \<Rightarrow> l)"
    using GROUP.prems(1) by (auto split: option.splits)
  moreover have "apply_params setting (pt_params (with_params ps (with_loop l empty_node))) v = ?v"
    unfolding with_params_params by (simp add: apply_params_def)
  ultimately show ?case by (simp add: Let_def map_concat split: option.splits)
qed

text \<open>C14: a command line of files and of groups, each followed by its options, plays these files in this order, the groups as
  often as their loop options say, and every file with the options given for it and for the groups around it; afterwards the
  saved options have their values from before.\<close>

theorem command_line_plays:
  assumes "items \<noteq> []" "list_all (cmd_item_ok c) items" "list_all (item_safe (config_safe os)) items" "config_ok os M_COMMAND_LINE c"
  shows "\<exists>st it out w'. m_config_parse_mp_command_line read (concat (map item_args items)) c = Some (Some 0, st) \<and>
    play_tree_iter_new 0 True (pc_heap st) = Some (Some it) \<and>
    play_all config_functions rand it \<lparr>w_heap = pc_heap st, w_config = pc_config st, w_rand = s\<rparr> = Some (out, PLAY_TREE_ITER_END, w') \<and>
    map (\<lambda>(a, c). (map_option pt_files (pc_heap st a), saved_values c)) out =
      map (\<lambda>(f, v). (Some [f], v)) (concat (map (item_plays (config_setting os M_COMMAND_LINE) (saved_values c)) items)) \<and>
    saved_values (w_config w') = saved_values c"
proof -
  let ?set = "config_setting os M_COMMAND_LINE" and ?t = "PT 0 empty_node (item_trees 1 items)"
  obtain st where st: "m_config_parse_mp_command_line read (concat (map item_args items)) c = Some (Some 0, st)"
    "heap_is (pc_heap st) [[?t]]" "pc_config st = c"
    using command_line_tree [OF assms(1,2)] assms(4) by (auto simp: config_ok_def)
  have seg: "seg (pc_heap st) None None [?t] None" using st(2) by (simp add: heap_is_def forests_def)
  have ne: "item_trees 1 items \<noteq> []" using assms(1) by (cases items) auto
  have "list_all (playable (config_safe os)) (item_trees 1 items)"
    using assms(2,3) by (intro item_trees_all item_playable) (auto simp: list_all_iff)
  then have play: "list_all (playable (config_safe os)) [?t]" using ne by simp
  have inner: "seg (pc_heap st) (Some 0) None (item_trees 1 items) None" using seg by simp
  have files: "map (files_of (pc_heap st)) (concat (map (plays ?set (saved_values c)) (item_trees 1 items))) =
    map (\<lambda>(f, v). (Some [f], v)) (concat (map (item_plays ?set (saved_values c)) items))"
    using assms(2) by (intro item_trees_plays [OF item_plays_files inner]) (auto simp: list_all_iff)
  have root: "concat (map (plays ?set (saved_values c)) [?t]) = concat (map (plays ?set (saved_values c)) (item_trees 1 items))"
    using ne by (simp add: apply_params_def)
  obtain it out w' where r: "play_tree_iter_new 0 True (pc_heap st) = Some (Some it)"
    "play_all config_functions rand it \<lparr>w_heap = pc_heap st, w_config = c, w_rand = s\<rparr> = Some (out, PLAY_TREE_ITER_END, w')"
    "map (\<lambda>(a, c). (a, saved_values c)) out = concat (map (plays ?set (saved_values c)) [?t])" "saved_values (w_config w') = saved_values c"
    using plays_in_order [OF seg play assms(4), of rand s] by auto
  have "map (\<lambda>(a, c). (map_option pt_files (pc_heap st a), saved_values c)) out = map (files_of (pc_heap st)) (map (\<lambda>(a, c). (a, saved_values c)) out)"
    by (simp add: files_of_def case_prod_unfold comp_def)
  then show ?thesis using st(1,3) r files root by auto
qed

lemma aid_param: "entry_param (registered [opt_aid, opt_sound, opt_nosound] M_COMMAND_LINE (\<lambda>x. V_INT (- 1))) (''aid'', ''5'')"
proof -
  let ?c = "registered [opt_aid, opt_sound, opt_nosound] M_COMMAND_LINE (\<lambda>x. V_INT (- 1))"
  have co: "m_config_get_co ?c ''aid'' = Some 2"
    using audio_found audio_entries [of M_COMMAND_LINE "\<lambda>x. V_INT (- 1)"] by (simp add: get_co_entry entries_def)
  have opts: "map static (cf_opts ?c) = [(''nosound'', opt_nosound, True), (''sound'', opt_sound, True), (''aid'', opt_aid, False)]"
    using audio_entries [of M_COMMAND_LINE "\<lambda>x. V_INT (- 1)"] by (simp add: entries_def)
  have "length (map static (cf_opts ?c)) = 3" "map static (cf_opts ?c) ! 2 = (''aid'', opt_aid, False)" unfolding opts by simp_all
  then have opt: "cn_opt (cf_opts ?c ! 2) = opt_aid" by (simp add: static_def)
  have "strtoll 10 ''5'' = (5, [])" using strtoll_digits [of "''5''"]
    by (simp add: is_digit_def char_le_code char_code_def dec_value_def digit_value_def clamp64_def)
  then have parse: "m_option_parse opt_aid (Some ''5'') M_COMMAND_LINE = (1, Some (V_INT 5))"
    by (simp add: m_option_parse_def parse_int_def opt_aid_def to_int32_def)
  obtain k where k: "option_fuel ?c = Suc k" by (simp add: option_fuel_def)
  have mode: "cf_mode ?c = M_COMMAND_LINE" using registered_ok [OF audio_options_ok, of M_COMMAND_LINE] by (simp add: config_ok_def)
  have ty: "(case mo_type opt_aid of TYPE_SUBCONFIG subopts \<Rightarrow> f subopts | _ \<Rightarrow> g) = g" for f and g :: "(int \<times> m_config) option"
    by (simp add: opt_aid_def)
  have "\<not> forbidden M_COMMAND_LINE opt_aid" by (simp add: forbidden_def audio_defs)
  then have "m_config_parse_option (Suc k) ''aid'' (Some ''5'') False ?c = Some (1, ?c)"
    by (simp add: co opt mode ty parse Let_def)
  then have "m_config_check_option ''aid'' (Some ''5'') ?c = Some 1" by (simp add: m_config_check_option_def k M_OPT_MISSING_PARAM_def)
  then show ?thesis using co opt
    by (simp add: entry_param_def m_config_get_option_def audio_defs name_defs)
qed

lemma command_line_plays_witness:
  "\<exists>st it out w'. m_config_parse_mp_command_line (\<lambda>f h n. None) [''{'', ''a.mp3'', ''-aid'', ''5'', ''b.mp3'', ''}'', ''-loop'', ''2'', ''c.mp3'']
      (registered [opt_aid, opt_sound, opt_nosound] M_COMMAND_LINE (\<lambda>x. V_INT (- 1))) = Some (Some 0, st) \<and>
    play_tree_iter_new 0 True (pc_heap st) = Some (Some it) \<and>
    play_all config_functions (\<lambda>r. (0, r)) it \<lparr>w_heap = pc_heap st, w_config = pc_config st, w_rand = ()\<rparr> = Some (out, PLAY_TREE_ITER_END, w') \<and>
    map (\<lambda>(a, c). (map_option pt_files (pc_heap st a), saved_values c)) out =
      [(Some [''a.mp3''], [V_INT 5]), (Some [''b.mp3''], [V_INT (- 1)]), (Some [''a.mp3''], [V_INT 5]), (Some [''b.mp3''], [V_INT (- 1)]),
       (Some [''c.mp3''], [V_INT (- 1)])] \<and>
    saved_values (w_config w') = [V_INT (- 1)]"
proof -
  let ?c = "registered [opt_aid, opt_sound, opt_nosound] M_COMMAND_LINE (\<lambda>x. V_INT (- 1))"
  let ?items = "[GROUP [ENTRY ''a.mp3'' [(''aid'', ''5'')], ENTRY ''b.mp3'' []] (Some 2) [], ENTRY ''c.mp3'' []]"
  have "plain_file ''a.mp3''" "plain_file ''b.mp3''" "plain_file ''c.mp3''" by (simp_all add: plain_file_def)
  then have ok: "list_all (cmd_item_ok ?c) ?items" using aid_param by simp
  have safe: "list_all (item_safe (config_safe (entries ?c))) ?items" using aid_5(1) by simp
  have "dec_string 2 = ''2''" using char_of_code [of "CHR ''2''"] by (simp add: dec_string_def dec_digits.simps char_code_def)
  then have args: "concat (map item_args ?items) = [''{'', ''a.mp3'', ''-aid'', ''5'', ''b.mp3'', ''}'', ''-loop'', ''2'', ''c.mp3'']"
    by (simp add: loop_args_def option_args_def)
  have plays: "concat (map (item_plays (config_setting (entries ?c) M_COMMAND_LINE) (saved_values ?c)) ?items) =
    [(''a.mp3'', [V_INT 5]), (''b.mp3'', [V_INT (- 1)]), (''a.mp3'', [V_INT 5]), (''b.mp3'', [V_INT (- 1)]), (''c.mp3'', [V_INT (- 1)])]"
    using aid_5(2,3) by (simp add: numeral_2_eq_2)
  show ?thesis
    using command_line_plays [OF _ ok safe registered_ok [OF audio_options_ok], of "\<lambda>f h n. None" "\<lambda>r. (0, r)" "()"] aid_5(2)
    unfolding args plays by simp
qed

end
