(* ===== verification/Spec2Isabelle.thy ===== *)
theory Spec2Isabelle
  imports Prelude ReorderLayouts Stream Cache KeyFifo Url AudioHdr DemuxRaw Input ParserCfg CmdPlay
begin

text \<open>
  Verification of the C core of the FrostWire build of MPlayer 1.5, an audio-only player that another program drives
  through a pipe. All paths below are relative to src/MPlayer-1.5. The data of the player comes from a byte stream
  (stream/), passes a cache (stream/cache2.c), is cut into packets by a demuxer (libmpdemux/) that puts them into queues,
  is decoded by libraries, and its channels are put into the order of the output (libaf/reorder_ch.c); key codes (mp_fifo.c)
  and lines of text (input/input.c) become commands. What is played comes from a tree of entries (playtree.c), each with
  its own options (m_option.c, m_config.c), made from the command line (parser-mpcmd.c).

  \<^bold>\<open>Conventions.\<close> A C struct is a record, a function takes and returns the state it changes, the null pointer is
  \<open>None\<close>. Behaviour that C leaves undefined, such as an access outside an object or after \<open>free\<close>, is the value
  \<open>None\<close> of the result, so that a theorem with a \<open>Some\<close> result shows that it does not occur. A loop that may run for
  ever is a \<open>partial_function (option)\<close>, whose value is \<open>None\<close> when it does, so that \<open>Some\<close> results include
  termination. Machine integers are words where their width matters, integers or natural numbers elsewhere. Messages,
  profiling and allocation failure are left out, except for the packet buffers, whose allocation may fail. Code that is not
  part of the program, such as the driver of a device, is a parameter, and what it promises are the assumptions of a
  locale.

  \<^bold>\<open>Prelude and CString.\<close> \<open>Prelude\<close> has byte memory with bounds-checked access and the C \<open>for\<close> loop,
  \<open>CString\<close> the string functions of the C library.

  \<^bold>\<open>Channel reordering\<close> (libaf/reorder_ch.c, reorder_ch.h). \<open>ReorderCh\<close> translates all functions on byte memory,
  \<open>ReorderSpec\<close> shows that the loops permute the samples of each frame, for every sample size, and \<open>ReorderLayouts\<close>
  that the permutations are those of the speaker layouts named in reorder_ch.h. In-place reordering equals copying, copying
  back restores the input, and two cases of the in-place version are wrong.

  \<^bold>\<open>Streams\<close> (stream/stream.c, stream.h, stream_file.c). \<open>Stream\<close> has the buffered stream over a driver, given by
  its functions. The locale \<open>stream_driver\<close> says that a driver reads the next bytes of some contents, and its extension
  \<open>seekable_driver\<close> that it seeks; the locale \<open>filler\<close> says what refilling the buffer promises to the readers
  (stream_read, stream_read_char, stream_read_until and so on), whose lemmas it holds. Every \<open>stream_driver\<close> gives a
  \<open>filler\<close>. The file driver is an interpretation of \<open>seekable_driver\<close> for all contents and for all ways in which the
  system may split reads, and a stream over memory one of \<open>filler\<close>.

  \<^bold>\<open>Cache\<close> (stream/cache2.c). \<open>Cache\<close> has the ring buffer that a filler writes and a reader reads, with the steps of
  cache_fill in the order of the stores to shared memory. The locale \<open>cacheable_driver\<close> is a \<open>seekable_driver\<close> with
  the window invariant of the ring buffer; reading through the cache is again a \<open>filler\<close>, so that the readers' lemmas
  hold for cached streams. \<open>cache_step\<close> interleaves whole operations of filler and reader in any order. The waiting loops
  of the reader get the data after boundedly many turns of the filler.

  \<^bold>\<open>Key codes\<close> (mp_fifo.c). \<open>KeyFifo\<close> shows that the ring of key codes with its two free-running counters is a
  \<open>bounded_queue\<close>, with the policy for a ring that fills up, and what double clicks put into it.

  \<^bold>\<open>URLs\<close> (stream/url.c). \<open>Url\<close> has parsing, escaping, redirection and proxies; a well-formed URL is taken apart into
  its parts, escaping is undone by unescaping and stays within the buffer.

  \<^bold>\<open>Audio headers\<close> (libmpdemux/mp3_hdr.c, aac_hdr.c). \<open>AudioHdr\<close> compares the decoders of MPEG audio and ADTS
  headers with the field layouts and the frame length formulas of the standards.

  \<^bold>\<open>Packets and demuxers\<close> (libmpdemux/demuxer.c, demuxer.h, demux_rawaudio.c). \<open>Packet\<close> has the heap of packets with
  reference counts and \<open>packet_run\<close>, the states any sequence of calls leads to. \<open>Demux\<close> has the queues of packets,
  their filling by a demuxer and the readers; the locale \<open>single_source\<close> is a demuxer that delivers one stream packet by
  packet. \<open>DemuxRaw\<close> has the raw audio demuxer, an interpretation of \<open>single_source\<close> over the file driver, so that
  the bytes read from the demuxer are those of the file.

  \<^bold>\<open>Commands\<close> (input/input.c). \<open>InputCmd\<close> has the table of commands and the parser for a line of the slave mode
  protocol, which gets back what was written, and the ways in which file names are lost. \<open>InputFd\<close> has the descriptors
  that deliver lines; the locale \<open>cmd_source\<close> says what a source of bytes promises, and the pipe of the system is an
  interpretation for all ways in which it may split the text. \<open>InputKeys\<close> has the names of keys, the bindings, the keys
  held down and autorepeat. \<open>Input\<close> puts them together: the queue of commands, a second interpretation of
  \<open>bounded_queue\<close>, the loop over the descriptors, and mp_input_get_cmd. The locale \<open>event_reader\<close> says what
  mp_input_get_cmd relies on when it reads events, and read_events is an interpretation of it. In a slave session the
  commands are those of the lines of the pipe.

  \<^bold>\<open>Options\<close> (m_option.c, m_option.h, m_config.c, m_config.h). \<open>Options\<close> has the option types whose values are
  flags, integers and strings, and suboptions; a printed value is parsed again. \<open>Config\<close> has the registered options with
  the slots of their saved values on a heap, push, pop, setting an option by its name, and profiles. \<open>ConfigLevels\<close> shows
  that the values of the saved options are a stack under push, set and pop, \<open>ConfigReg\<close> that registration gives every
  saved option its slots and that setting an option returns.

  \<^bold>\<open>Play tree\<close> (playtree.c, playtree.h). \<open>PlayTree\<close> has the nodes on a heap, with the operations that link, free and
  clean them. \<open>PlayHeap\<close> relates heaps to lists of trees, with frames around the place an operation works at, and shows by
  a simulation that every operation does on the heap what \<open>tree_step\<close> does on trees; freed nodes are gone. \<open>PlayIter\<close>
  has the iterator; the configuration and \<open>rand\<close> are its parameters. The locale \<open>config_stack\<close> in \<open>PlayOrder\<close> says what
  the iterator relies on when it pushes, sets and pops options; from it follows the order of play, with loops and settings.
  \<open>PlayConfig\<close> interprets \<open>config_stack\<close> by the functions of \<open>Config\<close>, for options that are set by their own names,
  and shows that an option set by an alias escapes the pop.

  \<^bold>\<open>Configuration files and command line\<close> (parser-cfg.c, parser-mpcmd.c). \<open>ParserCfg\<close> has the reader of configuration
  files; a file written from comments, sections and settings has the effect of the settings, and a missing quote makes the
  reader look behind the line. \<open>ParserCmd\<close> turns a command line into a play tree and settings. \<open>CmdPlay\<close> composes it with
  the iterator of \<open>PlayIter\<close> and the configuration: files and groups with options are played in order with these options.

  \<^bold>\<open>Bounds.\<close> No fuel is used except for the number of turns of the filler a reader waits for, and for the depth of
  suboptions when an option is set, where the length of the longest name limits the depth. Both are shown to be enough.

  \<^bold>\<open>Not modelled.\<close> Decoders and audio output are libraries or system interfaces. The demuxers of container formats, the
  network protocols and the parsers of play lists are not modelled. Video, subtitles, menus and the encoder are outside an
  audio-only player. Of the modelled files: the dispatch of stream_open to protocols, UTF-16 lines, the
  capture file, cache control calls (stream), program and chapter handling, stream headers (demuxer.c), seeking in
  demux_rawaudio.c, which computes positions in floating point, in input.c the file of key bindings, the opening of
  devices and the printing of lists, and in m_option.c the types for floating point numbers, positions, times, lists,
  functions and filters, so configuration files that include others are not modelled, and in parser-mpcmd.c what Mac OS X
  needs. The order of play is shown for lists that are not played in random order.
\<close>

end
